(* ===== verification/Prelude.thy ===== *)
theory Prelude
  imports Main "HOL-Library.Word" "HOL-Library.Code_Target_Nat"
begin

text \<open>
  Shared vocabulary of the development: machine integer types, the outcome of a Rust
  computation (value, error value or panic), little-endian byte codecs, slices, and the
  generic lemmas on lists that the component theories use.  The \<open>prefix_codec\<close> locale is
  the interface between an encoder and the decoder that reads it back from the front of a
  buffer; the wire codec and the log codec are interpretations of it.
\<close>

unbundle bit_operations_syntax

section \<open>Types\<close>

type_synonym u8 = "8 word"
type_synonym u16 = "16 word"
type_synonym u32 = "32 word"
type_synonym u64 = "64 word"
type_synonym u128 = "128 word"
type_synonym bytes = "u8 list"

named_theorems codec_simps \<open>round-trip facts of the byte codecs\<close>
named_theorems no_panic \<open>facts that an operation does not panic\<close>

section \<open>Outcomes\<close>

text \<open>
  \<open>Ok\<close> and \<open>Err\<close> are the constructors of Rust's \<open>Result\<close>; \<open>Panic\<close> stands for an
  out-of-range index, a failed \<open>unwrap\<close>/\<open>expect\<close> or a failed assertion.
\<close>

datatype ('a, 'e) outcome = Ok 'a | Err 'e | Panic

fun obind :: "('a, 'e) outcome \<Rightarrow> ('a \<Rightarrow> ('b, 'e) outcome) \<Rightarrow> ('b, 'e) outcome" where
  "obind (Ok x) f = f x"
| "obind (Err e) f = Err e"
| "obind Panic f = Panic"

fun omap_err :: "('e \<Rightarrow> 'f) \<Rightarrow> ('a, 'e) outcome \<Rightarrow> ('a, 'f) outcome" where
  "omap_err g (Ok x) = Ok x"
| "omap_err g (Err e) = Err (g e)"
| "omap_err g Panic = Panic"

lemma obind_assoc [simp]: "obind (obind m f) g = obind m (\<lambda>x. obind (f x) g)"
  by (cases m) auto

lemma obind_Ok_iff: "obind m f = Ok y \<longleftrightarrow> (\<exists>x. m = Ok x \<and> f x = Ok y)"
  by (cases m) auto

lemma obind_Panic_iff: "obind m f = Panic \<longleftrightarrow> m = Panic \<or> (\<exists>x. m = Ok x \<and> f x = Panic)"
  by (cases m) auto

lemma obind_Err_iff: "obind m f = Err e \<longleftrightarrow> m = Err e \<or> (\<exists>x. m = Ok x \<and> f x = Err e)"
  by (cases m) auto

lemma omap_err_Ok_iff [simp]: "omap_err g m = Ok x \<longleftrightarrow> m = Ok x"
  by (cases m) auto

lemma omap_err_Panic_iff [simp]: "omap_err g m = Panic \<longleftrightarrow> m = Panic"
  by (cases m) auto

lemma outcome_neq_iff:
  "m \<noteq> Panic \<longleftrightarrow> (\<exists>x. m = Ok x) \<or> (\<exists>e. m = Err e)"
  by (cases m) auto

lemmas obind_iffs = obind_Ok_iff obind_Panic_iff obind_Err_iff

text \<open>\<open>for x in xs { out.push(f(x)?) }\<close>: stop at the first error.\<close>

fun otraverse :: "('a \<Rightarrow> ('b, 'e) outcome) \<Rightarrow> 'a list \<Rightarrow> ('b list, 'e) outcome" where
  "otraverse f [] = Ok []"
| "otraverse f (x # xs) = obind (f x) (\<lambda>y. obind (otraverse f xs) (\<lambda>ys. Ok (y # ys)))"

lemma otraverse_Ok_iff:
  "otraverse f xs = Ok ys \<longleftrightarrow> list_all2 (\<lambda>x y. f x = Ok y) xs ys"
  by (induction xs arbitrary: ys) (auto simp: obind_Ok_iff list_all2_Cons1)

lemma otraverse_Ok_map:
  "(\<And>x. x \<in> set xs \<Longrightarrow> f x = Ok (g x)) \<Longrightarrow> otraverse f xs = Ok (map g xs)"
  by (induction xs) auto

lemma otraverse_not_Panic:
  "(\<And>x. x \<in> set xs \<Longrightarrow> f x \<noteq> Panic) \<Longrightarrow> otraverse f xs \<noteq> Panic"
  by (induction xs) (auto simp: obind_Panic_iff)

section \<open>Slices\<close>

text \<open>\<open>b[i..j]\<close> and \<open>Bytes::slice(i..j)\<close>: both panic out of range.\<close>

definition slice_of :: "'a list \<Rightarrow> nat \<Rightarrow> nat \<Rightarrow> ('a list, 'e) outcome" where
  "slice_of b i j = (if i \<le> j \<and> j \<le> length b then Ok (take (j - i) (drop i b)) else Panic)"

definition index_of :: "'a list \<Rightarrow> nat \<Rightarrow> ('a, 'e) outcome" where
  "index_of b i = (if i < length b then Ok (b ! i) else Panic)"

lemma slice_of_Ok [simp]:
  "i \<le> j \<Longrightarrow> j \<le> length b \<Longrightarrow> slice_of b i j = Ok (take (j - i) (drop i b))"
  by (simp add: slice_of_def)

lemma slice_of_eq_Panic [simp]: "slice_of b i j = Panic \<longleftrightarrow> \<not> (i \<le> j \<and> j \<le> length b)"
  by (simp add: slice_of_def)

lemma slice_of_neq_Err [simp]: "slice_of b i j \<noteq> Err e"
  by (simp add: slice_of_def)

lemma index_of_Ok [simp]: "i < length b \<Longrightarrow> index_of b i = Ok (b ! i)"
  by (simp add: index_of_def)

lemma index_of_eq_Panic [simp]: "index_of b i = Panic \<longleftrightarrow> \<not> i < length b"
  by (simp add: index_of_def)

lemma index_of_neq_Err [simp]: "index_of b i \<noteq> Err e"
  by (simp add: index_of_def)

section \<open>Little-endian integers\<close>

text \<open>\<open>v.to_le_bytes()\<close> truncated to \<open>n\<close> bytes, and \<open>from_le_bytes\<close>.\<close>

fun to_le :: "nat \<Rightarrow> nat \<Rightarrow> bytes" where
  "to_le 0 v = []"
| "to_le (Suc n) v = word_of_nat v # to_le n (v div 256)"

fun from_le :: "bytes \<Rightarrow> nat" where
  "from_le [] = 0"
| "from_le (b # bs) = unat b + 256 * from_le bs"

lemma length_to_le [simp]: "length (to_le n v) = n"
  by (induction n arbitrary: v) auto

lemma unat_word_of_nat8 [simp]: "unat (word_of_nat v :: u8) = v mod 256"
  by (simp add: unat_of_nat)

lemma from_le_to_le: "from_le (to_le n v) = v mod 256 ^ n"
proof (induction n arbitrary: v)
  case (Suc n)
  have "from_le (to_le (Suc n) v) = v mod 256 + 256 * ((v div 256) mod 256 ^ n)"
    using Suc by simp
  also have "\<dots> = v mod (256 * 256 ^ n)"
    by (metis add.commute mod_mult2_eq)
  finally show ?case by simp
qed simp

lemma from_le_lt: "from_le bs < 256 ^ length bs"
proof (induction bs)
  case (Cons b bs)
  have "unat b < 256" using unsigned_less [of b, where ?'a = nat] by simp
  with Cons show ?case by simp
qed simp

lemma to_le_from_le: "to_le (length bs) (from_le bs) = bs"
proof (induction bs)
  case (Cons b bs)
  have b: "unat b < 256" using unsigned_less [of b, where ?'a = nat] by simp
  have "word_of_nat (unat b + 256 * from_le bs) = (word_of_nat (unat b) :: u8)"
    by (simp only: word_of_nat_eq_iff) (simp add: take_bit_eq_mod)
  with b Cons show ?case by simp
qed simp

text \<open>The widths the code uses.\<close>

definition le16 :: "u16 \<Rightarrow> bytes" where "le16 w = to_le 2 (unat w)"
definition le32 :: "u32 \<Rightarrow> bytes" where "le32 w = to_le 4 (unat w)"
definition le64 :: "u64 \<Rightarrow> bytes" where "le64 w = to_le 8 (unat w)"
definition le128 :: "u128 \<Rightarrow> bytes" where "le128 w = to_le 16 (unat w)"

definition rd16 :: "bytes \<Rightarrow> u16" where "rd16 b = word_of_nat (from_le b)"
definition rd32 :: "bytes \<Rightarrow> u32" where "rd32 b = word_of_nat (from_le b)"
definition rd64 :: "bytes \<Rightarrow> u64" where "rd64 b = word_of_nat (from_le b)"
definition rd128 :: "bytes \<Rightarrow> u128" where "rd128 b = word_of_nat (from_le b)"

lemma le_lengths [simp]:
  "length (le16 a) = 2" "length (le32 b) = 4" "length (le64 c) = 8" "length (le128 d) = 16"
  by (simp_all add: le16_def le32_def le64_def le128_def)

lemma rd_le [simp, codec_simps]:
  "rd16 (le16 a) = a" "rd32 (le32 b) = b" "rd64 (le64 c) = c" "rd128 (le128 d) = d"
proof -
  show "rd16 (le16 a) = a" using unsigned_less [of a, where ?'a = nat]
    by (simp add: le16_def rd16_def from_le_to_le)
  show "rd32 (le32 b) = b" using unsigned_less [of b, where ?'a = nat]
    by (simp add: le32_def rd32_def from_le_to_le)
  show "rd64 (le64 c) = c" using unsigned_less [of c, where ?'a = nat]
    by (simp add: le64_def rd64_def from_le_to_le)
  show "rd128 (le128 d) = d" using unsigned_less [of d, where ?'a = nat]
    by (simp add: le128_def rd128_def from_le_to_le)
qed

lemma unat_word_of_nat_bounds [simp]:
  "n < 2 ^ 16 \<Longrightarrow> unat (word_of_nat n :: u16) = n"
  "n < 2 ^ 32 \<Longrightarrow> unat (word_of_nat n :: u32) = n"
  "n < 2 ^ 64 \<Longrightarrow> unat (word_of_nat n :: u64) = n"
  by (simp_all add: unat_of_nat)

section \<open>Saturating and checked arithmetic\<close>

definition sat_add64 :: "u64 \<Rightarrow> u64 \<Rightarrow> u64" where
  "sat_add64 a b = (if unat a + unat b < 2 ^ 64 then a + b else - 1)"

lemma unat_sat_add64: "unat (sat_add64 a b) = min (unat a + unat b) (2 ^ 64 - 1)"
proof -
  have "unat (- 1 :: u64) = 2 ^ 64 - 1"
    by (simp add: unsigned_minus_1_eq_mask mask_eq_exp_minus_1)
  then show ?thesis
    by (auto simp: sat_add64_def unat_word_ariths)
qed

text \<open>\<open>+\<close> and \<open>-\<close> on \<open>usize\<close> where they may wrap, for lengths and indices kept as naturals.\<close>

definition usize_add :: "nat \<Rightarrow> nat \<Rightarrow> nat" where
  "usize_add a b = (a + b) mod 2 ^ 64"

definition usize_sub :: "nat \<Rightarrow> nat \<Rightarrow> nat" where
  "usize_sub a b = (a + (2 ^ 64 - b mod 2 ^ 64)) mod 2 ^ 64"

lemma usize_add_exact: "a + b < 2 ^ 64 \<Longrightarrow> usize_add a b = a + b"
  by (simp add: usize_add_def)

lemma usize_add_mod: "usize_add (n mod 2 ^ 64) z = (n + z) mod 2 ^ 64"
  by (simp add: usize_add_def mod_simps)

lemma usize_sub_mod:
  assumes "z \<le> n"
  shows "usize_sub (n mod 2 ^ 64) z = (n - z) mod 2 ^ 64"
proof -
  define m :: nat where "m = 2 ^ 64"
  have "(n + (m - z mod m)) mod m = (n - z) mod m"
  proof -
    have "z = z mod m + m * (z div m)" by simp
    then have "n = n - z + (z mod m + m * (z div m))" using assms by simp
    then have "n + (m - z mod m) = n - z + (z mod m + (m - z mod m)) + m * (z div m)" by simp
    also have "z mod m + (m - z mod m) = m" by (simp add: m_def less_imp_le)
    finally show ?thesis by simp
  qed
  then show ?thesis unfolding usize_sub_def m_def [symmetric] by (simp add: mod_simps)
qed

lemma usize_sub_exact: "b \<le> a \<Longrightarrow> a < 2 ^ 64 \<Longrightarrow> usize_sub a b = a - b"
  using usize_sub_mod [of b a] by simp

section \<open>Prefix codecs\<close>

text \<open>
  An encoder and a decoder that reads one value from the front of a buffer.  The law is
  the round trip with arbitrary bytes behind the encoding; from it follows the round trip
  of a counted sequence, which every list in the wire format and in the log uses.
\<close>

fun take_n :: "(bytes \<Rightarrow> ('a \<times> bytes, 'e) outcome) \<Rightarrow> nat \<Rightarrow> bytes \<Rightarrow> ('a list \<times> bytes, 'e) outcome" where
  "take_n dec 0 r = Ok ([], r)"
| "take_n dec (Suc n) r = obind (dec r) (\<lambda>(x, r'). obind (take_n dec n r') (\<lambda>(xs, r''). Ok (x # xs, r'')))"

lemma take_n_not_Panic:
  "(\<And>r. dec r \<noteq> Panic) \<Longrightarrow> take_n dec n r \<noteq> Panic"
  by (induction n arbitrary: r) (auto simp: obind_Panic_iff split: prod.splits)

lemma take_n_length: "take_n dec n r = Ok (xs, r') \<Longrightarrow> length xs = n"
  by (induction n arbitrary: r xs r') (auto simp: obind_Ok_iff split: prod.splits)

locale prefix_codec =
  fixes enc :: "'a \<Rightarrow> bytes"
    and dec :: "bytes \<Rightarrow> ('a \<times> bytes, 'e) outcome"
    and ok :: "'a \<Rightarrow> bool"
  assumes dec_enc: "ok x \<Longrightarrow> dec (enc x @ rest) = Ok (x, rest)"
begin

lemma take_n_enc:
  "\<forall>x \<in> set xs. ok x \<Longrightarrow> take_n dec (length xs) (concat (map enc xs) @ rest) = Ok (xs, rest)"
  by (induction xs) (auto simp: dec_enc)

lemma enc_prefix_free:
  assumes "ok x" "ok y" "enc x @ r = enc y @ s"
  shows "x = y \<and> r = s"
proof -
  have "Ok (x, r) = (Ok (y, s) :: ('a \<times> bytes, 'e) outcome)"
    using dec_enc [OF assms(1), of r] dec_enc [OF assms(2), of s] by (simp only: assms(3))
  then show ?thesis by simp
qed

lemma enc_list_inj:
  assumes "\<forall>x \<in> set xs. ok x" "\<forall>y \<in> set ys. ok y" "length xs = length ys"
    and "concat (map enc xs) = concat (map enc ys)"
  shows "xs = ys"
proof -
  have "Ok (xs, []) = (Ok (ys, []) :: ('a list \<times> bytes, 'e) outcome)"
    using take_n_enc [OF assms(1), of "[]"] take_n_enc [OF assms(2), of "[]"]
    by (simp only: assms(3,4))
  then show ?thesis by simp
qed

end

section \<open>List lemmas\<close>

lemma take_drop_append3:
  "length a = i \<Longrightarrow> length b = n \<Longrightarrow> take n (drop i (a @ b @ c)) = b"
  by simp

lemma fold_invariant:
  assumes "P s" and "\<And>x s. x \<in> set xs \<Longrightarrow> P s \<Longrightarrow> P (f x s)"
  shows "P (fold f xs s)"
  using assms by (induction xs arbitrary: s) auto

end
