(* ===== verification/Blocks.thy ===== *)
theory Blocks
  imports Prelude
begin

text \<open>
  Semantic content blocks (\<open>crates/core/src/block.rs\<close>), their canonical byte encoding
  (\<open>canonical.rs\<close>), the linear Merkle root (\<open>merkle.rs\<close>) and session identities
  (\<open>session.rs\<close>).  BLAKE3 is a third-party crate: it is the argument \<open>H\<close> of the
  definitions that hash, and what is relied on is named by \<open>hash32\<close> (a 32-byte digest)
  and, where a theorem needs it, by the absence of collisions among the inputs hashed.
  A hasher is the byte stream fed to it so far, so \<open>update\<close> appends and \<open>finalize\<close>
  applies \<open>H\<close>.
\<close>

section \<open>Blocks\<close>

type_synonym block_id = bytes
type_synonym merkle_root = bytes
type_synonym hash = "bytes \<Rightarrow> bytes"

definition hash32 :: "hash \<Rightarrow> bool" where
  "hash32 H \<longleftrightarrow> (\<forall>x. length (H x) = 32)"

datatype block_kind = Message | ToolCall | ToolResult | System | Summary

fun to_byte :: "block_kind \<Rightarrow> u8" where
  "to_byte Message = 1"
| "to_byte ToolCall = 2"
| "to_byte ToolResult = 3"
| "to_byte System = 4"
| "to_byte Summary = 5"

definition from_byte :: "u8 \<Rightarrow> block_kind option" where
  "from_byte b =
     (if b = 1 then Some Message
      else if b = 2 then Some ToolCall
      else if b = 3 then Some ToolResult
      else if b = 4 then Some System
      else if b = 5 then Some Summary
      else None)"

record block =
  kind :: block_kind
  seq :: u64
  payload :: bytes

definition block_new :: "block_kind \<Rightarrow> u64 \<Rightarrow> bytes \<Rightarrow> block" where
  "block_new k s p = \<lparr>kind = k, seq = s, payload = p\<rparr>"

text \<open>The 17-byte header: kind, sequence number, payload length.\<close>

definition canonical_header :: "block \<Rightarrow> bytes" where
  "canonical_header b =
     to_byte (kind b) # le64 (seq b) @ le64 (word_of_nat (length (payload b)))"

definition canonical_into :: "block \<Rightarrow> bytes \<Rightarrow> bytes" where
  "canonical_into b h = (h @ canonical_header b) @ payload b"

definition block_id :: "hash \<Rightarrow> block \<Rightarrow> block_id" where
  "block_id H b = H (canonical_into b [])"

definition block_id_from_canonical :: "hash \<Rightarrow> bytes \<Rightarrow> block_id" where
  "block_id_from_canonical H canon = H canon"

definition fingerprint :: "hash \<Rightarrow> (bytes \<Rightarrow> u64) \<Rightarrow> block \<Rightarrow> u64" where
  "fingerprint H xxh b = xxh (block_id H b)"

definition block_eq :: "block \<Rightarrow> block \<Rightarrow> bool" where
  "block_eq a b \<longleftrightarrow> kind a = kind b \<and> seq a = seq b \<and> payload a = payload b"

section \<open>Canonical bytes\<close>

definition MAX_BLOCK_PAYLOAD_BYTES :: nat where
  "MAX_BLOCK_PAYLOAD_BYTES = 2 ^ 30"

definition canonical_bytes :: "block \<Rightarrow> bytes" where
  "canonical_bytes b =
     [to_byte (kind b)] @ le64 (seq b) @ le64 (word_of_nat (length (payload b))) @ payload b"

definition canonical_bytes_and_id :: "hash \<Rightarrow> block \<Rightarrow> bytes \<times> block_id" where
  "canonical_bytes_and_id H b =
     (let hdr = canonical_header b;
          out = ([] @ hdr) @ payload b;
          h = ([] @ hdr) @ payload b
      in (out, H h))"

definition from_canonical :: "bytes \<Rightarrow> (block, string) outcome" where
  "from_canonical buf =
     (if length buf < 17 then Err ''buffer too short for canonical block''
      else case from_byte (buf ! 0) of
        None \<Rightarrow> Err ''unknown block kind''
      | Some k \<Rightarrow>
          (let s = rd64 (take 8 (drop 1 buf));
               len = unat (rd64 (take 8 (drop 9 buf)))
           in if MAX_BLOCK_PAYLOAD_BYTES < len then Err ''payload length exceeds maximum''
              else if \<not> 17 + len < 2 ^ 64 then Err ''payload length exceeds maximum''
              else if length buf < 17 + len then Err ''payload truncated''
              else Ok \<lparr>kind = k, seq = s, payload = take len (drop 17 buf)\<rparr>))"

definition from_canonical_owned :: "hash \<Rightarrow> bytes \<Rightarrow> (block \<times> block_id, string) outcome" where
  "from_canonical_owned H canon =
     (if length canon < 17 then Err ''buffer too short for canonical block''
      else case from_byte (canon ! 0) of
        None \<Rightarrow> Err ''unknown block kind''
      | Some k \<Rightarrow>
          (let s = rd64 (take 8 (drop 1 canon));
               len = unat (rd64 (take 8 (drop 9 canon)))
           in if MAX_BLOCK_PAYLOAD_BYTES < len then Err ''payload length exceeds maximum''
              else if \<not> 17 + len < 2 ^ 64 then Err ''payload length exceeds maximum''
              else if length canon < 17 + len then Err ''payload truncated''
              else let h = take 17 canon @ take len (drop 17 canon)
                   in Ok (\<lparr>kind = k, seq = s, payload = take len (drop 17 canon)\<rparr>, H h)))"

section \<open>Merkle root\<close>

definition ROOT_ZERO :: merkle_root where
  "ROOT_ZERO = replicate 32 0"

definition append_root :: "hash \<Rightarrow> merkle_root \<Rightarrow> block_id \<Rightarrow> merkle_root" where
  "append_root H prev bid = H (prev @ bid)"

definition root_over :: "hash \<Rightarrow> merkle_root \<Rightarrow> block_id list \<Rightarrow> merkle_root" where
  "root_over H start ids = foldl (append_root H) start ids"

section \<open>Sessions\<close>

text \<open>\<open>usize::trailing_zeros\<close> and \<open>is_power_of_two\<close> on a positive count.\<close>

fun trailing_zeros :: "nat \<Rightarrow> nat" where
  "trailing_zeros n = (if n = 0 then 64 else if even n then Suc (trailing_zeros (n div 2)) else 0)"

declare trailing_zeros.simps [simp del]

definition is_power_of_two :: "nat \<Rightarrow> bool" where
  "is_power_of_two n \<longleftrightarrow> n \<noteq> 0 \<and> n = 2 ^ trailing_zeros n"

definition GOLDEN64 :: u64 where
  "GOLDEN64 = 0x9E3779B97F4A7C15"

definition shard :: "u128 \<Rightarrow> nat \<Rightarrow> (nat, string) outcome" where
  "shard sid n =
     (if n = 0 then Panic
      else if n = 1 then Ok 0
      else let lo = (ucast (sid AND 0xFFFFFFFFFFFFFFFF) :: u64);
               prd = lo * GOLDEN64
           in if is_power_of_two n then Ok (unat (drop_bit (64 - trailing_zeros n) prd))
              else Ok (unat prd mod n))"

section \<open>Facts\<close>

lemma from_byte_to_byte [simp]: "from_byte (to_byte k) = Some k"
  by (cases k) (simp_all add: from_byte_def)

lemma from_byte_Some_iff: "from_byte b = Some k \<longleftrightarrow> b = to_byte k"
  by (cases k) (auto simp: from_byte_def split: if_splits)

lemma canonical_header_length [simp]: "length (canonical_header b) = 17"
  by (simp add: canonical_header_def)

lemma canonical_bytes_alt: "canonical_bytes b = canonical_header b @ payload b"
  by (simp add: canonical_bytes_def canonical_header_def)

lemma canonical_bytes_length [simp]: "length (canonical_bytes b) = 17 + length (payload b)"
  by (simp add: canonical_bytes_alt)

lemma block_id_canonical: "block_id H b = H (canonical_bytes b)"
  by (simp add: block_id_def canonical_into_def canonical_bytes_alt)

lemma canonical_bytes_and_id_eq: "canonical_bytes_and_id H b = (canonical_bytes b, block_id H b)"
  by (simp add: canonical_bytes_and_id_def block_id_canonical canonical_bytes_alt Let_def)

lemma block_id_length [simp]: "hash32 H \<Longrightarrow> length (block_id H b) = 32"
  by (simp add: block_id_def hash32_def)

lemma block_eq_iff: "block_eq a b \<longleftrightarrow> a = b"
  by (cases a; cases b) (auto simp: block_eq_def)

text \<open>The header fields read back from any buffer that starts with a canonical header.\<close>

lemma canonical_header_fields:
  assumes "buf = canonical_header b @ rest"
  shows "buf ! 0 = to_byte (kind b)" "rd64 (take 8 (drop 1 buf)) = seq b"
    "rd64 (take 8 (drop 9 buf)) = word_of_nat (length (payload b))"
  using assms by (simp_all add: canonical_header_def)

lemma header_of_fields:
  assumes len: "17 \<le> length buf" and k: "buf ! 0 = to_byte k"
    and n: "unat (rd64 (take 8 (drop 9 buf))) = length p"
  shows "take 17 buf = canonical_header \<lparr>kind = k, seq = rd64 (take 8 (drop 1 buf)), payload = p\<rparr>"
proof -
  have le: "le64 (rd64 bs) = bs" if "length bs = 8" for bs
  proof -
    have "from_le bs < 2 ^ 64" using from_le_lt [of bs] that by simp
    then have "unat (rd64 bs) = from_le bs" by (simp add: rd64_def)
    then show ?thesis using to_le_from_le [of bs] that by (simp add: le64_def)
  qed
  have sp: "take 17 buf = take 1 buf @ take 8 (drop 1 buf) @ take 8 (drop 9 buf)"
  proof -
    have "take (1 + (8 + 8)) buf = take 1 buf @ take 8 (drop 1 buf) @ take 8 (drop 8 (drop 1 buf))"
      by (simp only: take_add)
    then show ?thesis by simp
  qed
  have hd1: "take 1 buf = [to_byte k]"
    using len k by (cases buf) auto
  have w: "word_of_nat (length p) = rd64 (take 8 (drop 9 buf))"
    by (simp add: n [symmetric])
  show ?thesis
    using sp hd1 w len by (simp add: canonical_header_def le)
qed

lemma from_canonical_iff:
  "from_canonical buf = Ok b \<longleftrightarrow>
     length (payload b) \<le> MAX_BLOCK_PAYLOAD_BYTES \<and> (\<exists>rest. buf = canonical_bytes b @ rest)"
proof
  assume a: "from_canonical buf = Ok b"
  define n where "n = unat (rd64 (take 8 (drop 9 buf)))"
  from a have len: "17 \<le> length buf" and k: "buf ! 0 = to_byte (kind b)"
    and s: "seq b = rd64 (take 8 (drop 1 buf))" and p: "payload b = take n (drop 17 buf)"
    and nm: "n \<le> MAX_BLOCK_PAYLOAD_BYTES" and nl: "17 + n \<le> length buf"
    by (auto simp: from_canonical_def from_byte_Some_iff n_def Let_def
        split: if_splits option.splits)
  from p nl have pl: "length (payload b) = n" by simp
  have "take 17 buf = canonical_header \<lparr>kind = kind b, seq = rd64 (take 8 (drop 1 buf)), payload = payload b\<rparr>"
    by (rule header_of_fields) (use len k pl in \<open>simp_all add: n_def\<close>)
  moreover have "\<lparr>kind = kind b, seq = seq b, payload = payload b\<rparr> = b" by (cases b) simp
  ultimately have "take 17 buf = canonical_header b" by (simp only: s [symmetric])
  then have "buf = canonical_bytes b @ drop (17 + n) buf"
    using p by (metis append.assoc append_take_drop_id canonical_bytes_alt drop_drop add.commute)
  with pl nm show "length (payload b) \<le> MAX_BLOCK_PAYLOAD_BYTES \<and> (\<exists>rest. buf = canonical_bytes b @ rest)"
    by auto
next
  assume "length (payload b) \<le> MAX_BLOCK_PAYLOAD_BYTES \<and> (\<exists>rest. buf = canonical_bytes b @ rest)"
  then obtain rest where p: "length (payload b) \<le> MAX_BLOCK_PAYLOAD_BYTES"
    and b: "buf = canonical_header b @ (payload b @ rest)"
    by (auto simp: canonical_bytes_alt)
  note f = canonical_header_fields [OF b]
  have "unat (word_of_nat (length (payload b)) :: u64) = length (payload b)"
    using p by (simp add: MAX_BLOCK_PAYLOAD_BYTES_def unat_of_nat)
  with f p show "from_canonical buf = Ok b"
    by (simp add: from_canonical_def b MAX_BLOCK_PAYLOAD_BYTES_def)
qed

lemma from_canonical_owned_eq:
  "from_canonical_owned H canon =
     obind (from_canonical canon) (\<lambda>b. Ok (b, block_id H b))"
proof (cases "from_canonical canon")
  case (Ok b)
  from Ok have len: "17 \<le> length canon"
    by (auto simp: from_canonical_def split: if_splits)
  from Ok [unfolded from_canonical_iff] obtain rest where c: "canon = canonical_bytes b @ rest" by blast
  have "take 17 canon @ payload b = canonical_bytes b"
    by (simp add: c canonical_bytes_alt)
  with Ok show ?thesis
    by (auto simp: from_canonical_def from_canonical_owned_def Let_def block_id_canonical
        split: if_splits option.splits)
qed (auto simp: from_canonical_def from_canonical_owned_def Let_def split: if_splits option.splits)

lemma from_canonical_owned_iff:
  "from_canonical_owned H canon = Ok (b, i) \<longleftrightarrow> from_canonical canon = Ok b \<and> i = block_id H b"
  by (auto simp: from_canonical_owned_eq obind_Ok_iff)

lemma from_canonical_not_Panic [no_panic]:
  "from_canonical buf \<noteq> Panic" "from_canonical_owned H buf \<noteq> Panic"
proof -
  show "from_canonical buf \<noteq> Panic"
    by (auto simp: from_canonical_def Let_def split: option.splits)
  then show "from_canonical_owned H buf \<noteq> Panic"
    by (auto simp: from_canonical_owned_eq obind_Panic_iff)
qed

subsection \<open>The root\<close>

lemma ROOT_ZERO_length [simp]: "length ROOT_ZERO = 32"
  by (simp add: ROOT_ZERO_def)

lemma append_root_length [simp]: "hash32 H \<Longrightarrow> length (append_root H r i) = 32"
  by (simp add: append_root_def hash32_def)

lemma root_over_Nil [simp]: "root_over H r [] = r"
  by (simp add: root_over_def)

lemma root_over_Cons [simp]: "root_over H r (i # is) = root_over H (append_root H r i) is"
  by (simp add: root_over_def)

lemma root_over_append: "root_over H r (xs @ ys) = root_over H (root_over H r xs) ys"
  by (simp add: root_over_def)

lemma root_over_snoc [simp]: "root_over H r (xs @ [i]) = append_root H (root_over H r xs) i"
  by (simp add: root_over_def)

lemma root_over_length [simp]: "hash32 H \<Longrightarrow> length r = 32 \<Longrightarrow> length (root_over H r xs) = 32"
  by (induction xs arbitrary: r) auto

text \<open>The 64-byte inputs hashed while the root of a log is computed.\<close>

fun chain_inputs :: "hash \<Rightarrow> merkle_root \<Rightarrow> block_id list \<Rightarrow> bytes set" where
  "chain_inputs H r [] = {}"
| "chain_inputs H r (i # is) = insert (r @ i) (chain_inputs H (append_root H r i) is)"

lemma chain_inputs_snoc:
  "chain_inputs H r (xs @ [i]) = insert (root_over H r xs @ i) (chain_inputs H r xs)"
  by (induction xs arbitrary: r) auto

lemma root_over_inj_aux:
  assumes "hash32 H" "length r = 32"
    and "\<forall>i \<in> set xs. length i = 32" "\<forall>i \<in> set ys. length i = 32"
    and "inj_on H (chain_inputs H r xs \<union> chain_inputs H r ys)"
    and "r \<notin> H ` (chain_inputs H r xs \<union> chain_inputs H r ys)"
    and "root_over H r xs = root_over H r ys"
  shows "xs = ys"
  using assms(3-)
proof (induction xs arbitrary: ys rule: rev_induct)
  case Nil
  show ?case
  proof (cases ys rule: rev_cases)
    case (snoc ys' j)
    with Nil show ?thesis
      by (auto simp: chain_inputs_snoc append_root_def)
  qed simp
next
  case (snoc i xs)
  show ?case
  proof (cases ys rule: rev_cases)
    case Nil
    with snoc.prems show ?thesis
      by (auto simp: chain_inputs_snoc append_root_def)
  next
    case (snoc ys' j)
    have "H (root_over H r xs @ i) = H (root_over H r ys' @ j)"
      using snoc.prems(5) snoc by (simp add: append_root_def)
    then have "root_over H r xs @ i = root_over H r ys' @ j"
      by (rule inj_onD [OF snoc.prems(3)]) (simp_all add: snoc chain_inputs_snoc)
    then have eq: "root_over H r xs = root_over H r ys'" "i = j"
      using assms(1,2) snoc.prems(1,2) snoc by (auto simp: append_eq_append_conv)
    moreover have "xs = ys'"
      by (rule snoc.IH)
        (use snoc snoc.prems eq in \<open>auto simp: chain_inputs_snoc intro: inj_on_subset\<close>)
    ultimately show ?thesis using snoc by simp
  qed
qed

subsection \<open>Sharding\<close>

lemma trailing_zeros_pow2 [simp]: "trailing_zeros (2 ^ b) = b"
  by (induction b) (auto simp: trailing_zeros.simps)

lemma is_power_of_two_iff: "is_power_of_two n \<longleftrightarrow> (\<exists>b. n = 2 ^ b)"
  by (auto simp: is_power_of_two_def)

lemma drop_bit_top_lt:
  fixes w :: u64
  assumes "b \<le> 64"
  shows "unat (drop_bit (64 - b) w) < 2 ^ b"
proof -
  have "unat (drop_bit (64 - b) w) = unat w div 2 ^ (64 - b)"
    using unsigned_less [of w, where ?'a = nat]
    by (simp only: unsigned_drop_bit_eq) (simp add: drop_bit_eq_div take_bit_eq_mod)
  moreover have "unat w < 2 ^ b * 2 ^ (64 - b)"
    using unsigned_less [of w, where ?'a = nat] assms
    by (simp add: power_add [symmetric])
  ultimately show ?thesis
    by (simp add: less_mult_imp_div_less)
qed

section \<open>Properties\<close>

text \<open>C23: the canonical parser accepts exactly the encodings of blocks of at most 1 GiB, followed by
  arbitrary bytes, and returns the block encoded; the hashing parser returns the same block
  with the content address of that block.\<close>

theorem canonical_parse_exact:
  "(from_canonical buf = Ok b \<longleftrightarrow>
      length (payload b) \<le> MAX_BLOCK_PAYLOAD_BYTES \<and> (\<exists>rest. buf = canonical_bytes b @ rest)) \<and>
   (from_canonical_owned H buf = Ok (b, i) \<longleftrightarrow> from_canonical buf = Ok b \<and> i = block_id H b) \<and>
   canonical_bytes_and_id H b = (canonical_bytes b, block_id_from_canonical H (canonical_bytes b))"
  by (simp add: from_canonical_iff from_canonical_owned_iff canonical_bytes_and_id_eq
      block_id_from_canonical_def block_id_canonical)

text \<open>C24: a Merkle root commits to the whole ordered log: if no two of the 64-byte inputs hashed
  along the two logs collide and none of them hashes to the empty-log root, equal roots mean
  equal logs (in content, order and length).\<close>

theorem root_commits_to_log:
  assumes "hash32 H"
    and "\<forall>i \<in> set xs. length i = 32" "\<forall>i \<in> set ys. length i = 32"
    and "inj_on H (chain_inputs H ROOT_ZERO xs \<union> chain_inputs H ROOT_ZERO ys)"
    and "ROOT_ZERO \<notin> H ` (chain_inputs H ROOT_ZERO xs \<union> chain_inputs H ROOT_ZERO ys)"
    and "root_over H ROOT_ZERO xs = root_over H ROOT_ZERO ys"
  shows "xs = ys"
  using root_over_inj_aux [OF assms(1) ROOT_ZERO_length assms(2-6)] .

text \<open>A digest that keeps the last byte of its input apart, enough to tell short logs apart.\<close>

definition tail_hash :: hash where
  "tail_hash x = (if x = [] then replicate 32 1 else last x # replicate 31 1)"

lemma hash32_tail_hash: "hash32 tail_hash"
  by (simp add: hash32_def tail_hash_def)

text \<open>One that keeps the first byte too tells the orders of two ids apart.\<close>

definition ends_hash :: hash where
  "ends_hash x = (if x = [] then replicate 32 1 else last x # hd x # replicate 30 1)"

lemma hash32_ends_hash: "hash32 ends_hash"
  by (simp add: hash32_def ends_hash_def)

theorem root_commits_to_log_witness:
  "root_over ends_hash ROOT_ZERO [replicate 32 7, replicate 32 8] \<noteq> root_over ends_hash ROOT_ZERO [replicate 32 8, replicate 32 7]"
proof
  let ?xs = "[replicate 32 7, replicate 32 8 :: bytes]" and ?ys = "[replicate 32 8, replicate 32 7 :: bytes]"
  let ?I = "chain_inputs ends_hash ROOT_ZERO ?xs \<union> chain_inputs ends_hash ROOT_ZERO ?ys"
  assume eq: "root_over ends_hash ROOT_ZERO ?xs = root_over ends_hash ROOT_ZERO ?ys"
  have z: "hd (ROOT_ZERO @ i) = 0" "ROOT_ZERO = 0 # replicate 31 0" for i
    by (simp_all add: ROOT_ZERO_def replicate_Suc [symmetric] del: replicate_Suc)
  have "inj_on ends_hash ?I" "ROOT_ZERO \<notin> ends_hash ` ?I"
    by (simp_all add: ends_hash_def append_root_def z)
  then have "?xs = ?ys" by (intro root_commits_to_log [OF hash32_ends_hash _ _ _ _ eq]) simp_all
  then show False by simp
qed

text \<open>sharding a session over \<open>n > 0\<close> shards gives an index below \<open>n\<close>, on the
  power-of-two path and on the modulo path.\<close>

theorem shard_in_range:
  assumes "0 < n" "n < 2 ^ 64"
  shows "\<exists>i < n. shard sid n = Ok i"
proof (cases "n = 1")
  case False
  show ?thesis
  proof (cases "is_power_of_two n")
    case True
    then obtain b where b: "n = 2 ^ b" by (auto simp: is_power_of_two_iff)
    with assms(2) have "b < 64" using power_less_imp_less_exp [of "2 :: nat" b 64] by simp
    with drop_bit_top_lt [of b] b True False show ?thesis
      by (simp add: shard_def Let_def)
  next
    case False
    with assms \<open>n \<noteq> 1\<close> show ?thesis by (simp add: shard_def Let_def)
  qed
qed (simp add: shard_def)

theorem shard_in_range_witness: "(0 :: nat) < 6 \<and> (6 :: nat) < 2 ^ 64 \<and> (\<exists>i < 6. shard 5 6 = Ok i)"
  using shard_in_range [of 6 5] by simp

end
