(* ===== verification/Frames.thy ===== *)
theory Frames
  imports Blocks
begin

text \<open>
  The wire codec (\<open>crates/core/src/frame.rs\<close>): frames, their encoding and the decoder.
  A decoder step takes the moving window \<open>r\<close> and returns the rest of it.  Inline payloads
  and bulk symbols are slices of the whole body at an absolute offset, as in the source;
  \<open>decode_frame_block_suffix\<close> and \<open>take_symbol_suffix\<close> show that the offset always lands
  inside the window.
\<close>

section \<open>Frames\<close>

datatype frame_error =
    Truncated
  | UnknownTag u8
  | UnknownKind u8
  | TooLarge nat
  | MissingRef

datatype frame_block = Inline block | Ref block_id

record append_frame =
  af_session_id :: u128
  af_base_root :: merkle_root
  af_blocks :: "frame_block list"

record resync_frame =
  rf_session_id :: u128
  rf_client_root :: merkle_root
  rf_manifest :: "block_id list"

record bulk_frame =
  bf_session_id :: u128
  bf_generation :: u32
  bf_k :: u32
  bf_symbol_size :: u32
  bf_symbols :: "bytes list"

record ack_frame =
  ack_session_id :: u128
  ack_root :: merkle_root

record missing_frame =
  mf_session_id :: u128
  mf_missing :: "block_id list"

datatype frame =
    Append append_frame
  | Resync resync_frame
  | Bulk bulk_frame
  | Ack ack_frame
  | Missing missing_frame

definition TAG_APPEND :: u8 where "TAG_APPEND = 1"
definition TAG_RESYNC :: u8 where "TAG_RESYNC = 2"
definition TAG_BULK :: u8 where "TAG_BULK = 3"
definition TAG_ACK :: u8 where "TAG_ACK = 4"
definition TAG_MISSING :: u8 where "TAG_MISSING = 5"
definition REF_BIT :: u8 where "REF_BIT = 0x80"
definition MAX_INLINE_PAYLOAD_BYTES :: nat where "MAX_INLINE_PAYLOAD_BYTES = 2 ^ 30"
definition MAX_FRAME_COUNT :: nat where "MAX_FRAME_COUNT = 2 ^ 24"

lemmas tag_defs = TAG_APPEND_def TAG_RESYNC_def TAG_BULK_def TAG_ACK_def TAG_MISSING_def

section \<open>Encoder\<close>

definition put_u128 :: "bytes \<Rightarrow> u128 \<Rightarrow> bytes" where
  "put_u128 buf v = buf @ le128 v"

definition put_u32_le :: "bytes \<Rightarrow> u32 \<Rightarrow> bytes" where
  "put_u32_le buf v = buf @ le32 v"

fun frame_block_size :: "frame_block \<Rightarrow> nat" where
  "frame_block_size (Inline b) = 4 + 1 + 8 + 8 + length (payload b)"
| "frame_block_size (Ref i) = 4 + 1 + 32"

fun encode_frame_block :: "bytes \<Rightarrow> frame_block \<Rightarrow> bytes" where
  "encode_frame_block buf (Inline b) =
     put_u32_le buf (word_of_nat (1 + 8 + 8 + length (payload b)))
       @ [to_byte (kind b) AND NOT REF_BIT]
       @ le64 (seq b)
       @ le64 (word_of_nat (length (payload b)))
       @ payload b"
| "encode_frame_block buf (Ref i) = put_u32_le buf 33 @ [REF_BIT] @ i"

definition encode_symbol :: "bytes \<Rightarrow> bytes \<Rightarrow> bytes" where
  "encode_symbol buf s = put_u32_le buf (word_of_nat (length s)) @ s"

text \<open>The capacity reserved before encoding.\<close>

fun encode_capacity :: "frame \<Rightarrow> nat" where
  "encode_capacity (Append a) = 53 + sum_list (map frame_block_size (af_blocks a))"
| "encode_capacity (Resync r) = 53 + length (rf_manifest r) * 32"
| "encode_capacity (Bulk b) = 33 + sum_list (map (\<lambda>s. 4 + length s) (bf_symbols b))"
| "encode_capacity (Ack a) = 1 + 16 + 32"
| "encode_capacity (Missing m) = 21 + length (mf_missing m) * 32"

fun encode_frame :: "frame \<Rightarrow> bytes" where
  "encode_frame (Append a) =
     (let buf = put_u32_le (put_u128 [TAG_APPEND] (af_session_id a) @ af_base_root a)
                  (word_of_nat (length (af_blocks a)))
      in foldl encode_frame_block buf (af_blocks a))"
| "encode_frame (Resync r) =
     (let buf = put_u32_le (put_u128 [TAG_RESYNC] (rf_session_id r) @ rf_client_root r)
                  (word_of_nat (length (rf_manifest r)))
      in foldl (@) buf (rf_manifest r))"
| "encode_frame (Bulk b) =
     (let buf = put_u32_le (put_u32_le (put_u32_le (put_u32_le
                  (put_u128 [TAG_BULK] (bf_session_id b))
                  (bf_generation b)) (bf_k b)) (bf_symbol_size b))
                  (word_of_nat (length (bf_symbols b)))
      in foldl encode_symbol buf (bf_symbols b))"
| "encode_frame (Ack a) = put_u128 [TAG_ACK] (ack_session_id a) @ ack_root a"
| "encode_frame (Missing m) =
     (let buf = put_u32_le (put_u128 [TAG_MISSING] (mf_session_id m))
                  (word_of_nat (length (mf_missing m)))
      in foldl (@) buf (mf_missing m))"

section \<open>Decoder\<close>

definition take_u32 :: "bytes \<Rightarrow> (u32 \<times> bytes, frame_error) outcome" where
  "take_u32 r = (if length r < 4 then Err Truncated else Ok (rd32 (take 4 r), drop 4 r))"

definition take_count :: "bytes \<Rightarrow> (nat \<times> bytes, frame_error) outcome" where
  "take_count r =
     obind (take_u32 r) (\<lambda>(v, r').
       let n = unat v in if MAX_FRAME_COUNT < n then Err (TooLarge n) else Ok (n, r'))"

definition take_u128 :: "bytes \<Rightarrow> (u128 \<times> bytes, frame_error) outcome" where
  "take_u128 r = (if length r < 16 then Err Truncated else Ok (rd128 (take 16 r), drop 16 r))"

definition take_block_id :: "bytes \<Rightarrow> (block_id \<times> bytes, frame_error) outcome" where
  "take_block_id r = (if length r < 32 then Err Truncated else Ok (take 32 r, drop 32 r))"

definition take_root :: "bytes \<Rightarrow> (merkle_root \<times> bytes, frame_error) outcome" where
  "take_root r = take_block_id r"

definition decode_ref :: "nat \<Rightarrow> bytes \<Rightarrow> (frame_block \<times> bytes, frame_error) outcome" where
  "decode_ref len r =
     (if len \<noteq> 33 then Err Truncated
      else obind (slice_of r 1 33) (\<lambda>i.
             obind (slice_of r len (length r)) (\<lambda>r'. Ok (Ref i, r'))))"

definition decode_inline ::
    "bytes \<Rightarrow> nat \<Rightarrow> nat \<Rightarrow> u8 \<Rightarrow> bytes \<Rightarrow> (frame_block \<times> bytes, frame_error) outcome" where
  "decode_inline body off len marker r =
     (case from_byte (marker AND NOT REF_BIT) of
        None \<Rightarrow> Err (UnknownKind marker)
      | Some k \<Rightarrow>
          if len < 1 + 16 then Err Truncated
          else
            obind (slice_of r 1 9) (\<lambda>s.
            obind (slice_of r 9 17) (\<lambda>p.
            let plen = unat (rd64 p) in
            if MAX_INLINE_PAYLOAD_BYTES < plen then Err (TooLarge plen)
            else if len < 1 + 16 + plen then Err Truncated
            else
              obind (slice_of body (off + 1 + 16) (off + 1 + 16 + plen)) (\<lambda>pl.
              obind (slice_of r (1 + 16 + plen) (length r)) (\<lambda>r'.
                Ok (Inline \<lparr>kind = k, seq = rd64 s, payload = pl\<rparr>, r'))))))"

definition decode_frame_block ::
    "bytes \<Rightarrow> bytes \<Rightarrow> (frame_block \<times> bytes, frame_error) outcome" where
  "decode_frame_block body r0 =
     obind (take_u32 r0) (\<lambda>(v, r).
       let len = unat v in
       if length r < len then Err Truncated
       else
         let off = length body - length r in
         obind (index_of r 0) (\<lambda>marker.
           if marker AND REF_BIT \<noteq> 0 then decode_ref len r
           else decode_inline body off len marker r))"

definition take_symbol :: "bytes \<Rightarrow> bytes \<Rightarrow> (bytes \<times> bytes, frame_error) outcome" where
  "take_symbol body r0 =
     obind (take_u32 r0) (\<lambda>(v, r).
       let len = unat v in
       if MAX_INLINE_PAYLOAD_BYTES < len then Err (TooLarge len)
       else if length r < len then Err Truncated
       else
         let off = length body - length r in
         obind (slice_of body off (off + len)) (\<lambda>s.
           obind (slice_of r len (length r)) (\<lambda>r'. Ok (s, r'))))"

definition decode_body :: "u8 \<Rightarrow> bytes \<Rightarrow> (frame, frame_error) outcome" where
  "decode_body tag body =
     (if tag = TAG_APPEND then
        obind (take_u128 body) (\<lambda>(sid, r).
        obind (take_root r) (\<lambda>(root, r).
        obind (take_count r) (\<lambda>(n, r).
        obind (take_n (decode_frame_block body) n r) (\<lambda>(bs, r).
          Ok (Append \<lparr>af_session_id = sid, af_base_root = root, af_blocks = bs\<rparr>)))))
      else if tag = TAG_RESYNC then
        obind (take_u128 body) (\<lambda>(sid, r).
        obind (take_root r) (\<lambda>(root, r).
        obind (take_count r) (\<lambda>(n, r).
        obind (take_n take_block_id n r) (\<lambda>(ids, r).
          Ok (Resync \<lparr>rf_session_id = sid, rf_client_root = root, rf_manifest = ids\<rparr>)))))
      else if tag = TAG_BULK then
        obind (take_u128 body) (\<lambda>(sid, r).
        obind (take_u32 r) (\<lambda>(gen, r).
        obind (take_u32 r) (\<lambda>(k, r).
        obind (take_u32 r) (\<lambda>(ss, r).
        obind (take_count r) (\<lambda>(n, r).
        obind (take_n (take_symbol body) n r) (\<lambda>(syms, r).
          Ok (Bulk \<lparr>bf_session_id = sid, bf_generation = gen, bf_k = k,
                     bf_symbol_size = ss, bf_symbols = syms\<rparr>)))))))
      else if tag = TAG_ACK then
        obind (take_u128 body) (\<lambda>(sid, r).
        obind (take_root r) (\<lambda>(root, r).
          Ok (Ack \<lparr>ack_session_id = sid, ack_root = root\<rparr>)))
      else if tag = TAG_MISSING then
        obind (take_u128 body) (\<lambda>(sid, r).
        obind (take_count r) (\<lambda>(n, r).
        obind (take_n take_block_id n r) (\<lambda>(ids, r).
          Ok (Missing \<lparr>mf_session_id = sid, mf_missing = ids\<rparr>))))
      else Err (UnknownTag tag))"

definition decode_frame :: "bytes \<Rightarrow> (frame, frame_error) outcome" where
  "decode_frame buf =
     (if buf = [] then Err Truncated
      else obind (index_of buf 0) (\<lambda>tag.
             obind (slice_of buf 1 (length buf)) (\<lambda>body. decode_body tag body)))"

definition decode_frame_bytes :: "bytes \<Rightarrow> (frame, frame_error) outcome" where
  "decode_frame_bytes buf =
     (if buf = [] then Err Truncated
      else obind (index_of buf 0) (\<lambda>tag.
             obind (slice_of buf 1 (length buf)) (\<lambda>body. decode_body tag body)))"

section \<open>Well-formed frames\<close>

text \<open>What the Rust types and the documented limits give: 32-byte ids and roots, at most
  \<open>MAX_FRAME_COUNT\<close> entries, payloads and symbols of at most 1 GiB.\<close>

fun wf_frame_block :: "frame_block \<Rightarrow> bool" where
  "wf_frame_block (Inline b) \<longleftrightarrow> length (payload b) \<le> MAX_INLINE_PAYLOAD_BYTES"
| "wf_frame_block (Ref i) \<longleftrightarrow> length i = 32"

fun wf_frame :: "frame \<Rightarrow> bool" where
  "wf_frame (Append a) \<longleftrightarrow> length (af_base_root a) = 32 \<and>
     length (af_blocks a) \<le> MAX_FRAME_COUNT \<and> list_all wf_frame_block (af_blocks a)"
| "wf_frame (Resync r) \<longleftrightarrow> length (rf_client_root r) = 32 \<and>
     length (rf_manifest r) \<le> MAX_FRAME_COUNT \<and> list_all (\<lambda>i. length i = 32) (rf_manifest r)"
| "wf_frame (Bulk b) \<longleftrightarrow> length (bf_symbols b) \<le> MAX_FRAME_COUNT \<and>
     list_all (\<lambda>s. length s \<le> MAX_INLINE_PAYLOAD_BYTES) (bf_symbols b)"
| "wf_frame (Ack a) \<longleftrightarrow> length (ack_root a) = 32"
| "wf_frame (Missing m) \<longleftrightarrow> length (mf_missing m) \<le> MAX_FRAME_COUNT \<and>
     list_all (\<lambda>i. length i = 32) (mf_missing m)"

section \<open>Encoder and decoder agree\<close>

lemma encode_frame_block_append: "encode_frame_block buf fb = buf @ encode_frame_block [] fb"
  by (cases fb) (simp_all add: put_u32_le_def)

lemma foldl_encode_blocks:
  "foldl encode_frame_block buf fbs = buf @ concat (map (encode_frame_block []) fbs)"
  by (induction fbs arbitrary: buf) (simp_all, subst encode_frame_block_append, simp)

lemma foldl_encode_symbols:
  "foldl encode_symbol buf ss = buf @ concat (map (encode_symbol []) ss)"
  by (induction ss arbitrary: buf) (simp_all add: encode_symbol_def put_u32_le_def)

lemma foldl_append_concat: "foldl (@) buf xs = buf @ concat xs"
  by (induction xs arbitrary: buf) simp_all

lemma kind_byte_not_ref [simp]:
  "to_byte k AND REF_BIT = 0" "to_byte k AND NOT REF_BIT = to_byte k"
  by (cases k; simp add: REF_BIT_def)+

lemma REF_BIT_nonzero [simp]: "REF_BIT \<noteq> 0"
  by (simp add: REF_BIT_def)

interpretation id_codec: prefix_codec "\<lambda>i. i" take_block_id "\<lambda>i. length i = 32"
  by unfold_locales (simp add: take_block_id_def)

lemma take_u32_le32 [codec_simps]: "take_u32 (le32 v @ r) = Ok (v, r)"
  by (simp add: take_u32_def)

lemma take_u128_le128 [codec_simps]: "take_u128 (le128 v @ r) = Ok (v, r)"
  by (simp add: take_u128_def)

lemma take_root_append [codec_simps]: "length root = 32 \<Longrightarrow> take_root (root @ r) = Ok (root, r)"
  by (simp add: take_root_def take_block_id_def)

lemma take_count_le32 [codec_simps]:
  "n \<le> MAX_FRAME_COUNT \<Longrightarrow> take_count (le32 (word_of_nat n) @ r) = Ok (n, r)"
  by (simp add: take_count_def codec_simps MAX_FRAME_COUNT_def)

lemma drop_header: "drop (17 + n) (x # le64 a @ le64 b @ rest) = drop n rest"
proof -
  have "drop 17 (x # le64 a @ le64 b @ rest) = rest" by simp
  then show ?thesis by (metis add.commute drop_drop)
qed

interpretation block_codec: prefix_codec "encode_frame_block []" "\<lambda>r. decode_frame_block r r" wf_frame_block
proof
  fix fb :: frame_block and rest
  assume wf: "wf_frame_block fb"
  show "decode_frame_block (encode_frame_block [] fb @ rest) (encode_frame_block [] fb @ rest) = Ok (fb, rest)"
  proof (cases fb)
    case (Inline b)
    with wf have pl: "length (payload b) \<le> 2 ^ 30" by (simp add: MAX_INLINE_PAYLOAD_BYTES_def)
    then have "unat (word_of_nat (1 + 8 + 8 + length (payload b)) :: u32) = 17 + length (payload b)"
      "unat (word_of_nat (length (payload b)) :: u64) = length (payload b)"
      by (simp_all only: unat_of_nat) simp_all
    with pl show ?thesis
      by (simp add: Inline decode_frame_block_def decode_inline_def put_u32_le_def take_u32_def Let_def
          MAX_INLINE_PAYLOAD_BYTES_def drop_header del: of_nat_add)
  next
    case (Ref i)
    with wf show ?thesis
      by (simp add: decode_frame_block_def decode_ref_def put_u32_le_def take_u32_def Let_def)
  qed
qed

interpretation symbol_codec: prefix_codec "encode_symbol []" "\<lambda>r. take_symbol r r"
  "\<lambda>s. length s \<le> MAX_INLINE_PAYLOAD_BYTES"
  by unfold_locales
    (simp add: encode_symbol_def put_u32_le_def take_symbol_def take_u32_def Let_def
      MAX_INLINE_PAYLOAD_BYTES_def)

subsection \<open>Offsets into the body\<close>

text \<open>Reading through the absolute offset equals reading from the window itself.\<close>

lemma slice_of_prefix:
  "slice_of (pre @ r) (length pre + i) (length pre + j) = slice_of r i j"
  by (simp add: slice_of_def)

lemma slice_at_window:
  assumes "length w \<le> length r"
  shows "slice_of (pre @ r) (length (pre @ r) - length w + i) (length (pre @ r) - length w + j)
    = slice_of r (length r - length w + i) (length r - length w + j)"
proof -
  have "length (pre @ r) - length w = length pre + (length r - length w)"
    using assms by simp
  then show ?thesis by (simp only: add.assoc slice_of_prefix)
qed

lemma decode_inline_suffix:
  assumes "length w \<le> length r"
  shows "decode_inline (pre @ r) (length (pre @ r) - length w) len m w
    = decode_inline r (length r - length w) len m w"
  unfolding decode_inline_def Let_def
  by (simp only: add.assoc slice_at_window [OF assms] cong: if_cong option.case_cong)

lemma take_u32_rest: "take_u32 r = Ok (v, r') \<Longrightarrow> r' = drop 4 r"
  by (auto simp: take_u32_def split: if_splits)

lemma decode_frame_block_suffix: "decode_frame_block (pre @ r) r = decode_frame_block r r"
proof (cases "take_u32 r")
  case (Ok p)
  then obtain v r1 where "take_u32 r = Ok (v, r1)" "r1 = drop 4 r"
    by (cases p) (auto dest: take_u32_rest)
  then show ?thesis
    using decode_inline_suffix [of "drop 4 r" r pre]
    by (simp add: decode_frame_block_def Let_def cong: if_cong)
qed (simp_all add: decode_frame_block_def)

lemma take_symbol_suffix: "take_symbol (pre @ r) r = take_symbol r r"
proof (cases "take_u32 r")
  case (Ok p)
  then obtain v w where "take_u32 r = Ok (v, w)" and w: "w = drop 4 r"
    by (cases p) (auto dest: take_u32_rest)
  moreover have wl: "length w \<le> length r" by (simp add: w)
  moreover have "slice_of (pre @ r) (length (pre @ r) - length w) (length (pre @ r) - length w + j)
      = (slice_of r (length r - length w) (length r - length w + j) :: (bytes, frame_error) outcome)" for j
    using slice_at_window [OF wl, of pre 0 j] by (simp only: add_0_right)
  ultimately show ?thesis
    by (simp only: take_symbol_def Let_def obind.simps prod.case cong: if_cong)
qed (simp_all add: take_symbol_def)

lemma slice_to_end_rest: "slice_of r i (length r) = Ok r' \<Longrightarrow> r' = drop i r"
  by (auto simp: slice_of_def split: if_splits)

lemma decode_ref_rest: "decode_ref len r = Ok (fb, r') \<Longrightarrow> \<exists>n. r' = drop n r"
  by (auto simp: decode_ref_def obind_Ok_iff dest!: slice_to_end_rest split: if_splits)

lemma decode_inline_rest:
  assumes "decode_inline body off len m r = Ok (fb, r')"
  shows "\<exists>n. r' = drop n r"
proof -
  from assms have "\<exists>n. slice_of r n (length r) = (Ok r' :: (bytes, frame_error) outcome)"
    unfolding decode_inline_def
    by (cases "from_byte (m AND NOT REF_BIT)")
      (auto simp: obind_Ok_iff Let_def simp del: slice_of_Ok split: if_split_asm)
  then show ?thesis by (auto dest: slice_to_end_rest)
qed

lemma decode_frame_block_rest:
  assumes "decode_frame_block body r = Ok (fb, r')"
  shows "\<exists>n. r' = drop n r"
proof -
  from assms have "(\<exists>n. decode_ref n (drop 4 r) = Ok (fb, r')) \<or>
      (\<exists>off n m. decode_inline body off n m (drop 4 r) = Ok (fb, r'))"
    by (fastforce simp: decode_frame_block_def obind_Ok_iff Let_def dest!: take_u32_rest
        split: if_split_asm)
  then show ?thesis by (auto dest!: decode_ref_rest decode_inline_rest)
qed

lemma take_symbol_rest: "take_symbol body r = Ok (s, r') \<Longrightarrow> \<exists>n. r' = drop n r"
  by (auto simp: take_symbol_def obind_Ok_iff Let_def dest!: take_u32_rest slice_to_end_rest
      split: if_splits prod.splits)

lemma take_n_body:
  assumes "\<And>pre r. dec (pre @ r) r = dec r r"
    and "\<And>body r x r'. dec body r = Ok (x, r') \<Longrightarrow> \<exists>n. r' = drop n r"
  shows "take_n (dec (pre @ r)) n r = take_n (\<lambda>r. dec r r) n r"
proof (induction n arbitrary: pre r)
  case (Suc n)
  have st: "take_n (dec (pre @ r)) n r' = take_n (\<lambda>r. dec r r) n r'" if "r' = drop m r" for r' m
    using Suc [of "pre @ take m r" r'] that by simp
  show ?case
    using assms(2) st by (cases "dec r r") (fastforce simp: assms(1))+
qed simp

lemma take_n_blocks_body:
  "take_n (decode_frame_block (pre @ r)) n r = take_n (\<lambda>r. decode_frame_block r r) n r"
  by (rule take_n_body) (fact decode_frame_block_suffix decode_frame_block_rest)+

lemma take_n_symbols_body:
  "take_n (take_symbol (pre @ r)) n r = take_n (\<lambda>r. take_symbol r r) n r"
  by (rule take_n_body) (fact take_symbol_suffix take_symbol_rest)+

subsection \<open>Panics\<close>

lemma take_not_Panic [no_panic]:
  "take_u32 r \<noteq> Panic" "take_count r \<noteq> Panic" "take_u128 r \<noteq> Panic" "take_block_id r \<noteq> Panic"
  "take_root r \<noteq> Panic"
  by (auto simp: take_u32_def take_count_def take_u128_def take_block_id_def take_root_def
      obind_Panic_iff Let_def split: if_splits)

lemma take_symbol_not_Panic [no_panic]: "take_symbol r r \<noteq> Panic"
  by (auto simp: take_symbol_def obind_Panic_iff Let_def no_panic dest!: take_u32_rest)

text \<open>A frame block panics exactly on a zero length prefix at the very end of the body.\<close>

lemma decode_ref_not_Panic: "len \<le> length r \<Longrightarrow> decode_ref len r \<noteq> Panic"
  by (auto simp: decode_ref_def obind_Panic_iff)

lemma decode_inline_not_Panic:
  assumes "len \<le> length r" "off + length r = length body"
  shows "decode_inline body off len m r \<noteq> Panic"
  using assms by (cases "from_byte (m AND NOT REF_BIT)") (auto simp: decode_inline_def obind_Panic_iff Let_def)

lemma take_u32_Ok_iff:
  "take_u32 r = Ok (v, r1) \<longleftrightarrow> 4 \<le> length r \<and> r1 = drop 4 r \<and> v = rd32 (take 4 r)"
  by (auto simp: take_u32_def)

lemma rd32_zero: "length b = 4 \<Longrightarrow> rd32 b = 0 \<Longrightarrow> b = [0, 0, 0, 0]"
proof -
  assume l: "length b = 4" and z: "rd32 b = 0"
  have "from_le b < 2 ^ 32" using from_le_lt [of b] l by simp
  with z have "from_le b = 0" by (metis rd32_def unat_word_of_nat_bounds(2) unsigned_0)
  then have "b = to_le 4 0" using to_le_from_le [of b] l by simp
  also have "to_le 4 0 = [0, 0, 0, 0]" by code_simp
  finally show ?thesis .
qed

lemma decode_frame_block_Panic_iff:
  "decode_frame_block r r = Panic \<longleftrightarrow> r = [0, 0, 0, 0]"
proof
  assume a: "decode_frame_block r r = Panic"
  then obtain v r1 where t: "take_u32 r = Ok (v, r1)"
    by (cases "take_u32 r") (auto simp: decode_frame_block_def no_panic)
  with a have le: "unat v \<le> length r1"
    by (auto simp: decode_frame_block_def Let_def split: if_splits)
  have e: "r1 = []"
  proof (rule ccontr)
    assume "r1 \<noteq> []"
    then have "decode_frame_block r r = (if r1 ! 0 AND REF_BIT \<noteq> 0 then decode_ref (unat v) r1
        else decode_inline r (length r - length r1) (unat v) (r1 ! 0) r1)"
      using t le by (simp add: decode_frame_block_def Let_def)
    moreover have "length r - length r1 + length r1 = length r"
      using t by (auto simp: take_u32_Ok_iff)
    ultimately show False
      using a decode_ref_not_Panic [OF le] decode_inline_not_Panic [OF le, where body = r]
      by (metis (no_types))
  qed
  with le t have "rd32 (take 4 r) = 0" "length r = 4"
    by (auto simp: take_u32_Ok_iff unat_eq_0)
  then show "r = [0, 0, 0, 0]" using rd32_zero [of r] by simp
next
  assume "r = [0, 0, 0, 0]"
  then show "decode_frame_block r r = Panic"
    by (simp add: decode_frame_block_def take_u32_def rd32_def index_of_def)
qed

section \<open>Properties\<close>

lemma sum_length_const: "\<forall>i \<in> set xs. length i = n \<Longrightarrow> sum_list (map length xs) = length xs * n"
  by (induction xs) auto

lemma decode_encode_frame:
  assumes "wf_frame f"
  shows "decode_frame (encode_frame f) = Ok f"
proof (cases f)
  case (Append a)
  have "decode_body TAG_APPEND (le128 (af_session_id a) @ af_base_root a @
      le32 (word_of_nat (length (af_blocks a))) @ concat (map (encode_frame_block []) (af_blocks a))) = Ok f"
    using assms block_codec.take_n_enc [of "af_blocks a" "[]"]
      take_n_blocks_body [of "le128 (af_session_id a) @ af_base_root a @ le32 (word_of_nat (length (af_blocks a)))"
        "concat (map (encode_frame_block []) (af_blocks a))" "length (af_blocks a)"]
    by (simp add: Append decode_body_def codec_simps list_all_iff)
  then show ?thesis
    by (simp add: Append decode_frame_def put_u128_def put_u32_le_def foldl_encode_blocks)
next
  case (Resync r)
  then show ?thesis
    using assms id_codec.take_n_enc [of "rf_manifest r" "[]"]
    by (simp add: decode_frame_def put_u128_def put_u32_le_def foldl_append_concat
        decode_body_def tag_defs codec_simps list_all_iff)
next
  case (Bulk b)
  have "decode_body TAG_BULK (le128 (bf_session_id b) @ le32 (bf_generation b) @ le32 (bf_k b) @
      le32 (bf_symbol_size b) @ le32 (word_of_nat (length (bf_symbols b))) @
      concat (map (encode_symbol []) (bf_symbols b))) = Ok f"
    using assms symbol_codec.take_n_enc [of "bf_symbols b" "[]"]
      take_n_symbols_body [of "le128 (bf_session_id b) @ le32 (bf_generation b) @ le32 (bf_k b) @
          le32 (bf_symbol_size b) @ le32 (word_of_nat (length (bf_symbols b)))"
        "concat (map (encode_symbol []) (bf_symbols b))" "length (bf_symbols b)"]
    by (simp add: Bulk decode_body_def tag_defs codec_simps list_all_iff)
  then show ?thesis
    by (simp add: Bulk decode_frame_def put_u128_def put_u32_le_def foldl_encode_symbols)
next
  case (Ack a)
  then show ?thesis
    using assms take_root_append [of "ack_root a" "[]"]
    by (simp add: decode_frame_def put_u128_def decode_body_def tag_defs codec_simps)
next
  case (Missing m)
  then show ?thesis
    using assms id_codec.take_n_enc [of "mf_missing m" "[]"]
    by (simp add: decode_frame_def put_u128_def put_u32_le_def foldl_append_concat
        decode_body_def tag_defs codec_simps list_all_iff)
qed

text \<open>C9: every well-formed frame survives the wire: decoding the encoding of a frame gives
  the frame back, for all five frame kinds, and both decoder entry points agree.\<close>

theorem frame_roundtrip:
  assumes "wf_frame f"
  shows "decode_frame (encode_frame f) = Ok f \<and> decode_frame_bytes (encode_frame f) = Ok f"
  using decode_encode_frame [OF assms] by (simp add: decode_frame_bytes_def decode_frame_def)

theorem frame_roundtrip_witness:
  "wf_frame (Append \<lparr>af_session_id = 7, af_base_root = ROOT_ZERO,
      af_blocks = [Inline \<lparr>kind = Message, seq = 1, payload = [1, 2]\<rparr>, Ref (replicate 32 9)]\<rparr>) \<and>
   decode_frame (encode_frame (Append \<lparr>af_session_id = 7, af_base_root = ROOT_ZERO,
      af_blocks = [Inline \<lparr>kind = Message, seq = 1, payload = [1, 2]\<rparr>, Ref (replicate 32 9)]\<rparr>))
   = Ok (Append \<lparr>af_session_id = 7, af_base_root = ROOT_ZERO,
      af_blocks = [Inline \<lparr>kind = Message, seq = 1, payload = [1, 2]\<rparr>, Ref (replicate 32 9)]\<rparr>)"
proof -
  have wf: "wf_frame (Append \<lparr>af_session_id = 7, af_base_root = ROOT_ZERO,
      af_blocks = [Inline \<lparr>kind = Message, seq = 1, payload = [1, 2]\<rparr>, Ref (replicate 32 9)]\<rparr>)"
    by (simp add: MAX_FRAME_COUNT_def MAX_INLINE_PAYLOAD_BYTES_def)
  then show ?thesis using frame_roundtrip [OF wf] by blast
qed

lemma frame_block_size_exact: "wf_frame_block fb \<Longrightarrow> length (encode_frame_block [] fb) = frame_block_size fb"
  by (cases fb) (simp_all add: put_u32_le_def)

text \<open>the capacity reserved by the encoder is exactly the number of bytes it writes, so
  encoding a well-formed frame never grows the buffer.\<close>

theorem encode_capacity_exact:
  assumes "wf_frame f"
  shows "length (encode_frame f) = encode_capacity f"
proof (cases f)
  case (Append a)
  then show ?thesis
    using assms frame_block_size_exact
    by (auto simp: put_u128_def put_u32_le_def foldl_encode_blocks length_concat list_all_iff comp_def
        intro!: arg_cong [where f = sum_list])
qed (use assms in \<open>auto simp: put_u128_def put_u32_le_def foldl_append_concat foldl_encode_symbols
       encode_symbol_def length_concat list_all_iff comp_def sum_length_const\<close>)

theorem encode_capacity_exact_witness:
  "wf_frame (Missing \<lparr>mf_session_id = 1, mf_missing = [replicate 32 5]\<rparr>) \<and>
   length (encode_frame (Missing \<lparr>mf_session_id = 1, mf_missing = [replicate 32 5]\<rparr>)) = 53"
proof -
  have wf: "wf_frame (Missing \<lparr>mf_session_id = 1, mf_missing = [replicate 32 5]\<rparr>)"
    by (simp add: MAX_FRAME_COUNT_def)
  then show ?thesis using encode_capacity_exact [OF wf] by simp
qed

lemma take_n_blocks_Panic:
  "take_n (\<lambda>r. decode_frame_block r r) n r = Panic \<Longrightarrow> \<exists>p. r = p @ [0, 0, 0, 0]"
proof (induction n arbitrary: r)
  case (Suc n)
  show ?case
  proof (cases "decode_frame_block r r")
    case (Ok q)
    then obtain fb r' m where q: "q = (fb, r')" "r' = drop m r"
      by (cases q) (auto dest: decode_frame_block_rest)
    with Suc.prems Ok have "take_n (\<lambda>r. decode_frame_block r r) n r' = Panic"
      by (auto simp: obind_Panic_iff split: prod.splits)
    then obtain p where "r' = p @ [0, 0, 0, 0]" using Suc.IH by blast
    with q show ?thesis by (metis append.assoc append_take_drop_id)
  qed (use Suc.prems in \<open>auto simp: decode_frame_block_Panic_iff\<close>)
qed simp

text \<open>C26: the decoder is total on hostile input but for one shape.  Whatever the buffer,
  \<open>decode_frame\<close> returns a frame or an error value unless the buffer is an APPEND frame that
  ends in a block entry with a zero length prefix; there, and only there, the index
  \<open>r[0]\<close> of \<open>decode_frame_block\<close> is out of range.  The second half exhibits such a frame.\<close>

theorem decode_frame_panics_only_on_empty_block:
  "(decode_frame buf = Panic \<longrightarrow> (\<exists>p. buf = TAG_APPEND # p @ [0, 0, 0, 0])) \<and>
   decode_frame (TAG_APPEND # replicate 48 0 @ [1, 0, 0, 0] @ [0, 0, 0, 0]) = Panic"
proof (intro conjI impI)
  assume a: "decode_frame buf = Panic"
  then obtain tag body where b: "buf = tag # body" by (cases buf) (auto simp: decode_frame_def)
  with a have d: "decode_body tag body = Panic" by (simp add: decode_frame_def)
  have nb: "take_n take_block_id n r \<noteq> Panic" for n r
    by (rule take_n_not_Panic) (rule no_panic)
  have ns: "take_n (take_symbol body) n (drop m body) \<noteq> Panic" for n m
    using take_n_symbols_body [of "take m body" "drop m body" n]
      take_n_not_Panic [of "\<lambda>r. take_symbol r r" n "drop m body"] no_panic by simp
  have t: "tag = TAG_APPEND"
  proof (rule ccontr)
    assume "tag \<noteq> TAG_APPEND"
    with d nb ns show False
      by (auto simp: decode_body_def obind_Panic_iff no_panic take_u32_Ok_iff take_u128_def take_count_def
          Let_def split: if_split_asm dest!: take_u32_rest)
  qed
  from d t obtain n m where "take_n (decode_frame_block body) n (drop m body) = Panic"
    by (auto simp: decode_body_def obind_Panic_iff no_panic take_u32_Ok_iff take_u128_def take_count_def
        take_root_def take_block_id_def obind_Ok_iff Let_def split: if_split_asm)
  then have "take_n (\<lambda>r. decode_frame_block r r) n (drop m body) = Panic"
    using take_n_blocks_body [of "take m body" "drop m body" n] by simp
  then obtain p where "drop m body = p @ [0, 0, 0, 0]" by (auto dest: take_n_blocks_Panic)
  with b t show "\<exists>p. buf = TAG_APPEND # p @ [0, 0, 0, 0]"
    by (metis append.assoc append_take_drop_id)
next
  have z: "rd128 (replicate 16 0) = 0" "rd32 [0, 0, 0, 0] = 0" by code_simp+
  have l: "le32 1 = [1, 0, 0, 0]" by code_simp
  have c: "take_count [1, 0, 0, 0, 0, 0, 0, 0] = Ok (1, [0, 0, 0, 0])"
    using take_count_le32 [of 1 "[0, 0, 0, 0]"] by (simp add: l MAX_FRAME_COUNT_def)
  have "replicate 48 (0 :: u8) = replicate 16 0 @ replicate 32 0"
    by (simp add: replicate_add [symmetric])
  then have "decode_body TAG_APPEND (replicate 48 0 @ [1, 0, 0, 0] @ [0, 0, 0, 0]) =
      obind (take_n (decode_frame_block ((replicate 48 0 @ [1, 0, 0, 0]) @ [0, 0, 0, 0])) 1 [0, 0, 0, 0])
        (\<lambda>(bs, r). Ok (Append \<lparr>af_session_id = 0, af_base_root = replicate 32 0, af_blocks = bs\<rparr>))"
    by (simp add: decode_body_def take_u128_def take_root_def take_block_id_def z c)
  also have "\<dots> = Panic"
    using decode_frame_block_suffix [of "replicate 48 0 @ [1, 0, 0, 0]" "[0, 0, 0, 0]"]
      decode_frame_block_Panic_iff [of "[0, 0, 0, 0]"]
    by simp
  finally show "decode_frame (TAG_APPEND # replicate 48 0 @ [1, 0, 0, 0] @ [0, 0, 0, 0]) = Panic"
    by (simp add: decode_frame_def)
qed

theorem decode_frame_panics_witness:
  "decode_frame (TAG_APPEND # replicate 48 0 @ [1, 0, 0, 0] @ [0, 0, 0, 0]) = Panic \<and>
   (\<exists>p. TAG_APPEND # replicate 48 0 @ [1, 0, 0, 0] @ [0, 0, 0, 0] = TAG_APPEND # p @ [0, 0, 0, 0])"
  using decode_frame_panics_only_on_empty_block
    [of "TAG_APPEND # replicate 48 0 @ [1, 0, 0, 0] @ [0, 0, 0, 0]"] by blast

end
