(* ===== verification/Wal.thy ===== *)
theory Wal
  imports Blocks
begin

text \<open>
  The write-ahead log file (\<open>crates/core/src/wal.rs\<close>, the writer side).  A handle is the
  byte string accepted so far (the file followed by the writer's buffer), the lengths of the
  prefixes handed to the operating system and forced to disk, and the outcomes the
  environment has in store for the next device calls: \<open>Some (k, e)\<close> means the call fails
  with \<open>e\<close> after taking \<open>k\<close> bytes, \<open>None\<close> (and an exhausted list) that it succeeds.
\<close>

section \<open>Device\<close>

datatype io_kind = InvalidInput | InvalidData | OtherIo

type_synonym io_error = "io_kind \<times> string"

record wal =
  wlog :: bytes
  wflushed :: nat
  wsynced :: nat
  wio :: "(nat \<times> io_error) option list"

definition next_io :: "wal \<Rightarrow> (nat \<times> io_error) option \<times> wal" where
  "next_io w = (case wio w of [] \<Rightarrow> (None, w) | x # xs \<Rightarrow> (x, w\<lparr>wio := xs\<rparr>))"

definition write_all :: "wal \<Rightarrow> bytes \<Rightarrow> wal \<times> (unit, io_error) outcome" where
  "write_all w bs =
     (case next_io w of
        (None, w') \<Rightarrow> (w'\<lparr>wlog := wlog w' @ bs\<rparr>, Ok ())
      | (Some (k, e), w') \<Rightarrow> (w'\<lparr>wlog := wlog w' @ take k bs\<rparr>, Err e))"

fun write_seq :: "wal \<Rightarrow> bytes list \<Rightarrow> wal \<times> (unit, io_error) outcome" where
  "write_seq w [] = (w, Ok ())"
| "write_seq w (b # bs) =
     (case write_all w b of
        (w', Ok _) \<Rightarrow> write_seq w' bs
      | (w', r) \<Rightarrow> (w', r))"

section \<open>Record writers\<close>

definition VAR_INSERT :: u8 where "VAR_INSERT = 0"
definition VAR_REFERENCE :: u8 where "VAR_REFERENCE = 1"
definition VAR_SEED :: u8 where "VAR_SEED = 2"
definition VAR_CONTENT :: u8 where "VAR_CONTENT = 3"
definition HEADER :: nat where "HEADER = 16 + 1 + 4"
definition MAX_RECORD_BYTES :: nat where "MAX_RECORD_BYTES = 512 * 1024 * 1024"

lemmas var_defs = VAR_INSERT_def VAR_REFERENCE_def VAR_SEED_def VAR_CONTENT_def

definition record_len :: "nat \<Rightarrow> (u32, io_error) outcome" where
  "record_len len =
     (if MAX_RECORD_BYTES < len then Err (InvalidInput, ''WAL record length exceeds safety limit'')
      else if len < 2 ^ 32 then Ok (word_of_nat len)
      else Err (InvalidInput, ''WAL record too large''))"

definition append_insert :: "u128 \<Rightarrow> bytes \<Rightarrow> wal \<Rightarrow> wal \<times> (unit, io_error) outcome" where
  "append_insert sid canonical w =
     (case record_len (length canonical) of
        Ok len \<Rightarrow> write_seq w [le128 sid, [VAR_INSERT], le32 len, canonical]
      | Err e \<Rightarrow> (w, Err e)
      | Panic \<Rightarrow> (w, Panic))"

definition append_reference :: "u128 \<Rightarrow> block_id \<Rightarrow> wal \<Rightarrow> wal \<times> (unit, io_error) outcome" where
  "append_reference sid i w = write_seq w [le128 sid, [VAR_REFERENCE], le32 32, i]"

definition append_seed ::
    "u128 \<Rightarrow> block_id list \<Rightarrow> merkle_root \<Rightarrow> wal \<Rightarrow> wal \<times> (unit, io_error) outcome" where
  "append_seed sid ids root w =
     (if \<not> length ids * 32 + 36 < 2 ^ 64 then (w, Err (InvalidInput, ''WAL seed too large''))
      else case record_len (length ids * 32 + 36) of
        Ok len \<Rightarrow>
          (if length ids < 2 ^ 32
           then write_seq w ([le128 sid, [VAR_SEED], le32 len, le32 (word_of_nat (length ids))] @ ids @ [root])
           else (w, Err (InvalidInput, ''WAL seed has too many ids'')))
      | Err e \<Rightarrow> (w, Err e)
      | Panic \<Rightarrow> (w, Panic))"

definition append_content :: "u128 \<Rightarrow> bytes \<Rightarrow> wal \<Rightarrow> wal \<times> (unit, io_error) outcome" where
  "append_content sid canonical w =
     (case record_len (length canonical) of
        Ok len \<Rightarrow> write_seq w [le128 sid, [VAR_CONTENT], le32 len, canonical]
      | Err e \<Rightarrow> (w, Err e)
      | Panic \<Rightarrow> (w, Panic))"

definition wal_flush :: "bool \<Rightarrow> wal \<Rightarrow> wal \<times> (unit, io_error) outcome" where
  "wal_flush sync w =
     (case next_io w of
        (Some (k, e), w') \<Rightarrow> (w', Err e)
      | (None, w') \<Rightarrow>
          (let w1 = w'\<lparr>wflushed := length (wlog w')\<rparr> in
           if sync then
             (case next_io w1 of
                (Some (k, e), w2) \<Rightarrow> (w2, Err e)
              | (None, w2) \<Rightarrow> (w2\<lparr>wsynced := length (wlog w2)\<rparr>, Ok ()))
           else (w1, Ok ())))"

section \<open>Records\<close>

text \<open>The record format: session id, variant, payload length, payload.\<close>

type_synonym wal_record = "u128 \<times> u8 \<times> bytes"

fun encode_record :: "wal_record \<Rightarrow> bytes" where
  "encode_record (sid, v, p) = le128 sid @ [v] @ le32 (word_of_nat (length p)) @ p"

fun wf_record :: "wal_record \<Rightarrow> bool" where
  "wf_record (sid, v, p) \<longleftrightarrow> length p \<le> MAX_RECORD_BYTES"

lemma encode_record_length [simp]: "length (encode_record (sid, v, p)) = HEADER + length p"
  by (simp add: HEADER_def)

lemma HEADER_pos [simp]: "0 < HEADER"
  by (simp add: HEADER_def)

lemma encode_record_nonempty [simp]: "encode_record r \<noteq> []"
  by (cases r) auto

lemma next_io_log [simp]: "next_io w = (x, w') \<Longrightarrow> wlog w' = wlog w"
  by (auto simp: next_io_def split: list.splits)

lemma write_all_Ok: "write_all w b = (w', Ok u) \<Longrightarrow> wlog w' = wlog w @ b"
  by (auto simp: write_all_def split: prod.splits option.splits)

lemma write_seq_Ok: "write_seq w bs = (w', Ok u) \<Longrightarrow> wlog w' = wlog w @ concat bs"
  by (induction bs arbitrary: w) (auto dest: write_all_Ok split: prod.splits outcome.splits)

declare write_seq.simps [simp del]

lemma record_len_Ok: "record_len n = Ok l \<longleftrightarrow> n \<le> MAX_RECORD_BYTES \<and> l = word_of_nat n"
  by (auto simp: record_len_def MAX_RECORD_BYTES_def)

text \<open>A writer that reports success has appended exactly one well-formed record.\<close>

lemma append_insert_Ok:
  "append_insert sid c w = (w', Ok u) \<Longrightarrow>
     wf_record (sid, VAR_INSERT, c) \<and> wlog w' = wlog w @ encode_record (sid, VAR_INSERT, c)"
  by (auto simp: append_insert_def record_len_Ok dest!: write_seq_Ok split: outcome.splits)

lemma append_content_Ok:
  "append_content sid c w = (w', Ok u) \<Longrightarrow>
     wf_record (sid, VAR_CONTENT, c) \<and> wlog w' = wlog w @ encode_record (sid, VAR_CONTENT, c)"
  by (auto simp: append_content_def record_len_Ok dest!: write_seq_Ok split: outcome.splits)

lemma append_reference_Ok:
  "length i = 32 \<Longrightarrow> append_reference sid i w = (w', Ok u) \<Longrightarrow>
     wf_record (sid, VAR_REFERENCE, i) \<and> wlog w' = wlog w @ encode_record (sid, VAR_REFERENCE, i)"
  by (auto simp: append_reference_def MAX_RECORD_BYTES_def dest!: write_seq_Ok)

definition seed_payload :: "block_id list \<Rightarrow> merkle_root \<Rightarrow> bytes" where
  "seed_payload ids root = le32 (word_of_nat (length ids)) @ concat ids @ root"

lemma length_concat_ids: "\<forall>i \<in> set ids. length i = n \<Longrightarrow> length (concat ids) = length ids * n"
  by (induction ids) auto

lemma append_seed_Ok:
  assumes "\<forall>i \<in> set ids. length i = 32" "length root = 32"
    and "append_seed sid ids root w = (w', Ok u)"
  shows "wf_record (sid, VAR_SEED, seed_payload ids root) \<and>
    length ids < 2 ^ 32 \<and>
    wlog w' = wlog w @ encode_record (sid, VAR_SEED, seed_payload ids root)"
proof -
  have l: "length (seed_payload ids root) = length ids * 32 + 36"
    using assms(1,2) by (simp add: seed_payload_def length_concat_ids)
  obtain len where len: "record_len (length ids * 32 + 36) = Ok len" and n: "length ids < 2 ^ 32"
    and w: "write_seq w ([le128 sid, [VAR_SEED], le32 len, le32 (word_of_nat (length ids))] @ ids @ [root]) = (w', Ok u)"
    using assms(3) unfolding append_seed_def by (auto split: if_split_asm outcome.splits)
  have "len = word_of_nat (length (seed_payload ids root))"
    using len l by (simp add: record_len_Ok)
  then show ?thesis
    using write_seq_Ok [OF w] len n l by (simp add: record_len_Ok seed_payload_def)
qed

end
