(* ===== verification/Store.thy ===== *)
theory Store
  imports Wal
begin

text \<open>
  The content-addressed store (\<open>crates/core/src/store.rs\<close>): a map from block ids to
  blocks, a log with its running root per session, counters, and an optional write-ahead
  log with a latched first failure.  The sharded concurrent maps are maps; each operation
  is one step, as the per-session mutation lock of the receiver makes it.  The abstraction
  \<open>core\<close> forgets the counters and the log file; every operation is a functional
  refinement of an operation on it.
\<close>

section \<open>State\<close>

record session_log =
  sl_ids :: "block_id list"
  sl_root :: merkle_root

record store_stats =
  blocks_stored :: u64
  bytes_stored :: u64
  blocks_deduped :: u64
  n_sessions :: u64

record store =
  st_blocks :: "block_id \<rightharpoonup> block"
  st_sessions :: "u128 \<rightharpoonup> session_log"
  st_stats :: store_stats
  st_wal :: "wal option"
  st_wal_error :: "io_error option"

definition store_new :: store where
  "store_new =
     \<lparr>st_blocks = Map.empty, st_sessions = Map.empty,
      st_stats = \<lparr>blocks_stored = 0, bytes_stored = 0, blocks_deduped = 0, n_sessions = 0\<rparr>,
      st_wal = None, st_wal_error = None\<rparr>"

definition set_wal :: "wal \<Rightarrow> store \<Rightarrow> store" where
  "set_wal w s = (case st_wal s of None \<Rightarrow> s\<lparr>st_wal := Some w\<rparr> | Some _ \<Rightarrow> s)"

section \<open>The log handle\<close>

definition latch_wal_error :: "io_error \<Rightarrow> store \<Rightarrow> store" where
  "latch_wal_error e s = (if st_wal_error s = None then s\<lparr>st_wal_error := Some e\<rparr> else s)"

fun record_wal_result :: "(unit, io_error) outcome \<Rightarrow> store \<Rightarrow> store" where
  "record_wal_result (Err e) s = latch_wal_error e s"
| "record_wal_result r s = s"

text \<open>\<open>if let Some(wal) = wal { self.record_wal_result(...) }\<close>\<close>

definition shadow :: "(wal \<Rightarrow> wal \<times> (unit, io_error) outcome) \<Rightarrow> store \<Rightarrow> store" where
  "shadow f s =
     (case st_wal s of
        None \<Rightarrow> s
      | Some w \<Rightarrow> (case f w of (w', r) \<Rightarrow> record_wal_result r (s\<lparr>st_wal := Some w'\<rparr>)))"

definition flush_wal :: "bool \<Rightarrow> store \<Rightarrow> store \<times> (unit, io_error) outcome" where
  "flush_wal sync s =
     (case st_wal_error s of
        Some e \<Rightarrow> (s, Err e)
      | None \<Rightarrow>
          (case st_wal s of
             None \<Rightarrow> (s, Ok ())
           | Some w \<Rightarrow>
               (case wal_flush sync w of
                  (w', Err e) \<Rightarrow> (latch_wal_error e (s\<lparr>st_wal := Some w'\<rparr>), Err e)
                | (w', r) \<Rightarrow> (s\<lparr>st_wal := Some w'\<rparr>, r))))"

section \<open>Mutations\<close>

definition put_block :: "block \<Rightarrow> block_id \<Rightarrow> store \<Rightarrow> bool \<times> store" where
  "put_block b i s =
     (let newly = (st_blocks s i = None);
          s1 = (if newly then s\<lparr>st_blocks := (st_blocks s)(i \<mapsto> b)\<rparr> else s);
          st = st_stats s1
      in (newly,
          if newly
          then s1\<lparr>st_stats := st\<lparr>blocks_stored := blocks_stored st + 1,
                                  bytes_stored := bytes_stored st + word_of_nat (length (payload b))\<rparr>\<rparr>
          else s1\<lparr>st_stats := st\<lparr>blocks_deduped := blocks_deduped st + 1\<rparr>\<rparr>))"

definition push_log :: "hash \<Rightarrow> u128 \<Rightarrow> block_id \<Rightarrow> store \<Rightarrow> bool \<times> store" where
  "push_log H sid i s =
     (case st_sessions s sid of
        Some l \<Rightarrow>
          (let nr = append_root H (sl_root l) i
           in (False, s\<lparr>st_sessions := (st_sessions s)(sid \<mapsto> \<lparr>sl_ids = sl_ids l @ [i], sl_root = nr\<rparr>)\<rparr>))
      | None \<Rightarrow>
          (True, s\<lparr>st_sessions := (st_sessions s)(sid \<mapsto> \<lparr>sl_ids = [i], sl_root = append_root H ROOT_ZERO i\<rparr>)\<rparr>))"

definition count_session :: "bool \<Rightarrow> store \<Rightarrow> store" where
  "count_session was_new s =
     (if was_new then s\<lparr>st_stats := (st_stats s)\<lparr>n_sessions := n_sessions (st_stats s) + 1\<rparr>\<rparr> else s)"

definition insert_with_canonical ::
    "hash \<Rightarrow> u128 \<Rightarrow> block \<Rightarrow> block_id \<Rightarrow> bytes option \<Rightarrow> store \<Rightarrow> bool \<times> store" where
  "insert_with_canonical H sid b i canonical s =
     (let (newly, s1) = put_block b i s;
          (was_new, s2) = push_log H sid i s1;
          s3 = count_session was_new s2;
          s4 = (if newly
                then shadow (append_insert sid (case canonical of Some c \<Rightarrow> c | None \<Rightarrow> canonical_bytes b)) s3
                else shadow (append_reference sid i) s3)
      in (newly, s4))"

definition insert_with_id :: "hash \<Rightarrow> u128 \<Rightarrow> block \<Rightarrow> block_id \<Rightarrow> store \<Rightarrow> bool \<times> store" where
  "insert_with_id H sid b i s = insert_with_canonical H sid b i None s"

definition store_insert :: "hash \<Rightarrow> u128 \<Rightarrow> block \<Rightarrow> store \<Rightarrow> bool \<times> store" where
  "store_insert H sid b s = insert_with_id H sid b (block_id H b) s"

definition reference :: "hash \<Rightarrow> u128 \<Rightarrow> block_id \<Rightarrow> store \<Rightarrow> (unit, string) outcome \<times> store" where
  "reference H sid i s =
     (if st_blocks s i = None then (Err ''referenced block not present in store'', s)
      else
        let (_, s1) = push_log H sid i s;
            s2 = s1\<lparr>st_stats := (st_stats s1)\<lparr>blocks_deduped := blocks_deduped (st_stats s1) + 1\<rparr>\<rparr>
        in (Ok (), shadow (append_reference sid i) s2))"

definition seed_session :: "u128 \<Rightarrow> block_id list \<Rightarrow> merkle_root \<Rightarrow> store \<Rightarrow> store" where
  "seed_session sid ids root s =
     (let was_new = (st_sessions s sid = None);
          s1 = s\<lparr>st_sessions := (st_sessions s)(sid \<mapsto> \<lparr>sl_ids = ids, sl_root = root\<rparr>)\<rparr>
      in shadow (append_seed sid ids root) (count_session was_new s1))"

definition store_content_with_id :: "u128 \<Rightarrow> block \<Rightarrow> block_id \<Rightarrow> store \<Rightarrow> bool \<times> store" where
  "store_content_with_id sid b i s =
     (let (newly, s1) = put_block b i s
      in (newly, if newly then shadow (append_content sid (canonical_bytes b)) s1 else s1))"

definition store_content :: "hash \<Rightarrow> u128 \<Rightarrow> block \<Rightarrow> store \<Rightarrow> bool \<times> store" where
  "store_content H sid b s = store_content_with_id sid b (block_id H b) s"

section \<open>Queries\<close>

definition store_get :: "store \<Rightarrow> block_id \<Rightarrow> block option" where
  "store_get s i = st_blocks s i"

definition store_contains :: "store \<Rightarrow> block_id \<Rightarrow> bool" where
  "store_contains s i \<longleftrightarrow> st_blocks s i \<noteq> None"

definition session_root :: "store \<Rightarrow> u128 \<Rightarrow> merkle_root" where
  "session_root s sid = (case st_sessions s sid of Some l \<Rightarrow> sl_root l | None \<Rightarrow> ROOT_ZERO)"

definition session_ids :: "store \<Rightarrow> u128 \<Rightarrow> block_id list" where
  "session_ids s sid = (case st_sessions s sid of Some l \<Rightarrow> sl_ids l | None \<Rightarrow> [])"

definition session_len :: "store \<Rightarrow> u128 \<Rightarrow> nat" where
  "session_len s sid = (case st_sessions s sid of Some l \<Rightarrow> length (sl_ids l) | None \<Rightarrow> 0)"

text \<open>The keys of the session map, in the unspecified order of the map's iterator.\<close>

definition session_list :: "store \<Rightarrow> u128 set" where
  "session_list s = dom (st_sessions s)"

definition collect_blocks :: "store \<Rightarrow> block_id list \<Rightarrow> block list" where
  "collect_blocks s ids = List.map_filter (st_blocks s) ids"

definition reconstruct :: "store \<Rightarrow> u128 \<Rightarrow> block list" where
  "reconstruct s sid =
     (case st_sessions s sid of None \<Rightarrow> [] | Some l \<Rightarrow> collect_blocks s (sl_ids l))"

definition reconstruct_range :: "store \<Rightarrow> u128 \<Rightarrow> nat \<Rightarrow> nat \<Rightarrow> (block list, string) outcome" where
  "reconstruct_range s sid from to =
     (case st_sessions s sid of
        None \<Rightarrow> Ok []
      | Some l \<Rightarrow>
          (let f = min from (length (sl_ids l)); t = min to (length (sl_ids l))
           in obind (slice_of (sl_ids l) f t) (\<lambda>ids. Ok (collect_blocks s ids))))"

section \<open>The abstract log\<close>

text \<open>What the store promises: contents by id and one log per session.\<close>

type_synonym core = "(block_id \<rightharpoonup> block) \<times> (u128 \<rightharpoonup> session_log)"

definition core :: "store \<Rightarrow> core" where
  "core s = (st_blocks s, st_sessions s)"

definition c_put :: "block \<Rightarrow> block_id \<Rightarrow> core \<Rightarrow> core" where
  "c_put b i c = (if fst c i = None then ((fst c)(i \<mapsto> b), snd c) else c)"

definition c_push :: "hash \<Rightarrow> u128 \<Rightarrow> block_id \<Rightarrow> core \<Rightarrow> core" where
  "c_push H sid i c =
     (fst c, (snd c)(sid \<mapsto>
        (case snd c sid of
           Some l \<Rightarrow> \<lparr>sl_ids = sl_ids l @ [i], sl_root = append_root H (sl_root l) i\<rparr>
         | None \<Rightarrow> \<lparr>sl_ids = [i], sl_root = append_root H ROOT_ZERO i\<rparr>)))"

definition c_seed :: "u128 \<Rightarrow> block_id list \<Rightarrow> merkle_root \<Rightarrow> core \<Rightarrow> core" where
  "c_seed sid ids root c = (fst c, (snd c)(sid \<mapsto> \<lparr>sl_ids = ids, sl_root = root\<rparr>))"

named_theorems core_simps \<open>operations commute with the abstraction\<close>

lemma core_latch [core_simps]: "core (latch_wal_error e s) = core s"
  by (simp add: core_def latch_wal_error_def)

lemma core_record_result [core_simps]: "core (record_wal_result r s) = core s"
  by (cases r) (simp_all add: core_simps)

lemma core_shadow [core_simps]: "core (shadow f s) = core s"
  by (simp add: shadow_def core_simps split: option.split prod.split) (simp add: core_def)

lemma core_count_session [core_simps]: "core (count_session b s) = core s"
  by (simp add: core_def count_session_def)

lemma put_block_core:
  "put_block b i s = (newly, s') \<Longrightarrow> core s' = c_put b i (core s) \<and> newly = (fst (core s) i = None)"
  by (auto simp: core_def put_block_def c_put_def Let_def split: if_splits)

lemma push_log_core: "push_log H sid i s = (n, s') \<Longrightarrow> core s' = c_push H sid i (core s)"
  by (auto simp: core_def push_log_def c_push_def Let_def split: option.splits)

lemma core_stats [core_simps]: "core (s\<lparr>st_stats := x\<rparr>) = core s"
  by (simp add: core_def)

lemma core_insert [core_simps]:
  "core (snd (insert_with_canonical H sid b i c s)) = c_push H sid i (c_put b i (core s))"
  by (auto simp: insert_with_canonical_def Let_def core_simps split: prod.split
      dest!: put_block_core push_log_core)

lemma core_reference [core_simps]:
  "core (snd (reference H sid i s)) = (if fst (core s) i = None then core s else c_push H sid i (core s))"
  by (auto simp: reference_def Let_def core_simps split: prod.split dest!: push_log_core)
    (simp_all add: core_def)

lemma core_seed_session [core_simps]: "core (seed_session sid ids root s) = c_seed sid ids root (core s)"
  by (simp add: seed_session_def Let_def core_simps) (simp add: core_def c_seed_def)

lemma core_store_content [core_simps]:
  "core (snd (store_content_with_id sid b i s)) = c_put b i (core s)"
  by (auto simp: store_content_with_id_def core_simps split: prod.split dest!: put_block_core)

subsection \<open>Queries on the abstraction\<close>

definition c_root :: "core \<Rightarrow> u128 \<Rightarrow> merkle_root" where
  "c_root c sid = (case snd c sid of Some l \<Rightarrow> sl_root l | None \<Rightarrow> ROOT_ZERO)"

definition c_ids :: "core \<Rightarrow> u128 \<Rightarrow> block_id list" where
  "c_ids c sid = (case snd c sid of Some l \<Rightarrow> sl_ids l | None \<Rightarrow> [])"

lemma core_queries:
  "session_root s sid = c_root (core s) sid" "session_ids s sid = c_ids (core s) sid"
  "session_len s sid = length (c_ids (core s) sid)"
  "store_contains s i \<longleftrightarrow> fst (core s) i \<noteq> None" "store_get s i = fst (core s) i"
  "reconstruct s sid = List.map_filter (fst (core s)) (c_ids (core s) sid)"
  by (simp_all add: session_root_def session_ids_def session_len_def store_contains_def store_get_def
      reconstruct_def collect_blocks_def c_root_def c_ids_def core_def map_filter_def split: option.split)

lemma c_put_queries [simp]:
  "snd (c_put b i c) = snd c" "c_root (c_put b i c) sid = c_root c sid" "c_ids (c_put b i c) sid = c_ids c sid"
  "fst (c_put b i c) i \<noteq> None" "fst c j = Some x \<Longrightarrow> fst (c_put b i c) j = Some x"
  by (auto simp: c_put_def c_root_def c_ids_def)

lemma fst_c_put: "fst (c_put b i c) j = (if j = i \<and> fst c i = None then Some b else fst c j)"
  by (simp add: c_put_def)

lemma c_push_queries [simp]:
  "fst (c_push H sid i c) = fst c"
  "c_root (c_push H sid i c) sid' = (if sid' = sid then append_root H (c_root c sid) i else c_root c sid')"
  "c_ids (c_push H sid i c) sid' = (if sid' = sid then c_ids c sid @ [i] else c_ids c sid')"
  by (auto simp: c_push_def c_root_def c_ids_def split: option.splits)

lemma c_seed_queries [simp]:
  "fst (c_seed sid ids root c) = fst c"
  "c_root (c_seed sid ids root c) sid' = (if sid' = sid then root else c_root c sid')"
  "c_ids (c_seed sid ids root c) sid' = (if sid' = sid then ids else c_ids c sid')"
  by (auto simp: c_seed_def c_root_def c_ids_def)

lemma core_store_new [simp]: "core store_new = (Map.empty, Map.empty)"
  by (simp add: core_def store_new_def)

text \<open>Every stored block sits under its own content address.\<close>

definition addressed :: "hash \<Rightarrow> core \<Rightarrow> bool" where
  "addressed H c \<longleftrightarrow> (\<forall>i b. fst c i = Some b \<longrightarrow> i = block_id H b)"

lemma addressed_ops [simp, intro]:
  "addressed H c \<Longrightarrow> addressed H (c_put b (block_id H b) c)"
  "addressed H c \<Longrightarrow> addressed H (c_push H sid i c)"
  "addressed H c \<Longrightarrow> addressed H (c_seed sid ids root c)"
  "addressed H (Map.empty, Map.empty)"
  by (auto simp: addressed_def fst_c_put split: if_splits)

end
