(* ===== verification/Cuckoo.thy ===== *)
theory Cuckoo
  imports Blocks
begin

text \<open>
  The cuckoo filter in front of the content store (\<open>crates/core/src/filter.rs\<close>).  Each
  operation runs under the table's lock, so it is one step on the table; the hash
  \<open>xxh3_64\<close> is the parameter \<open>xx\<close>.  A slot holds 0 when it is empty.
\<close>

section \<open>State\<close>

type_synonym xxh = "bytes \<Rightarrow> u64"

definition SLOTS :: nat where "SLOTS = 4"
definition KICKS :: nat where "KICKS = 500"
definition MAX_BITS :: nat where "MAX_BITS = 24"

record cuckoo =
  cf_buckets :: "u16 list list"
  cf_mask :: u64
  cf_count :: u64
  cf_saturated :: bool

definition EMPTY_BUCKET :: "u16 list" where
  "EMPTY_BUCKET = replicate SLOTS 0"

function next_power_of_two :: "nat \<Rightarrow> nat" where
  "next_power_of_two n = (if n \<le> 1 then 1 else 2 * next_power_of_two ((n + 1) div 2))"
  by pat_completeness auto
termination
  by (relation "measure id") auto

declare next_power_of_two.simps [simp del]

definition with_capacity :: "nat \<Rightarrow> cuckoo" where
  "with_capacity cap =
     (let nbuckets = max (next_power_of_two (cap div SLOTS)) 4
      in \<lparr>cf_buckets = replicate nbuckets EMPTY_BUCKET, cf_mask = word_of_nat (nbuckets - 1),
          cf_count = 0, cf_saturated = False\<rparr>)"

section \<open>Indices\<close>

definition indices :: "xxh \<Rightarrow> cuckoo \<Rightarrow> bytes \<Rightarrow> u64 \<times> u16" where
  "indices xx f i = (let h = xx i in (h AND cf_mask f, max (ucast h) 1))"

definition alt_index :: "cuckoo \<Rightarrow> u64 \<Rightarrow> u16 \<Rightarrow> u64" where
  "alt_index f i fp = (let delta = ucast fp * GOLDEN64 in (i XOR delta) AND cf_mask f)"

section \<open>Operations\<close>

definition bucket_at :: "cuckoo \<Rightarrow> u64 \<Rightarrow> u16 list" where
  "bucket_at f i = cf_buckets f ! unat i"

text \<open>The first empty slot of a bucket.\<close>

definition free_slot :: "u16 list \<Rightarrow> nat option" where
  "free_slot b = List.find (\<lambda>s. b ! s = 0) [0..<SLOTS]"

definition set_slot :: "cuckoo \<Rightarrow> u64 \<Rightarrow> nat \<Rightarrow> u16 \<Rightarrow> cuckoo" where
  "set_slot f i s fp = f\<lparr>cf_buckets := (cf_buckets f)[unat i := (bucket_at f i)[s := fp]]\<rparr>"

fun kick_loop :: "nat \<Rightarrow> u64 \<Rightarrow> u16 \<Rightarrow> cuckoo \<Rightarrow> bool \<times> cuckoo" where
  "kick_loop 0 i fp f = (False, f)"
| "kick_loop (Suc n) i fp f =
     (case free_slot (bucket_at f i) of
        Some s \<Rightarrow> (True, (set_slot f i s fp)\<lparr>cf_count := cf_count f + 1\<rparr>)
      | None \<Rightarrow>
          (let s = unat fp mod SLOTS; fp' = bucket_at f i ! s; f' = set_slot f i s fp
           in kick_loop n (alt_index f' i fp') fp' f'))"

text \<open>Place a bare fingerprint in the doubled table.\<close>

definition place_slot :: "nat \<Rightarrow> u16 \<Rightarrow> u16 list list \<Rightarrow> u16 list list" where
  "place_slot i fp bs =
     (case free_slot (bs ! i) of Some s \<Rightarrow> bs[i := (bs ! i)[s := fp]] | None \<Rightarrow> bs)"

definition rehash_one :: "xxh \<Rightarrow> u64 \<Rightarrow> u16 \<Rightarrow> u16 list list \<Rightarrow> u16 list list" where
  "rehash_one xx new_mask fp bs =
     (let h = xx (le16 fp); i1 = h AND new_mask; bs1 = place_slot (unat i1) fp bs
      in if fp \<in> set (bs1 ! unat i1) then bs1
         else
           let delta = (ucast fp * GOLDEN64) AND new_mask; i2 = (i1 XOR delta) AND new_mask
           in place_slot (unat i2) fp bs1)"

definition grow :: "xxh \<Rightarrow> cuckoo \<Rightarrow> bool \<times> cuckoo" where
  "grow xx f =
     (let cur = length (cf_buckets f) in
      if cur = 0 \<or> 2 ^ MAX_BITS \<le> cur then (False, f)
      else
        let fps = filter (\<lambda>fp. fp \<noteq> 0) (concat (cf_buckets f));
            new_mask = word_of_nat (cur * 2 - 1);
            bs = fold (rehash_one xx new_mask) fps (replicate (cur * 2) EMPTY_BUCKET)
        in (True, f\<lparr>cf_buckets := bs, cf_mask := new_mask\<rparr>))"

definition filter_insert :: "xxh \<Rightarrow> bytes \<Rightarrow> cuckoo \<Rightarrow> bool \<times> cuckoo" where
  "filter_insert xx i f =
     (if cf_saturated f then (False, f)
      else
        let (i1, fp) = indices xx f i in
        case kick_loop KICKS i1 fp f of
          (True, f') \<Rightarrow> (True, f')
        | (False, f') \<Rightarrow>
            (case grow xx f' of
               (False, f2) \<Rightarrow> (False, f2\<lparr>cf_saturated := True\<rparr>)
             | (True, f2) \<Rightarrow>
                 (let (i2, fp2) = indices xx f2 i in
                  case free_slot (bucket_at f2 i2) of
                    Some s \<Rightarrow> (True, (set_slot f2 i2 s fp2)\<lparr>cf_count := cf_count f2 + 1\<rparr>)
                  | None \<Rightarrow> (False, f2\<lparr>cf_saturated := True\<rparr>))))"

definition filter_contains :: "xxh \<Rightarrow> bytes \<Rightarrow> cuckoo \<Rightarrow> bool" where
  "filter_contains xx i f \<longleftrightarrow>
     (if cf_saturated f then True
      else
        let (i1, fp) = indices xx f i; i2 = alt_index f i1 fp
        in fp \<in> set (bucket_at f i1) \<or> fp \<in> set (bucket_at f i2))"

definition filter_clear :: "cuckoo \<Rightarrow> cuckoo" where
  "filter_clear f =
     f\<lparr>cf_buckets := map (\<lambda>b. EMPTY_BUCKET) (cf_buckets f), cf_count := 0, cf_saturated := False\<rparr>"

section \<open>Shape\<close>

definition cuckoo_wf :: "cuckoo \<Rightarrow> bool" where
  "cuckoo_wf f \<longleftrightarrow>
     (\<exists>m \<le> 62. length (cf_buckets f) = 2 ^ m \<and> cf_mask f = mask m) \<and>
     (\<forall>b \<in> set (cf_buckets f). length b = SLOTS)"

lemma next_power_of_two_pow: "\<exists>m. next_power_of_two n = 2 ^ m \<and> (0 < m \<longrightarrow> 2 ^ m < 2 * n)"
proof (induction n rule: next_power_of_two.induct)
  case (1 n)
  show ?case
  proof (cases "n \<le> 1")
    case False
    then obtain m where m: "next_power_of_two ((n + 1) div 2) = 2 ^ m" "0 < m \<longrightarrow> 2 ^ m < 2 * ((n + 1) div 2)"
      using 1 by blast
    have "next_power_of_two n = 2 ^ Suc m" using False m(1) by (subst next_power_of_two.simps) simp
    moreover have "2 ^ Suc m < 2 * n"
    proof (cases "m = 0")
      case mp: False
      have "2 ^ m \<noteq> n"
      proof
        assume e: "2 ^ m = n"
        then have "even n" using mp by auto
        then show False using m(2) mp e by auto
      qed
      then show ?thesis using m(2) mp by (auto simp: less_Suc_eq)
    qed (use False in simp)
    ultimately show ?thesis by (intro exI [of _ "Suc m"]) simp
  qed (auto simp: next_power_of_two.simps intro!: exI [of _ 0])
qed

lemma with_capacity_wf:
  assumes "cap < 2 ^ 63"
  shows "cuckoo_wf (with_capacity cap)" "\<not> cf_saturated (with_capacity cap)"
proof -
  obtain m where m: "next_power_of_two (cap div SLOTS) = 2 ^ m" "0 < m \<longrightarrow> 2 ^ m < 2 * (cap div SLOTS)"
    using next_power_of_two_pow by blast
  define m' where "m' = max m 2"
  have "max (2 ^ m) 4 = (2 :: nat) ^ m'"
  proof (cases "2 \<le> m")
    case True
    then have "(2 :: nat) ^ 2 \<le> 2 ^ m" by (intro power_increasing) simp_all
    then show ?thesis using True by (simp add: m'_def max_def)
  next
    case False
    then have "(2 :: nat) ^ m \<le> 2 ^ 2" by (intro power_increasing) simp_all
    then show ?thesis using False by (simp add: m'_def max_def)
  qed
  moreover have "m' \<le> 62"
  proof (rule ccontr)
    assume "\<not> m' \<le> 62"
    then have "(2 :: nat) ^ 63 \<le> 2 ^ m" by (intro power_increasing) (auto simp: m'_def max_def split: if_splits)
    moreover have "(2 :: nat) ^ m < 2 ^ 63"
      using m(2) assms \<open>\<not> m' \<le> 62\<close> by (auto simp: SLOTS_def m'_def max_def split: if_splits)
    ultimately show False by simp
  qed
  moreover have "word_of_nat (2 ^ n - 1) = (mask n :: u64)" for n
    by (simp add: mask_eq_exp_minus_1 of_nat_diff)
  ultimately show "cuckoo_wf (with_capacity cap)" "\<not> cf_saturated (with_capacity cap)"
    by (auto simp: cuckoo_wf_def with_capacity_def Let_def m EMPTY_BUCKET_def)
qed

section \<open>The two candidate buckets\<close>

lemma alt_index_involution:
  "i AND cf_mask f = i \<Longrightarrow> alt_index f (alt_index f i fp) fp = i"
proof -
  define d where "d = ucast fp * GOLDEN64"
  have "(((i XOR d) AND m) XOR d) AND m = i AND m" for m :: u64
    by (rule bit_word_eqI) (auto simp: bit_simps)
  then show "i AND cf_mask f = i \<Longrightarrow> alt_index f (alt_index f i fp) fp = i"
    by (simp add: alt_index_def Let_def d_def [symmetric])
qed

lemma masked [simp]: "alt_index f i fp AND cf_mask f = alt_index f i fp"
  by (simp add: alt_index_def Let_def and.assoc)

lemma masked_bound:
  assumes "cuckoo_wf f" "i AND cf_mask f = i"
  shows "unat i < length (cf_buckets f)"
proof -
  obtain m where m: "m \<le> 62" "length (cf_buckets f) = 2 ^ m" "cf_mask f = mask m"
    using assms(1) by (auto simp: cuckoo_wf_def)
  have "i = take_bit m i" using assms(2) by (simp add: m take_bit_eq_mask)
  then have "unat i = take_bit m (unat i)" by (metis unsigned_take_bit_eq)
  then show ?thesis using take_bit_nat_less_exp [of m "unat i"] m(2) by simp
qed

lemma indices_facts:
  assumes "indices xx f x = (i, fp)"
  shows "i AND cf_mask f = i" "fp \<noteq> 0"
proof -
  show "i AND cf_mask f = i" using assms by (auto simp: indices_def Let_def and.assoc)
  have "max a 1 \<noteq> (0 :: u16)" for a by (metis max.cobounded2 not_less_zero word_gt_0 zero_neq_one word_le_0_iff)
  then show "fp \<noteq> 0" using assms by (auto simp: indices_def Let_def)
qed

lemma free_slot_Some: "free_slot b = Some s \<Longrightarrow> s < SLOTS \<and> b ! s = 0"
  by (auto simp: free_slot_def find_Some_iff)

lemma set_slot_wf:
  assumes "cuckoo_wf f" "i AND cf_mask f = i"
  shows "cuckoo_wf (set_slot f i s fp)"
proof -
  have b: "length (bucket_at f i) = SLOTS"
    using assms(1) masked_bound [OF assms] by (auto simp: cuckoo_wf_def bucket_at_def)
  have "length c = SLOTS" if "c \<in> set ((cf_buckets f)[unat i := (bucket_at f i)[s := fp]])" for c
  proof -
    have "c = (bucket_at f i)[s := fp] \<or> c \<in> set (cf_buckets f)"
      using subsetD [OF set_update_subset_insert that] by simp
    then show ?thesis using b assms(1) by (auto simp: cuckoo_wf_def)
  qed
  then show ?thesis using assms(1) by (auto simp: cuckoo_wf_def set_slot_def)
qed

lemma set_slot_bucket:
  assumes "cuckoo_wf f" "i AND cf_mask f = i"
  shows "bucket_at (set_slot f i s fp) j = (if j = i then (bucket_at f i)[s := fp] else bucket_at f j)"
proof -
  have "unat i = unat j \<longleftrightarrow> j = i" by (auto simp: word_unat_eq_iff)
  then show ?thesis using masked_bound [OF assms] by (simp add: set_slot_def bucket_at_def nth_list_update)
qed

lemma set_slot_fields [simp]:
  "cf_mask (set_slot f i s fp) = cf_mask f" "cf_saturated (set_slot f i s fp) = cf_saturated f"
  "cf_count (set_slot f i s fp) = cf_count f"
  by (simp_all add: set_slot_def)

section \<open>Held fingerprints\<close>

definition pair_of :: "xxh \<Rightarrow> cuckoo \<Rightarrow> bytes \<Rightarrow> u64 set" where
  "pair_of xx f x = (case indices xx f x of (i, fp) \<Rightarrow> {i, alt_index f i fp})"

definition held :: "xxh \<Rightarrow> cuckoo \<Rightarrow> bytes \<Rightarrow> bool" where
  "held xx f x \<longleftrightarrow> (\<exists>j \<in> pair_of xx f x. snd (indices xx f x) \<in> set (bucket_at f j))"

lemma contains_held: "filter_contains xx x f \<longleftrightarrow> cf_saturated f \<or> held xx f x"
  by (auto simp: filter_contains_def held_def pair_of_def Let_def split: prod.splits)

lemma indices_cong: "cf_mask f' = cf_mask f \<Longrightarrow> indices xx f' x = indices xx f x"
  "cf_mask f' = cf_mask f \<Longrightarrow> alt_index f' i fp = alt_index f i fp"
  "cf_mask f' = cf_mask f \<Longrightarrow> pair_of xx f' x = pair_of xx f x"
  by (simp_all add: indices_def alt_index_def pair_of_def)

lemma pair_alt: "j \<in> pair_of xx f x \<Longrightarrow> alt_index f j (snd (indices xx f x)) \<in> pair_of xx f x"
  using alt_index_involution indices_facts(1) by (fastforce simp: pair_of_def split: prod.splits)

lemma pair_masked: "j \<in> pair_of xx f x \<Longrightarrow> j AND cf_mask f = j"
  using indices_facts(1) by (fastforce simp: pair_of_def split: prod.splits)

lemma update_member: "v \<in> set b \<Longrightarrow> s < length b \<Longrightarrow> b ! s \<noteq> v \<Longrightarrow> v \<in> set (b[s := w])"
  by (metis in_set_conv_nth length_list_update nth_list_update_neq)

lemma kick_loop_keeps:
  assumes "cuckoo_wf f" "i AND cf_mask f = i"
    and "held xx f x \<or> fp = snd (indices xx f x) \<and> i \<in> pair_of xx f x"
    and "kick_loop n i fp f = (True, f')"
  shows "held xx f' x"
  using assms
proof (induction n arbitrary: i fp f)
  case (Suc n)
  define b where "b = bucket_at f i"
  have lb: "length b = SLOTS"
    using Suc.prems(1) masked_bound [OF Suc.prems(1,2)] by (auto simp: cuckoo_wf_def bucket_at_def b_def)
  define v where "v = snd (indices xx f x)"
  have v0: "v \<noteq> 0" unfolding v_def using indices_facts(2) by (metis prod.collapse)
  note sb = set_slot_bucket [OF Suc.prems(1,2)]
  show ?case
  proof (cases "free_slot b")
    case (Some s)
    then have s: "s < SLOTS" "b ! s = 0" using free_slot_Some by auto
    define g where "g = set_slot f i s fp"
    have f': "f' = g\<lparr>cf_count := cf_count f + 1\<rparr>" using Suc.prems(4) Some by (simp add: b_def g_def)
    have bk: "bucket_at f' j = (if j = i then b[s := fp] else bucket_at f j)" for j
      using sb [of s fp j] by (simp add: f' g_def bucket_at_def b_def)
    have "held xx f' x \<longleftrightarrow> (\<exists>j \<in> pair_of xx f x. v \<in> set (bucket_at f' j))"
      using indices_cong [of f' f] by (simp add: held_def v_def f' g_def)
    moreover have "v \<in> set (bucket_at f' j)" if "v \<in> set (bucket_at f j)" for j
      using that update_member [of v b s fp] lb s v0 by (auto simp: bk b_def)
    moreover have "fp \<in> set (bucket_at f' i)" using lb s by (simp add: bk set_update_memI)
    ultimately show ?thesis using Suc.prems(3) by (auto simp: held_def v_def)
  next
    case None
    define s where "s = unat fp mod SLOTS"
    define w where "w = b ! s"
    define g where "g = set_slot f i s fp"
    have s: "s < length b" by (simp add: s_def lb SLOTS_def)
    have step: "kick_loop n (alt_index g i w) w g = (True, f')"
      using Suc.prems(4) None by (simp add: b_def s_def w_def g_def Let_def)
    have bk: "bucket_at g j = (if j = i then b[s := fp] else bucket_at f j)" for j
      using sb [of s fp j] by (simp add: g_def b_def)
    have cong: "cf_mask g = cf_mask f" "indices xx g x = indices xx f x" "pair_of xx g x = pair_of xx f x"
      using indices_cong [of g f] by (simp_all add: g_def)
    have h: "held xx g x \<longleftrightarrow> (\<exists>j \<in> pair_of xx f x. v \<in> set (bucket_at g j))"
      by (simp add: held_def v_def cong)
    have "held xx g x \<or> w = v \<and> alt_index g i w \<in> pair_of xx f x"
      using Suc.prems(3)
    proof
      assume "held xx f x"
      then obtain j where j: "j \<in> pair_of xx f x" "v \<in> set (bucket_at f j)" by (auto simp: held_def v_def)
      show ?thesis
      proof (cases "j = i \<and> w = v")
        case True
        then show ?thesis using pair_alt [OF j(1)] indices_cong(2) [OF cong(1)] by (simp add: v_def)
      next
        case False
        then have "v \<in> set (bucket_at g j)" using j(2) update_member [of v b s fp] s by (auto simp: bk b_def w_def)
        then show ?thesis using j(1) h by auto
      qed
    next
      assume "fp = snd (indices xx f x) \<and> i \<in> pair_of xx f x"
      moreover have "fp \<in> set (bucket_at g i)" using s by (simp add: bk set_update_memI)
      ultimately show ?thesis using h by (auto simp: v_def)
    qed
    then have "held xx g x \<or> w = snd (indices xx g x) \<and> alt_index g i w \<in> pair_of xx g x"
      by (simp only: cong v_def)
    moreover have "cuckoo_wf g" unfolding g_def by (rule set_slot_wf [OF Suc.prems(1,2)])
    ultimately show ?thesis using Suc.IH [OF _ masked _ step] by blast
  qed
qed simp

lemma kick_loop_fields:
  "kick_loop n i fp f = (r, f') \<Longrightarrow> cf_mask f' = cf_mask f \<and> cf_saturated f' = cf_saturated f"
  by (induction n arbitrary: i fp f) (auto simp: Let_def split: option.splits)

lemma kick_loop_wf:
  "cuckoo_wf f \<Longrightarrow> i AND cf_mask f = i \<Longrightarrow> kick_loop n i fp f = (r, f') \<Longrightarrow> cuckoo_wf f'"
proof (induction n arbitrary: i fp f)
  case (Suc n)
  have upd: "cuckoo_wf (g\<lparr>cf_count := c\<rparr>) = cuckoo_wf g" for g c by (simp add: cuckoo_wf_def)
  show ?case
  proof (cases "free_slot (bucket_at f i)")
    case (Some s)
    then show ?thesis using Suc.prems(3) set_slot_wf [OF Suc.prems(1,2)] by (auto simp: upd)
  next
    case None
    define s where "s = unat fp mod SLOTS"
    define w where "w = bucket_at f i ! s"
    define g where "g = set_slot f i s fp"
    have "kick_loop n (alt_index g i w) w g = (r, f')"
      using Suc.prems(3) None by (simp add: s_def w_def g_def Let_def)
    moreover have "cuckoo_wf g" unfolding g_def by (rule set_slot_wf [OF Suc.prems(1,2)])
    ultimately show ?thesis using Suc.IH [OF _ masked] by blast
  qed
qed simp

section \<open>Growing\<close>

lemma place_slot_shape:
  assumes "\<forall>b \<in> set bs. length b = SLOTS"
  shows "length (place_slot i fp bs) = length bs" "\<forall>b \<in> set (place_slot i fp bs). length b = SLOTS"
proof -
  show "length (place_slot i fp bs) = length bs" by (simp add: place_slot_def split: option.split)
  show "\<forall>b \<in> set (place_slot i fp bs). length b = SLOTS"
  proof (cases "i < length bs")
    case True
    have "length c = SLOTS" if "c \<in> set (bs[i := (bs ! i)[s := fp]])" for c s
    proof -
      have "c = (bs ! i)[s := fp] \<or> c \<in> set bs" using subsetD [OF set_update_subset_insert that] by simp
      then show ?thesis using assms True by auto
    qed
    then show ?thesis using assms by (auto simp: place_slot_def split: option.split)
  next
    case False
    then show ?thesis using assms by (simp add: place_slot_def list_update_beyond split: option.split)
  qed
qed

lemma rehash_shape:
  assumes "\<forall>b \<in> set bs. length b = SLOTS"
  shows "length (fold (rehash_one xx m) fps bs) = length bs \<and>
    (\<forall>b \<in> set (fold (rehash_one xx m) fps bs). length b = SLOTS)"
  using assms
proof (induction fps arbitrary: bs)
  case (Cons fp fps)
  have "length (rehash_one xx m fp bs) = length bs" "\<forall>b \<in> set (rehash_one xx m fp bs). length b = SLOTS"
    using place_slot_shape [OF Cons.prems] place_slot_shape [OF place_slot_shape(2) [OF Cons.prems]]
    by (simp_all add: rehash_one_def Let_def)
  then show ?case using Cons.IH by simp
qed simp

lemma grow_facts:
  assumes "cuckoo_wf f" "grow xx f = (r, f')"
  shows "cuckoo_wf f'" "cf_saturated f' = cf_saturated f" "r \<Longrightarrow> cf_mask f' \<noteq> cf_mask f" "\<not> r \<Longrightarrow> f' = f"
proof -
  obtain m where m: "m \<le> 62" "length (cf_buckets f) = 2 ^ m" "cf_mask f = mask m"
    using assms(1) by (auto simp: cuckoo_wf_def)
  have mk: "word_of_nat (2 ^ m * 2 - 1) = (mask (Suc m) :: u64)"
    by (simp add: mask_eq_exp_minus_1 of_nat_diff mult.commute)
  have ne: "mask (Suc m) \<noteq> (mask m :: u64)"
  proof
    assume "mask (Suc m) = (mask m :: u64)"
    then have "bit (mask (Suc m) :: u64) m = bit (mask m :: u64) m" by simp
    then show False using m(1) by (simp add: bit_mask_iff)
  qed
  show "cf_saturated f' = cf_saturated f" "r \<Longrightarrow> cf_mask f' \<noteq> cf_mask f" "\<not> r \<Longrightarrow> f' = f"
    using assms(2) [unfolded grow_def Let_def m(2,3) mk] ne m(3) by (auto split: if_splits)
  show "cuckoo_wf f'"
  proof (cases "2 ^ MAX_BITS \<le> (2 :: nat) ^ m")
    case True
    then show ?thesis using assms by (auto simp: grow_def Let_def m(2))
  next
    case False
    then have "m < MAX_BITS" by (metis not_less one_le_numeral power_increasing)
    then have "m \<le> 61" by (simp add: MAX_BITS_def)
    define fps where "fps = filter (\<lambda>fp. fp \<noteq> 0) (concat (cf_buckets f))"
    have f': "f' = f\<lparr>cf_buckets := fold (rehash_one xx (mask (Suc m))) fps (replicate (2 ^ m * 2) EMPTY_BUCKET),
      cf_mask := mask (Suc m)\<rparr>"
      using assms(2) [unfolded grow_def Let_def m(2) mk] False by (simp add: fps_def)
    have "\<forall>b \<in> set (replicate (2 ^ m * 2) EMPTY_BUCKET). length b = SLOTS" by (simp add: EMPTY_BUCKET_def)
    from rehash_shape [OF this, of xx "mask (Suc m)" fps]
    show ?thesis using \<open>m \<le> 61\<close> by (auto simp: cuckoo_wf_def f' intro!: exI [of _ "Suc m"])
  qed
qed

section \<open>Insertion\<close>

definition cuckoo_ok :: "xxh \<Rightarrow> bytes set \<Rightarrow> cuckoo \<Rightarrow> bool" where
  "cuckoo_ok xx S f \<longleftrightarrow> cuckoo_wf f \<and> (\<forall>x \<in> S. filter_contains xx x f)"

lemma filter_insert_wf:
  assumes "cuckoo_wf f" "filter_insert xx i f = (r, f')"
  shows "cuckoo_wf f'"
proof (cases "cf_saturated f")
  case True
  then show ?thesis using assms by (simp add: filter_insert_def)
next
  case False
  have upd: "cuckoo_wf (g\<lparr>cf_count := c\<rparr>) = cuckoo_wf g" "cuckoo_wf (g\<lparr>cf_saturated := b\<rparr>) = cuckoo_wf g" for g c b
    by (simp_all add: cuckoo_wf_def)
  obtain j fp where j: "indices xx f i = (j, fp)" by force
  obtain k g where k: "kick_loop KICKS j fp f = (k, g)" by force
  have g: "cuckoo_wf g" using kick_loop_wf [OF assms(1) indices_facts(1) [OF j] k] .
  obtain q h where q: "grow xx g = (q, h)" by force
  have h: "cuckoo_wf h" using grow_facts(1) [OF g q] .
  obtain j' fp' where j': "indices xx h i = (j', fp')" by force
  have "cuckoo_wf (set_slot h j' s fp')" for s using set_slot_wf [OF h indices_facts(1) [OF j']] .
  then show ?thesis using assms(2) False j k g q h j'
    by (auto simp: filter_insert_def upd split: bool.splits option.splits)
qed

lemma filter_insert_contains:
  assumes "cuckoo_wf f" "filter_insert xx i f = (r, f')" "cf_mask f' = cf_mask f"
    and "x = i \<or> filter_contains xx x f"
  shows "filter_contains xx x f'"
proof (cases "cf_saturated f")
  case True
  then show ?thesis using assms(2) by (auto simp: filter_insert_def contains_held)
next
  case False
  obtain j fp where j: "indices xx f i = (j, fp)" by force
  obtain k g where k: "kick_loop KICKS j fp f = (k, g)" by force
  show ?thesis
  proof (cases k)
    case True
    then have f': "f' = g" using assms(2) False j k by (simp add: filter_insert_def)
    have "held xx f x \<or> fp = snd (indices xx f x) \<and> j \<in> pair_of xx f x"
      using assms(4) False j by (auto simp: contains_held pair_of_def)
    then show ?thesis
      using kick_loop_keeps [OF assms(1) indices_facts(1) [OF j]] k True by (simp add: f' contains_held)
  next
    case nk: False
    obtain q h where q: "grow xx g = (q, h)" by force
    have gw: "cuckoo_wf g" using kick_loop_wf [OF assms(1) indices_facts(1) [OF j] k] .
    have mg: "cf_mask g = cf_mask f" using kick_loop_fields [OF k] by simp
    show ?thesis
    proof (cases q)
      case True
      then have "cf_mask h \<noteq> cf_mask f" using grow_facts(3) [OF gw q] mg by simp
      moreover have "cf_mask f' = cf_mask h"
        using assms(2) False j k nk q True
        by (auto simp: filter_insert_def split: prod.splits option.splits)
      ultimately show ?thesis using assms(3) by simp
    next
      case False
      then show ?thesis using assms(2) \<open>\<not> cf_saturated f\<close> j k nk q
        by (auto simp: filter_insert_def contains_held)
    qed
  qed
qed

lemma filter_clear_facts:
  assumes "cuckoo_wf f"
  shows "cuckoo_wf (filter_clear f)" "\<not> filter_contains xx x (filter_clear f)"
proof -
  show w: "cuckoo_wf (filter_clear f)" using assms by (auto simp: cuckoo_wf_def filter_clear_def EMPTY_BUCKET_def)
  obtain j fp where j: "indices xx (filter_clear f) x = (j, fp)" by force
  have e: "set (bucket_at (filter_clear f) i) = {0}" if "i AND cf_mask (filter_clear f) = i" for i
    using masked_bound [OF w that] by (auto simp: bucket_at_def filter_clear_def EMPTY_BUCKET_def SLOTS_def)
  show "\<not> filter_contains xx x (filter_clear f)"
    using e [OF indices_facts(1) [OF j]] e [OF masked] indices_facts(2) [OF j] j
    by (simp add: filter_contains_def Let_def filter_clear_def)
qed

section \<open>Runs\<close>

definition filter_len :: "cuckoo \<Rightarrow> u64" where
  "filter_len f = cf_count f"

definition filter_is_empty :: "cuckoo \<Rightarrow> bool" where
  "filter_is_empty f \<longleftrightarrow> filter_len f = 0"

definition filter_capacity :: "cuckoo \<Rightarrow> nat" where
  "filter_capacity f = length (cf_buckets f) * SLOTS"

text \<open>A caller's sequence of updates, and the ids inserted since the last \<open>clear\<close>.\<close>

datatype filter_op = FInsert bytes | FClear

fun filter_apply :: "xxh \<Rightarrow> filter_op \<Rightarrow> cuckoo \<Rightarrow> cuckoo" where
  "filter_apply xx (FInsert i) f = snd (filter_insert xx i f)"
| "filter_apply xx FClear f = filter_clear f"

fun filter_members :: "filter_op \<Rightarrow> bytes set \<Rightarrow> bytes set" where
  "filter_members (FInsert i) S = insert i S"
| "filter_members FClear S = {}"

lemma kick_loop_length: "length (cf_buckets (snd (kick_loop n i fp f))) = length (cf_buckets f)"
  by (induction n arbitrary: i fp f) (auto simp: Let_def set_slot_def split: option.splits)

lemma grow_length: "length (cf_buckets f) \<le> length (cf_buckets (snd (grow xx f)))"
proof -
  have one: "length (rehash_one xx m fp bs) = length bs" for m fp bs
    by (auto simp: rehash_one_def Let_def place_slot_def split: option.splits)
  have "length (fold (rehash_one xx m) fps bs) = length bs" for m fps bs
    by (induction fps arbitrary: bs) (simp_all add: one)
  then show ?thesis by (simp add: grow_def Let_def)
qed

lemma filter_insert_length: "length (cf_buckets f) \<le> length (cf_buckets (snd (filter_insert xx i f)))"
proof -
  obtain j fp where j: "indices xx f i = (j, fp)" by force
  obtain k g where k: "kick_loop KICKS j fp f = (k, g)" by force
  obtain q h where q: "grow xx g = (q, h)" by force
  have "length (cf_buckets f) = length (cf_buckets g)" using kick_loop_length [of KICKS j fp f] k by simp
  moreover have "length (cf_buckets g) \<le> length (cf_buckets h)" using grow_length [of g xx] q by simp
  ultimately show ?thesis using j k q
    by (auto simp: filter_insert_def set_slot_def split: bool.splits option.splits prod.splits)
qed

lemma filter_apply_length: "length (cf_buckets f) \<le> length (cf_buckets (filter_apply xx p f))"
  by (cases p) (simp_all add: filter_insert_length filter_clear_def)

lemma filter_run_length: "length (cf_buckets f) \<le> length (cf_buckets (fold (filter_apply xx) ops f))"
  by (induction ops arbitrary: f) (auto intro: order_trans filter_apply_length)

lemma cuckoo_mask_length: "cuckoo_wf f \<Longrightarrow> cuckoo_wf g \<Longrightarrow> length (cf_buckets f) = length (cf_buckets g) \<Longrightarrow> cf_mask f = cf_mask g"
  by (auto simp: cuckoo_wf_def)

lemma filter_apply_ok:
  assumes "cuckoo_ok xx S f"
  shows "cuckoo_wf (filter_apply xx p f)"
    and "length (cf_buckets (filter_apply xx p f)) = length (cf_buckets f) \<Longrightarrow>
      cuckoo_ok xx (filter_members p S) (filter_apply xx p f)"
proof -
  have w: "cuckoo_wf f" using assms by (simp add: cuckoo_ok_def)
  show w': "cuckoo_wf (filter_apply xx p f)"
    using filter_insert_wf [OF w prod.collapse [symmetric]] filter_clear_facts(1) [OF w] by (cases p) simp_all
  assume "length (cf_buckets (filter_apply xx p f)) = length (cf_buckets f)"
  then have m: "cf_mask (filter_apply xx p f) = cf_mask f" using cuckoo_mask_length [OF w' w] by simp
  show "cuckoo_ok xx (filter_members p S) (filter_apply xx p f)"
  proof (cases p)
    case (FInsert i)
    then show ?thesis using assms w' m filter_insert_contains [OF w, of xx i "fst (filter_insert xx i f)" "snd (filter_insert xx i f)"]
      by (auto simp: cuckoo_ok_def)
  next
    case FClear
    then show ?thesis using w' by (simp add: cuckoo_ok_def)
  qed
qed

lemma filter_run_ok:
  assumes "cuckoo_ok xx S f" "length (cf_buckets (fold (filter_apply xx) ops f)) = length (cf_buckets f)"
  shows "cuckoo_ok xx (fold filter_members ops S) (fold (filter_apply xx) ops f)"
  using assms
proof (induction ops arbitrary: S f)
  case (Cons p ops)
  have l: "length (cf_buckets (filter_apply xx p f)) = length (cf_buckets f)"
    using Cons.prems(2) filter_apply_length [of f xx p] filter_run_length [of "filter_apply xx p f" xx ops] by simp
  show ?case using Cons.IH [OF filter_apply_ok(2) [OF Cons.prems(1) l]] Cons.prems(2) l by simp
qed simp

text \<open>C19: For every sequence of inserts and clears on a new filter, as long as the table has
  not been doubled, \<open>contains\<close> answers true for every id inserted since the last clear (no false
  negatives), whatever the hash and however many evictions took place.\<close>

theorem filter_no_false_negatives:
  assumes "cap < 2 ^ 63"
    and "f = fold (filter_apply xx) ops (with_capacity cap)"
    and "filter_capacity f = filter_capacity (with_capacity cap)"
    and "x \<in> fold filter_members ops {}"
  shows "filter_contains xx x f"
proof -
  have "cuckoo_ok xx {} (with_capacity cap)" using with_capacity_wf(1) [OF assms(1)] by (simp add: cuckoo_ok_def)
  from filter_run_ok [OF this] show ?thesis
    using assms by (auto simp: filter_capacity_def SLOTS_def cuckoo_ok_def)
qed

text \<open>A hash for the examples: the first byte, doubled when more bytes follow.\<close>

definition demo_xx :: xxh where
  "demo_xx b = (case b of [] \<Rightarrow> 1 | [x] \<Rightarrow> ucast x | x # y # r \<Rightarrow> ucast x + 3)"

theorem filter_no_false_negatives_witness:
  "filter_contains demo_xx [7] (fold (filter_apply demo_xx) [FInsert [7], FInsert [9]] (with_capacity 16))"
proof (rule filter_no_false_negatives [of 16 _ _ "[FInsert [7], FInsert [9]]"])
  show "filter_capacity (fold (filter_apply demo_xx) [FInsert [7], FInsert [9]] (with_capacity 16)) =
    filter_capacity (with_capacity 16)"
    by code_simp
qed simp_all

text \<open>Doubling the table can lose ids: with a hash for which the 16-bit fingerprint of an
  id hashes to a bucket other than the id's two candidates, the id is found before \<open>grow\<close> and
  reported definitely absent after it, although the filter is not saturated.\<close>

theorem grow_loses_id:
  "\<exists>f. f = snd (filter_insert demo_xx [7] (with_capacity 16)) \<and> filter_contains demo_xx [7] f \<and>
     fst (grow demo_xx f) \<and> \<not> cf_saturated (snd (grow demo_xx f)) \<and>
     \<not> filter_contains demo_xx [7] (snd (grow demo_xx f))"
  unfolding simp_thms by code_simp

text \<open>After \<open>clear\<close> the filter reports every id absent and is no longer saturated; before
  it, a saturated filter reports every id as possibly present.\<close>

theorem filter_clear_recovers:
  assumes "cap < 2 ^ 63" and "f = fold (filter_apply xx) ops (with_capacity cap)"
  shows "cuckoo_wf f \<and> \<not> filter_contains xx x (filter_clear f) \<and> filter_is_empty (filter_clear f) \<and>
    (cf_saturated f \<longrightarrow> filter_contains xx x f)"
proof -
  have "cuckoo_wf (fold (filter_apply xx) ops g)" if "cuckoo_wf g" for g
    using that
  proof (induction ops arbitrary: g)
    case (Cons p ops)
    have "cuckoo_ok xx {} g" using Cons.prems by (simp add: cuckoo_ok_def)
    then show ?case using Cons.IH [OF filter_apply_ok(1)] by simp
  qed simp
  then have "cuckoo_wf f" using with_capacity_wf(1) [OF assms(1)] assms(2) by simp
  then show ?thesis using filter_clear_facts
    by (simp add: filter_is_empty_def filter_len_def filter_clear_def contains_held)
qed

theorem filter_clear_recovers_witness:
  "\<not> filter_contains demo_xx [7] (filter_clear (fold (filter_apply demo_xx) [FInsert [7]] (with_capacity 16)))"
  using filter_clear_recovers [of 16 _ demo_xx "[FInsert [7]]" "[7]"] by simp

end
