(* ===== verification/Compress.thy ===== *)
theory Compress
  imports Prelude "HOL-Library.Multiset"
begin

text \<open>
  The compression layer: \<open>crates/compress/src/lib.rs\<close> (per-block zstd with a dictionary, the
  per-thread context caches, dictionary training) and \<open>crates/compress/src/delta.rs\<close>
  (compression against a reference block).  The zstd library is the parameter \<open>z\<close>: building
  a context, compressing and decompressing with it, and the content size a frame declares.
  The caches of the running thread are explicit state.
\<close>

section \<open>The zstd library\<close>

record zstd =
  z_new_enc :: "int \<Rightarrow> bytes option \<Rightarrow> (unit, string) outcome"
  z_new_dec :: "bytes option \<Rightarrow> (unit, string) outcome"
  z_compress :: "int \<Rightarrow> bytes option \<Rightarrow> bytes \<Rightarrow> (bytes, string) outcome"
  z_decompress :: "bytes option \<Rightarrow> bytes \<Rightarrow> nat \<Rightarrow> (bytes, string) outcome"
  z_content_size :: "bytes \<Rightarrow> nat option"

text \<open>
  What the code relies on: a dictionary that an encoder context loads is loaded by a decoder context
  too (zstd refuses malformed dictionaries in both), a bulk frame declares its content size, and a
  decoder with the same dictionary and room for that size restores the input.
\<close>

definition zstd_ok :: "zstd \<Rightarrow> bool" where
  "zstd_ok z \<longleftrightarrow>
     (\<forall>l d x y. z_new_enc z l d = Ok () \<and> z_compress z l d x = Ok y \<longrightarrow>
        z_new_dec z d = Ok () \<and> z_content_size z y = Some (length x) \<and> z_decompress z d y (length x) = Ok x)"

section \<open>State\<close>

datatype compress_error = Encode string | Decode string | DictId u64 u64

record dict =
  dict_id :: u64
  dict_content :: bytes

definition dict_from_content :: "u64 \<Rightarrow> bytes \<Rightarrow> dict" where
  "dict_from_content i b = \<lparr>dict_id = i, dict_content = b\<rparr>"

definition dict_empty :: dict where
  "dict_empty = \<lparr>dict_id = 0, dict_content = []\<rparr>"

definition dict_is_empty :: "dict \<Rightarrow> bool" where
  "dict_is_empty d \<longleftrightarrow> dict_content d = []"

record compressor =
  c_dict :: dict
  c_level :: int
  c_min_block :: nat

definition compressor_new :: "dict \<Rightarrow> int \<Rightarrow> compressor" where
  "compressor_new d l = \<lparr>c_dict = d, c_level = l, c_min_block = 32\<rparr>"

definition compressor_default :: compressor where
  "compressor_default = compressor_new dict_empty 19"

definition set_dict :: "dict \<Rightarrow> compressor \<Rightarrow> compressor" where
  "set_dict d c = c\<lparr>c_dict := d\<rparr>"

definition with_level :: "int \<Rightarrow> compressor \<Rightarrow> compressor" where
  "with_level l c = \<lparr>c_dict = c_dict c, c_level = l, c_min_block = c_min_block c\<rparr>"

text \<open>
  \<open>ENC\<close> and \<open>DEC\<close>: the cached context is the level and dictionary it was built with.
\<close>

record contexts =
  ctx_enc :: "(int \<times> u64 \<times> bytes option) option"
  ctx_dec :: "(u64 \<times> bytes option) option"

definition no_contexts :: contexts where
  "no_contexts = \<lparr>ctx_enc = None, ctx_dec = None\<rparr>"

section \<open>Compression\<close>

text \<open>The dictionary a new context loads.\<close>

definition dict_arg :: "dict \<Rightarrow> bytes option" where
  "dict_arg d = (if dict_is_empty d then None else Some (dict_content d))"

definition need_rebuild_enc :: "compressor \<Rightarrow> contexts \<Rightarrow> bool" where
  "need_rebuild_enc c t \<longleftrightarrow>
     (case ctx_enc t of Some (l, d, e) \<Rightarrow> l \<noteq> c_level c \<or> d \<noteq> dict_id (c_dict c) | None \<Rightarrow> True)"

definition need_rebuild_dec :: "compressor \<Rightarrow> contexts \<Rightarrow> bool" where
  "need_rebuild_dec c t \<longleftrightarrow>
     (case ctx_dec t of Some (d, e) \<Rightarrow> d \<noteq> dict_id (c_dict c) | None \<Rightarrow> True)"

definition refresh_enc :: "zstd \<Rightarrow> compressor \<Rightarrow> contexts \<Rightarrow> (contexts, compress_error) outcome" where
  "refresh_enc z c t =
     (if need_rebuild_enc c t
      then obind (omap_err Encode (z_new_enc z (c_level c) (dict_arg (c_dict c))))
             (\<lambda>_. Ok (t\<lparr>ctx_enc := Some (c_level c, dict_id (c_dict c), dict_arg (c_dict c))\<rparr>))
      else Ok t)"

definition refresh_dec :: "zstd \<Rightarrow> compressor \<Rightarrow> contexts \<Rightarrow> (contexts, compress_error) outcome" where
  "refresh_dec z c t =
     (if need_rebuild_dec c t
      then obind (omap_err Decode (z_new_dec z (dict_arg (c_dict c))))
             (\<lambda>_. Ok (t\<lparr>ctx_dec := Some (dict_id (c_dict c), dict_arg (c_dict c))\<rparr>))
      else Ok t)"

definition enc_compress :: "zstd \<Rightarrow> contexts \<Rightarrow> bytes \<Rightarrow> (bytes, compress_error) outcome" where
  "enc_compress z t x =
     (case ctx_enc t of
        Some (l, d, e) \<Rightarrow> omap_err Encode (z_compress z l e x)
      | None \<Rightarrow> Panic)"

definition dec_decompress :: "zstd \<Rightarrow> contexts \<Rightarrow> bytes \<Rightarrow> (bytes, compress_error) outcome" where
  "dec_decompress z t body =
     (case ctx_dec t of
        Some (d, e) \<Rightarrow>
          (let cap = (case z_content_size z body of
                        Some s \<Rightarrow> s
                      | None \<Rightarrow> min (length body * 64) (2 ^ 64 - 1) + 2 ^ 20)
           in omap_err Decode (z_decompress z e body cap))
      | None \<Rightarrow> Panic)"

definition compress ::
  "zstd \<Rightarrow> compressor \<Rightarrow> bytes \<Rightarrow> contexts \<Rightarrow> (bytes, compress_error) outcome \<times> contexts" where
  "compress z c x t =
     (if length x < c_min_block c then (Ok (0 # x), t)
      else
        case refresh_enc z c t of
          Ok t' \<Rightarrow>
            (obind (enc_compress z t' x)
               (\<lambda>y. if length y + 1 \<ge> length x then Ok (0 # x) else Ok (1 # y)), t')
        | Err e \<Rightarrow> (Err e, t)
        | Panic \<Rightarrow> (Panic, t))"

definition decompress ::
  "zstd \<Rightarrow> compressor \<Rightarrow> bytes \<Rightarrow> contexts \<Rightarrow> (bytes, compress_error) outcome \<times> contexts" where
  "decompress z c x t =
     (case x of
        [] \<Rightarrow> (Err (Decode ''empty input''), t)
      | mark # body \<Rightarrow>
          if mark = 0 then (Ok body, t)
          else if mark = 1 then
            (case refresh_dec z c t of
               Ok t' \<Rightarrow> (dec_decompress z t' body, t')
             | Err e \<Rightarrow> (Err e, t)
             | Panic \<Rightarrow> (Panic, t))
          else (Err (Decode ''unknown marker''), t))"

section \<open>Dictionary training\<close>

fun train_pass :: "nat \<Rightarrow> nat \<Rightarrow> bytes list \<Rightarrow> bytes \<Rightarrow> nat \<Rightarrow> bool \<times> bytes \<times> nat" where
  "train_pass pass target [] d filled = (False, d, filled)"
| "train_pass pass target (s # ss) d filled =
     (if s = [] then train_pass pass target ss d filled
      else
        let n = min (length s) (target - filled) in
        if n = 0 then (True, d, filled)
        else
          let chunk = (if pass mod 2 = 0 then take n s else drop (length s - n) s);
              d' = d @ chunk; filled' = filled + n
          in if filled' \<ge> target then (True, d', filled') else train_pass pass target ss d' filled')"

fun train_passes :: "nat list \<Rightarrow> nat \<Rightarrow> bytes list \<Rightarrow> bytes \<Rightarrow> nat \<Rightarrow> bytes" where
  "train_passes [] target ss d filled = d"
| "train_passes (p # ps) target ss d filled =
     (case train_pass p target ss d filled of
        (stop, d', filled') \<Rightarrow> if stop then d' else train_passes ps target ss d' filled')"

definition train_dictionary :: "bytes list \<Rightarrow> nat \<Rightarrow> (bytes, compress_error) outcome" where
  "train_dictionary samples target =
     (let order = sort_key (\<lambda>i. length (samples ! i)) [0..<length samples]
      in Ok (train_passes [0..<3] target (map (\<lambda>i. samples ! i) order) [] 0))"

section \<open>Reference deltas\<close>

definition reference_dict :: "(bytes \<Rightarrow> u64) \<Rightarrow> bytes \<Rightarrow> dict" where
  "reference_dict sip r = (if r = [] then dict_empty else dict_from_content (sip r) r)"

definition compress_with_reference ::
  "zstd \<Rightarrow> (bytes \<Rightarrow> u64) \<Rightarrow> bytes \<Rightarrow> bytes \<Rightarrow> int \<Rightarrow> contexts \<Rightarrow> (bytes, compress_error) outcome \<times> contexts" where
  "compress_with_reference z sip x r level t = compress z (compressor_new (reference_dict sip r) level) x t"

definition decompress_with_reference ::
  "zstd \<Rightarrow> (bytes \<Rightarrow> u64) \<Rightarrow> bytes \<Rightarrow> bytes \<Rightarrow> int \<Rightarrow> contexts \<Rightarrow> (bytes, compress_error) outcome \<times> contexts" where
  "decompress_with_reference z sip blob r level t =
     decompress z (compressor_new (reference_dict sip r) level) blob t"

definition delta_new :: "(bytes \<Rightarrow> u64) \<Rightarrow> bytes \<Rightarrow> int \<Rightarrow> compressor" where
  "delta_new sip r level = compressor_new (reference_dict sip r) level"

fun common_prefix_len :: "bytes \<Rightarrow> bytes \<Rightarrow> nat" where
  "common_prefix_len (x # xs) (y # ys) = (if x = y then Suc (common_prefix_len xs ys) else 0)"
| "common_prefix_len _ _ = 0"

text \<open>\<open>Iterator::max_by_key\<close>: of several maxima the last is returned.\<close>

fun max_by_key :: "('a \<Rightarrow> nat) \<Rightarrow> 'a list \<Rightarrow> 'a option" where
  "max_by_key k [] = None"
| "max_by_key k (x # xs) =
     (case max_by_key k xs of
        None \<Rightarrow> Some x
      | Some y \<Rightarrow> if k x \<le> k y then Some y else Some x)"

definition pick_reference :: "bytes \<Rightarrow> bytes list \<Rightarrow> bytes option" where
  "pick_reference x cands = max_by_key (common_prefix_len x) cands"

section \<open>Cache transparency\<close>

text \<open>
  \<open>R\<close> names the dictionary behind each id.  A compressor is registered when its dictionary is the
  one its id names; the caches are coherent when their contexts hold the named dictionaries and were
  built with success.
\<close>

definition registered :: "(u64 \<Rightarrow> bytes option) \<Rightarrow> compressor \<Rightarrow> bool" where
  "registered R c \<longleftrightarrow> R (dict_id (c_dict c)) = dict_arg (c_dict c)"

definition coherent :: "zstd \<Rightarrow> (u64 \<Rightarrow> bytes option) \<Rightarrow> contexts \<Rightarrow> bool" where
  "coherent z R t \<longleftrightarrow>
     (case ctx_enc t of None \<Rightarrow> True | Some (l, d, e) \<Rightarrow> e = R d \<and> z_new_enc z l e = Ok ()) \<and>
     (case ctx_dec t of None \<Rightarrow> True | Some (d, e) \<Rightarrow> e = R d \<and> z_new_dec z e = Ok ())"

lemma coherent_empty [simp]: "coherent z R no_contexts"
  by (simp add: coherent_def no_contexts_def)

text \<open>The stateless functions that the cached ones compute.\<close>

definition compress_pure :: "zstd \<Rightarrow> compressor \<Rightarrow> bytes \<Rightarrow> (bytes, compress_error) outcome" where
  "compress_pure z c x = fst (compress z c x no_contexts)"

definition decompress_pure :: "zstd \<Rightarrow> compressor \<Rightarrow> bytes \<Rightarrow> (bytes, compress_error) outcome" where
  "decompress_pure z c x = fst (decompress z c x no_contexts)"

lemma refresh_enc_coherent:
  assumes "registered R c" "coherent z R t"
  shows "refresh_enc z c t = obind (omap_err Encode (z_new_enc z (c_level c) (dict_arg (c_dict c)))) (\<lambda>_.
      Ok (t\<lparr>ctx_enc := Some (c_level c, dict_id (c_dict c), dict_arg (c_dict c))\<rparr>))"
  using assms by (cases "need_rebuild_enc c t")
    (auto simp: refresh_enc_def coherent_def registered_def need_rebuild_enc_def split: option.splits)

lemma refresh_dec_coherent:
  assumes "registered R c" "coherent z R t"
  shows "refresh_dec z c t = obind (omap_err Decode (z_new_dec z (dict_arg (c_dict c)))) (\<lambda>_.
      Ok (t\<lparr>ctx_dec := Some (dict_id (c_dict c), dict_arg (c_dict c))\<rparr>))"
  using assms by (cases "need_rebuild_dec c t")
    (auto simp: refresh_dec_def coherent_def registered_def need_rebuild_dec_def split: option.splits)

lemma compress_pure_eq:
  "compress_pure z c x =
    (if length x < c_min_block c then Ok (0 # x)
     else obind (omap_err Encode (z_new_enc z (c_level c) (dict_arg (c_dict c)))) (\<lambda>_.
            obind (omap_err Encode (z_compress z (c_level c) (dict_arg (c_dict c)) x))
              (\<lambda>y. if length y + 1 \<ge> length x then Ok (0 # x) else Ok (1 # y))))"
  by (cases "z_new_enc z (c_level c) (dict_arg (c_dict c))")
    (simp_all add: compress_pure_def compress_def refresh_enc_def need_rebuild_enc_def no_contexts_def enc_compress_def)

abbreviation dec_with :: "compressor \<Rightarrow> contexts" where
  "dec_with c \<equiv> \<lparr>ctx_enc = None, ctx_dec = Some (dict_id (c_dict c), dict_arg (c_dict c))\<rparr>"

lemma decompress_pure_eq:
  "decompress_pure z c x =
    (case x of [] \<Rightarrow> Err (Decode ''empty input'')
     | mark # body \<Rightarrow>
         if mark = 0 then Ok body
         else if mark = 1
         then obind (omap_err Decode (z_new_dec z (dict_arg (c_dict c)))) (\<lambda>_. dec_decompress z (dec_with c) body)
         else Err (Decode ''unknown marker''))"
  by (cases "z_new_dec z (dict_arg (c_dict c))")
    (simp_all add: decompress_pure_def decompress_def refresh_dec_def need_rebuild_dec_def no_contexts_def split: list.split)

lemma compress_cached:
  assumes "registered R c" "coherent z R t"
  shows "fst (compress z c x t) = compress_pure z c x \<and> coherent z R (snd (compress z c x t))"
  using assms refresh_enc_coherent [OF assms]
  by (cases "z_new_enc z (c_level c) (dict_arg (c_dict c))")
    (simp_all add: compress_pure_eq compress_def enc_compress_def coherent_def registered_def)

lemma decompress_cached:
  assumes "registered R c" "coherent z R t"
  shows "fst (decompress z c x t) = decompress_pure z c x \<and> coherent z R (snd (decompress z c x t))"
  using assms refresh_dec_coherent [OF assms]
  by (cases "z_new_dec z (dict_arg (c_dict c))")
    (simp_all add: decompress_pure_eq decompress_def dec_decompress_def coherent_def registered_def split: list.split)

text \<open>The calls one thread makes, by any number of compressors.\<close>

datatype zcall = ZCompress compressor bytes | ZDecompress compressor bytes

fun call_compressor :: "zcall \<Rightarrow> compressor" where
  "call_compressor (ZCompress c x) = c"
| "call_compressor (ZDecompress c x) = c"

fun call_step :: "zstd \<Rightarrow> zcall \<Rightarrow> contexts \<Rightarrow> (bytes, compress_error) outcome \<times> contexts" where
  "call_step z (ZCompress c x) t = compress z c x t"
| "call_step z (ZDecompress c x) t = decompress z c x t"

fun run_calls :: "zstd \<Rightarrow> zcall list \<Rightarrow> contexts \<Rightarrow> (bytes, compress_error) outcome list" where
  "run_calls z [] t = []"
| "run_calls z (k # ks) t = (case call_step z k t of (r, t') \<Rightarrow> r # run_calls z ks t')"

lemma call_step_cached:
  assumes "registered R (call_compressor k)" "coherent z R t"
  shows "fst (call_step z k t) = fst (call_step z k no_contexts)" "coherent z R (snd (call_step z k t))"
  using compress_cached [OF _ assms(2)] decompress_cached [OF _ assms(2)] assms(1)
  by (cases k; simp add: compress_pure_def decompress_pure_def)+

lemma run_calls_cached:
  assumes "\<forall>k \<in> set ks. registered R (call_compressor k)" "coherent z R t"
  shows "run_calls z ks t = map (\<lambda>k. fst (call_step z k no_contexts)) ks"
  using assms
proof (induction ks arbitrary: t)
  case (Cons k ks)
  then show ?case using call_step_cached [of R k z t] by (simp add: case_prod_unfold)
qed simp

text \<open>C22: The per-thread context caches are unobservable when dictionary ids name dictionaries
  uniquely: every sequence of compress and decompress calls on one thread, by any compressors at
  any levels, returns what each call would return with freshly built contexts.\<close>

theorem context_caches_transparent:
  assumes "\<forall>k \<in> set ks. \<forall>k' \<in> set ks.
      dict_id (c_dict (call_compressor k)) = dict_id (c_dict (call_compressor k')) \<longrightarrow>
      dict_arg (c_dict (call_compressor k)) = dict_arg (c_dict (call_compressor k'))"
  shows "run_calls z ks no_contexts = map (\<lambda>k. fst (call_step z k no_contexts)) ks"
proof -
  define R where "R i = (case List.find (\<lambda>k. dict_id (c_dict (call_compressor k)) = i) ks of
    Some k \<Rightarrow> dict_arg (c_dict (call_compressor k)) | None \<Rightarrow> None)" for i
  have "registered R (call_compressor k)" if km: "k \<in> set ks" for k
  proof -
    obtain k' where k': "List.find (\<lambda>j. dict_id (c_dict (call_compressor j)) = dict_id (c_dict (call_compressor k))) ks = Some k'"
      by (cases "List.find (\<lambda>j. dict_id (c_dict (call_compressor j)) = dict_id (c_dict (call_compressor k))) ks")
        (use km in \<open>auto simp: find_None_iff\<close>)
    then have m: "k' \<in> set ks" "dict_id (c_dict (call_compressor k')) = dict_id (c_dict (call_compressor k))"
      by (auto simp: find_Some_iff)
    from assms [rule_format, OF m(1) km m(2)] show ?thesis
      unfolding registered_def R_def k' by simp
  qed
  then show ?thesis using run_calls_cached [of ks R] by simp
qed

section \<open>Round trip\<close>

lemma compress_pure_Ok:
  assumes "compress_pure z c x = Ok y"
  shows "y = 0 # x \<or> (\<exists>b. z_new_enc z (c_level c) (dict_arg (c_dict c)) = Ok () \<and>
    z_compress z (c_level c) (dict_arg (c_dict c)) x = Ok b \<and> y = 1 # b \<and> Suc (length b) < length x)"
proof (cases "length x < c_min_block c")
  case True
  then show ?thesis using assms by (simp add: compress_pure_eq)
next
  case False
  then obtain b where "z_new_enc z (c_level c) (dict_arg (c_dict c)) = Ok ()" "z_compress z (c_level c) (dict_arg (c_dict c)) x = Ok b"
    "(if length b + 1 \<ge> length x then Ok (0 # x) else Ok (1 # b)) = (Ok y :: (bytes, compress_error) outcome)"
    using assms by (auto simp: compress_pure_eq obind_Ok_iff)
  then show ?thesis by (cases "length b + 1 \<ge> length x") auto
qed

lemma decompress_compress_pure:
  assumes "zstd_ok z" "c_dict c' = c_dict c" "compress_pure z c x = Ok y"
  shows "decompress_pure z c' y = Ok x"
  using compress_pure_Ok [OF assms(3)]
proof
  assume "y = 0 # x"
  then show ?thesis by (simp add: decompress_pure_eq)
next
  assume "\<exists>b. z_new_enc z (c_level c) (dict_arg (c_dict c)) = Ok () \<and>
    z_compress z (c_level c) (dict_arg (c_dict c)) x = Ok b \<and> y = 1 # b \<and> Suc (length b) < length x"
  then obtain b where b: "z_new_enc z (c_level c) (dict_arg (c_dict c)) = Ok ()"
    "z_compress z (c_level c) (dict_arg (c_dict c)) x = Ok b" "y = 1 # b" by blast
  then have "z_new_dec z (dict_arg (c_dict c)) = Ok () \<and> z_content_size z b = Some (length x) \<and>
      z_decompress z (dict_arg (c_dict c)) b (length x) = Ok x"
    using assms(1) unfolding zstd_ok_def by blast
  then show ?thesis using assms(2) b(3) by (simp add: decompress_pure_eq dec_decompress_def)
qed

section \<open>Training and reference selection\<close>

lemma train_pass_length:
  assumes "length d = filled" "filled < target"
  shows "case train_pass p target ss d filled of (stop, d', filled') \<Rightarrow>
    length d' = filled' \<and> filled' = min target (filled + sum_list (map length ss)) \<and> (stop \<longleftrightarrow> filled' = target)"
  using assms
proof (induction ss arbitrary: d filled)
  case (Cons s ss)
  define n where "n = min (length s) (target - filled)"
  define d' where "d' = d @ (if p mod 2 = 0 then take n s else drop (length s - n) s)"
  have d': "length d' = filled + n" using Cons.prems by (simp add: d'_def n_def)
  show ?case
  proof (cases "s = []")
    case True
    then show ?thesis using Cons.IH [OF Cons.prems] by simp
  next
    case False
    then have n0: "n \<noteq> 0" using Cons.prems by (simp add: n_def)
    show ?thesis
    proof (cases "target \<le> filled + n")
      case True
      have "train_pass p target (s # ss) d filled = (True, d', filled + n)"
        using False n0 True by (simp add: Let_def n_def [symmetric] d'_def)
      moreover have "filled + n = min target (filled + sum_list (map length (s # ss)))"
        using True Cons.prems by (auto simp: n_def)
      moreover have "filled + n = target" using True Cons.prems by (simp add: n_def min_def split: if_splits)
      ultimately show ?thesis using d' by simp
    next
      case lt: False
      have e: "train_pass p target (s # ss) d filled = train_pass p target ss d' (filled + n)"
        using False n0 lt by (simp add: Let_def n_def [symmetric] d'_def)
      have "n = length s" using lt by (simp add: n_def min_def split: if_splits)
      then show ?thesis using Cons.IH [OF d'] lt unfolding e by (simp add: add.assoc)
    qed
  qed
qed simp

lemma train_passes_length:
  assumes "length d = filled" "filled < target"
  shows "length (train_passes ps target ss d filled) = min target (filled + length ps * sum_list (map length ss))"
  using assms
proof (induction ps arbitrary: d filled)
  case (Cons p ps)
  obtain stop d' filled' where t: "train_pass p target ss d filled = (stop, d', filled')" by (metis prod_cases3)
  have f: "length d' = filled'" "filled' = min target (filled + sum_list (map length ss))" "stop \<longleftrightarrow> filled' = target"
    using train_pass_length [OF Cons.prems, of ss p] by (simp_all add: t)
  show ?case
  proof (cases stop)
    case True
    then show ?thesis using f t by simp
  next
    case False
    then have "filled' < target" using f by simp
    then show ?thesis using Cons.IH [OF f(1)] f(2) False t by (simp add: min_def split: if_splits)
  qed
qed simp

lemma train_passes_zero: "train_passes ps 0 ss d 0 = d"
proof -
  have "train_pass p 0 ss d 0 = (\<not> (\<forall>s \<in> set ss. s = []), d, 0)" for p
    by (induction ss) (auto simp: Let_def)
  then show ?thesis by (induction ps) auto
qed

text \<open>Training never fails, fills the budget exactly when three copies of the corpus suffice,
  and otherwise uses the whole corpus three times.\<close>

theorem train_dictionary_size:
  "\<exists>d. train_dictionary samples target = Ok d \<and> length d = min target (3 * sum_list (map length samples))"
proof -
  define order where "order = sort_key (\<lambda>i. length (samples ! i)) [0..<length samples]"
  have "sum_list (map f order) = sum_list (map f [0..<length samples])" for f :: "nat \<Rightarrow> nat"
  proof -
    have "mset (map f order) = mset (map f [0..<length samples])" by (simp add: order_def)
    then show ?thesis by (metis sum_mset_sum_list)
  qed
  moreover have "map (\<lambda>i. length (samples ! i)) [0..<length samples] = map length samples"
    by (rule nth_equalityI) simp_all
  ultimately have sum: "sum_list (map (length \<circ> (\<lambda>i. samples ! i)) order) = sum_list (map length samples)"
    by (simp only: o_def)
  have "length (train_passes [0..<3] target (map (\<lambda>i. samples ! i) order) [] 0) =
    min target (3 * sum_list (map length samples))"
  proof (cases "target = 0")
    case True
    then show ?thesis by (simp add: train_passes_zero)
  next
    case False
    then show ?thesis using train_passes_length [of "[]" 0 target "[0..<3]"] by (simp add: sum)
  qed
  then show ?thesis by (simp add: train_dictionary_def Let_def order_def)
qed

lemma common_prefix_len_spec:
  "common_prefix_len a b \<le> min (length a) (length b)"
  "take (common_prefix_len a b) a = take (common_prefix_len a b) b"
  "n \<le> min (length a) (length b) \<Longrightarrow> take n a = take n b \<Longrightarrow> n \<le> common_prefix_len a b"
proof -
  show "common_prefix_len a b \<le> min (length a) (length b)"
    "take (common_prefix_len a b) a = take (common_prefix_len a b) b"
    by (induction a b rule: common_prefix_len.induct) auto
  show "n \<le> min (length a) (length b) \<Longrightarrow> take n a = take n b \<Longrightarrow> n \<le> common_prefix_len a b"
  proof (induction a b arbitrary: n rule: common_prefix_len.induct)
    case (1 x xs y ys)
    then show ?case by (cases n) auto
  qed auto
qed

lemma max_by_key_spec:
  "max_by_key k xs = Some y \<longleftrightarrow>
    (\<exists>us vs. xs = us @ y # vs \<and> (\<forall>u \<in> set us. k u \<le> k y) \<and> (\<forall>v \<in> set vs. k v < k y))"
proof (induction xs arbitrary: y)
  case (Cons x xs)
  show ?case
  proof (cases "max_by_key k xs")
    case None
    then have "xs = []" by (cases xs) (auto split: option.splits if_splits)
    then show ?thesis by (auto simp: Cons_eq_append_conv)
  next
    case (Some w)
    then obtain us vs where w: "xs = us @ w # vs" "\<forall>u \<in> set us. k u \<le> k w" "\<forall>v \<in> set vs. k v < k w"
      using Cons.IH by blast
    show ?thesis
    proof (cases "k x \<le> k w")
      case True
      then have "max_by_key k (x # xs) = Some w" using Some by simp
      moreover have "(\<exists>us vs. x # xs = us @ y # vs \<and> (\<forall>u \<in> set us. k u \<le> k y) \<and> (\<forall>v \<in> set vs. k v < k y)) \<longleftrightarrow> y = w"
      proof
        assume "\<exists>us vs. x # xs = us @ y # vs \<and> (\<forall>u \<in> set us. k u \<le> k y) \<and> (\<forall>v \<in> set vs. k v < k y)"
        then obtain us' vs' where u: "x # xs = us' @ y # vs'" "\<forall>u \<in> set us'. k u \<le> k y" "\<forall>v \<in> set vs'. k v < k y"
          by blast
        show "y = w"
        proof (cases us')
          case Nil
          then show ?thesis using u True w(1) by auto
        next
          case (Cons a as)
          then have "xs = as @ y # vs'" using u(1) by simp
          then show ?thesis using Cons.IH [of y] u(2,3) Cons Some by auto
        qed
      next
        assume "y = w"
        then show "\<exists>us vs. x # xs = us @ y # vs \<and> (\<forall>u \<in> set us. k u \<le> k y) \<and> (\<forall>v \<in> set vs. k v < k y)"
          using w True by (intro exI [of _ "x # us"] exI [of _ vs]) simp
      qed
      ultimately show ?thesis by auto
    next
      case False
      then have m: "max_by_key k (x # xs) = Some x" using Some by simp
      have lt: "\<forall>v \<in> set xs. k v < k x" using w False by auto
      show ?thesis unfolding m
      proof
        show "Some x = Some y \<Longrightarrow> \<exists>us vs. x # xs = us @ y # vs \<and> (\<forall>u \<in> set us. k u \<le> k y) \<and> (\<forall>v \<in> set vs. k v < k y)"
          using lt by (intro exI [where x = "[]"] exI [where x = xs]) auto
        assume "\<exists>us vs. x # xs = us @ y # vs \<and> (\<forall>u \<in> set us. k u \<le> k y) \<and> (\<forall>v \<in> set vs. k v < k y)"
        then show "Some x = Some y" using lt by (auto simp: Cons_eq_append_conv)
      qed
    qed
  qed
qed simp

text \<open>The reference picked for a delta is a candidate with the longest common prefix with the
  input, the last of those; there is none exactly when there is no candidate.\<close>

theorem pick_reference_longest:
  "(pick_reference x cands = None \<longleftrightarrow> cands = []) \<and>
   (pick_reference x cands = Some r \<longleftrightarrow>
     (\<exists>us vs. cands = us @ r # vs \<and> (\<forall>u. u \<in> set us \<longrightarrow> common_prefix_len x u \<le> common_prefix_len x r) \<and>
       (\<forall>v. v \<in> set vs \<longrightarrow> common_prefix_len x v < common_prefix_len x r))) \<and>
   take (common_prefix_len x r) x = take (common_prefix_len x r) r \<and>
   (\<forall>n. n \<le> min (length x) (length r) \<and> take n x = take n r \<longrightarrow> n \<le> common_prefix_len x r)"
proof -
  have "pick_reference x cands = None \<longleftrightarrow> cands = []"
    by (cases cands) (auto simp: pick_reference_def split: option.splits)
  then show ?thesis
    using common_prefix_len_spec(2,3) max_by_key_spec [of "common_prefix_len x" cands r]
    by (auto simp: pick_reference_def Ball_def)
qed

text \<open>A small zstd for the examples: runs of one byte are stored as that byte, frames carry
  their content size and the first byte of the dictionary.\<close>

definition demo_mark :: "bytes option \<Rightarrow> u8" where
  "demo_mark d = (case d of Some (a # r) \<Rightarrow> a | _ \<Rightarrow> 0)"

definition demo_body :: "bytes \<Rightarrow> bytes" where
  "demo_body x = (if x = replicate (length x) (hd x) then [1, hd x] else 0 # x)"

definition demo_zstd :: zstd where
  "demo_zstd =
     \<lparr>z_new_enc = \<lambda>l d. Ok (), z_new_dec = \<lambda>d. Ok (),
      z_compress = \<lambda>l d x.
        if length x < 2 ^ 64 then Ok (demo_mark d # to_le 8 (length x) @ demo_body x) else Err ''too long'',
      z_decompress = \<lambda>d y cap.
        (case y of [] \<Rightarrow> Err ''empty''
         | m # r \<Rightarrow>
             if m \<noteq> demo_mark d then Err ''wrong dictionary''
             else case drop 8 r of
               f # b \<Rightarrow> Ok (if f = 1 then replicate (from_le (take 8 r)) (hd b) else b)
             | [] \<Rightarrow> Err ''truncated''),
      z_content_size = \<lambda>y. Some (from_le (take 8 (tl y)))\<rparr>"

lemma demo_zstd_ok: "zstd_ok demo_zstd"
proof -
  have "from_le (to_le 8 n) = n" if "n < 18446744073709551616" for n
    using from_le_to_le [of 8 n] that by simp
  then show ?thesis by (auto simp: zstd_ok_def demo_zstd_def demo_body_def split: if_splits)
qed

text \<open>C17: What one thread compresses another restores: with dictionary ids that name dictionaries
  uniquely, decompressing the output on any thread, whatever calls its contexts served before and at
  whatever level, gives the input back, and the output is at most one byte longer than the input.\<close>

theorem compress_roundtrip:
  assumes "zstd_ok z"
    and "registered R c" "coherent z R t" "coherent z R t'" "c_dict c' = c_dict c"
    and "compress z c x t = (Ok y, t1)"
  shows "fst (decompress z c' y t') = Ok x \<and> length y \<le> length x + 1 \<and> coherent z R t1"
proof -
  have p: "compress_pure z c x = Ok y" "coherent z R t1"
    using compress_cached [OF assms(2,3), of x] assms(6) by simp_all
  have "registered R c'" using assms(2,5) by (simp add: registered_def)
  from decompress_cached [OF this assms(4)]
  show ?thesis using decompress_compress_pure [OF assms(1,5) p(1)] compress_pure_Ok [OF p(1)] p(2) by auto
qed

text \<open>A dictionary replaced by another one under the same id is not noticed by the caches: on a
  thread that has already compressed, the new compressor still uses the old dictionary, and a
  receiver that holds the new dictionary cannot restore the block.\<close>

theorem stale_dictionary_context:
  "\<exists>c. c = compressor_new (dict_from_content 1 [7]) 3 \<and>
    (\<exists>c'. c' = set_dict (dict_from_content 1 [8]) c \<and>
      (case compress demo_zstd c (replicate 40 5) no_contexts of (_, t) \<Rightarrow>
         (case compress demo_zstd c' (replicate 40 5) t of
            (Ok y, _) \<Rightarrow> fst (decompress demo_zstd c' y no_contexts) = Err (Decode ''wrong dictionary'')
          | _ \<Rightarrow> False)))"
  unfolding simp_thms by code_simp


theorem context_caches_transparent_witness:
  "run_calls demo_zstd [ZCompress compressor_default (replicate 40 5), ZDecompress compressor_default [0, 9]] no_contexts =
   map (\<lambda>k. fst (call_step demo_zstd k no_contexts))
     [ZCompress compressor_default (replicate 40 5), ZDecompress compressor_default [0, 9]]"
  by (rule context_caches_transparent) simp

theorem compress_roundtrip_witness:
  "fst (decompress demo_zstd compressor_default [1, 0, 40, 0, 0, 0, 0, 0, 0, 0, 1, 5] no_contexts) = Ok (replicate 40 5)"
proof -
  have "fst (compress demo_zstd compressor_default (replicate 40 5) no_contexts) =
    Ok [1, 0, 40, 0, 0, 0, 0, 0, 0, 0, 1, 5]"
    by code_simp
  then have c: "compress demo_zstd compressor_default (replicate 40 5) no_contexts =
    (Ok [1, 0, 40, 0, 0, 0, 0, 0, 0, 0, 1, 5], snd (compress demo_zstd compressor_default (replicate 40 5) no_contexts))"
    by (metis prod.collapse)
  have "registered (\<lambda>_. None) compressor_default" by code_simp
  from compress_roundtrip [OF demo_zstd_ok this coherent_empty coherent_empty refl c] show ?thesis by blast
qed

theorem pick_reference_longest_witness:
  "pick_reference [1, 2, 3] [[1, 2], [7], [1, 2, 9], []] = Some [1, 2, 9]"
proof -
  have "\<exists>us vs. [[1, 2], [7], [1, 2, 9], []] = us @ [1, 2, 9] # vs \<and>
      (\<forall>u. u \<in> set us \<longrightarrow> common_prefix_len [1, 2, 3] u \<le> common_prefix_len [1, 2, 3] [1, 2, 9]) \<and>
      (\<forall>v. v \<in> set vs \<longrightarrow> common_prefix_len [1, 2, 3] v < common_prefix_len [1, 2, 3] [1, 2, 9])"
    by (rule exI [of _ "[[1, 2], [7]]"], rule exI [of _ "[[]]"]) auto
  then show ?thesis
    using pick_reference_longest [of "[1, 2, 3]" "[[1, 2], [7], [1, 2, 9], []]" "[1, 2, 9]"] by blast
qed

end
