(* ===== verification/Gf_Field.thy ===== *)
theory Gf_Field
  imports Prelude
begin

text \<open>
  Scalar arithmetic of \<open>crates/coding/src/gf256.rs\<close>: the tables built by walking the field
  with generator 3, and multiplication, inverse and division by table lookup.  The reference
  is polynomial multiplication modulo \<open>0x11B\<close>; the table product equals it, and the field laws
  follow from the linearity of the reference over XOR.
\<close>

section \<open>Tables\<close>

definition gf_walk :: "u16 \<Rightarrow> u16" where
  "gf_walk g =
     (let g2 = push_bit 1 g XOR (if g AND 0x80 \<noteq> 0 then 0x11B else 0)
      in (g2 XOR g) AND 0xFF)"

definition exp_log_step :: "nat \<Rightarrow> u16 \<times> bytes \<times> bytes \<Rightarrow> u16 \<times> bytes \<times> bytes" where
  "exp_log_step i = (\<lambda>(g, exp, log).
     (gf_walk g, exp[i := ucast g], log[unat g := word_of_nat i]))"

definition exp_log_tables :: "bytes \<times> bytes" where
  "exp_log_tables =
     (case fold exp_log_step [0..<255] (1, replicate 512 0, replicate 256 0) of
        (g, exp, log) \<Rightarrow>
          (fold (\<lambda>i e. e[255 + i := e ! i]) [0..<256] exp, log[0 := 0]))"

definition gf_exp :: bytes where "gf_exp = fst exp_log_tables"
definition gf_log :: bytes where "gf_log = snd exp_log_tables"

definition gf_mul_table :: "bytes list" where
  "gf_mul_table =
     map (\<lambda>a. map (\<lambda>b. if a = 0 \<or> b = 0 then 0 else gf_exp ! (unat (gf_log ! a) + unat (gf_log ! b)))
       [0..<256]) [0..<256]"

section \<open>Operations\<close>

definition gf_mul :: "u8 \<Rightarrow> u8 \<Rightarrow> u8" where
  "gf_mul a b = gf_mul_table ! unat a ! unat b"

definition gf_add :: "u8 \<Rightarrow> u8 \<Rightarrow> u8" where
  "gf_add a b = a XOR b"

definition gf_inv :: "u8 \<Rightarrow> u8" where
  "gf_inv a = (if a = 0 then 0 else gf_exp ! (255 - unat (gf_log ! unat a)))"

definition gf_div :: "u8 \<Rightarrow> u8 \<Rightarrow> u8" where
  "gf_div a b =
     (if b = 0 then 0 else if a = 0 then 0
      else gf_exp ! nat ((int (unat (gf_log ! unat a)) - int (unat (gf_log ! unat b))) mod 255))"

section \<open>Reference: polynomials modulo 0x11B\<close>

definition xtime :: "u8 \<Rightarrow> u8" where
  "xtime v = push_bit 1 v XOR (if bit v 7 then 0x1B else 0)"

fun pmul_upto :: "nat \<Rightarrow> u8 \<Rightarrow> u8 \<Rightarrow> u8" where
  "pmul_upto 0 a b = 0"
| "pmul_upto (Suc n) a b = pmul_upto n a b XOR (if bit b n then (xtime ^^ n) a else 0)"

definition pmul :: "u8 \<Rightarrow> u8 \<Rightarrow> u8" where
  "pmul a b = pmul_upto 8 a b"

definition mul3 :: "u8 \<Rightarrow> u8" where
  "mul3 v = xtime v XOR v"

section \<open>The walk as powers of 3\<close>

lemma and_128_bit: "ucast (v :: u8) AND (128 :: u16) = 0 \<longleftrightarrow> \<not> bit v 7"
proof -
  have e: "(128 :: u16) = 2 ^ 7" by simp
  show ?thesis unfolding e and_exp_eq_0_iff_not_bit by (simp add: bit_simps)
qed

lemma not_bit_u8: "8 \<le> n \<Longrightarrow> \<not> bit (v :: u8) n"
  by (simp add: impossible_bit)

lemma gf_walk_mul3: "gf_walk (ucast (v :: u8)) = ucast (mul3 v)"
proof (rule bit_word_eqI)
  have "list_all (\<lambda>n. bit (gf_walk (ucast v)) n \<longleftrightarrow> bit (ucast (mul3 v) :: u16) n) [0..<16]"
    by (simp add: upt_rec [of _ 16] bit_simps gf_walk_def mul3_def xtime_def Let_def and_128_bit not_bit_u8
        del: One_nat_def push_bit_Suc) simp?
  then show "bit (gf_walk (ucast v)) n \<longleftrightarrow> bit (ucast (mul3 v) :: u16) n" if "n < LENGTH(16)" for n
    using that by (simp add: list_all_iff)
qed

lemma xtime_xor: "xtime (a XOR b) = xtime a XOR xtime b"
  by (rule bit_word_eqI) (auto simp: xtime_def bit_simps)

lemma xtime_0 [simp]: "xtime 0 = 0"
  by (simp add: xtime_def)

lemma mul3_xor: "mul3 (a XOR b) = mul3 a XOR mul3 b"
  by (simp add: mul3_def xtime_xor ac_simps)

lemma mul3_0 [simp]: "mul3 0 = 0"
  by (simp add: mul3_def)

definition E3 :: "nat \<Rightarrow> u8" where
  "E3 i = (mul3 ^^ i) 1"

text \<open>The order of 3 is 255: the powers below, and the proper divisors of 255.\<close>

definition mul3i :: "int \<Rightarrow> int" where
  "mul3i x = (2 * x XOR (if odd (x div 128) then 283 else 0)) XOR x"

lemma mul3_of_int: "mul3 (word_of_int x) = word_of_int (mul3i x)"
proof -
  have "bit (word_of_int x :: u8) 7 \<longleftrightarrow> odd (x div 128)"
    by (simp add: bit_simps) (simp add: bit_iff_odd)
  moreover have "(283 :: u8) = 27" by simp
  then have "u XOR 283 = u XOR 27" for u :: u8 by (simp only:)
  ultimately show ?thesis
    by (auto simp: mul3_def xtime_def mul3i_def of_int_xor_eq mult.commute)
qed

lemma E3_of_int: "E3 i = word_of_int ((mul3i ^^ i) 1)"
  by (induction i) (simp_all add: E3_def mul3_of_int)

lemma mul3i_powers:
  "(mul3i ^^ 15) 1 = 53" "(mul3i ^^ 51) 1 = 12" "(mul3i ^^ 85) 1 = 189" "(mul3i ^^ 255) 1 = 1"
  by (simp_all add: numeral_eq_Suc mul3i_def)

lemma E3_powers: "E3 15 \<noteq> 1" "E3 51 \<noteq> 1" "E3 85 \<noteq> 1" "E3 255 = 1" "E3 0 = 1"
  by (simp_all add: E3_of_int mul3i_powers)

lemma xtime_pow_one: "n < 8 \<Longrightarrow> (xtime ^^ n) 1 = push_bit n 1"
proof (induction n)
  case (Suc n)
  then have "n = 0 \<or> n = 1 \<or> n = 2 \<or> n = 3 \<or> n = 4 \<or> n = 5 \<or> n = 6" by presburger
  then show ?case using Suc by (auto simp: xtime_def)
qed simp
lemma pmul_upto_one: "n \<le> 8 \<Longrightarrow> pmul_upto n 1 b = take_bit n b"
proof (induction n)
  case (Suc n)
  have "pmul_upto (Suc n) 1 b = take_bit n b XOR (if bit b n then push_bit n 1 else 0)"
    using Suc by (simp add: xtime_pow_one)
  also have "\<dots> = take_bit (Suc n) b"
    by (rule bit_word_eqI) (auto simp: bit_simps less_Suc_eq)
  finally show ?case .
qed simp
lemma pmul_1_left: "pmul 1 b = b"
  using pmul_upto_one [of 8 b] by (simp add: pmul_def take_bit_word_eq_self)

lemma xtime_pow_xor: "(xtime ^^ n) (a XOR b) = (xtime ^^ n) a XOR (xtime ^^ n) b"
  by (induction n) (simp_all add: xtime_xor)

lemma xtime_pow_0 [simp]: "(xtime ^^ n) 0 = 0"
  by (induction n) simp_all

lemma pmul_upto_xor_left: "pmul_upto n (a XOR a') b = pmul_upto n a b XOR pmul_upto n a' b"
  by (induction n) (simp_all add: xtime_pow_xor ac_simps)

lemma pmul_upto_xor_right: "pmul_upto n a (b XOR b') = pmul_upto n a b XOR pmul_upto n a b'"
proof (induction n)
  case (Suc n)
  have s: "u XOR (u XOR v) = v" for u v :: u8 by (simp flip: xor.assoc)
  show ?case using Suc by (auto simp: bit_simps ac_simps s)
qed simp

lemma pmul_upto_xtime: "pmul_upto n (xtime a) b = xtime (pmul_upto n a b)"
  by (induction n) (simp_all add: xtime_xor funpow_swap1)

lemma pmul_0 [simp]: "pmul 0 b = 0" "pmul a 0 = 0"
proof -
  have "pmul_upto n 0 b = 0" "pmul_upto n a 0 = 0" for n by (induction n) simp_all
  then show "pmul 0 b = 0" "pmul a 0 = 0" by (simp_all add: pmul_def)
qed

lemma pmul_distrib_left: "pmul a (b XOR c) = pmul a b XOR pmul a c"
  by (simp add: pmul_def pmul_upto_xor_right)

lemma pmul_mul3: "pmul (mul3 a) b = mul3 (pmul a b)"
  by (simp add: pmul_def mul3_def pmul_upto_xor_left pmul_upto_xtime)

lemma pmul_E3_left: "pmul (E3 i) b = (mul3 ^^ i) b"
  by (induction i) (simp_all add: E3_def pmul_mul3 pmul_1_left)

lemma E3_add: "E3 (i + j) = (mul3 ^^ i) (E3 j)"
  by (simp add: E3_def funpow_add)

lemma pmul_E3: "pmul (E3 i) (E3 j) = E3 (i + j)"
  by (simp add: pmul_E3_left E3_add)

lemma E3_255 [simp]: "E3 (255 + i) = E3 i" "E3 (i + 255) = E3 i"
proof -
  show "E3 (i + 255) = E3 i" using E3_powers(4,5) by (simp add: E3_add [of i 255]) (simp add: E3_def)
  then show "E3 (255 + i) = E3 i" by (simp add: add.commute)
qed

lemma E3_mult_period: "E3 d = 1 \<Longrightarrow> E3 (d * x + i) = E3 i"
proof (induction x)
  case (Suc x)
  have "E3 (d * Suc x + i) = E3 ((d * x + i) + d)" by (simp add: algebra_simps)
  also have "\<dots> = (mul3 ^^ (d * x + i)) 1" using Suc.prems by (simp add: E3_add)
  also have "\<dots> = E3 i" using Suc by (simp add: E3_def)
  finally show ?case .
qed simp

lemma E3_mod: "E3 (i mod 255) = E3 i"
  using E3_mult_period [OF E3_powers(4), of "i div 255" "i mod 255"] by simp

lemma divisors_255: "g dvd 255 \<Longrightarrow> g < 255 \<Longrightarrow> g dvd 15 \<or> g dvd 51 \<or> g dvd (85 :: nat)"
proof -
  have "list_all (\<lambda>g. g dvd 255 \<longrightarrow> g dvd 15 \<or> g dvd 51 \<or> g dvd (85 :: nat)) [2..<255]" by simp
  moreover assume "g dvd 255" "g < 255"
  moreover from this have "g \<noteq> 0" by (intro notI) simp
  ultimately show ?thesis by (cases "g = 1") (simp_all only: list_all_iff set_upt atLeastLessThan_iff, auto)
qed

lemma E3_order: "0 < d \<Longrightarrow> d < 255 \<Longrightarrow> E3 d \<noteq> 1"
proof
  assume d: "0 < d" "d < 255" and one: "E3 d = 1"
  define g where "g = gcd d 255"
  obtain x y where xy: "d * x = 255 * y + g" using bezout_nat [of d 255] d by (auto simp: g_def)
  have "E3 g = E3 (255 * y + g)" using E3_mult_period [OF E3_powers(4)] by simp
  also have "\<dots> = 1" using E3_mult_period [OF one, of x 0] E3_powers(5) by (simp flip: xy)
  finally have g1: "E3 g = 1" .
  have "g dvd 255" "g \<le> d" using d by (auto simp: g_def intro: gcd_le1_nat)
  then have "g dvd 15 \<or> g dvd 51 \<or> g dvd 85" using divisors_255 d by auto
  then show False
    using E3_mult_period [OF g1, of _ 0] E3_powers by (auto elim!: dvdE)
qed

lemma E3_inj: "i < 255 \<Longrightarrow> j < 255 \<Longrightarrow> E3 i = E3 j \<Longrightarrow> i = j"
proof (induction i j rule: linorder_wlog)
  case (le i j)
  have "E3 (255 - i + j) = (mul3 ^^ (255 - i)) (E3 i)" by (simp only: E3_add le)
  also have "\<dots> = E3 (255 - i + i)" by (simp only: E3_add)
  also have "\<dots> = 1" using le E3_powers(4) by simp
  also have "255 - i + j = 255 + (j - i)" using le by simp
  finally have "E3 (255 + (j - i)) = 1" .
  then have "E3 (j - i) = 1" by simp
  then show ?case using E3_order [of "j - i"] le by (cases "j = i") auto
next
  case (sym i j)
  then show ?case by simp
qed

lemma E3_nonzero [simp]: "E3 i \<noteq> 0"
proof
  assume z: "E3 i = 0"
  have "E3 (255 * i) = (mul3 ^^ (255 * i - i)) (E3 i)" by (simp flip: E3_add)
  moreover have "(mul3 ^^ n) 0 = 0" for n by (induction n) simp_all
  ultimately have "E3 (255 * i) = 0" by (simp add: z)
  then show False using E3_mult_period [OF E3_powers(4), of i 0] E3_powers(5) by simp
qed

lemma E3_surj: "a \<noteq> 0 \<Longrightarrow> \<exists>i < 255. E3 i = a"
proof -
  have "inj_on E3 {..<255}" using E3_inj by (auto simp: inj_on_def)
  then have "card (E3 ` {..<255}) = 255" by (simp only: card_image card_lessThan)
  moreover have "card (- {0 :: u8}) = 255" by (simp add: Compl_eq_Diff_UNIV card_word)
  moreover have "E3 ` {..<255} \<subseteq> - {0}" by (rule image_subsetI) simp
  ultimately have "E3 ` {..<255} = - {0}" by (intro card_subset_eq) (simp_all only: finite)
  then have "a \<noteq> 0 \<Longrightarrow> a \<in> E3 ` {..<255}" by simp
  then show "a \<noteq> 0 \<Longrightarrow> \<exists>i < 255. E3 i = a" by (auto elim!: imageE simp del: image_eqI)
qed

section \<open>Table contents\<close>

lemma exp_log_loop:
  assumes "n \<le> 255"
  shows "\<exists>ex lg. fold exp_log_step [0..<n] (1, replicate 512 0, replicate 256 0) = (ucast (E3 n), ex, lg) \<and>
    length ex = 512 \<and> length lg = 256 \<and> (\<forall>i < n. ex ! i = E3 i \<and> lg ! unat (E3 i) = word_of_nat i)"
  using assms
proof (induction n)
  case 0
  then show ?case by (simp add: E3_powers)
next
  case (Suc n)
  then obtain ex lg where IH: "fold exp_log_step [0..<n] (1, replicate 512 0, replicate 256 0) = (ucast (E3 n), ex, lg)"
      "length ex = 512" "length lg = 256" "\<forall>i < n. ex ! i = E3 i \<and> lg ! unat (E3 i) = word_of_nat i"
    by auto
  have u: "unat (E3 i) < 256" for i using unsigned_less [of "E3 i", where ?'a = nat] by simp
  have un: "unat (ucast (E3 n) :: u16) = unat (E3 n)" using u [of n] by (simp add: unsigned_ucast_eq take_bit_nat_eq_self)
  have uc: "ucast (ucast v :: u16) = v" for v :: u8
    by (rule bit_word_eqI) (auto simp: bit_simps)
  have ne: "unat (E3 i) \<noteq> unat (E3 n)" if "i < n" for i
    using E3_inj [of i n] that Suc.prems by (auto simp: unsigned_word_eqI)
  have "fold exp_log_step [0..<Suc n] (1, replicate 512 0, replicate 256 0) =
      exp_log_step n (ucast (E3 n), ex, lg)"
    using IH(1) by simp
  also have "\<dots> = (ucast (E3 (Suc n)), ex[n := E3 n], lg[unat (E3 n) := word_of_nat n])"
    by (simp add: exp_log_step_def gf_walk_mul3 un uc) (simp add: E3_def)
  finally show ?case
    using IH(2-4) Suc.prems u ne ne [THEN not_sym] by (fastforce simp: nth_list_update less_Suc_eq)
qed

lemma exp_double:
  assumes "length e = 512" "\<forall>i < 255. e ! i = E3 i" "m \<le> 256"
  shows "length (fold (\<lambda>i e. e[255 + i := e ! i]) [0..<m] e) = 512 \<and>
    (\<forall>j < 255 + m. fold (\<lambda>i e. e[255 + i := e ! i]) [0..<m] e ! j = E3 j)"
  using assms(3)
proof (induction m)
  case (Suc m)
  then show ?case by (auto simp: nth_list_update less_Suc_eq)
qed (use assms in simp)

lemma gf_tables:
  "length gf_exp = 512" "length gf_log = 256"
  "j \<le> 510 \<Longrightarrow> gf_exp ! j = E3 j" "i < 255 \<Longrightarrow> gf_log ! unat (E3 i) = word_of_nat i"
proof -
  obtain ex lg where l: "fold exp_log_step [0..<255] (1, replicate 512 0, replicate 256 0) = (ucast (E3 255), ex, lg)"
      "length ex = 512" "length lg = 256" "\<forall>i < 255. ex ! i = E3 i \<and> lg ! unat (E3 i) = word_of_nat i"
    using exp_log_loop [of 255] by auto
  have nz: "unat (E3 i) \<noteq> 0" for i using E3_nonzero [of i] by (simp add: unat_eq_0)
  show "length gf_exp = 512" "length gf_log = 256"
    "j \<le> 510 \<Longrightarrow> gf_exp ! j = E3 j" "i < 255 \<Longrightarrow> gf_log ! unat (E3 i) = word_of_nat i"
    using exp_double [of ex 256] l nz
    by (simp_all add: gf_exp_def gf_log_def exp_log_tables_def)
qed

lemma gf_log_E3: "i < 255 \<Longrightarrow> unat (gf_log ! unat (E3 i)) = i"
  by (simp add: gf_tables)

lemma gf_mul_table_nth:
  "gf_mul a b = (if a = 0 \<or> b = 0 then 0
     else gf_exp ! (unat (gf_log ! unat a) + unat (gf_log ! unat b)))"
proof -
  have "unat a < 256" "unat b < 256"
    using unsigned_less [of a, where ?'a = nat] unsigned_less [of b, where ?'a = nat] by simp_all
  then show ?thesis by (simp add: gf_mul_def gf_mul_table_def unat_eq_0)
qed

lemma gf_mul_pmul: "gf_mul a b = pmul a b"
proof (cases "a = 0 \<or> b = 0")
  case False
  obtain i j where "i < 255" "j < 255" "a = E3 i" "b = E3 j" using False E3_surj [of a] E3_surj [of b] by auto
  then show ?thesis by (simp add: gf_mul_table_nth gf_log_E3 pmul_E3 gf_tables)
qed (auto simp: gf_mul_table_nth)

section \<open>Field laws\<close>

text \<open>What the linear-algebra routines rely on: a product that is linear over XOR and has
  inverses.\<close>

locale byte_field =
  fixes mul :: "u8 \<Rightarrow> u8 \<Rightarrow> u8" and inv :: "u8 \<Rightarrow> u8"
  assumes mul_commute: "mul a b = mul b a"
    and mul_assoc: "mul (mul a b) c = mul a (mul b c)"
    and mul_distrib: "mul a (b XOR c) = mul a b XOR mul a c"
    and mul_one: "mul 1 a = a"
    and mul_inv: "a \<noteq> 0 \<Longrightarrow> mul a (inv a) = 1"
begin

lemma mul_zero [simp]: "mul a 0 = 0" "mul 0 a = 0"
proof -
  show "mul a 0 = 0" using mul_distrib [of a 0 0] by simp
  then show "mul 0 a = 0" by (simp add: mul_commute)
qed

lemma mul_distrib_right: "mul (a XOR b) c = mul a c XOR mul b c"
  by (metis mul_commute mul_distrib)

lemma mul_one_right [simp]: "mul a 1 = a"
  by (metis mul_commute mul_one)

lemma mul_cancel: "c \<noteq> 0 \<Longrightarrow> mul (inv c) (mul c x) = x"
  by (metis mul_assoc mul_commute mul_inv mul_one)

lemma mul_eq_0_iff: "mul a b = 0 \<longleftrightarrow> a = 0 \<or> b = 0"
  by (metis mul_cancel mul_zero(1) mul_zero(2))

end

lemma gf_inv_E3: "i < 255 \<Longrightarrow> gf_inv (E3 i) = E3 (255 - i)"
  by (simp add: gf_inv_def gf_log_E3 gf_tables)

interpretation gf: byte_field gf_mul gf_inv
proof
  fix a b c
  have e: "\<exists>i. x = E3 i" if "x \<noteq> 0" for x using E3_surj [OF that] by auto
  show "gf_mul a b = gf_mul b a"
    by (cases "a = 0"; cases "b = 0") (auto simp: gf_mul_pmul pmul_E3 add.commute dest!: e)
  show "gf_mul (gf_mul a b) c = gf_mul a (gf_mul b c)"
    by (cases "a = 0"; cases "b = 0"; cases "c = 0") (auto simp: gf_mul_pmul pmul_E3 add.assoc dest!: e)
  show "gf_mul a (b XOR c) = gf_mul a b XOR gf_mul a c"
    by (simp add: gf_mul_pmul pmul_distrib_left)
  show "gf_mul 1 a = a"
    by (simp add: gf_mul_pmul pmul_1_left)
  show "gf_mul a (gf_inv a) = 1" if a: "a \<noteq> 0"
    using E3_surj [OF a] by (auto simp: gf_inv_E3 gf_mul_pmul pmul_E3 E3_powers)
qed

lemma gf_div_mul_inv: "gf_div a b = gf_mul a (gf_inv b)"
proof (cases "a = 0 \<or> b = 0")
  case False
  obtain i j where ij: "i < 255" "j < 255" "a = E3 i" "b = E3 j"
    using False E3_surj [of a] E3_surj [of b] by auto
  define m where "m = nat ((int i - int j) mod 255)"
  have m: "m < 255" by (simp add: m_def nat_less_iff)
  have "int (i + (255 - j)) = (int i - int j) + 255" using ij by (simp add: of_nat_diff)
  then have "(int i - int j) mod 255 = int (i + (255 - j)) mod 255" by (simp only: mod_add_self2)
  also have "\<dots> = int ((i + (255 - j)) mod 255)" by (simp only: of_nat_mod of_nat_numeral)
  finally have "m = (i + (255 - j)) mod 255" unfolding m_def by (simp only: nat_int)
  then have "E3 m = E3 (i + (255 - j))" by (simp only: E3_mod)
  then show ?thesis
    using ij m by (simp add: gf_div_def gf_log_E3 gf_tables gf_inv_E3 gf_mul_pmul pmul_E3 m_def [symmetric])
qed (auto simp: gf_div_def gf_inv_def)

section \<open>Evaluation\<close>

text \<open>For evaluation, the product is computed by the reference instead of the tables, and the
  inverse by square and multiply as the 254th power.\<close>

fun square_mul :: "nat \<Rightarrow> u8 \<Rightarrow> u8 \<Rightarrow> u8" and mul_square :: "nat \<Rightarrow> u8 \<Rightarrow> u8 \<Rightarrow> u8" where
  "square_mul 0 acc x = acc"
| "square_mul (Suc n) acc x = mul_square n acc (pmul x x)"
| "mul_square n acc y = square_mul n (pmul acc y) y"

definition gf_pow254 :: "u8 \<Rightarrow> u8" where
  "gf_pow254 a = mul_square 6 1 (pmul a a)"

lemma square_mul_E3: "square_mul n (E3 a) (E3 b) = E3 (a + (2 ^ (n + 1) - 2) * b)"
proof (induction n arbitrary: a b)
  case (Suc n)
  obtain m :: nat where m: "2 ^ (n + 1) = 2 + m" using le_Suc_ex [of 2 "2 ^ (n + 1)"] by auto
  then have "(2 :: nat) ^ (Suc n + 1) = 4 + 2 * m" by simp
  then have "a + b + b + (2 ^ (n + 1) - 2) * (b + b) = a + (2 ^ (Suc n + 1) - 2) * b"
    by (simp only: m) (simp add: algebra_simps)
  then show ?case using Suc by (simp add: pmul_E3 add.assoc)
qed simp

lemma square_mul_zero: "square_mul n 0 0 = 0"
  by (induction n) simp_all

lemma gf_inv_pow254: "gf_inv a = gf_pow254 a"
proof (cases "a = 0")
  case False
  then obtain i where i: "i < 255" "a = E3 i" using E3_surj by blast
  have "1 = E3 0" by (simp add: E3_def)
  then have "gf_pow254 a = E3 (254 * i)"
    using square_mul_E3 [of 6 "i + i" "i + i"] pmul_E3 [of 0 "i + i"]
    by (simp add: gf_pow254_def i(2) pmul_E3)
  also have "\<dots> = E3 (255 - i)"
  proof -
    have "E3 (254 * i + 255) = E3 (255 * i + (255 - i))" using i(1) by simp
    then show ?thesis using E3_mult_period [OF E3_powers(4), of i "255 - i"] by simp
  qed
  finally show ?thesis using i by (simp add: gf_inv_E3)
qed (simp add: gf_inv_def gf_pow254_def square_mul_zero)

lemma gf_mul_code [code]:
  "gf_mul a b = (if a = 0 \<or> b = 0 then 0 else if a = 1 then b else if b = 1 then a else pmul a b)"
  using gf.mul_one [of b] gf.mul_one_right [of a] by (auto simp: gf_mul_pmul)

lemma gf_inv_code [code]: "gf_inv a = (if a = 0 \<or> a = 1 then a else gf_pow254 a)"
  using gf.mul_inv [of 1] by (auto simp: gf_inv_pow254 [symmetric] gf.mul_one gf_inv_def)

section \<open>Properties\<close>

text \<open>C21: The 64 KB product table holds, for every pair of bytes, their product as polynomials
  over GF(2) modulo x^8 + x^4 + x^3 + x + 1, and the inverse and quotient tables invert it.\<close>

theorem gf_tables_correct:
  "gf_mul a b = pmul a b \<and> (gf_mul a (gf_inv a) = 1 \<longleftrightarrow> a \<noteq> 0) \<and> gf_div a b = gf_mul a (gf_inv b)"
  using gf.mul_inv [of a] by (auto simp: gf_mul_pmul gf_div_mul_inv)

end
