(* ===== verification/Gf_Slice.thy ===== *)
theory Gf_Slice
  imports Gf_Field
begin

text \<open>
  Vector routines of \<open>crates/coding/src/gf256.rs\<close>: multiply-accumulate and scaling of byte
  slices with the AVX2, SSSE3 and NEON kernels written over lists of lanes, linear
  combinations, and Gaussian elimination.  A matrix is the list of its rows; in the code the
  rows are contiguous in one buffer of \<open>n * row_len\<close> bytes.
\<close>

section \<open>Vector registers\<close>

text \<open>A register is the list of its byte lanes, lowest address first.\<close>

definition loadu :: "nat \<Rightarrow> bytes \<Rightarrow> nat \<Rightarrow> bytes" where
  "loadu w b i = take w (drop i b)"

definition storeu :: "bytes \<Rightarrow> nat \<Rightarrow> bytes \<Rightarrow> bytes" where
  "storeu b i v = take i b @ v @ drop (i + length v) b"

definition and_si :: "bytes \<Rightarrow> bytes \<Rightarrow> bytes" where "and_si = map2 (AND)"
definition xor_si :: "bytes \<Rightarrow> bytes \<Rightarrow> bytes" where "xor_si = map2 (XOR)"

definition shuffle_epi8 :: "bytes \<Rightarrow> bytes \<Rightarrow> bytes" where
  "shuffle_epi8 t x = map (\<lambda>i. if bit i 7 then 0 else t ! unat (i AND 15)) x"

definition shuffle_epi8_256 :: "bytes \<Rightarrow> bytes \<Rightarrow> bytes" where
  "shuffle_epi8_256 t x = shuffle_epi8 (take 16 t) (take 16 x) @ shuffle_epi8 (drop 16 t) (drop 16 x)"

definition vqtbl1q_u8 :: "bytes \<Rightarrow> bytes \<Rightarrow> bytes" where
  "vqtbl1q_u8 t x = map (\<lambda>i. if unat i < 16 then t ! unat i else 0) x"

text \<open>A shift of 16-bit lanes moves the low nibble of the high byte into the low byte.\<close>

fun srli_epi16_4 :: "bytes \<Rightarrow> bytes" where
  "srli_epi16_4 (lo # hi # x) = (drop_bit 4 lo OR push_bit 4 hi) # drop_bit 4 hi # srli_epi16_4 x"
| "srli_epi16_4 x = []"

section \<open>Kernels\<close>

definition mul_row :: "u8 \<Rightarrow> bytes" where
  "mul_row a = gf_mul_table ! unat a"

definition mul_nibble_tables :: "u8 \<Rightarrow> bytes" where
  "mul_nibble_tables a = map (\<lambda>i. mul_row a ! i) [0..<16] @ map (\<lambda>i. mul_row a ! (i * 16)) [0..<16]"

text \<open>\<open>while i + w <= n { ... i += w }\<close>\<close>

function kernel_loop :: "nat \<Rightarrow> (nat \<Rightarrow> bytes \<Rightarrow> bytes) \<Rightarrow> nat \<Rightarrow> nat \<Rightarrow> bytes \<Rightarrow> bytes" where
  "kernel_loop w f n i dst =
     (if 0 < w \<and> i + w \<le> n then kernel_loop w f n (i + w) (storeu dst i (f i dst)) else dst)"
  by pat_completeness auto
termination
  by (relation "measure (\<lambda>(w, f, n, i, dst). n - i)") auto

declare kernel_loop.simps [simp del]

definition axpy_avx2 :: "bytes \<Rightarrow> bytes \<Rightarrow> bytes \<Rightarrow> nat \<Rightarrow> bytes" where
  "axpy_avx2 tabs src dst n =
     (let lo = loadu 16 tabs 0 @ loadu 16 tabs 0; hi = loadu 16 tabs 16 @ loadu 16 tabs 16;
          mask = replicate 32 0x0f
      in kernel_loop 32 (\<lambda>i dst.
           let x = loadu 32 src i; xl = and_si x mask; xh = and_si (srli_epi16_4 x) mask;
               y = xor_si (shuffle_epi8_256 lo xl) (shuffle_epi8_256 hi xh); d = loadu 32 dst i
           in xor_si d y) n 0 dst)"

definition axpy_ssse3 :: "bytes \<Rightarrow> bytes \<Rightarrow> bytes \<Rightarrow> nat \<Rightarrow> bytes" where
  "axpy_ssse3 tabs src dst n =
     (let lo = loadu 16 tabs 0; hi = loadu 16 tabs 16; mask = replicate 16 0x0f
      in kernel_loop 16 (\<lambda>i dst.
           let x = loadu 16 src i; xl = and_si x mask; xh = and_si (srli_epi16_4 x) mask;
               y = xor_si (shuffle_epi8 lo xl) (shuffle_epi8 hi xh); d = loadu 16 dst i
           in xor_si d y) n 0 dst)"

definition axpy_neon :: "bytes \<Rightarrow> bytes \<Rightarrow> bytes \<Rightarrow> nat \<Rightarrow> bytes" where
  "axpy_neon tabs src dst n =
     (let lo = loadu 16 tabs 0; hi = loadu 16 tabs 16; mask = replicate 16 0x0f
      in kernel_loop 16 (\<lambda>i dst.
           let x = loadu 16 src i; xl = and_si x mask; xh = and_si (map (drop_bit 4) x) mask;
               y = xor_si (vqtbl1q_u8 lo xl) (vqtbl1q_u8 hi xh); d = loadu 16 dst i
           in xor_si d y) n 0 dst)"

definition scal_avx2 :: "bytes \<Rightarrow> bytes \<Rightarrow> nat \<Rightarrow> bytes" where
  "scal_avx2 tabs dst n =
     (let lo = loadu 16 tabs 0 @ loadu 16 tabs 0; hi = loadu 16 tabs 16 @ loadu 16 tabs 16;
          mask = replicate 32 0x0f
      in kernel_loop 32 (\<lambda>i dst.
           let x = loadu 32 dst i; xl = and_si x mask; xh = and_si (srli_epi16_4 x) mask
           in xor_si (shuffle_epi8_256 lo xl) (shuffle_epi8_256 hi xh)) n 0 dst)"

definition scal_ssse3 :: "bytes \<Rightarrow> bytes \<Rightarrow> nat \<Rightarrow> bytes" where
  "scal_ssse3 tabs dst n =
     (let lo = loadu 16 tabs 0; hi = loadu 16 tabs 16; mask = replicate 16 0x0f
      in kernel_loop 16 (\<lambda>i dst.
           let x = loadu 16 dst i; xl = and_si x mask; xh = and_si (srli_epi16_4 x) mask
           in xor_si (shuffle_epi8 lo xl) (shuffle_epi8 hi xh)) n 0 dst)"

definition scal_neon :: "bytes \<Rightarrow> bytes \<Rightarrow> nat \<Rightarrow> bytes" where
  "scal_neon tabs dst n =
     (let lo = loadu 16 tabs 0; hi = loadu 16 tabs 16; mask = replicate 16 0x0f
      in kernel_loop 16 (\<lambda>i dst.
           let x = loadu 16 dst i; xl = and_si x mask; xh = and_si (map (drop_bit 4) x) mask
           in xor_si (vqtbl1q_u8 lo xl) (vqtbl1q_u8 hi xh)) n 0 dst)"

section \<open>Slices\<close>

text \<open>What the processor offers: the branch taken at run time or at compile time.\<close>

datatype simd = Avx2 | Ssse3 | Neon | Scalar

definition gf_axpy_slice :: "simd \<Rightarrow> u8 \<Rightarrow> bytes \<Rightarrow> bytes \<Rightarrow> bytes" where
  "gf_axpy_slice cpu a src dst =
     (let n = min (length src) (length dst) in
      if a = 0 \<or> n = 0 then dst
      else if a = 1 then fold (\<lambda>i d. d[i := d ! i XOR src ! i]) [0..<n] dst
      else
        let tabs = mul_nibble_tables a;
            (dst, i) =
              (case cpu of
                 Avx2 \<Rightarrow> (axpy_avx2 tabs src dst n, n - n mod 32)
               | Ssse3 \<Rightarrow> (axpy_ssse3 tabs src dst n, n - n mod 16)
               | Neon \<Rightarrow> (axpy_neon tabs src dst n, n - n mod 16)
               | Scalar \<Rightarrow> (dst, 0))
        in fold (\<lambda>j d. d[j := d ! j XOR mul_row a ! unat (src ! j)]) [i..<n] dst)"

definition gf_scal_slice :: "simd \<Rightarrow> u8 \<Rightarrow> bytes \<Rightarrow> bytes" where
  "gf_scal_slice cpu a dst =
     (let n = length dst in
      if n = 0 then dst
      else if a = 0 then map (\<lambda>d. 0) dst
      else if a = 1 then dst
      else
        let tabs = mul_nibble_tables a;
            (dst, i) =
              (case cpu of
                 Avx2 \<Rightarrow> (scal_avx2 tabs dst n, n - n mod 32)
               | Ssse3 \<Rightarrow> (scal_ssse3 tabs dst n, n - n mod 16)
               | Neon \<Rightarrow> (scal_neon tabs dst n, n - n mod 16)
               | Scalar \<Rightarrow> (dst, 0))
        in fold (\<lambda>j d. d[j := mul_row a ! unat (d ! j)]) [i..<n] dst)"

text \<open>The aliases the coders call; by \<open>gf_slices_correct\<close> below the processor does not matter.\<close>

definition axpy :: "bytes \<Rightarrow> u8 \<Rightarrow> bytes \<Rightarrow> bytes" where
  "axpy dst a src = gf_axpy_slice Scalar a src dst"

definition scal_inplace :: "bytes \<Rightarrow> u8 \<Rightarrow> bytes" where
  "scal_inplace dst a = gf_scal_slice Scalar a dst"

definition gf_dot :: "bytes \<Rightarrow> bytes list \<Rightarrow> bytes" where
  "gf_dot coeffs rows =
     (case rows of
        [] \<Rightarrow> []
      | row0 # _ \<Rightarrow>
          fold (\<lambda>(c, r) out. if c = 0 then out else axpy out c r) (zip coeffs rows)
            (replicate (length row0) 0))"

section \<open>Nibble lookups\<close>

lemma mul_row_nth: "mul_row a ! unat x = gf_mul a x"
  by (simp add: mul_row_def gf_mul_def)

lemma nibble_split: "x = (x AND 15) XOR push_bit 4 (drop_bit 4 (x :: u8) AND 15)"
proof -
  have m: "(15 :: u8) = mask 4" by (simp add: mask_eq_exp_minus_1)
  show ?thesis
    unfolding m by (rule bit_word_eqI) (auto simp: bit_simps)
qed

lemma nibble_bounds: "unat ((x :: u8) AND 15) < 16" "\<not> bit (x AND 15) 7" "(x AND 15) AND 15 = (x AND 15 :: u8)"
proof -
  have m: "(15 :: u8) = mask 4" by (simp add: mask_eq_exp_minus_1)
  show "unat (x AND 15) < 16"
    unfolding m take_bit_eq_mask [symmetric] unsigned_take_bit_eq
    using take_bit_nat_less_exp [of 4 "unat x"] by simp
  show "\<not> bit (x AND 15) 7" unfolding m by (simp add: bit_simps)
  show "(x AND 15) AND 15 = (x AND 15 :: u8)" by (simp add: and.assoc)
qed

lemma nibble_lookup:
  "mul_nibble_tables a ! unat (x AND 15) XOR mul_nibble_tables a ! (16 + unat (drop_bit 4 x AND 15)) = gf_mul a x"
proof -
  define l where "l = x AND 15"
  define h where "h = drop_bit 4 x AND 15"
  have l: "unat l < 16" and h: "unat h < 16" by (simp_all add: l_def h_def nibble_bounds)
  have p: "unat (push_bit 4 h) = unat h * 16"
    using h by (simp add: push_bit_eq_mult unat_word_ariths)
  have "mul_nibble_tables a ! unat l = gf_mul a l"
    using l by (simp add: mul_nibble_tables_def nth_append mul_row_nth)
  moreover have "mul_nibble_tables a ! (16 + unat h) = gf_mul a (push_bit 4 h)"
    using h by (simp add: mul_nibble_tables_def nth_append mul_row_nth flip: p)
  moreover have "x = l XOR push_bit 4 h" unfolding l_def h_def by (rule nibble_split)
  ultimately show ?thesis unfolding l_def [symmetric] h_def [symmetric] by (metis gf.mul_distrib)
qed

section \<open>Lanes\<close>

text \<open>A kernel whose body acts on each lane separately acts on each covered byte.\<close>

lemma kernel_loop_lanes:
  assumes f: "\<And>i d. i + w \<le> n \<Longrightarrow> length d = length dst \<Longrightarrow>
      length (f i d) = w \<and> (\<forall>j < w. f i d ! j = g (i + j) (d ! (i + j)))"
    and "0 < w" "n \<le> length dst" "i \<le> n"
  shows "length (kernel_loop w f n i dst) = length dst \<and>
    (\<forall>j < length dst. kernel_loop w f n i dst ! j =
      (if i \<le> j \<and> j < i + (n - i) div w * w then g j (dst ! j) else dst ! j))"
  using f assms(3,4)
proof (induction w f n i dst rule: kernel_loop.induct)
  case (1 w f n i dst)
  show ?case
  proof (cases "0 < w \<and> i + w \<le> n")
    case True
    define d where "d = storeu dst i (f i dst)"
    have fi: "length (f i dst) = w" "\<And>j. j < w \<Longrightarrow> f i dst ! j = g (i + j) (dst ! (i + j))"
      using "1.prems"(1) True by auto
    have dl: "length d = length dst" using "1.prems"(2) True by (auto simp: d_def storeu_def fi)
    have dn: "d ! j = (if i \<le> j \<and> j < i + w then g j (dst ! j) else dst ! j)" if "j < length dst" for j
      using that True "1.prems"(2) fi(2) [of "j - i"]
      by (auto simp: d_def storeu_def nth_append fi(1) min_def)
    have IH: "length (kernel_loop w f n (i + w) d) = length d \<and>
        (\<forall>j < length d. kernel_loop w f n (i + w) d ! j =
          (if i + w \<le> j \<and> j < i + w + (n - (i + w)) div w * w then g j (d ! j) else d ! j))"
      unfolding d_def by (rule "1.IH") (use True "1.prems" dl in \<open>auto simp: d_def [symmetric]\<close>)
    have q: "(n - i) div w * w = w + (n - (i + w)) div w * w"
    proof -
      have "w \<le> n - i" "n - i - w = n - (i + w)" using True by linarith+
      then have "(n - i) div w = Suc ((n - (i + w)) div w)" using True le_div_geq [of w "n - i"] by simp
      then show ?thesis by simp
    qed
    have "kernel_loop w f n i dst = kernel_loop w f n (i + w) d"
      using True by (subst kernel_loop.simps) (simp add: d_def)
    then show ?thesis using IH dl dn by (auto simp: q)
  next
    case False
    then have "w = 0 \<or> (n - i) div w = 0" by (cases "w = 0") (auto simp: div_eq_0_iff)
    then show ?thesis using False by (subst (1 2) kernel_loop.simps) auto
  qed
qed

lemma srli_mask:
  "even (length x) \<Longrightarrow> and_si (srli_epi16_4 x) (replicate (length x) 15) = map (\<lambda>v. drop_bit 4 v AND 15) x"
proof (induction x rule: srli_epi16_4.induct)
  case (1 lo hi x)
  have m: "(15 :: u8) = mask 4" by (simp add: mask_eq_exp_minus_1)
  have "(drop_bit 4 lo OR push_bit 4 hi) AND 15 = drop_bit 4 lo AND (15 :: u8)"
    unfolding m by (rule bit_word_eqI) (auto simp: bit_simps)
  then show ?case using 1 by (simp add: and_si_def)
qed (simp_all add: and_si_def)

lemma and_mask: "and_si x (replicate (length x) 15) = map (\<lambda>v. v AND 15) x"
  by (simp add: and_si_def zip_replicate2 comp_def)

lemma tab_lanes:
  "loadu 16 (mul_nibble_tables a) 0 ! unat (x AND 15) XOR
   loadu 16 (mul_nibble_tables a) 16 ! unat (drop_bit 4 x AND 15) = gf_mul a x"
proof -
  have "length (mul_nibble_tables a) = 32" by (simp add: mul_nibble_tables_def)
  then show ?thesis
    using nibble_lookup [of a x] nibble_bounds(1) [of x] nibble_bounds(1) [of "drop_bit 4 x"]
    by (simp add: loadu_def)
qed

lemma ssse3_lookup:
  assumes "length x = 16"
  shows "xor_si (shuffle_epi8 (loadu 16 (mul_nibble_tables a) 0) (and_si x (replicate 16 15)))
      (shuffle_epi8 (loadu 16 (mul_nibble_tables a) 16) (and_si (srli_epi16_4 x) (replicate 16 15))) = map (gf_mul a) x"
  using assms and_mask [of x] srli_mask [of x]
  by (simp add: shuffle_epi8_def xor_si_def nibble_bounds comp_def zip_map_map split_def zip_same_conv_map tab_lanes)

lemma neon_lookup:
  assumes "length x = 16"
  shows "xor_si (vqtbl1q_u8 (loadu 16 (mul_nibble_tables a) 0) (and_si x (replicate 16 15)))
      (vqtbl1q_u8 (loadu 16 (mul_nibble_tables a) 16) (and_si (map (drop_bit 4) x) (replicate 16 15))) = map (gf_mul a) x"
  using assms and_mask [of x] and_mask [of "map (drop_bit 4) x"]
  by (simp add: vqtbl1q_u8_def xor_si_def nibble_bounds comp_def zip_map_map split_def zip_same_conv_map tab_lanes)

lemma avx2_lookup:
  assumes "length x = 32"
  shows "xor_si
      (shuffle_epi8_256 (loadu 16 (mul_nibble_tables a) 0 @ loadu 16 (mul_nibble_tables a) 0) (and_si x (replicate 32 15)))
      (shuffle_epi8_256 (loadu 16 (mul_nibble_tables a) 16 @ loadu 16 (mul_nibble_tables a) 16)
        (and_si (srli_epi16_4 x) (replicate 32 15))) = map (gf_mul a) x"
proof -
  have l: "length (loadu 16 (mul_nibble_tables a) 0) = 16" "length (loadu 16 (mul_nibble_tables a) 16) = 16"
    by (simp_all add: loadu_def mul_nibble_tables_def)
  have s: "shuffle_epi8_256 (t @ t) y = shuffle_epi8 t y" if "length t = 16" for t y
  proof -
    have "shuffle_epi8 t (take 16 y) @ shuffle_epi8 t (drop 16 y) = shuffle_epi8 t y"
      by (simp add: shuffle_epi8_def flip: map_append)
    then show ?thesis using that by (simp add: shuffle_epi8_256_def)
  qed
  show ?thesis
    using assms and_mask [of x] srli_mask [of x] unfolding s [OF l(1)] s [OF l(2)]
    by (simp add: shuffle_epi8_def xor_si_def nibble_bounds comp_def zip_map_map split_def zip_same_conv_map tab_lanes)
qed

lemma loadu_length: "i + w \<le> length b \<Longrightarrow> length (loadu w b i) = w"
  by (simp add: loadu_def)

lemma loadu_nth: "i + w \<le> length b \<Longrightarrow> j < w \<Longrightarrow> loadu w b i ! j = b ! (i + j)"
  by (simp add: loadu_def)

lemma div_mult_minus_mod: "(n :: nat) div w * w = n - n mod w"
  by (simp add: minus_mod_eq_div_mult)

text \<open>All six kernels: whole registers of \<open>w\<close> bytes are processed, the rest is left.\<close>

lemma axpy_kernels:
  assumes n: "n \<le> length src" "n \<le> length dst"
  shows "(axpy_avx2 (mul_nibble_tables a) src dst n, axpy_ssse3 (mul_nibble_tables a) src dst n, axpy_neon (mul_nibble_tables a) src dst n) =
    (map (\<lambda>j. if j < n - n mod 32 then dst ! j XOR gf_mul a (src ! j) else dst ! j) [0..<length dst],
     map (\<lambda>j. if j < n - n mod 16 then dst ! j XOR gf_mul a (src ! j) else dst ! j) [0..<length dst],
     map (\<lambda>j. if j < n - n mod 16 then dst ! j XOR gf_mul a (src ! j) else dst ! j) [0..<length dst])"
proof -
  have k: "kernel_loop w f n 0 dst = map (\<lambda>j. if j < n - n mod w then dst ! j XOR gf_mul a (src ! j) else dst ! j) [0..<length dst]"
    if "0 < w" "\<And>i d. i + w \<le> n \<Longrightarrow> length d = length dst \<Longrightarrow>
        f i d = xor_si (loadu w d i) (map (gf_mul a) (loadu w src i))" for w f
    using kernel_loop_lanes [of w n dst f "\<lambda>j v. v XOR gf_mul a (src ! j)" 0] that n
    by (auto intro!: nth_equalityI simp: xor_si_def loadu_length loadu_nth div_mult_minus_mod)
  show ?thesis
    unfolding axpy_avx2_def axpy_ssse3_def axpy_neon_def Let_def prod.inject
    by (intro conjI k) (use n in \<open>simp_all add: avx2_lookup ssse3_lookup neon_lookup loadu_length\<close>)
qed

lemma scal_kernels:
  assumes n: "n = length dst"
  shows "(scal_avx2 (mul_nibble_tables a) dst n, scal_ssse3 (mul_nibble_tables a) dst n, scal_neon (mul_nibble_tables a) dst n) =
    (map (\<lambda>j. if j < n - n mod 32 then gf_mul a (dst ! j) else dst ! j) [0..<length dst],
     map (\<lambda>j. if j < n - n mod 16 then gf_mul a (dst ! j) else dst ! j) [0..<length dst],
     map (\<lambda>j. if j < n - n mod 16 then gf_mul a (dst ! j) else dst ! j) [0..<length dst])"
proof -
  have k: "kernel_loop w f n 0 dst = map (\<lambda>j. if j < n - n mod w then gf_mul a (dst ! j) else dst ! j) [0..<length dst]"
    if "0 < w" "\<And>i d. i + w \<le> n \<Longrightarrow> length d = length dst \<Longrightarrow> f i d = map (gf_mul a) (loadu w d i)" for w f
    using kernel_loop_lanes [of w n dst f "\<lambda>j v. gf_mul a v" 0] that n
    by (auto intro!: nth_equalityI simp: loadu_length loadu_nth div_mult_minus_mod)
  show ?thesis
    unfolding scal_avx2_def scal_ssse3_def scal_neon_def Let_def prod.inject
    by (intro conjI k) (simp_all add: n avx2_lookup ssse3_lookup neon_lookup loadu_length)
qed

section \<open>Slices, pointwise\<close>

lemma fold_update:
  assumes "n \<le> length d"
  shows "fold (\<lambda>j d. d[j := f j (d ! j)]) [i..<n] d =
    map (\<lambda>j. if i \<le> j \<and> j < n then f j (d ! j) else d ! j) [0..<length d]"
  using assms
proof (induction n)
  case 0
  show ?case by (simp add: map_nth)
next
  case (Suc n)
  show ?case
  proof (cases "i \<le> n")
    case True
    then show ?thesis using Suc by (auto intro!: nth_equalityI simp: nth_list_update)
  next
    case False
    then show ?thesis by (auto intro!: nth_equalityI)
  qed
qed

definition axpy_spec :: "u8 \<Rightarrow> bytes \<Rightarrow> bytes \<Rightarrow> bytes" where
  "axpy_spec a src dst =
     map (\<lambda>j. if j < length src then dst ! j XOR gf_mul a (src ! j) else dst ! j) [0..<length dst]"

lemma gf_axpy_slice_spec: "gf_axpy_slice cpu a src dst = axpy_spec a src dst"
proof -
  define n where "n = min (length src) (length dst)"
  have n: "n \<le> length src" "n \<le> length dst" by (simp_all add: n_def)
  have small: "dst = axpy_spec a src dst" if "a = 0 \<or> n = 0"
    using that by (auto simp: axpy_spec_def n_def intro!: nth_equalityI split: if_splits)
  have tail: "fold (\<lambda>j d. d[j := d ! j XOR mul_row a ! unat (src ! j)]) [i..<n]
      (map (\<lambda>j. if j < i then dst ! j XOR gf_mul a (src ! j) else dst ! j) [0..<length dst]) = axpy_spec a src dst"
    if "i \<le> n" for i
    using n that by (subst fold_update) (auto simp: axpy_spec_def mul_row_nth n_def intro!: nth_equalityI)
  have one: "fold (\<lambda>i d. d[i := d ! i XOR src ! i]) [0..<n] dst = axpy_spec 1 src dst"
    using n by (subst fold_update) (auto simp: axpy_spec_def gf.mul_one n_def)
  have t0: "fold (\<lambda>j d. d[j := d ! j XOR mul_row a ! unat (src ! j)]) [0..<n] dst = axpy_spec a src dst"
    using tail [of 0] by (simp add: map_nth)
  show ?thesis
    using axpy_kernels [OF n, of a] small one t0
    by (auto simp: gf_axpy_slice_def Let_def tail n_def [symmetric] split: simd.split)
qed

lemma gf_scal_slice_spec: "gf_scal_slice cpu a dst = map (gf_mul a) dst"
proof -
  define n where "n = length dst"
  have tail: "fold (\<lambda>j d. d[j := mul_row a ! unat (d ! j)]) [i..<n]
      (map (\<lambda>j. if j < i then gf_mul a (dst ! j) else dst ! j) [0..<n]) = map (gf_mul a) dst"
    if "i \<le> n" for i
    using that by (subst fold_update) (auto simp: mul_row_nth n_def intro!: nth_equalityI)
  have t0: "fold (\<lambda>j d. d[j := mul_row a ! unat (d ! j)]) [0..<n] dst = map (gf_mul a) dst"
    using tail [of 0] by (simp add: map_nth n_def)
  have one: "map (gf_mul 1) dst = dst" by (simp add: map_idI gf.mul_one)
  show ?thesis
    using scal_kernels [of n dst a] t0
    by (auto simp: gf_scal_slice_def Let_def tail one n_def [symmetric] split: simd.split)
qed

lemma axpy_eq: "axpy dst a src = axpy_spec a src dst"
  by (simp add: axpy_def gf_axpy_slice_spec)

lemma scal_inplace_eq: "scal_inplace dst a = map (gf_mul a) dst"
  by (simp add: scal_inplace_def gf_scal_slice_spec)

lemma axpy_code [code]: "axpy dst a src = axpy_spec a src dst"
  by (rule axpy_eq)

lemma scal_inplace_code [code]: "scal_inplace dst a = map (gf_mul a) dst"
  by (rule scal_inplace_eq)

lemma axpy_spec_length [simp]: "length (axpy_spec a src dst) = length dst"
  by (simp add: axpy_spec_def)

lemma axpy_spec_nth: "j < length dst \<Longrightarrow> length src = length dst \<Longrightarrow>
    axpy_spec a src dst ! j = dst ! j XOR gf_mul a (src ! j)"
  by (simp add: axpy_spec_def)

section \<open>Properties\<close>

text \<open>C20: Whatever vector instructions the processor has, multiply-accumulate and scaling compute
  the field product byte by byte: the AVX2, SSSE3 and NEON kernels with their scalar tails agree
  with the table loop on slices of every length.\<close>

theorem gf_slices_correct:
  "gf_axpy_slice cpu a src dst =
     map2 (\<lambda>d s. d XOR gf_mul a s) dst src @ drop (length src) dst \<and>
   gf_scal_slice cpu a dst = map (gf_mul a) dst"
  by (auto simp: gf_axpy_slice_spec gf_scal_slice_spec axpy_spec_def nth_append intro!: nth_equalityI)

end
