(* ===== verification/Gf_Gauss.thy ===== *)
theory Gf_Gauss
  imports Gf_Slice
begin

text \<open>
  Gaussian elimination of \<open>crates/coding/src/gf256.rs\<close> on the list of rows.  The reduced
  matrix has unit pivot columns and zero rows below the rank, and is annihilated by exactly
  the same linear functionals as the input; from this follow that a full-rank result is the
  solution, and that a smaller rank leaves a nonzero solution of the homogeneous system.
\<close>

section \<open>Elimination\<close>

definition find_pivot :: "bytes list \<Rightarrow> nat \<Rightarrow> nat \<Rightarrow> nat option" where
  "find_pivot mat col rank = List.find (\<lambda>r. mat ! r ! col \<noteq> 0) [rank..<length mat]"

definition swap_rows :: "bytes list \<Rightarrow> nat \<Rightarrow> nat \<Rightarrow> bytes list" where
  "swap_rows mat i j = mat[i := mat ! j, j := mat ! i]"

definition clear_row :: "bytes \<Rightarrow> nat \<Rightarrow> nat \<Rightarrow> nat \<Rightarrow> bytes list \<Rightarrow> bytes list" where
  "clear_row prow col rank r mat =
     (if r = rank then mat
      else let f = mat ! r ! col in if f = 0 then mat else mat[r := axpy (mat ! r) f prow])"

definition gauss_pivot :: "bytes list \<Rightarrow> nat \<Rightarrow> nat \<Rightarrow> nat \<Rightarrow> bytes list" where
  "gauss_pivot mat col rank p =
     (let mat1 = (if rank \<noteq> p then swap_rows mat rank p else mat);
          pv = mat1 ! rank ! col;
          inv = gf_exp ! (255 - unat (gf_log ! unat pv));
          mat2 = mat1[rank := scal_inplace (mat1 ! rank) inv];
          prow = mat2 ! rank
      in fold (clear_row prow col rank) [0..<length mat] mat2)"

fun gauss_cols :: "nat list \<Rightarrow> bytes list \<Rightarrow> nat \<Rightarrow> bytes list \<times> nat" where
  "gauss_cols [] mat rank = (mat, rank)"
| "gauss_cols (col # cols) mat rank =
     (case find_pivot mat col rank of
        None \<Rightarrow> gauss_cols cols mat rank
      | Some p \<Rightarrow>
          (let mat' = gauss_pivot mat col rank p in
           if rank + 1 = length mat then (mat', rank + 1) else gauss_cols cols mat' (rank + 1)))"

definition gf_gauss_eliminate :: "bytes list \<Rightarrow> nat \<Rightarrow> nat \<Rightarrow> bytes list \<times> nat" where
  "gf_gauss_eliminate mat row_len k = (if row_len = 0 then (mat, 0) else gauss_cols [0..<k] mat 0)"

text \<open>For evaluation, the inverse of the pivot without the tables.\<close>

lemma gauss_pivot_code [code]:
  "gauss_pivot mat col rank p =
     (let mat1 = (if rank \<noteq> p then swap_rows mat rank p else mat);
          pv = mat1 ! rank ! col;
          inv = (if pv = 0 then gf_exp ! (255 - unat (gf_log ! unat pv)) else gf_inv pv);
          mat2 = mat1[rank := scal_inplace (mat1 ! rank) inv];
          prow = mat2 ! rank
      in fold (clear_row prow col rank) [0..<length mat] mat2)"
proof -
  have "(if pv = 0 then gf_exp ! (255 - unat (gf_log ! unat pv)) else gf_inv pv) =
      gf_exp ! (255 - unat (gf_log ! unat pv))" for pv
    by (simp add: gf_inv_def)
  then show ?thesis by (simp only: gauss_pivot_def)
qed

section \<open>Linear functionals\<close>

primrec xsum :: "(nat \<Rightarrow> u8) \<Rightarrow> nat \<Rightarrow> u8" where
  "xsum f 0 = 0"
| "xsum f (Suc n) = xsum f n XOR f n"

lemma xsum_xor: "xsum (\<lambda>j. f j XOR g j) n = xsum f n XOR xsum g n"
  by (induction n) (simp_all add: ac_simps)

lemma xsum_cong: "(\<And>j. j < n \<Longrightarrow> f j = g j) \<Longrightarrow> xsum f n = xsum g n"
  by (induction n) simp_all

lemma xsum_zero [simp]: "xsum (\<lambda>j. 0) n = 0"
  by (induction n) simp_all

lemma xsum_delta: "xsum (\<lambda>j. if j = i then f j else 0) n = (if i < n then f i else 0)"
  by (induction n) auto

lemma xsum_split: "k \<le> n \<Longrightarrow> xsum f n = xsum f k XOR xsum (\<lambda>j. f (k + j)) (n - k)"
proof (induction n)
  case (Suc n)
  then show ?case by (cases "k = Suc n") (simp_all add: Suc_diff_le ac_simps)
qed simp

context byte_field
begin

lemma mul_xsum: "mul a (xsum f n) = xsum (\<lambda>j. mul a (f j)) n"
  by (induction n) (simp_all add: mul_distrib)

end

definition dot :: "nat \<Rightarrow> bytes \<Rightarrow> (nat \<Rightarrow> u8) \<Rightarrow> u8" where
  "dot L row w = xsum (\<lambda>j. gf_mul (row ! j) (w j)) L"

definition rows_len :: "nat \<Rightarrow> bytes list \<Rightarrow> bool" where
  "rows_len L mat \<longleftrightarrow> (\<forall>row \<in> set mat. length row = L)"

definition annihilates :: "nat \<Rightarrow> (nat \<Rightarrow> u8) \<Rightarrow> bytes list \<Rightarrow> bool" where
  "annihilates L w mat \<longleftrightarrow> (\<forall>row \<in> set mat. dot L row w = 0)"

lemma dot_scal: "length row = L \<Longrightarrow> dot L (scal_inplace row a) w = gf_mul a (dot L row w)"
  by (simp add: dot_def gf.mul_xsum scal_inplace_eq gf.mul_assoc cong: xsum_cong)

lemma dot_axpy:
  "length row = L \<Longrightarrow> length p = L \<Longrightarrow> dot L (axpy row f p) w = dot L row w XOR gf_mul f (dot L p w)"
  by (simp add: dot_def gf.mul_xsum axpy_eq axpy_spec_nth gf.mul_distrib_right gf.mul_assoc xsum_xor [symmetric]
      cong: xsum_cong)

section \<open>One pivot step\<close>

lemma find_pivot_Some:
  "find_pivot mat col rank = Some p \<Longrightarrow> rank \<le> p \<and> p < length mat \<and> mat ! p ! col \<noteq> 0"
  by (auto simp: find_pivot_def find_Some_iff)

lemma find_pivot_None:
  "find_pivot mat col rank = None \<longleftrightarrow> (\<forall>r. rank \<le> r \<and> r < length mat \<longrightarrow> mat ! r ! col = 0)"
  by (auto simp: find_pivot_def find_None_iff)

lemma clear_rows:
  assumes "rank < length mat" "m \<le> length mat"
  shows "length (fold (clear_row prow col rank) [0..<m] mat) = length mat \<and>
    (\<forall>r < length mat. fold (clear_row prow col rank) [0..<m] mat ! r =
      (if r < m \<and> r \<noteq> rank \<and> mat ! r ! col \<noteq> 0 then axpy (mat ! r) (mat ! r ! col) prow else mat ! r))"
  using assms(2)
proof (induction m)
  case (Suc m)
  then show ?case by (auto simp: clear_row_def Let_def nth_list_update less_Suc_eq)
qed simp

text \<open>The rows after one pivot step: the normalised pivot row, the displaced row, the others.\<close>

lemma gauss_pivot_rows:
  assumes p: "find_pivot mat col rank = Some p" and L: "rows_len L mat" "col < L"
  defines "prow \<equiv> scal_inplace (mat ! p) (gf_inv (mat ! p ! col))"
  shows "length (gauss_pivot mat col rank p) = length mat"
    and "gauss_pivot mat col rank p ! rank = prow" "prow ! col = 1"
    and "\<And>r. r < length mat \<Longrightarrow> r \<noteq> rank \<Longrightarrow>
      gauss_pivot mat col rank p ! r =
        axpy (mat ! (if r = p then rank else r)) (mat ! (if r = p then rank else r) ! col) prow"
proof -
  note pv = find_pivot_Some [OF p]
  define mat1 where "mat1 = (if rank \<noteq> p then swap_rows mat rank p else mat)"
  define mat2 where "mat2 = mat1[rank := prow]"
  have m1: "length mat1 = length mat" "mat1 ! rank = mat ! p"
      "\<And>r. r < length mat \<Longrightarrow> r \<noteq> rank \<Longrightarrow> mat1 ! r = mat ! (if r = p then rank else r)"
    using pv by (auto simp: mat1_def swap_rows_def nth_list_update)
  have g: "gauss_pivot mat col rank p = fold (clear_row prow col rank) [0..<length mat] mat2"
    using pv by (simp add: gauss_pivot_def mat1_def [symmetric] m1 mat2_def prow_def gf_inv_def Let_def)
  have lp: "length (mat ! p) = L" using pv L by (auto simp: rows_len_def)
  have z: "axpy row 0 x = row" for row x
    by (auto simp: axpy_eq axpy_spec_def intro!: nth_equalityI)
  have c: "length mat2 = length mat" "rank < length mat2" using pv by (auto simp: mat2_def m1)
  note cr = clear_rows [of rank mat2 "length mat" prow col]
  show "length (gauss_pivot mat col rank p) = length mat" using cr c by (simp add: g)
  show "gauss_pivot mat col rank p ! rank = prow" using cr c by (simp add: g mat2_def)
  show "prow ! col = 1"
    using pv L lp gf.mul_inv [of "mat ! p ! col"] gf.mul_commute by (simp add: prow_def scal_inplace_eq)
  show "gauss_pivot mat col rank p ! r =
        axpy (mat ! (if r = p then rank else r)) (mat ! (if r = p then rank else r) ! col) prow"
    if "r < length mat" "r \<noteq> rank" for r
    using cr c that m1 by (auto simp: g mat2_def z)
qed

lemma gauss_pivot_annihilates:
  assumes p: "find_pivot mat col rank = Some p" and L: "rows_len L mat" "col < L"
  shows "annihilates L w (gauss_pivot mat col rank p) \<longleftrightarrow> annihilates L w mat"
proof -
  define mat' where "mat' = gauss_pivot mat col rank p"
  define inv where "inv = gf_inv (mat ! p ! col)"
  note pv = find_pivot_Some [OF p]
  note rows = gauss_pivot_rows [OF p L, folded mat'_def inv_def]
  have len: "length (mat ! r) = L" if "r < length mat" for r using that L by (auto simp: rows_len_def)
  have lp: "length (scal_inplace (mat ! p) inv) = L" using pv len by (simp add: scal_inplace_eq)
  have inv: "inv \<noteq> 0" using pv gf.mul_inv [of "mat ! p ! col"] by (auto simp: inv_def)
  have dp: "dot L (mat' ! rank) w = gf_mul inv (dot L (mat ! p) w)"
    using pv len by (simp add: rows dot_scal)
  have dr: "dot L (mat' ! r) w = dot L (mat ! (if r = p then rank else r)) w XOR
      gf_mul (mat ! (if r = p then rank else r) ! col) (gf_mul inv (dot L (mat ! p) w))"
    if "r < length mat" "r \<noteq> rank" for r
    using that pv len lp by (simp add: rows dot_axpy dot_scal)
  have "(\<forall>r < length mat. dot L (mat' ! r) w = 0) \<longleftrightarrow> (\<forall>r < length mat. dot L (mat ! r) w = 0)"
  proof
    assume z: "\<forall>r < length mat. dot L (mat' ! r) w = 0"
    then have zp: "dot L (mat ! p) w = 0" using dp pv inv by (simp add: gf.mul_eq_0_iff)
    have "dot L (mat ! r) w = 0" if "r < length mat" for r
    proof (cases "r = p")
      case False
      show ?thesis
      proof (cases "r = rank")
        case True
        then show ?thesis using dr [of p] z zp pv False by auto
      next
        case nr: False
        then show ?thesis using dr [of r] z zp that False by simp
      qed
    qed (simp add: zp)
    then show "\<forall>r < length mat. dot L (mat ! r) w = 0" by blast
  next
    assume z: "\<forall>r < length mat. dot L (mat ! r) w = 0"
    have "dot L (mat' ! r) w = 0" if "r < length mat" for r
      using z dp dr [of r] pv that by (cases "r = rank") auto
    then show "\<forall>r < length mat. dot L (mat' ! r) w = 0" by blast
  qed
  then show ?thesis
    unfolding annihilates_def all_set_conv_all_nth mat'_def [symmetric] rows(1) .
qed

section \<open>Reduced form\<close>

definition reduced :: "nat \<Rightarrow> bytes list \<Rightarrow> nat \<Rightarrow> nat list \<Rightarrow> nat \<Rightarrow> bool" where
  "reduced L mat rank pivs c \<longleftrightarrow>
     rows_len L mat \<and> rank \<le> length mat \<and> length pivs = rank \<and> distinct pivs \<and> (\<forall>j \<in> set pivs. j < c) \<and>
     (\<forall>i < rank. \<forall>r < length mat. mat ! r ! (pivs ! i) = (if r = i then 1 else 0)) \<and>
     (\<forall>r < length mat. rank \<le> r \<longrightarrow> (\<forall>j < c. mat ! r ! j = 0))"

lemma reducedD:
  assumes "reduced L mat rank pivs c"
  shows "rows_len L mat" "rank \<le> length mat" "length pivs = rank" "distinct pivs" "\<forall>j \<in> set pivs. j < c"
    and "\<And>i r. i < rank \<Longrightarrow> r < length mat \<Longrightarrow> mat ! r ! (pivs ! i) = (if r = i then 1 else 0)"
    and "\<And>r j. r < length mat \<Longrightarrow> rank \<le> r \<Longrightarrow> j < c \<Longrightarrow> mat ! r ! j = 0"
  using assms unfolding reduced_def by blast+

lemma reduced_pivot:
  assumes p: "find_pivot mat col rank = Some p" and R: "reduced L mat rank pivs col" and L: "col < L"
  shows "reduced L (gauss_pivot mat col rank p) (rank + 1) (pivs @ [col]) (Suc col)"
proof -
  define mat' where "mat' = gauss_pivot mat col rank p"
  define inv where "inv = gf_inv (mat ! p ! col)"
  define prow where "prow = scal_inplace (mat ! p) inv"
  note pv = find_pivot_Some [OF p]
  note R = reducedD [OF R]
  note rows = gauss_pivot_rows [OF p R(1) L, folded mat'_def inv_def, folded prow_def]
  have len: "length (mat ! r) = L" if "r < length mat" for r using that R(1) by (auto simp: rows_len_def)
  have lp: "length prow = L" using pv len by (simp add: prow_def scal_inplace_eq)
  have pz: "prow ! j = 0" if "j < L" "mat ! p ! j = 0" for j
    using that pv len by (simp add: prow_def scal_inplace_eq)
  have prev: "prow ! (pivs ! i) = 0" "pivs ! i < L" "pivs ! i < col" if "i < rank" for i
  proof -
    show c: "pivs ! i < col" using that R(3,5) by auto
    then show l: "pivs ! i < L" using L by simp
    show "prow ! (pivs ! i) = 0" using R(6) [of i p] that pv by (intro pz l) auto
  qed
  have low: "prow ! j = 0" if "j < col" for j using R(7) [of p j] pv that L by (intro pz) auto
  define src where "src r = mat ! (if r = p then rank else r)" for r
  have e: "mat' ! r ! j = src r ! j XOR gf_mul (src r ! col) (prow ! j)"
    if "r < length mat" "r \<noteq> rank" "j < L" for r j
    using that pv len lp by (auto simp: rows(4) src_def axpy_eq axpy_spec_nth)
  have unit: "mat' ! r ! ((pivs @ [col]) ! i) = (if r = i then 1 else 0)" if "i < rank + 1" "r < length mat" for i r
  proof (cases "i = rank")
    case True
    then show ?thesis using that R(3) e [of r col] L rows(2,3) by (cases "r = rank") (auto simp: nth_append)
  next
    case False
    then have i: "i < rank" using that by simp
    have "src r ! (pivs ! i) = (if r = i then 1 else 0)" if "r \<noteq> rank"
      using R(6) [OF i, of "if r = p then rank else r"] pv i \<open>r < length mat\<close> by (auto simp: src_def)
    then show ?thesis
      using that prev [OF i] R(3) i rows(2) e [of r "pivs ! i"] by (cases "r = rank") (auto simp: nth_append)
  qed
  have zero: "mat' ! r ! j = 0" if r: "r < length mat" "rank + 1 \<le> r" and j: "j < Suc col" for r j
  proof (cases "j = col")
    case True
    then show ?thesis using r e [of r col] L rows(3) by auto
  next
    case False
    then have "src r ! j = 0" using R(7) [of "if r = p then rank else r" j] r j pv by (auto simp: src_def)
    then show ?thesis using r j False low [of j] L e [of r j] by auto
  qed
  have "length (mat' ! r) = L" if "r < length mat" for r
    using that pv len lp rows(2) by (cases "r = rank") (auto simp: rows(4) axpy_eq)
  then have "rows_len L mat'" by (auto simp: rows_len_def in_set_conv_nth rows(1))
  moreover have "col \<notin> set pivs" using R(5) by auto
  ultimately show ?thesis
    using R(3-5) pv unit zero
    unfolding reduced_def mat'_def [symmetric] rows(1) by (auto simp: less_Suc_eq)
qed

lemma reduced_skip:
  assumes "find_pivot mat col rank = None" "reduced L mat rank pivs col"
  shows "reduced L mat rank pivs (Suc col)"
  using assms unfolding reduced_def find_pivot_None by (auto simp: less_Suc_eq)

lemma reduced_full:
  assumes "reduced L mat rank pivs c" "rank = length mat" "c \<le> k"
  shows "reduced L mat rank pivs k"
  using assms unfolding reduced_def by auto

lemma gauss_cols_reduced:
  assumes "reduced L mat rank pivs c" "c \<le> k" "k \<le> L" "gauss_cols [c..<k] mat rank = (mat', rank')"
  shows "(\<exists>pivs'. reduced L mat' rank' pivs' k) \<and> length mat' = length mat \<and>
    (\<forall>w. annihilates L w mat' \<longleftrightarrow> annihilates L w mat)"
  using assms
proof (induction "k - c" arbitrary: c mat rank pivs)
  case 0
  then show ?case by auto
next
  case (Suc n)
  then have u: "[c..<k] = c # [Suc c..<k]" and c: "c < L" by (simp_all add: upt_conv_Cons)
  show ?case
  proof (cases "find_pivot mat c rank")
    case None
    then show ?thesis
      using Suc.hyps(1) [of "Suc c" mat rank pivs] Suc.hyps(2) Suc.prems reduced_skip [OF None Suc.prems(1)] u
      by auto
  next
    case (Some p)
    note R = reduced_pivot [OF Some Suc.prems(1) c]
    note A = gauss_pivot_annihilates [OF Some reducedD(1) [OF Suc.prems(1)] c]
    note len = gauss_pivot_rows(1) [OF Some reducedD(1) [OF Suc.prems(1)] c]
    show ?thesis
    proof (cases "rank + 1 = length mat")
      case True
      then have "mat' = gauss_pivot mat c rank p" "rank' = rank + 1"
        using Suc.prems(4) u Some by (auto simp: Let_def)
      then show ?thesis
        using reduced_full [OF R, of k] True len A Suc.hyps(2) Suc.prems(2)
        by (auto intro!: exI [of _ "pivs @ [c]"])
    next
      case False
      then show ?thesis
        using Suc.hyps(1) [OF _ R] Suc.hyps(2) Suc.prems u Some A len by (auto simp: Let_def)
    qed
  qed
qed

lemma gauss_reduced:
  assumes "rows_len L mat" "k \<le> L" "0 < L" "gf_gauss_eliminate mat L k = (mat', rank)"
  shows "(\<exists>pivs. reduced L mat' rank pivs k) \<and> length mat' = length mat \<and>
    (\<forall>w. annihilates L w mat' \<longleftrightarrow> annihilates L w mat)"
proof (rule gauss_cols_reduced)
  show "reduced L mat 0 [] 0" using assms(1) by (simp add: reduced_def)
qed (use assms in \<open>auto simp: gf_gauss_eliminate_def\<close>)

section \<open>Solutions\<close>

text \<open>A row \<open>[A | b]\<close> with \<open>k\<close> coefficients and \<open>s\<close> payload bytes holds of the unknown vectors \<open>X\<close>.\<close>

definition row_holds :: "nat \<Rightarrow> nat \<Rightarrow> (nat \<Rightarrow> bytes) \<Rightarrow> bytes \<Rightarrow> bool" where
  "row_holds k s X row \<longleftrightarrow> (\<forall>p < s. row ! (k + p) = xsum (\<lambda>j. gf_mul (row ! j) (X j ! p)) k)"

definition weight :: "nat \<Rightarrow> nat \<Rightarrow> (nat \<Rightarrow> bytes) \<Rightarrow> nat \<Rightarrow> u8" where
  "weight k p X j = (if j < k then X j ! p else if j = k + p then 1 else 0)"

lemma xor_zero_iff: "(a :: u8) XOR b = 0 \<longleftrightarrow> a = b"
  by (auto simp: bit_eq_iff bit_xor_iff)

lemma dot_weight:
  assumes "p < s"
  shows "dot (k + s) row (weight k p X) = 0 \<longleftrightarrow> row ! (k + p) = xsum (\<lambda>j. gf_mul (row ! j) (X j ! p)) k"
proof -
  have "xsum (\<lambda>j. gf_mul (row ! (k + j)) (weight k p X (k + j))) s = xsum (\<lambda>j. if j = p then row ! (k + j) else 0) s"
    by (rule xsum_cong) (simp add: weight_def)
  also have "\<dots> = row ! (k + p)" using assms by (simp add: xsum_delta)
  finally have "dot (k + s) row (weight k p X) =
      xsum (\<lambda>j. gf_mul (row ! j) (weight k p X j)) k XOR row ! (k + p)"
    by (simp add: dot_def xsum_split [of k "k + s"])
  also have "xsum (\<lambda>j. gf_mul (row ! j) (weight k p X j)) k = xsum (\<lambda>j. gf_mul (row ! j) (X j ! p)) k"
    by (rule xsum_cong) (simp add: weight_def)
  finally show ?thesis by (auto simp: xor_zero_iff)
qed

lemma rows_hold_iff:
  "(\<forall>row \<in> set mat. row_holds k s X row) \<longleftrightarrow> (\<forall>p < s. annihilates (k + s) (weight k p X) mat)"
  unfolding row_holds_def annihilates_def using dot_weight by blast

lemma dot_prefix: "k \<le> L \<Longrightarrow> dot L row (\<lambda>j. if j < k then v j else 0) = dot k row v"
  unfolding dot_def by (subst xsum_split [of k L]) (auto cong: xsum_cong)

lemma full_rank_units:
  assumes R: "reduced L mat k pivs k"
  shows "set pivs = {..<k}"
    and "\<And>i j. i < k \<Longrightarrow> j < k \<Longrightarrow> mat ! i ! j = (if j = pivs ! i then 1 else 0)"
    and "\<And>i j. i < length mat \<Longrightarrow> k \<le> i \<Longrightarrow> j < k \<Longrightarrow> mat ! i ! j = 0"
proof -
  note R = reducedD [OF R]
  show s: "set pivs = {..<k}"
    using R(3-5) by (intro card_subset_eq) (auto simp: distinct_card)
  show "mat ! i ! j = (if j = pivs ! i then 1 else 0)" if "i < k" "j < k" for i j
  proof -
    have "j \<in> set pivs" using s that by simp
    then obtain i' where i': "i' < k" "j = pivs ! i'" using R(3) by (auto simp: in_set_conv_nth)
    moreover have "pivs ! i' = pivs ! i \<longleftrightarrow> i' = i" using R(3,4) i' that by (simp add: nth_eq_iff_index_eq)
    ultimately show ?thesis using R(2) R(6) [of i' i] that by auto
  qed
  show "mat ! i ! j = 0" if "i < length mat" "k \<le> i" "j < k" for i j using R(7) that by blast
qed

text \<open>Full rank: each of the first \<open>k\<close> rows is one unknown, the others are zero.\<close>

lemma reduced_solution:
  assumes R: "reduced (k + s) mat k pivs k"
    and holds: "\<forall>row \<in> set mat. row_holds k s X row" and X: "\<forall>j < k. length (X j) = s"
    and i: "i < k"
  shows "drop k (mat ! i) = X (pivs ! i)"
proof (rule nth_equalityI)
  note U = full_rank_units [OF R] and D = reducedD [OF R]
  have mi: "mat ! i \<in> set mat" and li: "length (mat ! i) = k + s"
    using i D(1,2) by (auto simp: rows_len_def)
  have pi: "pivs ! i < k" using i D(3,5) by auto
  show "length (drop k (mat ! i)) = length (X (pivs ! i))" using li pi X by simp
  fix p assume "p < length (drop k (mat ! i))"
  then have p: "p < s" using li by simp
  then have "mat ! i ! (k + p) = xsum (\<lambda>j. gf_mul (mat ! i ! j) (X j ! p)) k"
    using holds mi by (auto simp: row_holds_def)
  also have "\<dots> = xsum (\<lambda>j. if j = pivs ! i then X j ! p else 0) k"
    by (rule xsum_cong) (use U(2) [OF i] in \<open>simp add: gf.mul_one\<close>)
  also have "\<dots> = X (pivs ! i) ! p" using pi by (simp add: xsum_delta)
  finally show "drop k (mat ! i) ! p = X (pivs ! i) ! p" using p li by simp
qed

lemma gauss_solution:
  assumes "rows_len (k + s) mat" "0 < k + s" "gf_gauss_eliminate mat (k + s) k = (mat', k)"
    and "\<forall>row \<in> set mat. row_holds k s X row" "\<forall>j < k. length (X j) = s"
  shows "\<exists>pivs. set pivs = {..<k} \<and> length pivs = k \<and> k \<le> length mat' \<and> rows_len (k + s) mat' \<and>
    (\<forall>i < k. drop k (mat' ! i) = X (pivs ! i) \<and> (\<forall>j < k. mat' ! i ! j = (if j = pivs ! i then 1 else 0))) \<and>
    (\<forall>i < length mat'. k \<le> i \<longrightarrow> (\<forall>j < k. mat' ! i ! j = 0))"
proof -
  obtain pivs where R: "reduced (k + s) mat' k pivs k"
    and ann: "\<forall>w. annihilates (k + s) w mat' \<longleftrightarrow> annihilates (k + s) w mat"
    using gauss_reduced [OF assms(1) _ assms(2,3)] by auto
  note U = full_rank_units [OF R] and D = reducedD [OF R]
  have "\<forall>row \<in> set mat'. row_holds k s X row" using assms(4) ann by (simp add: rows_hold_iff)
  then show ?thesis using reduced_solution [OF R _ assms(5)] U D by (intro exI [of _ pivs]) auto
qed

lemma xsum_swap: "xsum (\<lambda>j. xsum (\<lambda>i. f i j) n) m = xsum (\<lambda>i. xsum (\<lambda>j. f i j) m) n"
  by (induction m) (simp_all add: xsum_xor)

text \<open>Deficient rank: a nonzero solution of the homogeneous system, one free column set to 1.\<close>

lemma deficient_kernel:
  assumes R: "reduced L mat rank pivs k" and c: "c < k" "c \<notin> set pivs"
  defines "v \<equiv> \<lambda>j. (if j = c then 1 else 0) XOR xsum (\<lambda>i. if pivs ! i = j then mat ! i ! c else 0) rank"
  shows "v c = 1" "\<And>r. r < length mat \<Longrightarrow> dot k (mat ! r) v = 0"
proof -
  note D = reducedD [OF R]
  have ne: "pivs ! i \<noteq> c" and lt: "pivs ! i < k" if "i < rank" for i
    using c D(3,5) that by auto
  have "xsum (\<lambda>i. if pivs ! i = c then mat ! i ! c else 0) rank = xsum (\<lambda>i. 0) rank"
    by (rule xsum_cong) (use ne in simp)
  then show "v c = 1" by (simp add: v_def)
  fix r assume r: "r < length mat"
  have "xsum (\<lambda>j. gf_mul (mat ! r ! j) (xsum (\<lambda>i. if pivs ! i = j then mat ! i ! c else 0) rank)) k =
      xsum (\<lambda>i. xsum (\<lambda>j. if j = pivs ! i then gf_mul (mat ! r ! j) (mat ! i ! c) else 0) k) rank"
    unfolding gf.mul_xsum by (subst xsum_swap, intro xsum_cong) auto
  also have "\<dots> = xsum (\<lambda>i. if i = r then mat ! i ! c else 0) rank"
    by (rule xsum_cong) (use lt D(6) r in \<open>simp add: xsum_delta gf.mul_one\<close>)
  also have "\<dots> = mat ! r ! c" using D(7) [of r c] r c(1) by (simp add: xsum_delta)
  finally have t: "xsum (\<lambda>j. gf_mul (mat ! r ! j) (xsum (\<lambda>i. if pivs ! i = j then mat ! i ! c else 0) rank)) k =
      mat ! r ! c" .
  have "xsum (\<lambda>j. gf_mul (mat ! r ! j) (if j = c then 1 else 0)) k =
      xsum (\<lambda>j. if j = c then mat ! r ! j else 0) k"
    by (rule xsum_cong) simp
  also have "\<dots> = mat ! r ! c" using c(1) by (simp add: xsum_delta)
  finally show "dot k (mat ! r) v = 0" by (simp add: dot_def v_def gf.mul_distrib xsum_xor t)
qed

lemma kernel_eq:
  assumes "k \<le> L" "\<forall>w. annihilates L w mat' \<longleftrightarrow> annihilates L w mat"
  shows "(\<forall>row \<in> set mat'. dot k row v = 0) \<longleftrightarrow> (\<forall>row \<in> set mat. dot k row v = 0)"
  using assms(2) [rule_format, of "\<lambda>j. if j < k then v j else 0"]
  by (simp add: annihilates_def dot_prefix [OF assms(1)])

lemma reduced_rank_le:
  assumes "reduced L mat rank pivs k"
  shows "rank \<le> k"
  using reducedD(3-5) [OF assms] card_mono [of "{..<k}" "set pivs"] by (auto simp: distinct_card)

lemma gauss_rank_le:
  assumes "rows_len L mat" "k \<le> L" "0 < L" "gf_gauss_eliminate mat L k = (mat', rank)"
  shows "rank \<le> k" "rank \<le> length mat"
proof -
  obtain pivs where R: "reduced L mat' rank pivs k" and l: "length mat' = length mat"
    using gauss_reduced [OF assms] by auto
  show "rank \<le> k" by (rule reduced_rank_le [OF R])
  show "rank \<le> length mat" using reducedD(2) [OF R] l by simp
qed

lemma reduced_full_iff:
  assumes R: "reduced L mat rank pivs k"
  shows "rank = k \<longleftrightarrow> (\<forall>v. (\<forall>row \<in> set mat. dot k row v = 0) \<longrightarrow> (\<forall>j < k. v j = 0))"
proof -
  note D = reducedD [OF R]
  show ?thesis
  proof
    assume full: "rank = k"
    show "\<forall>v. (\<forall>row \<in> set mat. dot k row v = 0) \<longrightarrow> (\<forall>j < k. v j = 0)"
    proof (intro allI impI)
      fix v j assume v: "\<forall>row \<in> set mat. dot k row v = 0" and j: "j < k"
      note U = full_rank_units [OF R [unfolded full]]
      have "j \<in> set pivs" using U(1) j by simp
      then obtain i where i: "i < k" "j = pivs ! i" using D(3) full by (auto simp: in_set_conv_nth)
      have "mat ! i \<in> set mat" using i D(2) full by simp
      then have "0 = dot k (mat ! i) v" using v by simp
      also have "\<dots> = xsum (\<lambda>l. if l = j then v l else 0) k"
        unfolding dot_def by (rule xsum_cong) (use U(2) [OF i(1)] i(2) in \<open>simp add: gf.mul_one\<close>)
      also have "\<dots> = v j" using j by (simp add: xsum_delta)
      finally show "v j = 0" by simp
    qed
  next
    assume trivial: "\<forall>v. (\<forall>row \<in> set mat. dot k row v = 0) \<longrightarrow> (\<forall>j < k. v j = 0)"
    show "rank = k"
    proof (rule ccontr)
      assume "rank \<noteq> k"
      then have "card (set pivs) < card {..<k}" using reduced_rank_le [OF R] D(3,4) by (simp add: distinct_card)
      then obtain c where c: "c < k" "c \<notin> set pivs"
        by (metis card_mono finite_set lessThan_iff not_less subsetI)
      note K = deficient_kernel [OF R c]
      define v where "v = (\<lambda>j. (if j = c then 1 else 0) XOR
          xsum (\<lambda>i. if pivs ! i = j then mat ! i ! c else 0) rank)"
      have "\<forall>row \<in> set mat. dot k row v = 0"
        using K(2) unfolding v_def [symmetric] by (simp add: all_set_conv_all_nth)
      then have "v c = 0" using trivial c(1) by blast
      then show False using K(1) by (simp add: v_def)
    qed
  qed
qed

lemma gauss_full_iff:
  assumes "rows_len L mat" "k \<le> L" "0 < L" "gf_gauss_eliminate mat L k = (mat', rank)"
  shows "rank = k \<longleftrightarrow> (\<forall>v. (\<forall>row \<in> set mat. dot k row v = 0) \<longrightarrow> (\<forall>j < k. v j = 0))"
proof -
  obtain pivs where R: "reduced L mat' rank pivs k"
    and ann: "\<forall>w. annihilates L w mat' \<longleftrightarrow> annihilates L w mat"
    using gauss_reduced [OF assms] by auto
  show ?thesis using reduced_full_iff [OF R] by (simp add: kernel_eq [OF assms(2) ann])
qed

section \<open>Properties\<close>

text \<open>Gaussian elimination reports full rank exactly when the equations determine the unknowns:
  the rank is \<open>k\<close> if and only if no nonzero vector is orthogonal to the coefficient part of every
  row.\<close>

theorem gauss_rank_determines:
  assumes "\<forall>row \<in> set mat. length row = L" "k \<le> L" "0 < L"
  shows "snd (gf_gauss_eliminate mat L k) = k \<longleftrightarrow>
    (\<forall>v. (\<forall>row \<in> set mat. dot k row v = 0) \<longrightarrow> (\<forall>j < k. v j = 0))"
  using gauss_full_iff [of L mat k] assms
  by (cases "gf_gauss_eliminate mat L k") (simp add: rows_len_def)

theorem gauss_rank_determines_witness:
  "snd (gf_gauss_eliminate [[0, 1, 7], [1, 1, 9]] 3 2) = 2 \<and>
   \<not> (dot 2 [0, 1, 7] (\<lambda>j. 1) = 0 \<and> dot 2 [1, 1, 9] (\<lambda>j. 1) = 0)"
proof -
  have "snd (gf_gauss_eliminate [[0, 1, 7], [1, 1, 9]] 3 2) = 2" by code_simp
  with gauss_rank_determines [of "[[0, 1, 7], [1, 1, 9]]" 3 2]
  have "snd (gf_gauss_eliminate [[0, 1, 7], [1, 1, 9]] 3 2) = 2"
    "(\<forall>row \<in> set [[0, 1, 7], [1, 1, 9]]. dot 2 row (\<lambda>j. 1) = 0) \<longrightarrow> (\<forall>j < (2 :: nat). (1 :: u8) = 0)"
    by auto
  then show ?thesis by (force dest: spec [of _ 0])
qed

end
