(* ===== verification/Fountain.thy ===== *)
theory Fountain
  imports Gf_Gauss "HOL-Library.AList"
begin

text \<open>
  The rateless erasure code (\<open>crates/coding/src/fountain.rs\<close>): the systematic encoder with its
  repair symbols, the wire format of a coded symbol, the decoder's symbol store, and the
  peeling decoder with its residual Gaussian elimination.  Hash-map covers are association
  lists; the peeling loop looks only at covers with one entry, so the order of a hash map's
  iterator does not matter.  The robust soliton distribution is computed in floating point with
  the platform's logarithm; the index it selects for a random draw is the parameter \<open>cdf\<close>.
\<close>

section \<open>Errors, sources, random numbers\<close>

datatype fountain_error =
    FountainEmpty
  | Underdetermined nat nat
  | SizeMismatch nat nat

datatype source =
    Owned "bytes list"
  | Shared bytes nat nat nat

fun source_k :: "source \<Rightarrow> nat" where
  "source_k (Owned v) = length v"
| "source_k (Shared buf offset stride k) = k"

fun source_symbol_size :: "source \<Rightarrow> nat" where
  "source_symbol_size (Owned v) = length (hd v)"
| "source_symbol_size (Shared buf offset stride k) = stride"

fun src :: "source \<Rightarrow> nat \<Rightarrow> bytes" where
  "src (Owned v) i = v ! i"
| "src (Shared buf offset stride k) i = take stride (drop (offset + i * stride) buf)"

definition mix64 :: "u64 \<Rightarrow> u64" where
  "mix64 z0 =
     (let z1 = (z0 XOR drop_bit 30 z0) * 0xBF58476D1CE4E5B9;
          z2 = (z1 XOR drop_bit 27 z1) * 0x94D049BB133111EB
      in z2 XOR drop_bit 31 z2)"

definition rng_new :: "u64 \<Rightarrow> u64" where
  "rng_new seed = mix64 (seed * 0x9E3779B97F4A7C15 + 0xA5A5A5A5)"

definition next_u64 :: "u64 \<Rightarrow> u64 \<times> u64" where
  "next_u64 state = (let s = state + 0x9E3779B97F4A7C15 in (mix64 s, s))"

definition next_below :: "nat \<Rightarrow> u64 \<Rightarrow> nat \<times> u64" where
  "next_below n state =
     (if n = 0 then (0, state) else case next_u64 state of (v, s) \<Rightarrow> (unat (drop_bit 40 v) mod n, s))"

section \<open>Encoder\<close>

record fountain_encoder =
  fe_source :: source
  fe_generation :: u32
  fe_rng :: u64
  fe_repair_index :: u64

definition encoder_new :: "bytes list \<Rightarrow> u32 \<Rightarrow> (fountain_encoder, fountain_error) outcome" where
  "encoder_new source generation =
     (case source of
        [] \<Rightarrow> Err FountainEmpty
      | s0 # _ \<Rightarrow>
          (case List.find (\<lambda>s. length s \<noteq> length s0) source of
             Some s \<Rightarrow> Err (SizeMismatch (length s0) (length s))
           | None \<Rightarrow> Ok \<lparr>fe_source = Owned source, fe_generation = generation,
                          fe_rng = rng_new (ucast generation XOR 0xC0FFEE), fe_repair_index = 0\<rparr>))"

definition encoder_new_shared ::
    "bytes \<Rightarrow> nat \<Rightarrow> nat \<Rightarrow> nat \<Rightarrow> u32 \<Rightarrow> (fountain_encoder, fountain_error) outcome" where
  "encoder_new_shared buf offset stride k generation =
     (if k = 0 \<or> stride = 0 then Err FountainEmpty
      else if 2 ^ 64 \<le> k * stride then Err (SizeMismatch offset stride)
      else if 2 ^ 64 \<le> offset + k * stride then Err (SizeMismatch offset stride)
      else if length buf < offset + k * stride then Err (SizeMismatch (length buf) (offset + k * stride))
      else Ok \<lparr>fe_source = Shared buf offset stride k, fe_generation = generation,
               fe_rng = rng_new (ucast generation XOR 0xC0FFEE), fe_repair_index = 0\<rparr>)"

text \<open>\<open>cdf k r\<close>: how many entries of the cumulative distribution over \<open>1..k\<close> lie below the draw
  made from the 64 random bits \<open>r\<close>.\<close>

type_synonym cdf = "nat \<Rightarrow> u64 \<Rightarrow> nat"

definition soliton_degree :: "cdf \<Rightarrow> nat \<Rightarrow> u64 \<Rightarrow> nat \<times> u64" where
  "soliton_degree cdf k rng =
     (case next_u64 rng of (r, rng') \<Rightarrow> (max 1 (min (cdf k r + 1) k), rng'))"

fun choose_indices :: "nat \<Rightarrow> nat \<Rightarrow> nat \<Rightarrow> nat list \<Rightarrow> u64 \<Rightarrow> nat list \<times> u64" where
  "choose_indices 0 k degree chosen rng = (chosen, rng)"
| "choose_indices (Suc tries) k degree chosen rng =
     (if length chosen < degree then
        (case next_below k rng of (idx, rng') \<Rightarrow>
           choose_indices tries k degree (if idx \<in> set chosen then chosen else chosen @ [idx]) rng')
      else (chosen, rng))"

fun draw_coeffs :: "nat \<Rightarrow> u64 \<Rightarrow> bytes \<times> u64" where
  "draw_coeffs 0 rng = ([], rng)"
| "draw_coeffs (Suc n) rng =
     (case next_u64 rng of (v, rng') \<Rightarrow>
       (case draw_coeffs n rng' of (cs, rng'') \<Rightarrow> ((ucast v OR 1) # cs, rng'')))"

definition encode_symbol_wire :: "(nat \<times> u8) list \<Rightarrow> bytes \<Rightarrow> bytes" where
  "encode_symbol_wire pairs pl =
     le16 (word_of_nat (length pairs)) @ concat (map (\<lambda>(i, c). le16 (word_of_nat i) @ [c]) pairs) @ pl"

definition repair_symbol :: "cdf \<Rightarrow> fountain_encoder \<Rightarrow> bytes \<times> fountain_encoder" where
  "repair_symbol cdf e =
     (let k = source_k (fe_source e);
          ri = fe_repair_index e + 1;
          drng = rng_new (push_bit 40 (ucast (fe_generation e)) OR ri);
          (degree, drng1) = soliton_degree cdf k drng;
          (chosen, drng2) = choose_indices (10 * k) k degree [] drng1;
          (coeffs, drng3) = draw_coeffs (length chosen) drng2;
          pl = fold (\<lambda>(i, c) p. axpy p c (src (fe_source e) i)) (zip chosen coeffs)
                 (replicate (source_symbol_size (fe_source e)) 0)
      in (encode_symbol_wire (zip chosen coeffs) pl, e\<lparr>fe_repair_index := ri\<rparr>))"

definition systematic_symbol :: "source \<Rightarrow> nat \<Rightarrow> bytes" where
  "systematic_symbol s i = encode_symbol_wire [(i, 1)] (src s i)"

fun repair_symbols :: "cdf \<Rightarrow> nat \<Rightarrow> fountain_encoder \<Rightarrow> bytes list \<times> fountain_encoder" where
  "repair_symbols cdf 0 e = ([], e)"
| "repair_symbols cdf (Suc n) e =
     (case repair_symbol cdf e of (w, e') \<Rightarrow>
       (case repair_symbols cdf n e' of (ws, e'') \<Rightarrow> (w # ws, e'')))"

definition produce :: "cdf \<Rightarrow> nat \<Rightarrow> fountain_encoder \<Rightarrow> bytes list \<times> fountain_encoder" where
  "produce cdf count e =
     (let k = source_k (fe_source e);
          sys = map (systematic_symbol (fe_source e)) [0..<min count k];
          (reps, e') = repair_symbols cdf (count - k) e
      in (sys @ reps, e'))"

section \<open>Decoder\<close>

record parsed_sym =
  cover :: "(nat \<times> u8) list"
  ps_payload :: bytes

record fountain_decoder =
  fd_k :: nat
  fd_symbol_size :: nat
  fd_syms :: "parsed_sym list"

definition decoder_new :: "nat \<Rightarrow> nat \<Rightarrow> fountain_decoder" where
  "decoder_new k symbol_size = \<lparr>fd_k = k, fd_symbol_size = symbol_size, fd_syms = []\<rparr>"

definition decoder_rank :: "fountain_decoder \<Rightarrow> nat" where
  "decoder_rank d = length (fd_syms d)"

text \<open>The loop over the coefficient triples; a repeated index overwrites.\<close>

fun parse_cover :: "nat \<Rightarrow> nat \<Rightarrow> bytes \<Rightarrow> (nat \<times> u8) list \<Rightarrow> (nat \<times> u8) list" where
  "parse_cover k 0 b cov = cov"
| "parse_cover k (Suc n) b cov =
     (let idx = unat (rd16 (take 2 b)); c = b ! 2
      in parse_cover k n (drop 3 b) (if idx < k \<and> c \<noteq> 0 then AList.update idx c cov else cov))"

definition decoder_add ::
    "bytes \<Rightarrow> fountain_decoder \<Rightarrow> (bool, fountain_error) outcome \<times> fountain_decoder" where
  "decoder_add wire d =
     (if length wire < 2 then (Err (SizeMismatch (length wire) 2), d)
      else
        let ncoeffs = unat (rd16 (take 2 wire)); header_len = 2 + ncoeffs * 3
        in if length wire < header_len + fd_symbol_size d
           then (Err (SizeMismatch (length wire) (header_len + fd_symbol_size d)), d)
           else
             let cov = parse_cover (fd_k d) ncoeffs (drop 2 wire) []
             in if cov = [] then (Ok False, d)
                else (Ok True, d\<lparr>fd_syms := fd_syms d @
                       [\<lparr>cover = cov, ps_payload = take (fd_symbol_size d) (drop header_len wire)\<rparr>]\<rparr>))"

section \<open>Peeling\<close>

record peel_state =
  pl_syms :: "parsed_sym list"
  pl_revealed :: "bytes option list"
  pl_covers :: "nat list list"
  pl_degree :: "nat list"
  pl_queue :: "nat list"

definition peel_init :: "parsed_sym list \<Rightarrow> nat \<Rightarrow> peel_state" where
  "peel_init syms k =
     (let degree = map (\<lambda>s. length (cover s)) syms
      in \<lparr>pl_syms = syms, pl_revealed = replicate k None,
          pl_covers = map (\<lambda>i. filter (\<lambda>si. i \<in> fst ` set (cover (syms ! si))) [0..<length syms]) [0..<k],
          pl_degree = degree,
          pl_queue = filter (\<lambda>si. degree ! si = 1) [0..<length syms]\<rparr>)"

text \<open>The dependents are symbol indices, so the bound in \<open>ripple_step\<close> always holds; it stands for
  the bounds check of the indexing.\<close>

definition ripple_step :: "nat \<Rightarrow> nat \<Rightarrow> bytes \<Rightarrow> nat \<Rightarrow> peel_state \<Rightarrow> peel_state" where
  "ripple_step si target x sj st =
     (if length (pl_degree st) \<le> sj \<or> sj = si \<or> pl_degree st ! sj = 0 then st
      else case map_of (cover (pl_syms st ! sj)) target of
        None \<Rightarrow> st
      | Some c \<Rightarrow>
          (let sm = pl_syms st ! sj;
               sm' = \<lparr>cover = AList.delete target (cover sm), ps_payload = axpy (ps_payload sm) c x\<rparr>;
               dg = pl_degree st ! sj - 1
           in st\<lparr>pl_syms := (pl_syms st)[sj := sm'],
                 pl_degree := (pl_degree st)[sj := dg],
                 pl_queue := (if dg = 1 then pl_queue st @ [sj] else pl_queue st)\<rparr>))"

definition peel_step :: "nat \<Rightarrow> peel_state \<Rightarrow> peel_state" where
  "peel_step si st =
     (if pl_degree st ! si = 0 then st
      else case List.find (\<lambda>(idx, c). pl_revealed st ! idx = None) (cover (pl_syms st ! si)) of
        None \<Rightarrow> st\<lparr>pl_degree := (pl_degree st)[si := 0]\<rparr>
      | Some (target, coeff) \<Rightarrow>
          (let x = scal_inplace (ps_payload (pl_syms st ! si)) (gf_inv coeff);
               dependents = pl_covers st ! target;
               st1 = st\<lparr>pl_syms := (pl_syms st)[si := (pl_syms st ! si)\<lparr>ps_payload := []\<rparr>],
                        pl_degree := (pl_degree st)[si := 0],
                        pl_covers := (pl_covers st)[target := []]\<rparr>;
               st2 = fold (ripple_step si target x) dependents st1
           in st2\<lparr>pl_revealed := (pl_revealed st2)[target := Some x]\<rparr>))"

text \<open>Every pop is paid for by the queue entry, every push by a degree.\<close>

definition peel_measure :: "peel_state \<Rightarrow> nat" where
  "peel_measure st = sum_list (pl_degree st) + length (pl_queue st)"

lemma ripple_measure: "peel_measure (ripple_step si target x sj st) \<le> peel_measure st"
proof (cases "length (pl_degree st) \<le> sj \<or> sj = si \<or> pl_degree st ! sj = 0 \<or>
    map_of (cover (pl_syms st ! sj)) target = None")
  case False
  then have "sum_list (pl_degree st) \<ge> pl_degree st ! sj" by (intro elem_le_sum_list) simp
  then show ?thesis
    using False by (auto simp: ripple_step_def peel_measure_def Let_def sum_list_update)
qed (auto simp: ripple_step_def)

lemma ripples_measure: "peel_measure (fold (ripple_step si target x) ds st) \<le> peel_measure st"
  by (induction ds arbitrary: st) (auto intro: order_trans [OF _ ripple_measure])

lemma sum_list_update_0: "sum_list (xs[i := 0 :: nat]) \<le> sum_list xs"
proof (cases "i < length xs")
  case True
  then show ?thesis by (simp add: sum_list_update)
qed (simp add: list_update_beyond)

lemma peel_step_measure: "peel_measure (peel_step si st) \<le> peel_measure st"
proof -
  have "peel_measure (st\<lparr>pl_syms := a, pl_degree := (pl_degree st)[si := 0], pl_covers := b\<rparr>) \<le> peel_measure st" for a b
    using sum_list_update_0 [of "pl_degree st" si] by (simp add: peel_measure_def)
  moreover have "peel_measure (st\<lparr>pl_degree := (pl_degree st)[si := 0]\<rparr>) \<le> peel_measure st"
    using sum_list_update_0 [of "pl_degree st" si] by (simp add: peel_measure_def)
  moreover have "peel_measure (s\<lparr>pl_revealed := c\<rparr>) = peel_measure s" for s c
    by (simp add: peel_measure_def)
  ultimately show ?thesis
    by (auto simp: peel_step_def Let_def split: option.split intro: order_trans [OF ripples_measure])
qed

function peel_loop :: "peel_state \<Rightarrow> peel_state" where
  "peel_loop st =
     (case pl_queue st of
        [] \<Rightarrow> st
      | si # q \<Rightarrow> peel_loop (peel_step si (st\<lparr>pl_queue := q\<rparr>)))"
  by pat_completeness auto
termination
proof (relation "measure peel_measure")
  fix st :: peel_state and si q assume "pl_queue st = si # q"
  then have "peel_measure (st\<lparr>pl_queue := q\<rparr>) < peel_measure st" by (simp add: peel_measure_def)
  then show "(peel_step si (st\<lparr>pl_queue := q\<rparr>), st) \<in> measure peel_measure"
    using peel_step_measure [of si "st\<lparr>pl_queue := q\<rparr>"] by simp
qed simp

declare peel_loop.simps [simp del]

section \<open>Residual system\<close>

text \<open>The row of a symbol over the unrevealed sources; \<open>None\<close> when its cover has none left.\<close>

definition residual_row :: "bytes option list \<Rightarrow> nat list \<Rightarrow> nat \<Rightarrow> nat \<Rightarrow> parsed_sym \<Rightarrow> bytes option" where
  "residual_row revealed col r s sm =
     (let live = filter (\<lambda>(idx, c). revealed ! idx = None) (cover sm);
          row = fold (\<lambda>(idx, c) row. row[col ! idx := row ! (col ! idx) XOR c]) live (replicate (r + s) 0)
      in if live = [] then None else Some (take r row @ ps_payload sm))"

fun residual_rows :: "bytes option list \<Rightarrow> nat list \<Rightarrow> nat \<Rightarrow> nat \<Rightarrow> parsed_sym list \<Rightarrow> (bytes list, fountain_error) outcome" where
  "residual_rows revealed col r s [] = Ok []"
| "residual_rows revealed col r s (sm # syms) =
     (if ps_payload sm = [] then residual_rows revealed col r s syms
      else case residual_row revealed col r s sm of
        None \<Rightarrow> residual_rows revealed col r s syms
      | Some row \<Rightarrow>
          (if length (ps_payload sm) \<noteq> s then Panic
           else obind (residual_rows revealed col r s syms) (\<lambda>rows. Ok (row # rows))))"

text \<open>The position of the first nonzero coefficient of a row, or \<open>r\<close>.\<close>

definition first_nonzero :: "bytes \<Rightarrow> nat \<Rightarrow> nat" where
  "first_nonzero row r = length (takeWhile (\<lambda>j. row ! j = 0) [0..<r])"

definition publish_rows :: "nat list \<Rightarrow> nat \<Rightarrow> nat \<Rightarrow> bytes list \<Rightarrow> bytes option list \<Rightarrow> bytes option list" where
  "publish_rows unknowns r s rows revealed =
     fold (\<lambda>row rv.
        let piv = first_nonzero row r
        in if piv < r then rv[unknowns ! piv := Some (take s (drop r row))] else rv) rows revealed"

definition unwrap_or_default :: "bytes option \<Rightarrow> bytes" where
  "unwrap_or_default v = (case v of Some x \<Rightarrow> x | None \<Rightarrow> [])"

definition unknown_cols :: "nat list \<Rightarrow> nat \<Rightarrow> nat list" where
  "unknown_cols unknowns k = fold (\<lambda>(c, u) col. col[u := c]) (zip [0..<length unknowns] unknowns) (replicate k 0)"

definition solve_residual ::
    "peel_state \<Rightarrow> nat \<Rightarrow> nat \<Rightarrow> (bytes list, fountain_error) outcome" where
  "solve_residual st k s =
     (let revealed = pl_revealed st; unknowns = filter (\<lambda>i. revealed ! i = None) [0..<k]
      in if unknowns = [] then Ok (map unwrap_or_default revealed)
         else
           let r = length unknowns; col = unknown_cols unknowns k
           in obind (residual_rows revealed col r s (pl_syms st)) (\<lambda>rows.
                let (rows', rank) = gf_gauss_eliminate rows (r + s) r
                in if rank < r then Err (Underdetermined rank r)
                   else
                     let revealed' = publish_rows unknowns r s rows' revealed
                     in if None \<in> set revealed' then Err (Underdetermined rank k)
                        else Ok (map unwrap_or_default revealed')))"

text \<open>\<open>peel_symbols\<close> leaves its substitutions in the caller's symbols.\<close>

definition peel_symbols ::
    "parsed_sym list \<Rightarrow> nat \<Rightarrow> nat \<Rightarrow> (bytes list, fountain_error) outcome \<times> parsed_sym list" where
  "peel_symbols syms k s =
     (let st = peel_loop (peel_init syms k) in (solve_residual st k s, pl_syms st))"

definition decoder_decode ::
    "fountain_decoder \<Rightarrow> (bytes list, fountain_error) outcome \<times> fountain_decoder" where
  "decoder_decode d =
     (if length (fd_syms d) < fd_k d then (Err (Underdetermined (length (fd_syms d)) (fd_k d)), d)
      else case peel_symbols (fd_syms d) (fd_k d) (fd_symbol_size d) of
        (r, syms) \<Rightarrow> (r, d\<lparr>fd_syms := syms\<rparr>))"

text \<open>The entry for dense rows \<open>[coeffs | payload]\<close>; a row too short for its coefficients, or for its payload when it has a cover, panics.\<close>

definition dense_sym :: "nat \<Rightarrow> nat \<Rightarrow> bytes \<Rightarrow> parsed_sym option" where
  "dense_sym k s r =
     (let cov = map (\<lambda>i. (i, r ! i)) (filter (\<lambda>i. r ! i \<noteq> 0) [0..<k])
      in if cov = [] then None else Some \<lparr>cover = cov, ps_payload = take s (drop k r)\<rparr>)"

definition peel_decode :: "bytes list \<Rightarrow> nat \<Rightarrow> nat \<Rightarrow> (bytes list, fountain_error) outcome" where
  "peel_decode rows k s =
     (if \<exists>r \<in> set rows. length r < k \<or> length r < k + s \<and> dense_sym k s r \<noteq> None then Panic
      else fst (peel_symbols (List.map_filter (dense_sym k s) rows) k s))"

end
