(* ===== verification/Peeling.thy ===== *)
theory Peeling
  imports Fountain
begin

text \<open>
  Correctness of the peeling decoder.  Throughout the loop the same assignments of source
  symbols are consistent with the state: the values already revealed together with the
  symbols not yet used up.  Soundness and completeness of decoding both follow from this
  equivalence and from the characterisation of the rank in \<open>Gf_Gauss\<close>.
\<close>

section \<open>Meaning of a coded symbol\<close>

fun covsum :: "(nat \<Rightarrow> bytes) \<Rightarrow> (nat \<times> u8) list \<Rightarrow> nat \<Rightarrow> u8" where
  "covsum X [] p = 0"
| "covsum X ((i, c) # cov) p = gf_mul c (X i ! p) XOR covsum X cov p"

definition sym_wf :: "nat \<Rightarrow> nat \<Rightarrow> parsed_sym \<Rightarrow> bool" where
  "sym_wf k s sm \<longleftrightarrow> distinct (map fst (cover sm)) \<and> (\<forall>(i, c) \<in> set (cover sm). i < k \<and> c \<noteq> 0) \<and>
     length (ps_payload sm) = s"

definition sym_holds :: "nat \<Rightarrow> (nat \<Rightarrow> bytes) \<Rightarrow> parsed_sym \<Rightarrow> bool" where
  "sym_holds s X sm \<longleftrightarrow> (\<forall>p < s. ps_payload sm ! p = covsum X (cover sm) p)"

definition assignment :: "nat \<Rightarrow> nat \<Rightarrow> (nat \<Rightarrow> bytes) \<Rightarrow> bool" where
  "assignment k s X \<longleftrightarrow> (\<forall>j < k. length (X j) = s)"

definition consistent :: "nat \<Rightarrow> (nat \<Rightarrow> bytes) \<Rightarrow> parsed_sym list \<Rightarrow> bool" where
  "consistent s X syms \<longleftrightarrow> (\<forall>sm \<in> set syms. sym_holds s X sm)"

lemma covsum_delete:
  assumes "distinct (map fst cov)" "map_of cov t = Some c"
  shows "covsum X (AList.delete t cov) p = covsum X cov p XOR gf_mul c (X t ! p)"
  using assms
proof (induction cov)
  case (Cons a cov)
  obtain i d where a: "a = (i, d)" by fastforce
  have s: "u XOR (v XOR u) = v" "(u XOR v) XOR u = v" for u v :: u8
    by (simp_all add: bit_eq_iff bit_xor_iff) blast+
  show ?case
  proof (cases "i = t")
    case True
    then have "t \<notin> fst ` set cov" using Cons.prems(1) by (auto simp: a)
    then have "AList.delete t cov = cov" by simp
    then show ?thesis using True Cons.prems(2) s by (simp add: a)
  next
    case False
    then show ?thesis using Cons by (simp add: a ac_simps)
  qed
qed simp

section \<open>Ripple\<close>

definition rip :: "nat \<Rightarrow> bytes \<Rightarrow> parsed_sym \<Rightarrow> parsed_sym" where
  "rip t x sm =
     (case map_of (cover sm) t of
        None \<Rightarrow> sm
      | Some c \<Rightarrow> \<lparr>cover = AList.delete t (cover sm), ps_payload = axpy (ps_payload sm) c x\<rparr>)"

lemma rip_idem [simp]: "rip t x (rip t x sm) = rip t x sm"
  by (auto simp: rip_def delete_conv split: option.split)

lemma rip_cover: "cover (rip t x sm) = AList.delete t (cover sm)"
  by (auto simp: rip_def map_of_eq_None_iff split: option.split)

lemma rip_wf: "sym_wf k s sm \<Longrightarrow> sym_wf k s (rip t x sm)"
  by (auto simp: sym_wf_def rip_cover AList.delete_eq distinct_map_filter)
    (auto simp: rip_def axpy_eq split: option.split)

lemma rip_length:
  assumes "distinct (map fst (cover sm))" "map_of (cover sm) t = Some c"
  shows "length (cover (rip t x sm)) = length (cover sm) - 1"
  using assms unfolding rip_cover
proof (induction "cover sm" arbitrary: sm)
  case (Cons a cov)
  define sm' where "sm' = \<lparr>cover = cov, ps_payload = []\<rparr>"
  obtain i d where a: "a = (i, d)" by fastforce
  show ?case
  proof (cases "i = t")
    case True
    then have "t \<notin> fst ` set cov" using Cons.prems(1) by (auto simp: Cons.hyps(2) [symmetric] a)
    then have "AList.delete t cov = cov" by simp
    then show ?thesis using True by (simp add: Cons.hyps(2) [symmetric] a)
  next
    case False
    have "map_of cov t = Some c" using False Cons.prems(2) by (simp add: Cons.hyps(2) [symmetric] a)
    moreover have "length cov \<noteq> 0" using calculation by (cases cov) auto
    ultimately show ?thesis
      using False Cons.prems Cons.hyps(1) [of sm'] by (simp add: Cons.hyps(2) [symmetric] a sm'_def)
  qed
qed simp

lemma rip_holds:
  assumes "sym_wf k s sm" "length x = s" "X t = x"
  shows "sym_holds s X (rip t x sm) \<longleftrightarrow> sym_holds s X sm"
proof (cases "map_of (cover sm) t")
  case (Some c)
  have x: "u XOR v = w XOR v \<longleftrightarrow> u = w" for u v w :: u8
    by (auto simp: bit_eq_iff bit_xor_iff)
  have "ps_payload (rip t x sm) ! p = ps_payload sm ! p XOR gf_mul c (x ! p)" if "p < s" for p
    using that assms Some by (simp add: rip_def axpy_eq axpy_spec_nth sym_wf_def)
  moreover have "covsum X (cover (rip t x sm)) p = covsum X (cover sm) p XOR gf_mul c (x ! p)" for p
    using covsum_delete [of "cover sm" t c X p] assms Some by (simp add: rip_cover sym_wf_def)
  ultimately show ?thesis by (simp add: sym_holds_def x)
qed (simp add: rip_def)

text \<open>Symbols outside \<open>C\<close> are live: well formed, with their degree up to date.\<close>

definition live :: "nat \<Rightarrow> nat \<Rightarrow> nat set \<Rightarrow> peel_state \<Rightarrow> bool" where
  "live k s C st \<longleftrightarrow>
     length (pl_degree st) = length (pl_syms st) \<and>
     (\<forall>j < length (pl_syms st). if j \<in> C then pl_degree st ! j = 0
        else sym_wf k s (pl_syms st ! j) \<and> pl_degree st ! j = length (cover (pl_syms st ! j))) \<and>
     (\<forall>q \<in> set (pl_queue st). q < length (pl_syms st) \<and> pl_degree st ! q \<le> 1)"

lemma ripple_step_live:
  assumes "live k s C st" "si \<in> C"
  shows "live k s C (ripple_step si t x sj st)"
    and "length (pl_syms (ripple_step si t x sj st)) = length (pl_syms st)"
    and "\<And>j. j < length (pl_syms st) \<Longrightarrow> pl_syms (ripple_step si t x sj st) ! j =
      (if j = sj \<and> j \<notin> C then rip t x (pl_syms st ! j) else pl_syms st ! j)"
    and "pl_revealed (ripple_step si t x sj st) = pl_revealed st"
    and "pl_covers (ripple_step si t x sj st) = pl_covers st"
proof -
  define n where "n = length (pl_syms st)"
  have deg: "length (pl_degree st) = n" using assms(1) by (simp add: live_def n_def)
  have skip: "ripple_step si t x sj st = st \<and> (sj < n \<longrightarrow> sj \<notin> C \<longrightarrow> rip t x (pl_syms st ! sj) = pl_syms st ! sj)"
    if "n \<le> sj \<or> sj \<in> C \<or> map_of (cover (pl_syms st ! sj)) t = None"
  proof -
    have "sj < n \<and> sj \<in> C \<longrightarrow> pl_degree st ! sj = 0" using assms(1) by (auto simp: live_def n_def)
    then show ?thesis using that assms(2) deg by (auto simp: ripple_step_def rip_def)
  qed
  have act: "ripple_step si t x sj st = st\<lparr>pl_syms := (pl_syms st)[sj := rip t x (pl_syms st ! sj)],
      pl_degree := (pl_degree st)[sj := length (cover (rip t x (pl_syms st ! sj)))],
      pl_queue := (if length (cover (rip t x (pl_syms st ! sj))) = 1 then pl_queue st @ [sj] else pl_queue st)\<rparr>
      \<and> length (cover (rip t x (pl_syms st ! sj))) \<le> pl_degree st ! sj"
    if sj: "sj < n" "sj \<notin> C" and m: "map_of (cover (pl_syms st ! sj)) t = Some c" for c
  proof -
    have w: "sym_wf k s (pl_syms st ! sj)" "pl_degree st ! sj = length (cover (pl_syms st ! sj))"
      using assms(1) sj by (auto simp: live_def n_def)
    have "length (cover (pl_syms st ! sj)) \<noteq> 0" using m by (cases "cover (pl_syms st ! sj)") auto
    then show ?thesis
      using w m sj assms(2) deg rip_length [of "pl_syms st ! sj" t c x]
      by (auto simp: ripple_step_def Let_def sym_wf_def rip_def)
  qed
  consider "n \<le> sj \<or> sj \<in> C \<or> map_of (cover (pl_syms st ! sj)) t = None"
    | c where "sj < n" "sj \<notin> C" "map_of (cover (pl_syms st ! sj)) t = Some c"
    using not_le by (cases "map_of (cover (pl_syms st ! sj)) t") blast+
  then have *: "live k s C (ripple_step si t x sj st) \<and>
      length (pl_syms (ripple_step si t x sj st)) = length (pl_syms st) \<and>
      (\<forall>j < length (pl_syms st). pl_syms (ripple_step si t x sj st) ! j =
        (if j = sj \<and> j \<notin> C then rip t x (pl_syms st ! j) else pl_syms st ! j)) \<and>
      pl_revealed (ripple_step si t x sj st) = pl_revealed st \<and>
      pl_covers (ripple_step si t x sj st) = pl_covers st"
  proof cases
    case 1
    then show ?thesis using skip assms(1) by (auto simp: n_def)
  next
    case 2
    have w: "sym_wf k s (rip t x (pl_syms st ! sj))" using assms(1) 2 by (auto simp: live_def n_def rip_wf)
    have le: "length (cover (rip t x (pl_syms st ! sj))) \<le> pl_degree st ! sj" using act [OF 2] by simp
    have "length (cover (rip t x (pl_syms st ! sj))) \<le> 1" if "sj \<in> set (pl_queue st)"
      using assms(1) le that unfolding live_def by (meson order_trans)
    then have "live k s C (ripple_step si t x sj st)"
      using assms(1) 2 deg w le act [OF 2]
      by (auto simp: live_def n_def nth_list_update split: if_splits)
    then show ?thesis using act [OF 2] 2 by (auto simp: nth_list_update n_def)
  qed
  then show "live k s C (ripple_step si t x sj st)"
    "length (pl_syms (ripple_step si t x sj st)) = length (pl_syms st)"
    "\<And>j. j < length (pl_syms st) \<Longrightarrow> pl_syms (ripple_step si t x sj st) ! j =
      (if j = sj \<and> j \<notin> C then rip t x (pl_syms st ! j) else pl_syms st ! j)"
    "pl_revealed (ripple_step si t x sj st) = pl_revealed st"
    "pl_covers (ripple_step si t x sj st) = pl_covers st"
    by blast+
qed

lemma ripple_fold:
  assumes "live k s C st" "si \<in> C"
  shows "live k s C (fold (ripple_step si t x) ds st) \<and>
    length (pl_syms (fold (ripple_step si t x) ds st)) = length (pl_syms st) \<and>
    (\<forall>j < length (pl_syms st). pl_syms (fold (ripple_step si t x) ds st) ! j =
      (if j \<in> set ds \<and> j \<notin> C then rip t x (pl_syms st ! j) else pl_syms st ! j)) \<and>
    pl_revealed (fold (ripple_step si t x) ds st) = pl_revealed st \<and>
    pl_covers (fold (ripple_step si t x) ds st) = pl_covers st"
  using assms(1)
proof (induction ds arbitrary: st)
  case (Cons d ds)
  note S = ripple_step_live [OF Cons.prems assms(2), where t = t and x = x and sj = d]
  show ?case using Cons.IH [OF S(1)] S(2-5) by (auto simp: S(3))
qed simp

section \<open>The loop invariant\<close>

text \<open>\<open>C\<close> collects the symbols used up by a reveal.\<close>

definition state_admits :: "nat \<Rightarrow> nat \<Rightarrow> nat set \<Rightarrow> peel_state \<Rightarrow> (nat \<Rightarrow> bytes) \<Rightarrow> bool" where
  "state_admits k s C st X \<longleftrightarrow>
     (\<forall>t < k. \<forall>x. pl_revealed st ! t = Some x \<longrightarrow> X t = x) \<and>
     (\<forall>j < length (pl_syms st). j \<notin> C \<longrightarrow> sym_holds s X (pl_syms st ! j))"

definition peel_inv :: "nat \<Rightarrow> nat \<Rightarrow> parsed_sym list \<Rightarrow> nat set \<Rightarrow> peel_state \<Rightarrow> bool" where
  "peel_inv k s syms0 C st \<longleftrightarrow>
     live k s C st \<and> length (pl_syms st) = length syms0 \<and>
     length (pl_revealed st) = k \<and> length (pl_covers st) = k \<and>
     (\<forall>j < length syms0. j \<in> C \<longrightarrow> ps_payload (pl_syms st ! j) = []) \<and>
     (\<forall>j < length syms0. j \<notin> C \<longrightarrow> (\<forall>i \<in> fst ` set (cover (pl_syms st ! j)).
        pl_revealed st ! i = None \<and> j \<in> set (pl_covers st ! i))) \<and>
     (\<forall>t < k. \<forall>x. pl_revealed st ! t = Some x \<longrightarrow> length x = s) \<and>
     (\<forall>X. assignment k s X \<longrightarrow> (consistent s X syms0 \<longleftrightarrow> state_admits k s C st X))"

lemma peel_init_inv:
  assumes "\<forall>sm \<in> set syms. sym_wf k s sm"
  shows "peel_inv k s syms {} (peel_init syms k)"
proof -
  have wf: "sym_wf k s (syms ! j)" if "j < length syms" for j using assms that by simp
  have "live k s {} (peel_init syms k)" using wf by (auto simp: live_def peel_init_def Let_def)
  moreover have "j \<in> set (pl_covers (peel_init syms k) ! i) \<and> i < k"
    if "j < length syms" "i \<in> fst ` set (cover (syms ! j))" for i j
  proof -
    have "i < k" using wf [OF that(1)] that(2) by (auto simp: sym_wf_def)
    then show ?thesis using that by (simp add: peel_init_def Let_def)
  qed
  ultimately show ?thesis
    by (auto simp: peel_inv_def state_admits_def consistent_def all_set_conv_all_nth)
      (auto simp: peel_init_def Let_def)
qed

text \<open>A popped symbol of degree one determines its one source.\<close>

lemma degree_one_holds:
  assumes "length pl = s" "c \<noteq> 0" "length (X t) = s"
  shows "sym_holds s X \<lparr>cover = [(t, c)], ps_payload = pl\<rparr> \<longleftrightarrow> X t = scal_inplace pl (gf_inv c)"
proof -
  have "gf_mul c (gf_mul (gf_inv c) v) = v" for v
    using assms(2) gf.mul_inv [of c] by (simp add: gf.mul_assoc [symmetric] gf.mul_one)
  then have "(pl ! p = gf_mul c (X t ! p)) \<longleftrightarrow> X t ! p = gf_mul (gf_inv c) (pl ! p)" for p
    using gf.mul_cancel [OF assms(2)] by metis
  then show ?thesis
    using assms by (auto simp: sym_holds_def scal_inplace_eq list_eq_iff_nth_eq)
qed

lemma live_degree_zero:
  assumes "peel_inv k s syms0 C st" "pl_queue st = si # q"
  shows "peel_inv k s syms0 C (st\<lparr>pl_queue := q\<rparr>)" "si < length syms0"
  using assms by (auto simp: peel_inv_def live_def state_admits_def)

lemma peel_step_inv:
  assumes I: "peel_inv k s syms0 C st" and si: "si < length syms0" "pl_degree st ! si \<le> 1"
  shows "\<exists>C'. peel_inv k s syms0 C' (peel_step si st)"
proof (cases "pl_degree st ! si = 0")
  case True
  then show ?thesis using I by (auto simp: peel_step_def)
next
  case False
  define sm where "sm = pl_syms st ! si"
  have L: "live k s C st" and n: "length (pl_syms st) = length syms0" using I by (auto simp: peel_inv_def)
  have siC: "si \<notin> C" using L False si n by (auto simp: live_def)
  then have wf: "sym_wf k s sm" and d: "length (cover sm) = 1"
    using L False si n by (auto simp: live_def sm_def le_Suc_eq)
  obtain t c where cov: "cover sm = [(t, c)]" using d by (cases "cover sm") auto
  have tk: "t < k" "c \<noteq> 0" and len: "length (ps_payload sm) = s" using wf by (auto simp: sym_wf_def cov)
  have rt: "pl_revealed st ! t = None" using I si siC by (auto simp: peel_inv_def cov sm_def [symmetric])
  define x where "x = scal_inplace (ps_payload sm) (gf_inv c)"
  have lx: "length x = s" by (simp add: x_def scal_inplace_eq len)
  define C' where "C' = insert si C"
  define st1 where "st1 = st\<lparr>pl_syms := (pl_syms st)[si := sm\<lparr>ps_payload := []\<rparr>],
      pl_degree := (pl_degree st)[si := 0], pl_covers := (pl_covers st)[t := []]\<rparr>"
  define ds where "ds = pl_covers st ! t"
  define st2 where "st2 = fold (ripple_step si t x) ds st1"
  define st3 where "st3 = st2\<lparr>pl_revealed := (pl_revealed st2)[t := Some x]\<rparr>"
  have step: "peel_step si st = st3"
    using False rt by (simp add: peel_step_def cov sm_def [symmetric] x_def st1_def st2_def st3_def ds_def Let_def)
  have L1: "live k s C' st1"
    using L si n unfolding live_def st1_def C'_def by (auto simp: nth_list_update)
  have F: "live k s C' st2" "length (pl_syms st2) = length syms0"
      "\<And>j. j < length syms0 \<Longrightarrow> pl_syms st2 ! j =
        (if j \<in> set ds \<and> j \<notin> C' then rip t x (pl_syms st1 ! j) else pl_syms st1 ! j)"
      "pl_revealed st2 = pl_revealed st" "pl_covers st2 = (pl_covers st)[t := []]"
    using ripple_fold [OF L1, of si t x ds] n by (auto simp: C'_def st2_def st1_def)
  have rest: "pl_syms st2 ! j = rip t x (pl_syms st ! j)" "sym_wf k s (pl_syms st ! j)"
    if "j < length syms0" "j \<notin> C'" for j
  proof -
    have jC: "j \<notin> C" "j \<noteq> si" using that by (auto simp: C'_def)
    have "j \<in> set ds" if "map_of (cover (pl_syms st ! j)) t = Some y" for y
      using I jC \<open>j < length syms0\<close> map_of_SomeD [OF that] by (force simp: peel_inv_def ds_def)
    then show "pl_syms st2 ! j = rip t x (pl_syms st ! j)"
      using F(3) [OF that(1)] that jC by (cases "map_of (cover (pl_syms st ! j)) t") (auto simp: st1_def rip_def)
    show "sym_wf k s (pl_syms st ! j)" using L n jC that by (auto simp: live_def)
  qed
  have used: "ps_payload (pl_syms st2 ! j) = []" if "j < length syms0" "j \<in> C'" for j
    using F(3) [OF that(1)] that I si n by (cases "j = si") (auto simp: st1_def C'_def peel_inv_def)
  have admits: "state_admits k s C st X \<longleftrightarrow> state_admits k s C' st3 X" if X: "assignment k s X" for X
  proof -
    have "sym_holds s X sm \<longleftrightarrow> X t = x"
      using degree_one_holds [OF len tk(2), of X t] X tk(1) cov
      by (cases sm) (auto simp: assignment_def x_def)
    moreover have "X t = x \<Longrightarrow> sym_holds s X (pl_syms st3 ! j) \<longleftrightarrow> sym_holds s X (pl_syms st ! j)"
      if "j < length syms0" "j \<notin> C'" for j
      using rest [OF that] rip_holds [OF _ lx] by (simp add: st3_def)
    moreover have "(\<forall>u < k. \<forall>y. pl_revealed st3 ! u = Some y \<longrightarrow> X u = y) \<longleftrightarrow>
        X t = x \<and> (\<forall>u < k. \<forall>y. pl_revealed st ! u = Some y \<longrightarrow> X u = y)"
    proof -
      have "pl_revealed st3 ! u = (if u = t then Some x else pl_revealed st ! u)" if "u < k" for u
        using that I tk by (simp add: st3_def F(4) peel_inv_def nth_list_update)
      then show ?thesis using tk(1) rt by (auto split: if_splits)
    qed
    moreover have "state_admits k s C st X \<longleftrightarrow>
        (\<forall>u < k. \<forall>y. pl_revealed st ! u = Some y \<longrightarrow> X u = y) \<and> sym_holds s X sm \<and>
        (\<forall>j < length syms0. j \<notin> C' \<longrightarrow> sym_holds s X (pl_syms st ! j))"
      using si siC n by (auto simp: state_admits_def C'_def sm_def)
    moreover have "state_admits k s C' st3 X \<longleftrightarrow>
        (\<forall>u < k. \<forall>y. pl_revealed st3 ! u = Some y \<longrightarrow> X u = y) \<and>
        (\<forall>j < length syms0. j \<notin> C' \<longrightarrow> sym_holds s X (pl_syms st3 ! j))"
      using F(2) by (simp add: state_admits_def st3_def)
    ultimately show ?thesis by blast
  qed
  have keys: "pl_revealed st3 ! i = None \<and> j \<in> set (pl_covers st3 ! i)"
    if j: "j < length syms0" "j \<notin> C'" and i: "i \<in> fst ` set (cover (pl_syms st3 ! j))" for i j
  proof -
    have c: "cover (pl_syms st3 ! j) = AList.delete t (cover (pl_syms st ! j))"
      using rest(1) [OF j] by (simp add: st3_def rip_cover)
    have it: "i \<noteq> t" "i \<in> fst ` set (cover (pl_syms st ! j))" using i c by (auto simp: AList.delete_eq)
    have "pl_revealed st ! i = None \<and> j \<in> set (pl_covers st ! i)"
      using I j it(2) by (auto simp: peel_inv_def C'_def)
    then show ?thesis using it(1) by (simp add: st3_def F(4,5))
  qed
  have "peel_inv k s syms0 C' st3"
    unfolding peel_inv_def
  proof (intro conjI)
    show "live k s C' st3" using F(1) by (simp add: live_def st3_def)
    show "length (pl_syms st3) = length syms0" "length (pl_revealed st3) = k" "length (pl_covers st3) = k"
      using F I by (simp_all add: st3_def peel_inv_def)
    show "\<forall>j < length syms0. j \<in> C' \<longrightarrow> ps_payload (pl_syms st3 ! j) = []" using used by (simp add: st3_def)
    show "\<forall>j < length syms0. j \<notin> C' \<longrightarrow> (\<forall>i \<in> fst ` set (cover (pl_syms st3 ! j)).
        pl_revealed st3 ! i = None \<and> j \<in> set (pl_covers st3 ! i))"
      by (intro allI impI ballI) (rule keys)
    show "\<forall>u < k. \<forall>y. pl_revealed st3 ! u = Some y \<longrightarrow> length y = s"
    proof (intro allI impI)
      fix u y assume u: "u < k" and y: "pl_revealed st3 ! u = Some y"
      have "length (pl_revealed st) = k" using I by (simp add: peel_inv_def)
      then have "pl_revealed st3 ! u = (if u = t then Some x else pl_revealed st ! u)"
        using tk(1) by (simp add: st3_def F(4))
      then show "length y = s" using y u I lx by (simp add: peel_inv_def split: if_splits)
    qed
    show "\<forall>X. assignment k s X \<longrightarrow> consistent s X syms0 = state_admits k s C' st3 X"
      using I admits by (simp add: peel_inv_def)
  qed
  then show ?thesis using step by auto
qed

lemma peel_loop_inv:
  "peel_inv k s syms0 C st \<Longrightarrow> \<exists>C'. peel_inv k s syms0 C' (peel_loop st)"
proof (induction st arbitrary: C rule: peel_loop.induct)
  case (1 st)
  show ?case
  proof (cases "pl_queue st")
    case Nil
    then show ?thesis using "1.prems" by (subst peel_loop.simps) auto
  next
    case (Cons si q)
    define st' where "st' = st\<lparr>pl_queue := q\<rparr>"
    have I: "peel_inv k s syms0 C st'" "si < length syms0"
      using live_degree_zero [OF "1.prems" Cons] by (simp_all add: st'_def)
    have "pl_degree st' ! si \<le> 1" using "1.prems" Cons by (auto simp: peel_inv_def live_def st'_def)
    then obtain C1 where "peel_inv k s syms0 C1 (peel_step si st')" using peel_step_inv [OF I] by blast
    then show ?thesis using "1.IH" [OF Cons] Cons by (subst peel_loop.simps) (auto simp: st'_def)
  qed
qed

end
