(* ===== verification/Decoding.thy ===== *)
theory Decoding
  imports Peeling
begin

text \<open>
  From the loop invariant to the decoder's contract: the residual system is equivalent to the
  symbols that survive peeling, so decoding returns the source symbols exactly when the
  received symbols determine them.
\<close>

section \<open>Rows of coefficients\<close>

definition cov_row :: "nat list \<Rightarrow> (nat \<times> u8) list \<Rightarrow> bytes \<Rightarrow> bytes" where
  "cov_row col cov row = fold (\<lambda>(idx, c) row. row[col ! idx := row ! (col ! idx) XOR c]) cov row"

lemma cov_row_length [simp]: "length (cov_row col cov row) = length row"
  by (induction cov arbitrary: row) (auto simp: cov_row_def)

lemma xsum_update:
  assumes "q < r" "r \<le> length row"
  shows "xsum (\<lambda>j. gf_mul (row[q := row ! q XOR c] ! j) (w j)) r =
    xsum (\<lambda>j. gf_mul (row ! j) (w j)) r XOR gf_mul c (w q)"
proof -
  have "xsum (\<lambda>j. gf_mul (row[q := row ! q XOR c] ! j) (w j)) r =
      xsum (\<lambda>j. gf_mul (row ! j) (w j) XOR (if j = q then gf_mul c (w j) else 0)) r"
    by (rule xsum_cong) (use assms in \<open>simp add: nth_list_update gf.mul_distrib_right\<close>)
  then show ?thesis using assms(1) by (simp add: xsum_xor xsum_delta)
qed

lemma cov_row_sum:
  assumes "\<forall>i \<in> fst ` set cov. col ! i < r \<and> Y (col ! i) = X i" "r \<le> length row"
  shows "xsum (\<lambda>j. gf_mul (cov_row col cov row ! j) (Y j ! p)) r =
    xsum (\<lambda>j. gf_mul (row ! j) (Y j ! p)) r XOR covsum X cov p"
  using assms
proof (induction cov arbitrary: row)
  case (Cons a cov)
  obtain i c where a: "a = (i, c)" by fastforce
  define row' where "row' = row[col ! i := row ! (col ! i) XOR c]"
  have "cov_row col (a # cov) row = cov_row col cov row'" by (simp add: cov_row_def a row'_def)
  moreover have "xsum (\<lambda>j. gf_mul (row' ! j) (Y j ! p)) r =
      xsum (\<lambda>j. gf_mul (row ! j) (Y j ! p)) r XOR gf_mul c (X i ! p)"
    using xsum_update [of "col ! i" r row c "\<lambda>j. Y j ! p"] Cons.prems by (simp add: a row'_def)
  ultimately show ?case using Cons.IH [of row'] Cons.prems by (simp add: a row'_def ac_simps)
qed (simp add: cov_row_def)

lemma cov_row_zero:
  assumes "\<forall>i \<in> fst ` set cov. col ! i < r \<and> Y (col ! i) = X i" "r \<le> m"
  shows "xsum (\<lambda>j. gf_mul (cov_row col cov (replicate m 0) ! j) (Y j ! p)) r = covsum X cov p"
proof -
  have "xsum (\<lambda>j. gf_mul (replicate m 0 ! j) (Y j ! p)) r = xsum (\<lambda>j. 0) r"
    by (rule xsum_cong) (use assms(2) in simp)
  then show ?thesis using cov_row_sum [OF assms(1), of "replicate m 0" p] assms(2) by simp
qed

section \<open>Columns of the unknowns\<close>

lemma unknown_cols_nth:
  assumes "distinct us" "\<forall>u \<in> set us. u < k" "c < length us"
  shows "unknown_cols us k ! (us ! c) = c"
proof -
  have "length (fold (\<lambda>(c, u) col. col[u := c]) (zip [0..<length us] us) a) = length a \<and>
    (\<forall>c < length us. fold (\<lambda>(c, u) col. col[u := c]) (zip [0..<length us] us) a ! (us ! c) = c)"
    if "\<forall>u \<in> set us. u < length a" for a
    using assms(1) that
  proof (induction us rule: rev_induct)
    case (snoc x us)
    then show ?case by (auto simp: nth_append less_Suc_eq nth_list_update)
  qed simp
  from this [of "replicate k 0"] show ?thesis using assms(2,3) by (simp add: unknown_cols_def)
qed

section \<open>The residual system\<close>

lemma residual_row_eq:
  assumes "\<forall>i \<in> fst ` set (cover sm). revealed ! i = None"
  shows "residual_row revealed col r s sm =
    (if cover sm = [] then None
     else Some (take r (cov_row col (cover sm) (replicate (r + s) 0)) @ ps_payload sm))"
proof -
  have "filter (\<lambda>(idx, c). revealed ! idx = None) (cover sm) = cover sm"
    using assms by (force simp: filter_id_conv)
  then show ?thesis by (simp add: residual_row_def cov_row_def Let_def)
qed

definition sym_row :: "nat list \<Rightarrow> nat \<Rightarrow> nat \<Rightarrow> parsed_sym \<Rightarrow> bytes" where
  "sym_row col r s sm = take r (cov_row col (cover sm) (replicate (r + s) 0)) @ ps_payload sm"

lemma residual_rows_eq:
  assumes "\<And>sm. sm \<in> set syms \<Longrightarrow> ps_payload sm \<noteq> [] \<Longrightarrow>
      length (ps_payload sm) = s \<and> (\<forall>i \<in> fst ` set (cover sm). revealed ! i = None)"
  shows "residual_rows revealed col r s syms =
    Ok (map (sym_row col r s) (filter (\<lambda>sm. ps_payload sm \<noteq> [] \<and> cover sm \<noteq> []) syms))"
  using assms
proof (induction syms)
  case (Cons sm syms)
  have IH: "residual_rows revealed col r s syms =
      Ok (map (sym_row col r s) (filter (\<lambda>sm. ps_payload sm \<noteq> [] \<and> cover sm \<noteq> []) syms))"
    by (rule Cons.IH, rule Cons.prems) simp_all
  show ?case
  proof (cases "ps_payload sm = []")
    case False
    then have "length (ps_payload sm) = s" "\<forall>i \<in> fst ` set (cover sm). revealed ! i = None"
      using Cons.prems [of sm] by auto
    then show ?thesis
      using residual_row_eq [of sm revealed col r s] IH False by (simp add: sym_row_def)
  qed (simp add: IH)
qed simp

lemma sym_row_holds:
  assumes "\<forall>i \<in> fst ` set (cover sm). col ! i < r \<and> Y (col ! i) = X i" "length (ps_payload sm) = s"
  shows "length (sym_row col r s sm) = r + s"
    and "row_holds r s Y (sym_row col r s sm) \<longleftrightarrow> sym_holds s X sm"
proof -
  show "length (sym_row col r s sm) = r + s" using assms(2) by (simp add: sym_row_def)
  have "xsum (\<lambda>j. gf_mul (sym_row col r s sm ! j) (Y j ! p)) r = covsum X (cover sm) p" for p
  proof -
    have "xsum (\<lambda>j. gf_mul (sym_row col r s sm ! j) (Y j ! p)) r =
        xsum (\<lambda>j. gf_mul (cov_row col (cover sm) (replicate (r + s) 0) ! j) (Y j ! p)) r"
      by (rule xsum_cong) (simp add: sym_row_def nth_append)
    then show ?thesis using cov_row_zero [OF assms(1), of "r + s" p] by simp
  qed
  moreover have "sym_row col r s sm ! (r + p) = ps_payload sm ! p" for p
    by (simp add: sym_row_def nth_append)
  ultimately show "row_holds r s Y (sym_row col r s sm) \<longleftrightarrow> sym_holds s X sm"
    by (simp add: row_holds_def sym_holds_def)
qed

lemma publish_rows_nth:
  assumes "\<And>row. row \<in> set rows \<Longrightarrow> first_nonzero row r < r \<Longrightarrow>
      unknowns ! first_nonzero row r < length rv \<and> take s (drop r row) = X (unknowns ! first_nonzero row r)"
  shows "length (publish_rows unknowns r s rows rv) = length rv \<and>
    (\<forall>t < length rv. publish_rows unknowns r s rows rv ! t =
      (if \<exists>row \<in> set rows. first_nonzero row r < r \<and> unknowns ! first_nonzero row r = t
       then Some (X t) else rv ! t))"
  using assms
proof (induction rows arbitrary: rv)
  case (Cons row rows)
  define rv' where "rv' = (if first_nonzero row r < r
      then rv[unknowns ! first_nonzero row r := Some (take s (drop r row))] else rv)"
  have e: "publish_rows unknowns r s (row # rows) rv = publish_rows unknowns r s rows rv'"
    by (simp add: publish_rows_def rv'_def Let_def)
  have l: "length rv' = length rv" by (simp add: rv'_def)
  have n: "rv' ! t = (if first_nonzero row r < r \<and> unknowns ! first_nonzero row r = t then Some (X t) else rv ! t)"
    if "t < length rv" for t
    using that Cons.prems [of row] by (auto simp: rv'_def nth_list_update)
  show ?case using Cons.IH [of rv'] Cons.prems n unfolding e by (auto simp: l)
qed (simp add: publish_rows_def)

lemma first_nonzero_unit:
  assumes "q < r" "\<forall>j < r. row ! j = (if j = q then 1 else 0)"
  shows "first_nonzero row r = q"
proof -
  have "takeWhile (\<lambda>j. row ! j = 0) [0..<r] = [0..<q]"
    using assms by (intro takeWhile_eq_take_P_nth [of q "[0..<r]", THEN trans]) auto
  then show ?thesis by (simp add: first_nonzero_def)
qed

lemma first_nonzero_none: "\<forall>j < r. row ! j = 0 \<Longrightarrow> first_nonzero row r = r"
  by (simp add: first_nonzero_def takeWhile_eq_all_conv [THEN iffD2])

text \<open>The final state of peeling, with its unknowns and its residual rows.\<close>

definition unknowns_of :: "peel_state \<Rightarrow> nat \<Rightarrow> nat list" where
  "unknowns_of st k = filter (\<lambda>i. pl_revealed st ! i = None) [0..<k]"

lemma unknowns_facts:
  "distinct (unknowns_of st k)" "\<And>u. u \<in> set (unknowns_of st k) \<longleftrightarrow> u < k \<and> pl_revealed st ! u = None"
  by (auto simp: unknowns_of_def)

lemma unknown_cols_of:
  assumes "u < k" "pl_revealed st ! u = None"
  shows "unknown_cols (unknowns_of st k) k ! u < length (unknowns_of st k)"
    and "unknowns_of st k ! (unknown_cols (unknowns_of st k) k ! u) = u"
proof -
  have "u \<in> set (unknowns_of st k)" using assms by (simp add: unknowns_facts)
  then obtain c where c: "c < length (unknowns_of st k)" "u = unknowns_of st k ! c" by (auto simp: in_set_conv_nth)
  moreover have "unknown_cols (unknowns_of st k) k ! u = c"
    using c unknown_cols_nth [of "unknowns_of st k" k c] by (simp add: unknowns_facts)
  ultimately show "unknown_cols (unknowns_of st k) k ! u < length (unknowns_of st k)"
    "unknowns_of st k ! (unknown_cols (unknowns_of st k) k ! u) = u" by simp_all
qed

definition residual_of :: "peel_state \<Rightarrow> nat \<Rightarrow> nat \<Rightarrow> bytes list" where
  "residual_of st k s =
     map (sym_row (unknown_cols (unknowns_of st k) k) (length (unknowns_of st k)) s)
       (filter (\<lambda>sm. ps_payload sm \<noteq> [] \<and> cover sm \<noteq> []) (pl_syms st))"

lemma live_sym:
  assumes "peel_inv k s syms0 C st" "sm \<in> set (pl_syms st)" "ps_payload sm \<noteq> []"
  shows "length (ps_payload sm) = s" "\<And>i. i \<in> fst ` set (cover sm) \<Longrightarrow> i < k \<and> pl_revealed st ! i = None"
proof -
  obtain j where j: "j < length syms0" "sm = pl_syms st ! j"
    using assms by (auto simp: peel_inv_def in_set_conv_nth)
  then have "j \<notin> C" using assms by (auto simp: peel_inv_def)
  then have "sym_wf k s sm" and "\<forall>i \<in> fst ` set (cover sm). pl_revealed st ! i = None"
    using assms(1) j by (auto simp: peel_inv_def live_def)
  then show "length (ps_payload sm) = s" "\<And>i. i \<in> fst ` set (cover sm) \<Longrightarrow> i < k \<and> pl_revealed st ! i = None"
    by (auto simp: sym_wf_def)
qed

lemma residual_of_rows:
  assumes "peel_inv k s syms0 C st"
  shows "residual_rows (pl_revealed st) (unknown_cols (unknowns_of st k) k) (length (unknowns_of st k)) s (pl_syms st)
      = Ok (residual_of st k s)"
    and "rows_len (length (unknowns_of st k) + s) (residual_of st k s)"
proof -
  note L = live_sym [OF assms]
  show "residual_rows (pl_revealed st) (unknown_cols (unknowns_of st k) k) (length (unknowns_of st k)) s (pl_syms st)
      = Ok (residual_of st k s)"
    unfolding residual_of_def by (rule residual_rows_eq) (use L in \<open>auto simp: image_iff\<close>)
  show "rows_len (length (unknowns_of st k) + s) (residual_of st k s)"
    using L(1) by (auto simp: rows_len_def residual_of_def sym_row_def)
qed

text \<open>An assignment fits the final state exactly when it extends the revealed values, solves the
  residual system, and the symbols whose cover is used up carry zeros.\<close>

definition leftovers_zero :: "nat \<Rightarrow> peel_state \<Rightarrow> bool" where
  "leftovers_zero s st \<longleftrightarrow> (\<forall>sm \<in> set (pl_syms st). ps_payload sm \<noteq> [] \<longrightarrow> cover sm = [] \<longrightarrow>
     (\<forall>p < s. ps_payload sm ! p = 0))"

lemma state_admits_iff:
  assumes I: "peel_inv k s syms0 C st" and s: "0 < s"
  shows "state_admits k s C st X \<longleftrightarrow>
    (\<forall>t < k. \<forall>x. pl_revealed st ! t = Some x \<longrightarrow> X t = x) \<and> leftovers_zero s st \<and>
    (\<forall>row \<in> set (residual_of st k s). row_holds (length (unknowns_of st k)) s (\<lambda>j. X (unknowns_of st k ! j)) row)"
proof -
  define r where "r = length (unknowns_of st k)"
  define col where "col = unknown_cols (unknowns_of st k) k"
  define Y where "Y = (\<lambda>j. X (unknowns_of st k ! j))"
  have liveset: "(\<forall>j < length (pl_syms st). j \<notin> C \<longrightarrow> P (pl_syms st ! j)) \<longleftrightarrow>
      (\<forall>sm \<in> set (pl_syms st). ps_payload sm \<noteq> [] \<longrightarrow> P sm)" for P
  proof -
    have "j \<in> C \<longleftrightarrow> ps_payload (pl_syms st ! j) = []" if "j < length (pl_syms st)" for j
    proof (cases "j \<in> C")
      case True
      then show ?thesis using I that by (simp add: peel_inv_def)
    next
      case False
      then have "sym_wf k s (pl_syms st ! j)" using I that by (simp add: peel_inv_def live_def)
      then show ?thesis using False s by (auto simp: sym_wf_def)
    qed
    then show ?thesis by (auto simp: all_set_conv_all_nth)
  qed
  have row: "row_holds r s Y (sym_row col r s sm) \<longleftrightarrow> sym_holds s X sm"
    if "sm \<in> set (pl_syms st)" "ps_payload sm \<noteq> []" for sm
  proof (rule sym_row_holds)
    show "\<forall>i \<in> fst ` set (cover sm). col ! i < r \<and> Y (col ! i) = X i"
      using live_sym(2) [OF I that] unknown_cols_of [of _ k st] by (simp add: col_def r_def Y_def)
    show "length (ps_payload sm) = s" by (rule live_sym [OF I that])
  qed
  have "(\<forall>j < length (pl_syms st). j \<notin> C \<longrightarrow> sym_holds s X (pl_syms st ! j)) \<longleftrightarrow>
      (\<forall>sm \<in> set (pl_syms st). ps_payload sm \<noteq> [] \<longrightarrow> sym_holds s X sm)"
    by (rule liveset)
  also have "\<dots> \<longleftrightarrow> leftovers_zero s st \<and> (\<forall>row \<in> set (residual_of st k s). row_holds r s Y row)"
    unfolding leftovers_zero_def residual_of_def r_def [symmetric] col_def [symmetric]
    using row by (auto simp: sym_holds_def)
  finally show ?thesis by (simp add: state_admits_def r_def Y_def)
qed

section \<open>Solving\<close>

lemma solve_residual_unfold:
  assumes "peel_inv k s syms0 C st" "unknowns_of st k \<noteq> []"
    and "gf_gauss_eliminate (residual_of st k s) (length (unknowns_of st k) + s) (length (unknowns_of st k)) = (rows, rank)"
  shows "solve_residual st k s =
    (if rank < length (unknowns_of st k) then Err (Underdetermined rank (length (unknowns_of st k)))
     else let rv = publish_rows (unknowns_of st k) (length (unknowns_of st k)) s rows (pl_revealed st)
          in if None \<in> set rv then Err (Underdetermined rank k) else Ok (map unwrap_or_default rv))"
  using assms residual_of_rows(1) [OF assms(1)]
  by (simp add: solve_residual_def unknowns_of_def [symmetric] Let_def)

lemma map_unwrap:
  assumes "length rv = k" "\<forall>t < k. rv ! t = Some (X t)"
  shows "None \<notin> set rv" "map unwrap_or_default rv = map X [0..<k]"
  using assms by (auto simp: in_set_conv_nth unwrap_or_default_def intro!: nth_equalityI)

lemma publish_solution:
  assumes I: "peel_inv k s syms0 C st" and s: "0 < s" and X: "assignment k s X" "state_admits k s C st X"
    and g: "gf_gauss_eliminate (residual_of st k s) (length (unknowns_of st k) + s) (length (unknowns_of st k))
      = (rows, length (unknowns_of st k))"
  shows "\<forall>t < k. publish_rows (unknowns_of st k) (length (unknowns_of st k)) s rows (pl_revealed st) ! t = Some (X t)"
    and "length (publish_rows (unknowns_of st k) (length (unknowns_of st k)) s rows (pl_revealed st)) = k"
proof -
  define us where "us = unknowns_of st k"
  define r where "r = length us"
  have lk: "length (pl_revealed st) = k" using I by (simp add: peel_inv_def)
  have us: "us ! i < k" "length (X (us ! i)) = s" if "i < r" for i
  proof -
    have "us ! i \<in> set us" using that by (simp add: r_def)
    then show "us ! i < k" by (simp add: us_def unknowns_facts)
    then show "length (X (us ! i)) = s" using X(1) by (simp add: assignment_def)
  qed
  have adm: "\<forall>t < k. \<forall>x. pl_revealed st ! t = Some x \<longrightarrow> X t = x"
      "\<forall>row \<in> set (residual_of st k s). row_holds r s (\<lambda>j. X (us ! j)) row"
    using X(2) state_admits_iff [OF I s, of X] by (simp_all add: r_def us_def)
  obtain pivs where P: "set pivs = {..<r}" "length pivs = r" "r \<le> length rows"
      "\<forall>i < r. drop r (rows ! i) = X (us ! (pivs ! i)) \<and> (\<forall>j < r. rows ! i ! j = (if j = pivs ! i then 1 else 0))"
      "\<forall>i < length rows. r \<le> i \<longrightarrow> (\<forall>j < r. rows ! i ! j = 0)"
    using gauss_solution [of r s "residual_of st k s" rows "\<lambda>j. X (us ! j)"]
      residual_of_rows(2) [OF I] g adm(2) us s unfolding r_def us_def by auto
  have fn: "first_nonzero (rows ! i) r = (if i < r then pivs ! i else r)" if "i < length rows" for i
  proof (cases "i < r")
    case True
    have "pivs ! i < r" using P(1,2) True by (metis lessThan_iff nth_mem)
    then show ?thesis using P(4) True by (simp add: first_nonzero_unit)
  next
    case False
    then show ?thesis using P(5) that by (simp add: first_nonzero_none)
  qed
  have row: "us ! first_nonzero row r < length (pl_revealed st) \<and> take s (drop r row) = X (us ! first_nonzero row r)"
    if row: "row \<in> set rows" "first_nonzero row r < r" for row
  proof -
    obtain i where i: "i < length rows" "row = rows ! i" using row(1) by (auto simp: in_set_conv_nth)
    then have ir: "i < r" using row(2) fn [of i] by (simp split: if_splits)
    then have f: "first_nonzero row r = pivs ! i" using fn i by simp
    then show ?thesis using row(2) ir i P(4) us [of "pivs ! i"] lk by simp
  qed
  note pub = publish_rows_nth [of rows r us "pl_revealed st" s X, OF row]
  show "length (publish_rows (unknowns_of st k) (length (unknowns_of st k)) s rows (pl_revealed st)) = k"
    using pub lk by (simp add: us_def r_def)
  have "publish_rows us r s rows (pl_revealed st) ! t = Some (X t)" if t: "t < k" for t
  proof (cases "pl_revealed st ! t")
    case (Some x)
    then show ?thesis using pub t lk adm(1) by auto
  next
    case None
    then have "t \<in> set us" using t by (simp add: us_def unknowns_facts)
    then obtain c where c: "c < r" "us ! c = t" by (auto simp: in_set_conv_nth r_def)
    then have "c \<in> set pivs" using P(1) by simp
    then obtain i where i: "i < r" "pivs ! i = c" using P(2) by (auto simp: in_set_conv_nth)
    then have "rows ! i \<in> set rows \<and> first_nonzero (rows ! i) r < r \<and> us ! first_nonzero (rows ! i) r = t"
      using fn [of i] P(3) c by simp
    then show ?thesis using pub t lk by auto
  qed
  then show "\<forall>t < k. publish_rows (unknowns_of st k) (length (unknowns_of st k)) s rows (pl_revealed st) ! t = Some (X t)"
    by (simp add: us_def r_def)
qed

text \<open>A kernel vector of the residual system moves an admitted assignment to another one.\<close>

lemma shift_assignment:
  assumes I: "peel_inv k s syms0 C st" and s: "0 < s" and X: "assignment k s X" "state_admits k s C st X"
    and v: "\<forall>row \<in> set (residual_of st k s). dot (length (unknowns_of st k)) row v = 0"
    and j: "j < length (unknowns_of st k)" "v j \<noteq> 0"
  shows "\<exists>X'. assignment k s X' \<and> state_admits k s C st X' \<and> (\<exists>t < k. X' t \<noteq> X t)"
proof -
  define us where "us = unknowns_of st k"
  define col where "col = unknown_cols us k"
  define X' where "X' = (\<lambda>t. if t < k \<and> pl_revealed st ! t = None then map (\<lambda>b. b XOR v (col ! t)) (X t) else X t)"
  have us: "us ! i < k" "pl_revealed st ! (us ! i) = None" "col ! (us ! i) = i" if "i < length us" for i
  proof -
    have "us ! i \<in> set us" using that by simp
    then show "us ! i < k" "pl_revealed st ! (us ! i) = None" by (simp_all add: us_def unknowns_facts)
    show "col ! (us ! i) = i"
      using unknown_cols_nth [of us k i] that by (simp add: col_def us_def unknowns_facts)
  qed
  have a: "assignment k s X'" using X(1) by (simp add: assignment_def X'_def)
  have Y: "X' (us ! i) ! p = X (us ! i) ! p XOR v i" if "i < length us" "p < s" for i p
    using that us [OF that(1)] X(1) by (simp add: X'_def assignment_def)
  have "row_holds (length us) s (\<lambda>j. X' (us ! j)) row \<longleftrightarrow> row_holds (length us) s (\<lambda>j. X (us ! j)) row"
    if "row \<in> set (residual_of st k s)" for row
  proof -
    have "xsum (\<lambda>i. gf_mul (row ! i) (X' (us ! i) ! p)) (length us) =
        xsum (\<lambda>i. gf_mul (row ! i) (X (us ! i) ! p)) (length us)" if p: "p < s" for p
    proof -
      have "xsum (\<lambda>i. gf_mul (row ! i) (X' (us ! i) ! p)) (length us) =
          xsum (\<lambda>i. gf_mul (row ! i) (X (us ! i) ! p) XOR gf_mul (row ! i) (v i)) (length us)"
        by (rule xsum_cong) (use p in \<open>simp add: Y gf.mul_distrib\<close>)
      then show ?thesis
        using v \<open>row \<in> set (residual_of st k s)\<close> by (simp add: xsum_xor dot_def us_def)
    qed
    then show ?thesis by (simp add: row_holds_def)
  qed
  moreover have "X' t = x \<longleftrightarrow> X t = x" if "pl_revealed st ! t = Some x" for t x
    using that by (simp add: X'_def)
  ultimately have "state_admits k s C st X'"
    using X(2) unfolding state_admits_iff [OF I s] us_def [symmetric] by simp
  moreover have "X' (us ! j) \<noteq> X (us ! j)"
  proof
    assume "X' (us ! j) = X (us ! j)"
    then have "X (us ! j) ! 0 XOR v j = X (us ! j) ! 0" using Y [of j 0] j s by (simp add: us_def)
    then show False using j(2) by (auto simp: bit_eq_iff bit_xor_iff)
  qed
  ultimately show ?thesis using a us(1) [of j] j by (auto simp: us_def)
qed

lemma solve_residual_correct:
  assumes I: "peel_inv k s syms0 C st" and s: "0 < s" and X: "assignment k s X" "state_admits k s C st X"
  shows "solve_residual st k s = Ok (map X [0..<k]) \<or>
    (\<exists>a b X'. solve_residual st k s = Err (Underdetermined a b) \<and> assignment k s X' \<and>
      state_admits k s C st X' \<and> (\<exists>t < k. X' t \<noteq> X t))"
proof (cases "unknowns_of st k = []")
  case True
  have lk: "length (pl_revealed st) = k" using I by (simp add: peel_inv_def)
  have "pl_revealed st ! t = Some (X t)" if "t < k" for t
    using True that X(2) unknowns_facts(2) [of t st k] by (cases "pl_revealed st ! t") (auto simp: state_admits_def)
  then show ?thesis
    using map_unwrap [OF lk, of X] True by (simp add: solve_residual_def unknowns_of_def [symmetric] Let_def)
next
  case False
  define r where "r = length (unknowns_of st k)"
  obtain rows rank where g: "gf_gauss_eliminate (residual_of st k s) (r + s) r = (rows, rank)" by fastforce
  note U = solve_residual_unfold [OF I False g [unfolded r_def], folded r_def]
  have L: "rows_len (r + s) (residual_of st k s)" using residual_of_rows(2) [OF I] by (simp add: r_def)
  have le: "rank \<le> r" using gauss_rank_le [OF L _ _ g] s by simp
  have full: "rank = r \<longleftrightarrow> (\<forall>v. (\<forall>row \<in> set (residual_of st k s). dot r row v = 0) \<longrightarrow> (\<forall>j < r. v j = 0))"
    using gauss_full_iff [OF L _ _ g] s by simp
  show ?thesis
  proof (cases "rank = r")
    case True
    note P = publish_solution [OF I s X g [unfolded True, unfolded r_def], folded r_def]
    show ?thesis using U map_unwrap [OF P(2,1)] True by (simp add: Let_def)
  next
    case ne: False
    then obtain v j where "\<forall>row \<in> set (residual_of st k s). dot r row v = 0" "j < r" "v j \<noteq> 0"
      using full by blast
    then show ?thesis using shift_assignment [OF I s X, of v j] U ne le by (auto simp: r_def)
  qed
qed

text \<open>The decoder's contract on symbols that fit the sources \<open>X\<close>.\<close>

lemma peel_symbols_correct:
  assumes wf: "\<forall>sm \<in> set syms. sym_wf k s sm" and s: "0 < s" and X: "assignment k s X" "consistent s X syms"
  shows "fst (peel_symbols syms k s) = Ok (map X [0..<k]) \<or>
    (\<exists>a b X'. fst (peel_symbols syms k s) = Err (Underdetermined a b) \<and> assignment k s X' \<and>
      consistent s X' syms \<and> (\<exists>t < k. X' t \<noteq> X t))"
proof -
  obtain C where I: "peel_inv k s syms C (peel_loop (peel_init syms k))"
    using peel_loop_inv [OF peel_init_inv [OF wf]] by blast
  then have eq: "\<And>X. assignment k s X \<Longrightarrow>
      consistent s X syms \<longleftrightarrow> state_admits k s C (peel_loop (peel_init syms k)) X"
    by (simp add: peel_inv_def)
  show ?thesis
    using solve_residual_correct [OF I s X(1)] X eq by (auto simp: peel_symbols_def Let_def)
qed

section \<open>Determined sources\<close>

definition determined :: "nat \<Rightarrow> nat \<Rightarrow> parsed_sym list \<Rightarrow> (nat \<Rightarrow> bytes) \<Rightarrow> bool" where
  "determined k s syms X \<longleftrightarrow>
     (\<forall>X'. assignment k s X' \<and> consistent s X' syms \<longrightarrow> (\<forall>t < k. X' t = X t))"

lemma covsum_shift:
  assumes "\<forall>(i, c) \<in> set cov. i < k" "\<And>i. i < k \<Longrightarrow> X' i ! p = X i ! p XOR v i"
  shows "covsum X' cov p = covsum X cov p XOR covsum (\<lambda>i. [v i]) cov 0"
  using assms(1)
proof (induction cov)
  case (Cons a cov)
  then show ?case using assms(2) by (cases a) (auto simp: gf.mul_distrib ac_simps)
qed simp

text \<open>Fewer than \<open>k\<close> symbols never determine \<open>k\<close> sources.\<close>

lemma few_symbols:
  assumes wf: "\<forall>sm \<in> set syms. sym_wf k s sm" and few: "length syms < k" and s: "0 < s"
    and X: "assignment k s X" "consistent s X syms"
  shows "\<not> determined k s syms X"
proof -
  define rows where "rows = map (\<lambda>sm. cov_row [0..<k] (cover sm) (replicate k 0)) syms"
  have L: "rows_len k rows" by (simp add: rows_len_def rows_def)
  obtain rows' rank where g: "gf_gauss_eliminate rows k k = (rows', rank)" by fastforce
  have "rank < k" using gauss_rank_le [OF L _ _ g] few by (simp add: rows_def)
  then obtain v j where v: "\<forall>row \<in> set rows. dot k row v = 0" and j: "j < k" "v j \<noteq> 0"
    using gauss_full_iff [OF L _ _ g] by auto
  define X' where "X' = (\<lambda>t. map (\<lambda>b. b XOR v t) (X t))"
  have X'p: "X' i ! p = X i ! p XOR v i" if "i < k" "p < s" for i p
    using that X(1) by (simp add: X'_def assignment_def)
  have "sym_holds s X' sm" if sm: "sm \<in> set syms" for sm
  proof -
    have cov: "\<forall>(i, c) \<in> set (cover sm). i < k" using wf sm by (auto simp: sym_wf_def)
    have "dot k (cov_row [0..<k] (cover sm) (replicate k 0)) v = 0" using v sm by (simp add: rows_def)
    moreover have "dot k (cov_row [0..<k] (cover sm) (replicate k 0)) v = covsum (\<lambda>i. [v i]) (cover sm) 0"
      using cov_row_zero [of "cover sm" "[0..<k]" k "\<lambda>i. [v i]" "\<lambda>i. [v i]" k 0] cov
      by (force simp: dot_def)
    ultimately have "covsum X' (cover sm) p = covsum X (cover sm) p" if "p < s" for p
      using covsum_shift [OF cov, of X' p X v] X'p that by simp
    then show ?thesis using X(2) sm by (simp add: consistent_def sym_holds_def)
  qed
  moreover have "assignment k s X'" using X(1) by (simp add: assignment_def X'_def)
  moreover have "X' j \<noteq> X j"
  proof
    assume "X' j = X j"
    then have "X j ! 0 XOR v j = X j ! 0" using X'p [of j 0] j s by simp
    then show False using j(2) by (auto simp: bit_eq_iff bit_xor_iff)
  qed
  ultimately show ?thesis using j(1) by (auto simp: determined_def consistent_def)
qed

lemma decoder_decode_correct:
  assumes wf: "\<forall>sm \<in> set (fd_syms d). sym_wf (fd_k d) (fd_symbol_size d) sm" and s: "0 < fd_symbol_size d"
    and X: "assignment (fd_k d) (fd_symbol_size d) X" "consistent (fd_symbol_size d) X (fd_syms d)"
  shows "fst (decoder_decode d) =
    (if determined (fd_k d) (fd_symbol_size d) (fd_syms d) X then Ok (map X [0..<fd_k d])
     else fst (decoder_decode d))"
    and "\<not> determined (fd_k d) (fd_symbol_size d) (fd_syms d) X \<Longrightarrow>
      \<exists>a b. fst (decoder_decode d) = Err (Underdetermined a b)"
proof -
  define k where "k = fd_k d"
  define sz where "sz = fd_symbol_size d"
  have few: "\<not> length (fd_syms d) < k" if "determined k sz (fd_syms d) X"
    using few_symbols [OF wf _ s X] that by (auto simp: k_def sz_def)
  note P = peel_symbols_correct [OF wf s X, folded k_def sz_def]
  have split: "fst (decoder_decode d) =
      (if length (fd_syms d) < k then Err (Underdetermined (length (fd_syms d)) k)
       else fst (peel_symbols (fd_syms d) k sz))"
    by (simp add: decoder_decode_def k_def sz_def split: prod.split)
  show "fst (decoder_decode d) =
      (if determined (fd_k d) (fd_symbol_size d) (fd_syms d) X then Ok (map X [0..<fd_k d]) else fst (decoder_decode d))"
    using P few unfolding split k_def [symmetric] sz_def [symmetric] by (auto simp: determined_def)
  show "\<exists>a b. fst (decoder_decode d) = Err (Underdetermined a b)"
    if nd: "\<not> determined (fd_k d) (fd_symbol_size d) (fd_syms d) X"
  proof (cases "length (fd_syms d) < k")
    case False
    obtain X' where X': "assignment k sz X'" "consistent sz X' (fd_syms d)" "\<exists>t < k. X' t \<noteq> X t"
      using nd by (auto simp: determined_def k_def sz_def)
    note P' = peel_symbols_correct [OF wf s X'(1,2) [unfolded k_def sz_def], folded k_def sz_def]
    have "map X [0..<k] \<noteq> map X' [0..<k]" using X'(3) by (fastforce simp: list_eq_iff_nth_eq)
    then show ?thesis using P P' False unfolding split by auto
  qed (simp add: split)
qed

section \<open>The wire\<close>

lemma update_append: "i \<notin> fst ` set cov \<Longrightarrow> AList.update i c cov = cov @ [(i, c)]"
  by (induction cov) auto

lemma parse_cover_pairs:
  assumes "distinct (map fst (cov @ pairs))" "\<forall>(i, c) \<in> set pairs. i < k \<and> c \<noteq> 0" "k \<le> 2 ^ 16"
  shows "parse_cover k (length pairs) (concat (map (\<lambda>(i, c). le16 (word_of_nat i) @ [c]) pairs) @ rest) cov = cov @ pairs"
  using assms(1,2)
proof (induction pairs arbitrary: cov)
  case (Cons a pairs)
  obtain i c where a: "a = (i, c)" by fastforce
  have i: "i < k" "c \<noteq> 0" "i \<notin> fst ` set cov" using Cons.prems by (auto simp: a)
  have "unat (word_of_nat i :: u16) = i" using i(1) assms(3) by simp
  moreover have "distinct (map fst ((cov @ [(i, c)]) @ pairs))" using Cons.prems(1) by (simp add: a)
  ultimately show ?case
    using Cons.IH [of "cov @ [(i, c)]"] Cons.prems(2) i
    by (simp add: a Let_def update_append nth_append)
qed simp

lemma decoder_add_wire:
  assumes "distinct (map fst pairs)" "\<forall>(i, c) \<in> set pairs. i < fd_k d \<and> c \<noteq> 0" "pairs \<noteq> []"
    and "length pairs < 2 ^ 16" "fd_k d \<le> 2 ^ 16" "length pl = fd_symbol_size d"
  shows "decoder_add (encode_symbol_wire pairs pl) d =
    (Ok True, d\<lparr>fd_syms := fd_syms d @ [\<lparr>cover = pairs, ps_payload = pl\<rparr>]\<rparr>)"
proof -
  define body where "body = concat (map (\<lambda>(i, c). le16 (word_of_nat i) @ [c :: u8]) pairs)"
  have lb: "length body = 3 * length pairs" unfolding body_def by (induction pairs) auto
  have u: "unat (word_of_nat (length pairs) :: u16) = length pairs" using assms(4) by simp
  have pc: "parse_cover (fd_k d) (length pairs) (body @ pl) [] = pairs"
    using parse_cover_pairs [of "[]" pairs "fd_k d" pl] assms by (simp add: body_def)
  have w: "encode_symbol_wire pairs pl = le16 (word_of_nat (length pairs)) @ body @ pl"
    by (simp add: encode_symbol_wire_def body_def)
  show ?thesis
    unfolding decoder_add_def w using assms lb pc by (simp add: u Let_def)
qed

text \<open>A symbol as an encoder over the sources \<open>X\<close> sends it.\<close>

definition sent_symbol :: "nat \<Rightarrow> nat \<Rightarrow> (nat \<Rightarrow> bytes) \<Rightarrow> (nat \<times> u8) list \<Rightarrow> bytes \<Rightarrow> bool" where
  "sent_symbol k s X pairs pl \<longleftrightarrow>
     sym_wf k s \<lparr>cover = pairs, ps_payload = pl\<rparr> \<and> pairs \<noteq> [] \<and> length pairs < 2 ^ 16 \<and>
     sym_holds s X \<lparr>cover = pairs, ps_payload = pl\<rparr>"

lemma fold_axpy_covsum:
  assumes "\<forall>(i, c) \<in> set pairs. length (X i) = length p0"
  shows "length (fold (\<lambda>(i, c) p. axpy p c (X i)) pairs p0) = length p0 \<and>
    (\<forall>q < length p0. fold (\<lambda>(i, c) p. axpy p c (X i)) pairs p0 ! q = p0 ! q XOR covsum X pairs q)"
  using assms
proof (induction pairs arbitrary: p0)
  case (Cons a pairs)
  obtain i c where a: "a = (i, c)" by fastforce
  have "length (axpy p0 c (X i)) = length p0" by (simp add: axpy_eq)
  then show ?case
    using Cons.IH [of "axpy p0 c (X i)"] Cons.prems by (auto simp: a axpy_eq axpy_spec_nth ac_simps)
qed simp

lemma choose_indices_props:
  assumes "0 < k" "choose_indices tries k degree chosen rng = (chosen', rng')"
    and "distinct chosen" "\<forall>i \<in> set chosen. i < k" "0 < tries" "0 < degree"
  shows "distinct chosen'" "\<forall>i \<in> set chosen'. i < k" "chosen' \<noteq> []"
proof -
  have "distinct chosen' \<and> (\<forall>i \<in> set chosen'. i < k) \<and> (chosen \<noteq> [] \<or> 0 < tries \<and> 0 < degree \<longrightarrow> chosen' \<noteq> [])"
    using assms(2-4)
  proof (induction tries arbitrary: chosen rng)
    case (Suc tries)
    obtain idx rng1 where nb: "next_below k rng = (idx, rng1)" by fastforce
    have "idx < k" using nb assms(1) by (auto simp: next_below_def split: prod.splits)
    define chosen1 where "chosen1 = (if idx \<in> set chosen then chosen else chosen @ [idx])"
    have c1: "distinct chosen1" "\<forall>i \<in> set chosen1. i < k" "chosen1 \<noteq> []"
      using Suc.prems(2,3) \<open>idx < k\<close> by (auto simp: chosen1_def)
    show ?case
    proof (cases "length chosen < degree")
      case True
      then have "choose_indices tries k degree chosen1 rng1 = (chosen', rng')"
        using Suc.prems(1) by (simp add: nb chosen1_def)
      then show ?thesis using Suc.IH [OF _ c1(1,2)] c1(3) by simp
    next
      case False
      then show ?thesis using Suc.prems by (cases chosen) auto
    qed
  qed auto
  then show "distinct chosen'" "\<forall>i \<in> set chosen'. i < k" "chosen' \<noteq> []" using assms(5,6) by auto
qed

lemma draw_coeffs_props: "draw_coeffs n rng = (cs, rng') \<Longrightarrow> length cs = n \<and> (\<forall>c \<in> set cs. c \<noteq> 0)"
proof (induction n arbitrary: rng cs)
  case (Suc n)
  have "v OR 1 \<noteq> 0" for v :: u8
  proof
    assume "v OR 1 = 0"
    then have "bit (v OR 1) 0 = bit (0 :: u8) 0" by simp
    then show False by (simp add: bit_simps)
  qed
  moreover obtain v rng1 where v: "next_u64 rng = (v, rng1)" by fastforce
  moreover obtain ds rng2 where d: "draw_coeffs n rng1 = (ds, rng2)" by fastforce
  ultimately show ?case using Suc.prems Suc.IH [of rng1 ds] by auto
qed simp

definition encoder_wf :: "fountain_encoder \<Rightarrow> bool" where
  "encoder_wf e \<longleftrightarrow> 0 < source_k (fe_source e) \<and>
     (\<forall>i < source_k (fe_source e). length (src (fe_source e) i) = source_symbol_size (fe_source e))"

lemma encoder_new_wf:
  "encoder_new source g = Ok e \<Longrightarrow> encoder_wf e \<and> fe_source e = Owned source"
  "encoder_new_shared buf offset stride k g = Ok e \<Longrightarrow> encoder_wf e \<and> fe_source e = Shared buf offset stride k"
proof -
  show "encoder_wf e \<and> fe_source e = Owned source" if enc: "encoder_new source g = Ok e"
  proof -
    obtain s0 ss where s: "source = s0 # ss" using enc by (cases source) (auto simp: encoder_new_def)
    have len: "\<forall>x \<in> set source. length x = length s0" and fe: "fe_source e = Owned source"
      using enc by (auto simp: encoder_new_def s find_None_iff split: option.splits)
    then have "length (source ! i) = length s0" if "i < length source" for i using that by simp
    then show ?thesis using fe by (simp add: encoder_wf_def s)
  qed
  show "encoder_wf e \<and> fe_source e = Shared buf offset stride k"
    if e: "encoder_new_shared buf offset stride k g = Ok e"
  proof -
    have b: "0 < k" "offset + k * stride \<le> length buf" and fe: "fe_source e = Shared buf offset stride k"
      using e by (auto simp: encoder_new_shared_def split: if_splits)
    have "stride \<le> length buf - (offset + i * stride)" if "i < k" for i
    proof -
      have "Suc i * stride \<le> k * stride" using that by (intro mult_le_mono1) simp
      then show ?thesis using b(2) by simp
    qed
    then show ?thesis using b(1) fe by (simp add: encoder_wf_def)
  qed
qed

lemma repair_symbol_sent:
  assumes wf: "encoder_wf e" and k: "source_k (fe_source e) < 2 ^ 16" and r: "repair_symbol cdf e = (w, e')"
  shows "fe_source e' = fe_source e \<and> (\<exists>pairs pl. w = encode_symbol_wire pairs pl \<and>
    sent_symbol (source_k (fe_source e)) (source_symbol_size (fe_source e)) (src (fe_source e)) pairs pl)"
proof -
  define S where "S = fe_source e"
  define rng where "rng = rng_new (push_bit 40 (ucast (fe_generation e)) OR (fe_repair_index e + 1))"
  obtain degree rng1 where d: "soliton_degree cdf (source_k S) rng = (degree, rng1)" by fastforce
  obtain chosen rng2 where c: "choose_indices (10 * source_k S) (source_k S) degree [] rng1 = (chosen, rng2)" by fastforce
  obtain coeffs rng3 where cs: "draw_coeffs (length chosen) rng2 = (coeffs, rng3)" by fastforce
  define pl where "pl = fold (\<lambda>(i, c) p. axpy p c (src S i)) (zip chosen coeffs) (replicate (source_symbol_size S) 0)"
  have w: "w = encode_symbol_wire (zip chosen coeffs) pl" "fe_source e' = S"
    using r by (auto simp: repair_symbol_def Let_def S_def [symmetric] rng_def [symmetric] d c cs pl_def)
  have k0: "0 < source_k S" "\<forall>i < source_k S. length (src S i) = source_symbol_size S"
    using wf by (auto simp: encoder_wf_def S_def)
  have dg: "0 < degree" using d by (auto simp: soliton_degree_def split: prod.splits)
  have t0: "distinct ([] :: nat list)" "\<forall>i \<in> set ([] :: nat list). i < source_k S" "0 < 10 * source_k S"
    using k0(1) by simp_all
  note ch = choose_indices_props [OF k0(1) c t0 dg]
  have co: "length coeffs = length chosen" "\<forall>c \<in> set coeffs. c \<noteq> 0" using draw_coeffs_props [OF cs] by auto
  have "length chosen \<le> source_k S"
    using ch card_mono [of "{..<source_k S}" "set chosen"] by (auto simp: distinct_card)
  then have l: "length chosen < 2 ^ 16" using k by (simp add: S_def)
  have pairs: "\<forall>(i, c) \<in> set (zip chosen coeffs). i < source_k S \<and> c \<noteq> 0"
    using ch co by (auto dest: set_zip_leftD set_zip_rightD)
  then have "length pl = source_symbol_size S \<and>
      (\<forall>q < source_symbol_size S. pl ! q = covsum (src S) (zip chosen coeffs) q)"
    using fold_axpy_covsum [of "zip chosen coeffs" "src S" "replicate (source_symbol_size S) 0"] k0
    by (fastforce simp: pl_def)
  then have "sent_symbol (source_k S) (source_symbol_size S) (src S) (zip chosen coeffs) pl"
    using pairs ch co l by (auto simp: sent_symbol_def sym_wf_def sym_holds_def)
  then show ?thesis using w unfolding S_def by blast
qed

lemma repair_symbols_sent:
  assumes "encoder_wf e" "source_k (fe_source e) < 2 ^ 16" "repair_symbols cdf n e = (ws, e')" "w \<in> set ws"
  shows "\<exists>pairs pl. w = encode_symbol_wire pairs pl \<and>
    sent_symbol (source_k (fe_source e)) (source_symbol_size (fe_source e)) (src (fe_source e)) pairs pl"
  using assms
proof (induction n arbitrary: e ws)
  case (Suc n)
  obtain w1 e1 where r: "repair_symbol cdf e = (w1, e1)" by fastforce
  obtain ws1 e2 where rs: "repair_symbols cdf n e1 = (ws1, e2)" by fastforce
  note R = repair_symbol_sent [OF Suc.prems(1,2) r]
  have e1: "encoder_wf e1" "source_k (fe_source e1) < 2 ^ 16" using R Suc.prems(1,2) by (auto simp: encoder_wf_def)
  have "ws = w1 # ws1" "e2 = e'" using Suc.prems(3) r rs by auto
  then show ?case using R Suc.IH [OF e1 rs [unfolded \<open>e2 = e'\<close>]] Suc.prems(4) by auto
qed auto

lemma systematic_sent:
  assumes "encoder_wf e" "i < source_k (fe_source e)"
  shows "sent_symbol (source_k (fe_source e)) (source_symbol_size (fe_source e)) (src (fe_source e))
    [(i, 1)] (src (fe_source e) i)"
  using assms by (simp add: encoder_wf_def sent_symbol_def sym_wf_def sym_holds_def gf.mul_one)

lemma produce_sent:
  assumes "encoder_wf e" "source_k (fe_source e) < 2 ^ 16" "w \<in> set (fst (produce cdf count e))"
  shows "\<exists>pairs pl. w = encode_symbol_wire pairs pl \<and>
    sent_symbol (source_k (fe_source e)) (source_symbol_size (fe_source e)) (src (fe_source e)) pairs pl"
proof -
  obtain reps e' where r: "repair_symbols cdf (count - source_k (fe_source e)) e = (reps, e')" by fastforce
  have "w \<in> systematic_symbol (fe_source e) ` {0..<min count (source_k (fe_source e))} \<or> w \<in> set reps"
    using assms(3) by (simp add: produce_def Let_def r)
  then show ?thesis
  proof
    assume "w \<in> systematic_symbol (fe_source e) ` {0..<min count (source_k (fe_source e))}"
    then obtain i where "i < source_k (fe_source e)" "w = encode_symbol_wire [(i, 1)] (src (fe_source e) i)"
      by (auto simp: systematic_symbol_def)
    then show ?thesis using systematic_sent [OF assms(1)] by blast
  qed (rule repair_symbols_sent [OF assms(1,2) r])
qed

section \<open>Receiving\<close>

definition receive_all :: "nat \<Rightarrow> nat \<Rightarrow> bytes list \<Rightarrow> fountain_decoder" where
  "receive_all k s ws = foldl (\<lambda>d w. snd (decoder_add w d)) (decoder_new k s) ws"

text \<open>A symbol the wire format can carry for \<open>k\<close> sources of \<open>s\<close> bytes, and what a wire string says of the sources:
  the equation of the symbol it encodes.\<close>

definition wire_sym :: "nat \<Rightarrow> nat \<Rightarrow> (nat \<times> u8) list \<Rightarrow> bytes \<Rightarrow> bool" where
  "wire_sym k s pairs pl \<longleftrightarrow> sym_wf k s \<lparr>cover = pairs, ps_payload = pl\<rparr> \<and> pairs \<noteq> [] \<and> length pairs < 2 ^ 16"

definition wire_holds :: "nat \<Rightarrow> nat \<Rightarrow> (nat \<Rightarrow> bytes) \<Rightarrow> bytes \<Rightarrow> bool" where
  "wire_holds k s X w \<longleftrightarrow>
     (\<forall>pairs pl. w = encode_symbol_wire pairs pl \<and> wire_sym k s pairs pl \<longrightarrow> sym_holds s X \<lparr>cover = pairs, ps_payload = pl\<rparr>)"

lemma sent_wire_sym: "sent_symbol k s X pairs pl \<longleftrightarrow> wire_sym k s pairs pl \<and> sym_holds s X \<lparr>cover = pairs, ps_payload = pl\<rparr>"
  by (auto simp: sent_symbol_def wire_sym_def)

text \<open>The decoder keeps exactly the symbols it was sent.\<close>

lemma receive_wires:
  assumes k: "k \<le> 2 ^ 16"
    and ws: "\<forall>w \<in> set ws. \<exists>pairs pl. w = encode_symbol_wire pairs pl \<and> wire_sym k s pairs pl"
  shows "fd_k (receive_all k s ws) = k \<and> fd_symbol_size (receive_all k s ws) = s \<and>
    (\<forall>pairs pl. \<lparr>cover = pairs, ps_payload = pl\<rparr> \<in> set (fd_syms (receive_all k s ws)) \<longleftrightarrow>
      encode_symbol_wire pairs pl \<in> set ws \<and> wire_sym k s pairs pl)"
  using ws
proof (induction ws rule: rev_induct)
  case Nil
  show ?case by (simp add: receive_all_def decoder_new_def)
next
  case (snoc w ws)
  define d where "d = receive_all k s ws"
  have IH: "fd_k d = k" "fd_symbol_size d = s"
      "\<forall>pairs pl. \<lparr>cover = pairs, ps_payload = pl\<rparr> \<in> set (fd_syms d) \<longleftrightarrow> encode_symbol_wire pairs pl \<in> set ws \<and> wire_sym k s pairs pl"
    using snoc by (auto simp: d_def)
  have add: "decoder_add (encode_symbol_wire pairs pl) d =
      (Ok True, d\<lparr>fd_syms := fd_syms d @ [\<lparr>cover = pairs, ps_payload = pl\<rparr>]\<rparr>)"
    if "wire_sym k s pairs pl" for pairs pl
    using that k IH(1,2) by (intro decoder_add_wire) (auto simp: wire_sym_def sym_wf_def)
  obtain pairs pl where w: "w = encode_symbol_wire pairs pl" "wire_sym k s pairs pl" using snoc.prems by auto
  have r: "receive_all k s (ws @ [w]) = d\<lparr>fd_syms := fd_syms d @ [\<lparr>cover = pairs, ps_payload = pl\<rparr>]\<rparr>"
    using add [OF w(2)] by (simp add: receive_all_def d_def w(1))
  have inj: "pairs' = pairs \<and> pl' = pl" if "encode_symbol_wire pairs' pl' = w" "wire_sym k s pairs' pl'" for pairs' pl'
  proof -
    have "d\<lparr>fd_syms := fd_syms d @ [\<lparr>cover = pairs', ps_payload = pl'\<rparr>]\<rparr> =
        d\<lparr>fd_syms := fd_syms d @ [\<lparr>cover = pairs, ps_payload = pl\<rparr>]\<rparr>"
      using add [OF w(2)] add [OF that(2)] that(1) w(1) by simp
    from arg_cong [OF this, of fd_syms] show ?thesis by simp
  qed
  have "\<lparr>cover = p, ps_payload = q\<rparr> \<in> set (fd_syms (receive_all k s (ws @ [w]))) \<longleftrightarrow>
      encode_symbol_wire p q \<in> set (ws @ [w]) \<and> wire_sym k s p q" for p q
    unfolding r using IH(3) inj [of p q] w by auto
  then show ?case using IH(1,2) by (simp add: r)
qed

lemma receive_sent:
  assumes "k \<le> 2 ^ 16"
    and "\<forall>w \<in> set ws. \<exists>pairs pl. w = encode_symbol_wire pairs pl \<and> sent_symbol k s X pairs pl"
  shows "fd_k (receive_all k s ws) = k \<and> fd_symbol_size (receive_all k s ws) = s \<and>
    (\<forall>sm \<in> set (fd_syms (receive_all k s ws)). sym_wf k s sm) \<and>
    (\<forall>X'. consistent s X' (fd_syms (receive_all k s ws)) \<longleftrightarrow> (\<forall>w \<in> set ws. wire_holds k s X' w))"
proof -
  have "\<forall>w \<in> set ws. \<exists>pairs pl. w = encode_symbol_wire pairs pl \<and> wire_sym k s pairs pl"
    using assms(2) sent_wire_sym by blast
  note R = receive_wires [OF assms(1) this]
  have all: "(\<forall>sm \<in> set (fd_syms (receive_all k s ws)). P sm) \<longleftrightarrow>
      (\<forall>pairs pl. encode_symbol_wire pairs pl \<in> set ws \<and> wire_sym k s pairs pl \<longrightarrow> P \<lparr>cover = pairs, ps_payload = pl\<rparr>)" for P
    using R by (metis parsed_sym.cases)
  show ?thesis using R unfolding consistent_def all by (auto simp: wire_holds_def wire_sym_def)
qed

lemma sent_wire_holds:
  assumes "k \<le> 2 ^ 16" "sent_symbol k s X pairs pl"
  shows "wire_holds k s X (encode_symbol_wire pairs pl)"
proof -
  have "\<forall>w \<in> set [encode_symbol_wire pairs pl]. \<exists>pairs' pl'. w = encode_symbol_wire pairs' pl' \<and> wire_sym k s pairs' pl'"
    using assms(2) sent_wire_sym by auto
  note R = receive_wires [OF assms(1) this]
  have "fd_syms (receive_all k s [encode_symbol_wire pairs pl]) = [\<lparr>cover = pairs, ps_payload = pl\<rparr>]"
    using decoder_add_wire [of pairs "decoder_new k s" pl] assms by (simp add: receive_all_def decoder_new_def sent_symbol_def sym_wf_def)
  then have "pairs' = pairs \<and> pl' = pl" if "encode_symbol_wire pairs pl = encode_symbol_wire pairs' pl'" "wire_sym k s pairs' pl'" for pairs' pl'
    using R that by (metis list.set_intros(1) parsed_sym.ext_inject set_ConsD empty_iff list.set(1))
  then show ?thesis using assms(2) unfolding wire_holds_def sent_wire_sym by metis
qed

text \<open>The sources of an encoder are determined by the symbols received: no other sources of the same
  sizes satisfy the equations on the wire.\<close>

definition sources_determined :: "fountain_encoder \<Rightarrow> bytes list \<Rightarrow> bool" where
  "sources_determined e ws \<longleftrightarrow>
     (let k = source_k (fe_source e); s = source_symbol_size (fe_source e)
      in \<forall>X. assignment k s X \<and> (\<forall>w \<in> set ws. wire_holds k s X w) \<longrightarrow> (\<forall>t < k. X t = src (fe_source e) t))"

lemma decode_received:
  assumes wf: "encoder_wf e" and k: "source_k (fe_source e) < 2 ^ 16" and s: "0 < source_symbol_size (fe_source e)"
    and ws: "\<forall>w \<in> set ws. \<exists>count. w \<in> set (fst (produce cdf count e))"
  defines "d \<equiv> receive_all (source_k (fe_source e)) (source_symbol_size (fe_source e)) ws"
  shows "(fst (decoder_decode d) = Ok (map (src (fe_source e)) [0..<source_k (fe_source e)]) \<longleftrightarrow> sources_determined e ws) \<and>
    ((\<exists>a b. fst (decoder_decode d) = Err (Underdetermined a b)) \<longleftrightarrow> \<not> sources_determined e ws)"
proof -
  define X where "X = src (fe_source e)"
  have sent: "\<forall>w \<in> set ws. \<exists>pairs pl. w = encode_symbol_wire pairs pl \<and>
      sent_symbol (source_k (fe_source e)) (source_symbol_size (fe_source e)) X pairs pl"
    using produce_sent [OF wf k] ws unfolding X_def by blast
  have R: "fd_k d = source_k (fe_source e)" "fd_symbol_size d = source_symbol_size (fe_source e)"
      "\<forall>sm \<in> set (fd_syms d). sym_wf (fd_k d) (fd_symbol_size d) sm"
      "\<And>X'. consistent (fd_symbol_size d) X' (fd_syms d) \<longleftrightarrow> (\<forall>w \<in> set ws. wire_holds (fd_k d) (fd_symbol_size d) X' w)"
    using receive_sent [OF _ sent] k by (simp_all add: d_def)
  have D: "sources_determined e ws \<longleftrightarrow> determined (fd_k d) (fd_symbol_size d) (fd_syms d) X"
    unfolding determined_def R(4) unfolding R(1,2) by (simp add: sources_determined_def X_def Let_def)
  have X: "assignment (fd_k d) (fd_symbol_size d) X" "consistent (fd_symbol_size d) X (fd_syms d)"
    unfolding R(4) using wf sent sent_wire_holds [of "fd_k d" "fd_symbol_size d" X] k
    by (auto simp: assignment_def encoder_wf_def X_def R(1,2))
  have s': "0 < fd_symbol_size d" "\<forall>sm \<in> set (fd_syms d). sym_wf (fd_k d) (fd_symbol_size d) sm" using s R by auto
  note C = decoder_decode_correct [OF s'(2,1) X]
  show ?thesis
    using C unfolding D R(1) [symmetric] X_def [symmetric] by (cases "determined (fd_k d) (fd_symbol_size d) (fd_syms d) X") auto
qed

lemma systematic_determined:
  assumes wf: "encoder_wf e" and k: "source_k (fe_source e) < 2 ^ 16"
    and ws: "\<forall>w \<in> set ws. \<exists>count. w \<in> set (fst (produce cdf count e))"
    and sys: "\<forall>i < source_k (fe_source e). systematic_symbol (fe_source e) i \<in> set ws"
  shows "sources_determined e ws"
  unfolding sources_determined_def Let_def
proof (intro allI impI, elim conjE)
  fix X' t
  define K where "K = source_k (fe_source e)"
  define S where "S = source_symbol_size (fe_source e)"
  define X where "X = src (fe_source e)"
  assume a: "assignment (source_k (fe_source e)) (source_symbol_size (fe_source e)) X'"
    and c: "\<forall>w \<in> set ws. wire_holds (source_k (fe_source e)) (source_symbol_size (fe_source e)) X' w"
    and t: "t < source_k (fe_source e)"
  have "wire_sym K S [(t, 1)] (X t)"
    using systematic_sent [OF wf t] by (simp add: K_def S_def X_def sent_wire_sym)
  moreover have "encode_symbol_wire [(t, 1)] (X t) \<in> set ws"
    using sys t by (simp add: systematic_symbol_def X_def)
  ultimately have "sym_holds S X' \<lparr>cover = [(t, 1)], ps_payload = X t\<rparr>"
    using c unfolding wire_holds_def K_def S_def by blast
  then have "\<forall>p < S. X t ! p = X' t ! p" by (simp add: sym_holds_def gf.mul_one)
  moreover have "length (X' t) = S" "length (X t) = S"
    using a t wf by (auto simp: assignment_def encoder_wf_def K_def S_def X_def)
  ultimately show "X' t = src (fe_source e) t" by (auto simp: X_def intro: nth_equalityI)
qed

section \<open>Properties\<close>

text \<open>C8: The fountain's contract, loss included.  An encoder built by either constructor from
  fewer than 65536 nonempty symbols emits systematic and repair symbols; a fresh decoder is given
  any selection of them, in any order, with repetitions.  Decoding then returns exactly the source
  symbols if the received symbols determine them, and reports \<open>Underdetermined\<close> otherwise; it
  never returns anything else and never panics.\<close>

theorem fountain_decodes_iff_determined:
  assumes "encoder_new source g = Ok e \<or> encoder_new_shared buf offset stride k g = Ok e"
    and "source_k (fe_source e) < 2 ^ 16" "0 < source_symbol_size (fe_source e)"
    and "\<forall>w \<in> set ws. \<exists>count. w \<in> set (fst (produce cdf count e))"
  defines "r \<equiv> fst (decoder_decode (receive_all (source_k (fe_source e)) (source_symbol_size (fe_source e)) ws))"
  shows "(r = Ok (map (src (fe_source e)) [0..<source_k (fe_source e)]) \<longleftrightarrow> sources_determined e ws) \<and>
    ((\<exists>a b. r = Err (Underdetermined a b)) \<longleftrightarrow> \<not> sources_determined e ws)"
  unfolding r_def using encoder_new_wf assms(1-4) by (intro decode_received) blast+

definition demo_encoder :: fountain_encoder where
  "demo_encoder = \<lparr>fe_source = Owned [[5], [9]], fe_generation = 29397,
     fe_rng = rng_new (ucast (29397 :: u32) XOR 0xC0FFEE), fe_repair_index = 0\<rparr>"

lemma demo_encoder_new: "encoder_new [[5], [9]] 29397 = Ok demo_encoder"
  by (simp add: encoder_new_def demo_encoder_def)

lemma demo_produce: "systematic_symbol (Owned [[5], [9]]) i \<in> set (fst (produce (\<lambda>k r. 0) 2 demo_encoder))"
  if "i < 2"
  using that by (auto simp: produce_def demo_encoder_def Let_def less_2_cases_iff)

text \<open>The first repair symbol of degree two of this generation is the sum of both sources; with it one
  systematic symbol is enough.\<close>

lemma demo_draws:
  "rng_new 32322343321731073 = 5574985947756995503"
  "next_u64 5574985947756995503 = (6273700424530830108, 16975700767080193988)"
  "next_u64 16975700767080193988 = (3250898190459466992, 9929671512693840857)"
  "next_u64 9929671512693840857 = (12733133117471079091, 2883642258307487726)"
  "next_u64 2883642258307487726 = (5293087604125255936, 14284357077630686211)"
  "next_u64 14284357077630686211 = (9566334473100307200, 7238327823244333080)"
  by (simp_all add: rng_new_def next_u64_def mix64_def)

lemma demo_choice: "choose_indices (Suc (Suc n)) 2 2 [] 16975700767080193988 = ([0, 1], 2883642258307487726)"
proof -
  have "next_below 2 16975700767080193988 = (0, 9929671512693840857)" "next_below 2 9929671512693840857 = (1, 2883642258307487726)"
    by (simp_all add: next_below_def demo_draws)
  then show ?thesis by (cases n) (simp_all del: One_nat_def)
qed

definition demo_repair :: bytes where
  "demo_repair = [2, 0, 0, 0, 1, 1, 0, 1, 12]"

lemma demo_repair_symbol: "fst (repair_symbol (\<lambda>k r. 1) demo_encoder) = demo_repair"
proof -
  have "choose_indices 20 (Suc (Suc 0)) (Suc (Suc 0)) [] 16975700767080193988 = ([0, 1], 2883642258307487726)"
    using demo_choice [of 18] by (simp only: add_2_eq_Suc numeral_2_eq_2) simp
  moreover have "draw_coeffs (Suc (Suc 0)) 2883642258307487726 = ([1, 1], 7238327823244333080)"
    by (simp add: demo_draws)
  moreover have "encode_symbol_wire [(0, 1), (Suc 0, 1)] (axpy (axpy [0] 1 [5]) 1 [9]) = demo_repair"
    by code_simp
  ultimately show ?thesis by (simp add: demo_encoder_def repair_symbol_def soliton_degree_def demo_draws del: draw_coeffs.simps)
qed

lemma demo_repair_produced: "demo_repair \<in> set (fst (produce (\<lambda>k r. 1) 3 demo_encoder))"
  "systematic_symbol (Owned [[5], [9]]) 1 \<in> set (fst (produce (\<lambda>k r. 1) 3 demo_encoder))"
proof -
  have "source_k (fe_source demo_encoder) = 2" "fe_source demo_encoder = Owned [[5], [9]]" by (simp_all add: demo_encoder_def)
  then have "set (fst (produce (\<lambda>k r. 1) 3 demo_encoder)) =
      insert (fst (repair_symbol (\<lambda>k r. 1) demo_encoder)) (systematic_symbol (Owned [[5], [9]]) ` {0, 1})"
    by (simp add: produce_def numeral_2_eq_2 numeral_3_eq_3 split_beta) blast
  then show "demo_repair \<in> set (fst (produce (\<lambda>k r. 1) 3 demo_encoder))"
    "systematic_symbol (Owned [[5], [9]]) 1 \<in> set (fst (produce (\<lambda>k r. 1) 3 demo_encoder))"
    by (simp_all add: demo_repair_symbol del: One_nat_def)
qed

lemma demo_repair_decodes:
  "fst (decoder_decode (receive_all 2 1 [demo_repair])) = Err (Underdetermined 1 2)"
  "fst (decoder_decode (receive_all 2 1 [demo_repair, systematic_symbol (Owned [[5], [9]]) 1])) = Ok [[5], [9]]"
  by code_simp+

theorem fountain_decodes_iff_determined_witness:
  "\<not> sources_determined demo_encoder [demo_repair] \<and>
   sources_determined demo_encoder [demo_repair, systematic_symbol (Owned [[5], [9]]) 1]"
proof -
  have k: "source_k (fe_source demo_encoder) = 2" "source_symbol_size (fe_source demo_encoder) = 1"
    and src: "map (src (fe_source demo_encoder)) [0..<2] = [[5], [9]]"
    by (simp_all add: demo_encoder_def) code_simp
  have p: "\<forall>w \<in> set ws. \<exists>count. w \<in> set (fst (produce (\<lambda>k r. 1) count demo_encoder))"
    if "set ws \<subseteq> {demo_repair, systematic_symbol (Owned [[5], [9]]) 1}" for ws
    using that demo_repair_produced by blast
  note T = fountain_decodes_iff_determined [OF disjI1 [OF demo_encoder_new] _ _ p, unfolded k src]
  show ?thesis using T [of "[demo_repair]"] T [of "[demo_repair, systematic_symbol (Owned [[5], [9]]) 1]"] demo_repair_decodes
    by simp
qed

text \<open>Without loss a generation always decodes: once all systematic symbols have arrived, in
  any order and whatever repair symbols arrived with them, decoding returns the sources.\<close>

theorem fountain_systematic_decodes:
  assumes "encoder_new source g = Ok e \<or> encoder_new_shared buf offset stride k g = Ok e"
    and "source_k (fe_source e) < 2 ^ 16" "0 < source_symbol_size (fe_source e)"
    and "\<forall>w \<in> set ws. \<exists>count. w \<in> set (fst (produce cdf count e))"
    and "\<forall>i < source_k (fe_source e). systematic_symbol (fe_source e) i \<in> set ws"
  shows "fst (decoder_decode (receive_all (source_k (fe_source e)) (source_symbol_size (fe_source e)) ws)) =
    Ok (map (src (fe_source e)) [0..<source_k (fe_source e)])"
proof -
  have wf: "encoder_wf e" using assms(1) encoder_new_wf by blast
  have "sources_determined e ws" by (rule systematic_determined [OF wf assms(2,4,5)])
  then show ?thesis using decode_received [OF wf assms(2-4)] by blast
qed

theorem fountain_systematic_decodes_witness:
  "fst (decoder_decode (receive_all 2 1
     [systematic_symbol (Owned [[5], [9]]) 1, systematic_symbol (Owned [[5], [9]]) 0])) = Ok [[5], [9]]"
proof -
  define ws where "ws = [systematic_symbol (Owned [[5], [9]]) 1, systematic_symbol (Owned [[5], [9]]) 0]"
  have e: "fe_source demo_encoder = Owned [[5], [9]]" by (simp add: demo_encoder_def)
  have "\<forall>w \<in> set ws. \<exists>count. w \<in> set (fst (produce (\<lambda>k r. 0) count demo_encoder))"
    using demo_produce [of 0] demo_produce [of 1] by (auto simp: ws_def)
  moreover have "\<forall>i < 2. systematic_symbol (Owned [[5], [9]]) i \<in> set ws" by (auto simp: ws_def less_2_cases_iff)
  moreover have "source_k (Owned [[5], [9]]) = 2" "source_symbol_size (Owned [[5], [9]]) = 1" by simp_all
  moreover have "map (src (Owned [[5], [9]])) [0..<2] = [[5], [9]]" by code_simp
  ultimately have "fst (decoder_decode (receive_all (Suc (Suc 0)) (Suc 0) ws)) = Ok [[5], [9]]"
    using fountain_systematic_decodes [OF disjI1 [OF demo_encoder_new], of ws "\<lambda>k r. 0", unfolded e]
    by simp
  then show ?thesis by (simp only: ws_def numeral_2_eq_2 One_nat_def)
qed

text \<open>A decoder must not be asked twice.  A failed attempt leaves the symbols it consumed with
  empty payloads, and a later attempt returns those as recovered: here a duplicate of the first
  symbol makes the first attempt fail, and after the missing symbol arrives the second attempt
  succeeds with an empty first symbol instead of \<open>[5]\<close>.\<close>

theorem decode_retry_corrupts:
  "let s0 = systematic_symbol (Owned [[5], [9]]) 0; s1 = systematic_symbol (Owned [[5], [9]]) 1;
       (r1, d1) = decoder_decode (receive_all 2 1 [s0, s0])
   in r1 = Err (Underdetermined 0 1) \<and>
      fst (decoder_decode (snd (decoder_add s1 d1))) = Ok [[], [9]] \<and>
      fst (decoder_decode (receive_all 2 1 [s0, s0, s1])) = Ok [[5], [9]]"
  by code_simp

end
