(* ===== verification/Bulk.thy ===== *)
theory Bulk
  imports Decoding
begin

text \<open>
  Bulk transfer in generations (\<open>crates/coding/src/bulk.rs\<close>): the payload is padded to whole
  generations of \<open>gen_size\<close> symbols, each generation is fountain-coded on its own, and the receiver
  decodes the generations it has and reassembles them in the order of their ids.  The parallel
  iterators are ordered traversals.  The number of repair symbols is computed in floating point
  as \<open>ceil(gen_size * repair_fraction)\<close>; the configuration carries it as a function of \<open>gen_size\<close>.
\<close>

section \<open>Operations\<close>

datatype bulk_error = BulkEmpty | BulkGeneration nat fountain_error | BulkSizeMismatch nat nat

record bulk_config =
  bc_gen_size :: nat
  bc_symbol_size :: nat
  bc_repair :: "nat \<Rightarrow> nat"
  bc_generations :: nat

definition bulk_default :: "(nat \<Rightarrow> nat) \<Rightarrow> bulk_config" where
  "bulk_default two_percent =
     \<lparr>bc_gen_size = 1024, bc_symbol_size = 4096, bc_repair = two_percent, bc_generations = 16\<rparr>"

definition with_repair_fraction :: "(nat \<Rightarrow> nat) \<Rightarrow> bulk_config \<Rightarrow> bulk_config" where
  "with_repair_fraction r cfg = cfg\<lparr>bc_repair := r\<rparr>"

definition div_ceil :: "nat \<Rightarrow> nat \<Rightarrow> nat" where
  "div_ceil a b = (a + b - 1) div b"

definition total_full_gens :: "nat \<Rightarrow> bulk_config \<Rightarrow> nat" where
  "total_full_gens n cfg =
     (let total_syms = max (div_ceil n (bc_symbol_size cfg)) 1
      in max (div_ceil total_syms (bc_gen_size cfg)) 1)"

definition padded :: "bytes \<Rightarrow> nat \<Rightarrow> bytes" where
  "padded p n = take n (p @ replicate (n - length p) 0)"

definition encode_generation ::
    "cdf \<Rightarrow> bytes \<Rightarrow> bulk_config \<Rightarrow> nat \<Rightarrow> nat \<Rightarrow> ((u32 \<times> bytes) list, bulk_error) outcome" where
  "encode_generation cdf buf cfg count gi =
     (let gen_id = word_of_nat gi; offset = gi * (bc_gen_size cfg * bc_symbol_size cfg)
      in obind (omap_err (\<lambda>e. BulkSizeMismatch 0 0)
                 (encoder_new_shared buf offset (bc_symbol_size cfg) (bc_gen_size cfg) gen_id))
           (\<lambda>enc. Ok (map (\<lambda>w. (gen_id, w)) (fst (produce cdf count enc)))))"

text \<open>Dividing by a zero size panics; so does a padded length that no allocation can have.\<close>

definition bulk_encode :: "cdf \<Rightarrow> bytes \<Rightarrow> bulk_config \<Rightarrow> ((u32 \<times> bytes) list, bulk_error) outcome" where
  "bulk_encode cdf p cfg =
     (if p = [] then Err BulkEmpty
      else if bc_symbol_size cfg = 0 \<or> bc_gen_size cfg = 0 then Panic
      else
        let count = bc_gen_size cfg + bc_repair cfg (bc_gen_size cfg);
            gens = total_full_gens (length p) cfg;
            padded_len = gens * (bc_gen_size cfg * bc_symbol_size cfg)
        in if 2 ^ 63 \<le> padded_len then Panic
           else
             obind (otraverse (encode_generation cdf (padded p padded_len) cfg count) [0..<gens])
               (\<lambda>encoded. Ok (concat encoded)))"

definition group_wires :: "u32 \<Rightarrow> (u32 \<times> bytes) list \<Rightarrow> bytes list" where
  "group_wires g coded = map snd (filter (\<lambda>p. fst p = g) coded)"

definition group_ids :: "(u32 \<times> bytes) list \<Rightarrow> u32 list" where
  "group_ids coded = sort (remdups (map fst coded))"

fun fill_region :: "bytes list \<Rightarrow> nat \<Rightarrow> bytes \<Rightarrow> bytes" where
  "fill_region [] off region = region"
| "fill_region (sy # syms) off region =
     (let n = min (length sy) (length region - off);
          region' = take off region @ take n sy @ drop (off + n) region
      in if off + n = length region then region' else fill_region syms (off + n) region')"

definition decode_generation ::
    "bulk_config \<Rightarrow> (u32 \<times> bytes) list \<Rightarrow> u32 \<Rightarrow> (bytes, bulk_error) outcome" where
  "decode_generation cfg coded g =
     (let d = foldl (\<lambda>d w. snd (decoder_add w d)) (decoder_new (bc_gen_size cfg) (bc_symbol_size cfg)) (group_wires g coded)
      in obind (omap_err (BulkGeneration (unat g)) (fst (decoder_decode d)))
           (\<lambda>syms. Ok (fill_region syms 0 (replicate (bc_gen_size cfg * bc_symbol_size cfg) 0))))"

definition bulk_decode ::
    "(u32 \<times> bytes) list \<Rightarrow> bulk_config \<Rightarrow> nat \<Rightarrow> (bytes, bulk_error) outcome" where
  "bulk_decode coded cfg original_len =
     (let gens = group_ids coded; full_gen_bytes = bc_gen_size cfg * bc_symbol_size cfg
      in if gens = [] \<or> full_gen_bytes = 0 then Ok []
         else if 2 ^ 64 \<le> length gens * full_gen_bytes then Panic
         else obind (otraverse (decode_generation cfg coded) gens)
                (\<lambda>regions. Ok (take original_len (concat regions))))"

section \<open>Slicing and reassembly\<close>

lemma div_ceil_bound: "0 < b \<Longrightarrow> a \<le> div_ceil a b * b"
proof -
  assume b: "0 < b"
  have "a + b - 1 < ((a + b - 1) div b + 1) * b" using b by (simp add: dividend_less_div_times)
  then show ?thesis by (simp add: div_ceil_def algebra_simps)
qed

lemma chunks_concat:
  "concat (map (\<lambda>i. take s (drop (off + i * s) buf)) [0..<k]) = take (k * s) (drop off buf)"
proof (induction k)
  case (Suc k)
  have "take (Suc k * s) (drop off buf) = take (k * s + s) (drop off buf)" by (simp add: add.commute)
  then show ?case using Suc by (simp only: take_add) (simp add: add.commute)
qed simp

lemma fill_region_concat:
  assumes "off + length (concat syms) = length region" "\<forall>x \<in> set syms. x \<noteq> []"
  shows "fill_region syms off region = take off region @ concat syms"
  using assms
proof (induction syms arbitrary: off region)
  case (Cons x syms)
  have n: "min (length x) (length region - off) = length x" using Cons.prems(1) by simp
  have r: "length (take off region @ x @ drop (off + length x) region) = length region"
    using Cons.prems(1) by simp
  show ?case
  proof (cases "off + length x = length region")
    case True
    then have "length (concat syms) = 0" using Cons.prems(1) by (simp only: concat.simps length_append)
    then have "concat syms = []" by (simp only: length_0_conv)
    then show ?thesis using True n by (simp add: Let_def)
  next
    case False
    have "fill_region (x # syms) off region = fill_region syms (off + length x) (take off region @ x @ drop (off + length x) region)"
      using False n by (simp add: Let_def)
    also have "\<dots> = take (off + length x) (take off region @ x @ drop (off + length x) region) @ concat syms"
      using Cons.prems r by (intro Cons.IH) simp_all
    also have "take (off + length x) (take off region @ x @ drop (off + length x) region) = take off region @ x"
    proof -
      have "off \<le> length region" using Cons.prems(1) by linarith
      then have "length (take off region @ x) = off + length x" by simp
      then show ?thesis using append_eq_conv_conj [of "take off region @ x"] by (metis append.assoc)
    qed
    finally show ?thesis by (simp only: append.assoc concat.simps)
  qed
qed simp

lemma padded_prefix: "length p \<le> n \<Longrightarrow> take (length p) (padded p n) = p" "length (padded p n) = n"
  by (simp_all add: padded_def)

lemma total_full_gens_bound:
  assumes "0 < bc_symbol_size cfg" "0 < bc_gen_size cfg"
  shows "n \<le> total_full_gens n cfg * (bc_gen_size cfg * bc_symbol_size cfg)" "0 < total_full_gens n cfg"
proof -
  define t where "t = max (div_ceil n (bc_symbol_size cfg)) 1"
  have "n \<le> t * bc_symbol_size cfg"
    using div_ceil_bound [OF assms(1), of n] by (auto simp: t_def max_def intro: order_trans mult_le_mono1)
  also have "t \<le> total_full_gens n cfg * bc_gen_size cfg"
  proof -
    have "total_full_gens n cfg = max (div_ceil t (bc_gen_size cfg)) 1"
      by (simp only: total_full_gens_def Let_def t_def)
    then have "div_ceil t (bc_gen_size cfg) * bc_gen_size cfg \<le> total_full_gens n cfg * bc_gen_size cfg"
      by (intro mult_le_mono1) simp
    then show ?thesis using div_ceil_bound [OF assms(2), of t] by linarith
  qed
  finally show "n \<le> total_full_gens n cfg * (bc_gen_size cfg * bc_symbol_size cfg)"
    by (simp add: mult.assoc mult_le_mono1)
  show "0 < total_full_gens n cfg" by (simp add: total_full_gens_def Let_def)
qed

lemma word_ids_sorted: "n \<le> 2 ^ 32 \<Longrightarrow> sorted (map (word_of_nat :: nat \<Rightarrow> u32) [0..<n]) \<and> distinct (map (word_of_nat :: nat \<Rightarrow> u32) [0..<n])"
proof -
  assume n: "n \<le> 2 ^ 32"
  have le: "i \<le> j \<Longrightarrow> j < n \<Longrightarrow> (word_of_nat i :: u32) \<le> word_of_nat j" for i j
    using n by (simp add: word_le_nat_alt unat_of_nat)
  have "inj_on (word_of_nat :: nat \<Rightarrow> u32) {0..<n}"
    using n by (auto simp: inj_on_def word_of_nat_eq_iff take_bit_nat_eq_self)
  then show ?thesis using le by (auto simp: sorted_iff_nth_mono distinct_map)
qed

section \<open>Round trip\<close>

text \<open>The buffer that is coded, and the encoder of a generation.\<close>

definition coded_buffer :: "bytes \<Rightarrow> bulk_config \<Rightarrow> bytes" where
  "coded_buffer p cfg = padded p (total_full_gens (length p) cfg * (bc_gen_size cfg * bc_symbol_size cfg))"

definition generation_encoder :: "bytes \<Rightarrow> bulk_config \<Rightarrow> nat \<Rightarrow> fountain_encoder" where
  "generation_encoder p cfg gi =
     \<lparr>fe_source = Shared (coded_buffer p cfg) (gi * (bc_gen_size cfg * bc_symbol_size cfg)) (bc_symbol_size cfg) (bc_gen_size cfg),
      fe_generation = word_of_nat gi,
      fe_rng = rng_new (ucast (word_of_nat gi :: u32) XOR 0xC0FFEE), fe_repair_index = 0\<rparr>"

definition bulk_ok :: "bytes \<Rightarrow> bulk_config \<Rightarrow> bool" where
  "bulk_ok p cfg \<longleftrightarrow>
     p \<noteq> [] \<and> 0 < bc_symbol_size cfg \<and> 0 < bc_gen_size cfg \<and> bc_gen_size cfg < 2 ^ 16 \<and>
     total_full_gens (length p) cfg \<le> 2 ^ 32 \<and>
     total_full_gens (length p) cfg * (bc_gen_size cfg * bc_symbol_size cfg) < 2 ^ 63"

lemma generation_encoder_new:
  assumes "bulk_ok p cfg" "gi < total_full_gens (length p) cfg"
  shows "encoder_new_shared (coded_buffer p cfg) (gi * (bc_gen_size cfg * bc_symbol_size cfg)) (bc_symbol_size cfg)
    (bc_gen_size cfg) (word_of_nat gi) = Ok (generation_encoder p cfg gi)"
proof -
  define F where "F = bc_gen_size cfg * bc_symbol_size cfg"
  define n where "n = total_full_gens (length p) cfg"
  have "Suc gi * F \<le> n * F" using assms(2) by (intro mult_le_mono1) (simp add: n_def)
  then have "gi * F + F \<le> n * F" "n * F < 2 ^ 63" using assms(1) by (simp_all add: bulk_ok_def F_def n_def)
  then show ?thesis using assms(1)
    by (simp add: encoder_new_shared_def generation_encoder_def coded_buffer_def padded_prefix(2)
        bulk_ok_def F_def [symmetric] n_def [symmetric])
qed

lemma bulk_encode_eq:
  assumes "bulk_ok p cfg"
  shows "bulk_encode cdf p cfg =
    Ok (concat (map (\<lambda>gi. map (\<lambda>w. (word_of_nat gi, w))
          (fst (produce cdf (bc_gen_size cfg + bc_repair cfg (bc_gen_size cfg)) (generation_encoder p cfg gi))))
        [0..<total_full_gens (length p) cfg]))"
proof -
  define n where "n = total_full_gens (length p) cfg"
  define count where "count = bc_gen_size cfg + bc_repair cfg (bc_gen_size cfg)"
  have "otraverse (encode_generation cdf (coded_buffer p cfg) cfg count) [0..<n] =
      Ok (map (\<lambda>gi. map (\<lambda>w. (word_of_nat gi, w)) (fst (produce cdf count (generation_encoder p cfg gi)))) [0..<n])"
    unfolding otraverse_Ok_iff
    using generation_encoder_new [OF assms]
    by (simp add: list_all2_conv_all_nth encode_generation_def n_def)
  then show ?thesis using assms
    by (simp add: bulk_encode_def bulk_ok_def Let_def n_def count_def coded_buffer_def)
qed

lemma bulk_encode_wires:
  assumes "bulk_ok p cfg" "bulk_encode cdf p cfg = Ok coded" "gi < total_full_gens (length p) cfg"
    and "(word_of_nat gi, w) \<in> set coded"
  shows "\<exists>count. w \<in> set (fst (produce cdf count (generation_encoder p cfg gi)))"
proof -
  define n where "n = total_full_gens (length p) cfg"
  have n: "n \<le> 2 ^ 32" using assms(1) by (simp add: bulk_ok_def n_def)
  obtain gj where gj: "gj < n" "(word_of_nat gi :: u32) = word_of_nat gj"
      "w \<in> set (fst (produce cdf (bc_gen_size cfg + bc_repair cfg (bc_gen_size cfg)) (generation_encoder p cfg gj)))"
    using assms(2,4) by (auto simp: bulk_encode_eq [OF assms(1)] n_def)
  have "gi = gj" using gj(1,2) assms(3) n by (simp add: n_def word_of_nat_eq_iff take_bit_nat_eq_self)
  then show ?thesis using gj(3) by blast
qed

lemma src_shared: "src (Shared buf off s k) = (\<lambda>i. take s (drop (off + i * s) buf))"
  by (rule ext) simp

lemma generation_region:
  assumes "bulk_ok p cfg" "gi < total_full_gens (length p) cfg"
  shows "fill_region (map (src (fe_source (generation_encoder p cfg gi))) [0..<bc_gen_size cfg]) 0
      (replicate (bc_gen_size cfg * bc_symbol_size cfg) 0) =
    take (bc_gen_size cfg * bc_symbol_size cfg) (drop (gi * (bc_gen_size cfg * bc_symbol_size cfg)) (coded_buffer p cfg))"
proof -
  define F where "F = bc_gen_size cfg * bc_symbol_size cfg"
  define syms where "syms = map (src (fe_source (generation_encoder p cfg gi))) [0..<bc_gen_size cfg]"
  have c: "concat syms = take F (drop (gi * F) (coded_buffer p cfg))"
    using chunks_concat [of "bc_symbol_size cfg" "gi * F" "coded_buffer p cfg" "bc_gen_size cfg"]
    by (simp add: syms_def generation_encoder_def F_def src_shared)
  have wf: "encoder_wf (generation_encoder p cfg gi)"
    using encoder_new_wf(2) [OF generation_encoder_new [OF assms]] by simp
  have ne: "\<forall>x \<in> set syms. x \<noteq> []"
  proof
    fix x assume "x \<in> set syms"
    then obtain i where "i < bc_gen_size cfg" "x = src (fe_source (generation_encoder p cfg gi)) i" by (auto simp: syms_def)
    then have "length x = bc_symbol_size cfg" using wf unfolding encoder_wf_def by (simp add: generation_encoder_def)
    then show "x \<noteq> []" using assms(1) by (auto simp: bulk_ok_def)
  qed
  have "Suc gi * F \<le> total_full_gens (length p) cfg * F" using assms(2) by (intro mult_le_mono1) simp
  then have "length (concat syms) = F" unfolding c by (simp add: coded_buffer_def padded_prefix(2) F_def [symmetric])
  then show ?thesis using fill_region_concat [of 0 syms "replicate F 0", OF _ ne]
    by (simp add: syms_def [symmetric] F_def [symmetric] c)
qed

lemma decode_generation_determined:
  assumes "bulk_ok p cfg" "bulk_encode cdf p cfg = Ok coded" "set received \<subseteq> set coded"
    and "gi < total_full_gens (length p) cfg"
    and "sources_determined (generation_encoder p cfg gi) (group_wires (word_of_nat gi) received)"
  shows "decode_generation cfg received (word_of_nat gi) =
    Ok (take (bc_gen_size cfg * bc_symbol_size cfg) (drop (gi * (bc_gen_size cfg * bc_symbol_size cfg)) (coded_buffer p cfg)))"
proof -
  define e where "e = generation_encoder p cfg gi"
  define ws where "ws = group_wires (word_of_nat gi) received"
  have k: "source_k (fe_source e) = bc_gen_size cfg" "source_symbol_size (fe_source e) = bc_symbol_size cfg"
    by (simp_all add: e_def generation_encoder_def)
  have wf: "encoder_wf e" using encoder_new_wf(2) [OF generation_encoder_new [OF assms(1,4)]] by (simp add: e_def)
  have "\<forall>w \<in> set ws. \<exists>count. w \<in> set (fst (produce cdf count e))"
    using bulk_encode_wires [OF assms(1,2,4)] assms(3) by (auto simp: ws_def group_wires_def e_def)
  then have "fst (decoder_decode (receive_all (bc_gen_size cfg) (bc_symbol_size cfg) ws)) =
      Ok (map (src (fe_source e)) [0..<bc_gen_size cfg])"
    using decode_received [OF wf, of ws cdf] assms(1) assms(5) [folded e_def ws_def] unfolding k
    by (simp add: bulk_ok_def)
  then show ?thesis using generation_region [OF assms(1,4)]
    by (simp add: decode_generation_def Let_def receive_all_def ws_def e_def)
qed

lemma undetermined_empty: "bulk_ok p cfg \<Longrightarrow> gi < total_full_gens (length p) cfg \<Longrightarrow> \<not> sources_determined (generation_encoder p cfg gi) []"
proof
  assume a: "bulk_ok p cfg" "gi < total_full_gens (length p) cfg" "sources_determined (generation_encoder p cfg gi) []"
  define e where "e = generation_encoder p cfg gi"
  have k: "source_k (fe_source e) = bc_gen_size cfg" "source_symbol_size (fe_source e) = bc_symbol_size cfg"
    by (simp_all add: e_def generation_encoder_def)
  have wf: "encoder_wf e" using encoder_new_wf(2) [OF generation_encoder_new [OF a(1,2)]] by (simp add: e_def)
  have "fst (decoder_decode (receive_all (bc_gen_size cfg) (bc_symbol_size cfg) [])) = Ok (map (src (fe_source e)) [0..<bc_gen_size cfg])"
    using decode_received [OF wf, of "[]"] a(1) a(3) [folded e_def] unfolding k by (simp add: bulk_ok_def)
  then show False using a(1) by (simp add: receive_all_def decoder_decode_def decoder_new_def bulk_ok_def)
qed

lemma group_ids_all:
  assumes "n \<le> 2 ^ 32" "fst ` set received = (word_of_nat :: nat \<Rightarrow> u32) ` {0..<n}"
  shows "group_ids received = map word_of_nat [0..<n]"
  unfolding group_ids_def
  using word_ids_sorted [OF assms(1)] assms(2)
  by (intro sorted_distinct_set_unique) simp_all

text \<open>C11: The cold-start payload survives loss, reordering and duplication: of the coded symbols
  of all generations any selection may arrive, in any interleaving; if for each generation the
  received symbols determine its sources, decoding returns exactly the payload.\<close>

theorem bulk_roundtrip:
  assumes "bulk_ok p cfg" "bulk_encode cdf p cfg = Ok coded" "set received \<subseteq> set coded"
    and "\<forall>gi < total_full_gens (length p) cfg.
      sources_determined (generation_encoder p cfg gi) (group_wires (word_of_nat gi) received)"
  shows "bulk_decode received cfg (length p) = Ok p"
proof -
  define F where "F = bc_gen_size cfg * bc_symbol_size cfg"
  define n where "n = total_full_gens (length p) cfg"
  have b: "0 < F" "n \<le> 2 ^ 32" "n * F < 2 ^ 63" "0 < n" "length p \<le> n * F"
    using assms(1) total_full_gens_bound [of cfg "length p"] by (simp_all add: bulk_ok_def F_def n_def)
  have "fst ` set received = word_of_nat ` {0..<n}"
  proof
    show "fst ` set received \<subseteq> word_of_nat ` {0..<n}"
    proof
      fix g assume "g \<in> fst ` set received"
      then obtain w where "(g, w) \<in> set coded" using assms(3) by auto
      then show "g \<in> word_of_nat ` {0..<n}"
        using assms(2) unfolding bulk_encode_eq [OF assms(1)] n_def [symmetric] by auto
    qed
    show "word_of_nat ` {0..<n} \<subseteq> fst ` set received"
    proof
      fix g :: u32 assume "g \<in> word_of_nat ` {0..<n}"
      then obtain gi where gi: "gi < n" "g = word_of_nat gi" by auto
      then have "group_wires (word_of_nat gi) received \<noteq> []"
        using assms(4) undetermined_empty [OF assms(1)] by (auto simp: n_def)
      then show "g \<in> fst ` set received" by (force simp: gi(2) group_wires_def filter_empty_conv)
    qed
  qed
  then have ids: "group_ids received = map word_of_nat [0..<n]" using b(2) by (intro group_ids_all)
  have "otraverse (decode_generation cfg received) (group_ids received) =
      Ok (map (\<lambda>gi. take F (drop (0 + gi * F) (coded_buffer p cfg))) [0..<n])"
    unfolding otraverse_Ok_iff ids
    using decode_generation_determined [OF assms(1-3)] assms(4)
    by (simp add: list_all2_conv_all_nth n_def F_def)
  moreover have "take (length p) (take (n * F) (coded_buffer p cfg)) = p"
    using padded_prefix [of p "n * F"] b(5) by (simp add: coded_buffer_def n_def F_def)
  ultimately show ?thesis using b ids
    by (simp add: bulk_decode_def Let_def F_def [symmetric] chunks_concat [of F 0, simplified])
qed

definition demo_bulk :: bulk_config where
  "demo_bulk = \<lparr>bc_gen_size = 1, bc_symbol_size = 2, bc_repair = (\<lambda>n. 0), bc_generations = 0\<rparr>"

text \<open>One source symbol with one repair symbol, of which only the repair symbol arrives.\<close>

definition lossy_bulk :: bulk_config where
  "lossy_bulk = \<lparr>bc_gen_size = 1, bc_symbol_size = 2, bc_repair = (\<lambda>n. 1), bc_generations = 0\<rparr>"

lemma lossy_bulk_ok: "bulk_ok [7, 9] lossy_bulk" "total_full_gens (length [7, 9 :: u8]) lossy_bulk = 1"
    "coded_buffer [7, 9] lossy_bulk = [7, 9]"
  by code_simp+

abbreviation lossy_encoder :: fountain_encoder where
  "lossy_encoder \<equiv> generation_encoder [7, 9] lossy_bulk 0"

lemma lossy_draws:
  "rng_new 1 = 1466196021586485767"
  "next_u64 1466196021586485767 = (9901982272929037034, 12866910840909684252)"
  "next_u64 12866910840909684252 = (8865105133020418927, 5820881586523331121)"
  "next_u64 5820881586523331121 = (15394168015414070559, 17221596405846529606)"
  by (simp_all add: rng_new_def next_u64_def mix64_def)

lemma lossy_repair: "fst (repair_symbol (\<lambda>k r. 0) lossy_encoder) = encode_symbol_wire [(0, 31)] [93, 231]"
proof -
  have "choose_indices (Suc n) 1 1 [] 12866910840909684252 = ([0], 5820881586523331121)" for n
    by (cases n) (simp_all add: next_below_def lossy_draws)
  then have "choose_indices 10 1 1 [] 12866910840909684252 = ([0], 5820881586523331121)"
    by (metis numeral_eq_Suc)
  moreover have "draw_coeffs (Suc 0) 5820881586523331121 = ([31], 17221596405846529606)"
    by (simp add: lossy_draws)
  moreover have "axpy [0, 0] 31 [7, 9] = [93, 231]" by code_simp
  moreover have "replicate 2 (0 :: u8) = [0, 0]" by (simp add: numeral_2_eq_2)
  ultimately show ?thesis
    by (simp add: generation_encoder_def repair_symbol_def soliton_degree_def lossy_draws lossy_bulk_ok(3)
        del: draw_coeffs.simps) (simp add: lossy_bulk_def soliton_degree_def lossy_draws del: draw_coeffs.simps)
qed

lemma lossy_determined: "sources_determined lossy_encoder [encode_symbol_wire [(0, 31)] [93, 231]]"
  unfolding sources_determined_def Let_def
proof (intro allI impI, elim conjE)
  let ?k = "source_k (fe_source lossy_encoder)" and ?s = "source_symbol_size (fe_source lossy_encoder)"
  have ks: "?k = 1" "?s = 2" by (simp_all add: generation_encoder_def lossy_bulk_def)
  have src: "src (fe_source lossy_encoder) 0 = [7, 9]" by (simp add: generation_encoder_def lossy_bulk_ok(3)) (simp add: lossy_bulk_def)
  fix X t assume a: "assignment ?k ?s X" and t: "t < ?k"
    and h: "\<forall>w \<in> set [encode_symbol_wire [(0, 31)] [93, 231]]. wire_holds ?k ?s X w"
  have len: "length (X 0) = 2" using a by (simp add: assignment_def ks)
  have "wire_sym ?k ?s [(0, 31)] [93, 231]" by (simp add: wire_sym_def sym_wf_def ks)
  then have "sym_holds 2 X \<lparr>cover = [(0, 31)], ps_payload = [93, 231]\<rparr>" using h ks(2) by (simp add: wire_holds_def)
  then have "gf_mul 31 (X 0 ! 0) = 93 \<and> gf_mul 31 (X 0 ! 1) = 231"
    by (auto simp: sym_holds_def less_2_cases_iff all_conj_distrib)
  moreover have "gf_mul 31 7 = 93" "gf_mul 31 9 = 231" by code_simp+
  ultimately have "gf_mul 31 (X 0 ! 0) = gf_mul 31 7" "gf_mul 31 (X 0 ! 1) = gf_mul 31 9" by simp_all
  moreover have "gf_mul (gf_inv 31) (gf_mul 31 x) = x" for x by (rule gf.mul_cancel) simp
  ultimately have "X 0 ! 0 = 7" "X 0 ! 1 = 9" by metis+
  then have "X 0 = [7, 9]" using len by (intro nth_equalityI) (auto simp: less_2_cases_iff)
  then show "X t = src (fe_source lossy_encoder) t" using t ks(1) src by simp
qed

theorem bulk_roundtrip_witness:
  "bulk_decode [(0, encode_symbol_wire [(0, 31)] [93, 231])] lossy_bulk (length [7, 9 :: u8]) = Ok [7, 9]"
proof (rule bulk_roundtrip [OF lossy_bulk_ok(1) bulk_encode_eq [OF lossy_bulk_ok(1)]])
  let ?w = "encode_symbol_wire [(0, 31)] [93, 231 :: u8]"
  have "?w \<in> set (fst (produce (\<lambda>k r. 0) 2 lossy_encoder))"
  proof -
    have "source_k (fe_source lossy_encoder) = 1" by (simp add: generation_encoder_def lossy_bulk_def)
    then show ?thesis by (simp add: produce_def numeral_2_eq_2 split_beta lossy_repair)
  qed
  moreover have "bc_gen_size lossy_bulk + bc_repair lossy_bulk (bc_gen_size lossy_bulk) = 2" by (simp add: lossy_bulk_def)
  ultimately show "set [(0, ?w)] \<subseteq> set (concat (map (\<lambda>gi. map (\<lambda>w. (word_of_nat gi, w))
      (fst (produce (\<lambda>k r. 0) (bc_gen_size lossy_bulk + bc_repair lossy_bulk (bc_gen_size lossy_bulk)) (generation_encoder [7, 9] lossy_bulk gi))))
      [0..<total_full_gens (length [7, 9 :: u8]) lossy_bulk]))"
    unfolding lossy_bulk_ok(2) by simp
  show "\<forall>gi < total_full_gens (length [7, 9 :: u8]) lossy_bulk.
      sources_determined (generation_encoder [7, 9] lossy_bulk gi) (group_wires (word_of_nat gi) [(0, ?w)])"
    unfolding lossy_bulk_ok(2) using lossy_determined by (simp add: group_wires_def)
qed

text \<open>A generation of which nothing arrived is not noticed: decoding succeeds with the other
  generations moved up, here the second half of the payload in place of the first.\<close>

theorem bulk_missing_generation:
  "bulk_encode (\<lambda>k r. 0) [1, 2, 3, 4] demo_bulk = Ok [(0, [1, 0, 0, 0, 1, 1, 2]), (1, [1, 0, 0, 0, 1, 3, 4])] \<and>
   bulk_decode [(1, [1, 0, 0, 0, 1, 3, 4])] demo_bulk 4 = Ok [3, 4]"
  by code_simp

end
