(* ===== verification/Shim.thy ===== *)
theory Shim
  imports Frames Store Cuckoo Compress Bulk
begin

text \<open>
  The client side (\<open>crates/shim/src/lib.rs\<close>): a session's log of block ids with the root the
  receiver last acknowledged, turns turned into APPEND frames, acknowledgements, the RESYNC
  manifest and the fountain-coded BULK frames of a cold start, and the coordinator of many
  sessions.  The content store and the cuckoo filter are shared between the sessions of a host,
  so they are state beside the session.  Calls of the compressor are the stateless functions
  \<open>compress_pure\<close>, which the cached ones compute (\<open>Compress.context_caches_transparent\<close>).
\<close>

section \<open>Code outside the repository\<close>

text \<open>
  BLAKE3, xxh3, zstd, the soliton distribution's index for a draw, and the repair count
  \<open>ceil(gen_size * pct / 100)\<close>.
\<close>

record externals =
  x_hash :: hash
  x_xxh :: xxh
  x_zstd :: zstd
  x_cdf :: cdf
  x_repair :: "u32 \<Rightarrow> nat \<Rightarrow> nat"

section \<open>State\<close>

datatype shim_error = Coding bulk_error | ShimCompress compress_error | ColdStartRequired u128

record host =
  h_store :: store
  h_filter :: cuckoo

record session_shim =
  ss_session_id :: u128
  ss_ids :: "block_id list"
  ss_root :: merkle_root
  ss_base_root :: merkle_root
  ss_base_len :: nat
  ss_compressor :: compressor
  ss_append_compressor :: compressor
  ss_fountain_k :: u32
  ss_fountain_symbol_size :: u32

definition APPEND_LEVEL :: int where "APPEND_LEVEL = 3"

definition session_with_filter :: "u128 \<Rightarrow> compressor \<Rightarrow> session_shim" where
  "session_with_filter sid c =
     \<lparr>ss_session_id = sid, ss_ids = [], ss_root = ROOT_ZERO, ss_base_root = ROOT_ZERO, ss_base_len = 0,
      ss_compressor = c, ss_append_compressor = with_level APPEND_LEVEL c,
      ss_fountain_k = 64, ss_fountain_symbol_size = 1024\<rparr>"

definition session_shim_new :: "u128 \<Rightarrow> store \<Rightarrow> compressor \<Rightarrow> session_shim \<times> host" where
  "session_shim_new sid st c =
     (session_with_filter sid c, \<lparr>h_store = st, h_filter = with_capacity (2 ^ 20)\<rparr>)"

section \<open>Turns\<close>

definition ingest_block ::
    "externals \<Rightarrow> block \<Rightarrow> session_shim \<times> host \<Rightarrow> frame_block \<times> session_shim \<times> host" where
  "ingest_block X b sh =
     (let (s, h) = sh;
          (c, i) = canonical_bytes_and_id (x_hash X) b;
          s1 = s\<lparr>ss_ids := ss_ids s @ [i], ss_root := append_root (x_hash X) (ss_root s) i\<rparr>;
          known = (if filter_contains (x_xxh X) i (h_filter h) then store_contains (h_store h) i else False)
      in if known
         then (Ref i, s1, h\<lparr>h_store := snd (reference (x_hash X) (ss_session_id s) i (h_store h))\<rparr>)
         else
           let z = (case compress_pure (x_zstd X) (ss_append_compressor s) c of Ok y \<Rightarrow> y | _ \<Rightarrow> c);
               st = snd (insert_with_canonical (x_hash X) (ss_session_id s) b i (Some c) (h_store h));
               f = snd (filter_insert (x_xxh X) i (h_filter h))
           in (Inline \<lparr>kind = kind b, seq = seq b, payload = z\<rparr>, s1, h\<lparr>h_store := st, h_filter := f\<rparr>))"

fun ingest_blocks ::
    "externals \<Rightarrow> block list \<Rightarrow> session_shim \<times> host \<Rightarrow> frame_block list \<times> session_shim \<times> host" where
  "ingest_blocks X [] sh = ([], sh)"
| "ingest_blocks X (b # bs) sh =
     (case ingest_block X b sh of (fb, sh1) \<Rightarrow>
       (case ingest_blocks X bs sh1 of (fbs, sh2) \<Rightarrow> (fb # fbs, sh2)))"

definition ingest_turn ::
    "externals \<Rightarrow> block list \<Rightarrow> session_shim \<times> host \<Rightarrow> append_frame \<times> session_shim \<times> host" where
  "ingest_turn X blocks sh =
     (case ingest_blocks X blocks sh of (fbs, s, h) \<Rightarrow>
       (\<lparr>af_session_id = ss_session_id s, af_base_root = ss_base_root s, af_blocks = fbs\<rparr>, s, h))"

definition ingest_coalesced ::
    "externals \<Rightarrow> block list list \<Rightarrow> session_shim \<times> host \<Rightarrow> append_frame \<times> session_shim \<times> host" where
  "ingest_coalesced X turns sh = ingest_turn X (concat turns) sh"

section \<open>Acknowledgements\<close>

fun ack_scan :: "hash \<Rightarrow> merkle_root \<Rightarrow> nat \<Rightarrow> block_id list \<Rightarrow> merkle_root \<Rightarrow> nat option" where
  "ack_scan H r i [] acked = None"
| "ack_scan H r i (d # ds) acked =
     (let r' = append_root H r d in if r' = acked then Some (i + 1) else ack_scan H r' (i + 1) ds acked)"

definition apply_ack :: "hash \<Rightarrow> merkle_root \<Rightarrow> session_shim \<Rightarrow> bool \<times> session_shim" where
  "apply_ack H acked s =
     (if acked = ss_root s then (True, s\<lparr>ss_base_root := acked, ss_base_len := length (ss_ids s)\<rparr>)
      else if acked = ss_base_root s then (True, s)
      else case ack_scan H ROOT_ZERO 0 (ss_ids s) acked of
        Some n \<Rightarrow> (True, s\<lparr>ss_base_root := acked, ss_base_len := n\<rparr>)
      | None \<Rightarrow> (False, s))"

section \<open>Cold start\<close>

definition session_resync_frame :: "session_shim \<Rightarrow> resync_frame" where
  "session_resync_frame s = \<lparr>rf_session_id = ss_session_id s, rf_client_root = ss_root s, rf_manifest = ss_ids s\<rparr>"

definition bulk_record :: "externals \<Rightarrow> compressor \<Rightarrow> block \<Rightarrow> (bytes, shim_error) outcome" where
  "bulk_record X c b =
     obind (omap_err ShimCompress (compress_pure (x_zstd X) c (canonical_bytes b)))
       (\<lambda>z. Ok (le32 (word_of_nat (length z)) @ z))"

fun bulk_records ::
    "externals \<Rightarrow> compressor \<Rightarrow> store \<Rightarrow> block_id list \<Rightarrow> (bytes list, shim_error) outcome" where
  "bulk_records X c st [] = Ok []"
| "bulk_records X c st (i # is) =
     (case store_get st i of
        None \<Rightarrow> bulk_records X c st is
      | Some b \<Rightarrow> obind (bulk_record X c b) (\<lambda>r. obind (bulk_records X c st is) (\<lambda>rs. Ok (r # rs))))"

fun pack_records :: "nat \<Rightarrow> bytes list \<Rightarrow> bytes \<Rightarrow> bytes list" where
  "pack_records full [] cur = (if cur \<noteq> [] then [cur] else [])"
| "pack_records full (rec # recs) cur =
     (if cur \<noteq> [] \<and> length cur + length rec > full
      then cur # pack_records full recs rec
      else pack_records full recs (cur @ rec))"

definition encode_chunk ::
    "externals \<Rightarrow> u32 \<Rightarrow> session_shim \<Rightarrow> nat \<times> bytes \<Rightarrow> (bulk_frame, shim_error) outcome" where
  "encode_chunk X pct s gc =
     (let (gen, chunk) = gc;
          sz = unat (ss_fountain_symbol_size s);
          gen_size = max (div_ceil (length chunk) sz) 1;
          cfg = \<lparr>bc_gen_size = gen_size, bc_symbol_size = sz, bc_repair = x_repair X pct, bc_generations = 0\<rparr>
      in if sz = 0 then Panic
         else obind (omap_err Coding (bulk_encode (x_cdf X) chunk cfg)) (\<lambda>coded.
                Ok \<lparr>bf_session_id = ss_session_id s, bf_generation = word_of_nat gen,
                    bf_k = word_of_nat gen_size, bf_symbol_size = word_of_nat sz, bf_symbols = map snd coded\<rparr>))"

definition bulk_frames_for ::
    "externals \<Rightarrow> block_id list \<Rightarrow> u32 \<Rightarrow> session_shim \<Rightarrow> store \<Rightarrow> (bulk_frame list, shim_error) outcome" where
  "bulk_frames_for X missing pct s st =
     (if missing = [] then Ok []
      else obind (bulk_records X (ss_compressor s) st missing) (\<lambda>records.
             let full = unat (ss_fountain_k s) * unat (ss_fountain_symbol_size s);
                 chunks = pack_records full records []
             in otraverse (encode_chunk X pct s) (zip [0..<length chunks] chunks)))"

definition bulk_frames ::
    "externals \<Rightarrow> u32 \<Rightarrow> session_shim \<Rightarrow> store \<Rightarrow> (bulk_frame list, shim_error) outcome" where
  "bulk_frames X pct s st =
     obind (slice_of (ss_ids s) (ss_base_len s) (length (ss_ids s)))
       (\<lambda>missing. bulk_frames_for X missing pct s st)"

section \<open>The coordinator\<close>

record shim =
  sm_host :: host
  sm_compressor :: compressor
  sm_sessions :: "u128 \<rightharpoonup> session_shim"

definition shim_with_filter :: "store \<Rightarrow> compressor \<Rightarrow> cuckoo \<Rightarrow> shim" where
  "shim_with_filter st c f = \<lparr>sm_host = \<lparr>h_store = st, h_filter = f\<rparr>, sm_compressor = c, sm_sessions = Map.empty\<rparr>"

definition shim_new :: "store \<Rightarrow> compressor \<Rightarrow> shim" where
  "shim_new st c = shim_with_filter st c (with_capacity (2 ^ 20))"

definition session_entry :: "u128 \<Rightarrow> shim \<Rightarrow> session_shim" where
  "session_entry sid m =
     (case sm_sessions m sid of Some s \<Rightarrow> s | None \<Rightarrow> session_with_filter sid (sm_compressor m))"

text \<open>\<open>Shim::session\<close> creates the session when it is new and hands out a copy of it.\<close>

definition shim_session :: "u128 \<Rightarrow> shim \<Rightarrow> session_shim \<times> shim" where
  "shim_session sid m =
     (let s = session_entry sid m in (s, m\<lparr>sm_sessions := (sm_sessions m)(sid \<mapsto> s)\<rparr>))"

definition shim_ingest :: "externals \<Rightarrow> u128 \<Rightarrow> block list \<Rightarrow> shim \<Rightarrow> append_frame \<times> shim" where
  "shim_ingest X sid blocks m =
     (case ingest_turn X blocks (session_entry sid m, sm_host m) of (fr, s, h) \<Rightarrow>
        (fr, m\<lparr>sm_sessions := (sm_sessions m)(sid \<mapsto> s), sm_host := h\<rparr>))"

definition shim_ingest_batch :: "externals \<Rightarrow> u128 \<Rightarrow> block list list \<Rightarrow> shim \<Rightarrow> append_frame \<times> shim" where
  "shim_ingest_batch X sid turns m =
     (case ingest_coalesced X turns (session_entry sid m, sm_host m) of (fr, s, h) \<Rightarrow>
        (fr, m\<lparr>sm_sessions := (sm_sessions m)(sid \<mapsto> s), sm_host := h\<rparr>))"

definition shim_apply_ack :: "hash \<Rightarrow> u128 \<Rightarrow> merkle_root \<Rightarrow> shim \<Rightarrow> bool \<times> shim" where
  "shim_apply_ack H sid root m =
     (case sm_sessions m sid of
        None \<Rightarrow> (False, m)
      | Some s \<Rightarrow> (case apply_ack H root s of (r, s') \<Rightarrow> (r, m\<lparr>sm_sessions := (sm_sessions m)(sid \<mapsto> s')\<rparr>)))"

section \<open>The session invariant\<close>

text \<open>
  The client's running root and acknowledged base are roots of prefixes of its log, and the
  store's log of the session is the client's.
\<close>

definition session_ok :: "hash \<Rightarrow> core \<Rightarrow> session_shim \<Rightarrow> bool" where
  "session_ok H c s \<longleftrightarrow>
     ss_root s = root_over H ROOT_ZERO (ss_ids s) \<and>
     ss_base_len s \<le> length (ss_ids s) \<and>
     ss_base_root s = root_over H ROOT_ZERO (take (ss_base_len s) (ss_ids s)) \<and>
     c_ids c (ss_session_id s) = ss_ids s \<and> c_root c (ss_session_id s) = ss_root s \<and>
     (\<forall>i \<in> set (ss_ids s). fst c i \<noteq> None)"

text \<open>The abstract effect of a turn on the contents and logs.\<close>

definition c_ingest :: "hash \<Rightarrow> u128 \<Rightarrow> block list \<Rightarrow> core \<Rightarrow> core" where
  "c_ingest H sid bs c = fold (\<lambda>b c. c_push H sid (block_id H b) (c_put b (block_id H b) c)) bs c"

definition log_blocks :: "hash \<Rightarrow> block list \<Rightarrow> session_shim \<Rightarrow> session_shim" where
  "log_blocks H bs s =
     s\<lparr>ss_ids := ss_ids s @ map (block_id H) bs, ss_root := root_over H (ss_root s) (map (block_id H) bs)\<rparr>"

definition wire_payload :: "externals \<Rightarrow> session_shim \<Rightarrow> block \<Rightarrow> bytes" where
  "wire_payload X s b =
     (case compress_pure (x_zstd X) (ss_append_compressor s) (canonical_bytes b) of Ok y \<Rightarrow> y | _ \<Rightarrow> canonical_bytes b)"

definition sent_block :: "externals \<Rightarrow> session_shim \<Rightarrow> core \<Rightarrow> block \<Rightarrow> frame_block \<Rightarrow> bool" where
  "sent_block X s c b fb \<longleftrightarrow>
     fb = Ref (block_id (x_hash X) b) \<and> fst c (block_id (x_hash X) b) \<noteq> None \<or>
     fb = Inline \<lparr>kind = kind b, seq = seq b, payload = wire_payload X s b\<rparr>"

lemma ingest_block_facts:
  assumes "ingest_block X b (s, h) = (fb, s', h')"
  shows "s' = log_blocks (x_hash X) [b] s"
    and "core (h_store h') = c_ingest (x_hash X) (ss_session_id s) [b] (core (h_store h))"
    and "sent_block X s (core (h_store h)) b fb"
proof -
  define i where "i = block_id (x_hash X) b"
  define known where "known = (filter_contains (x_xxh X) i (h_filter h) \<and> store_contains (h_store h) i)"
  have k: "known \<Longrightarrow> fst (core (h_store h)) i \<noteq> None" by (simp add: known_def core_queries)
  then have kp: "known \<Longrightarrow> c_put b i (core (h_store h)) = core (h_store h)" by (auto simp: c_put_def)
  define s1 where "s1 = s\<lparr>ss_ids := ss_ids s @ [i], ss_root := append_root (x_hash X) (ss_root s) i\<rparr>"
  have "(fb, s', h') =
    (if known then (Ref i, s1, h\<lparr>h_store := snd (reference (x_hash X) (ss_session_id s) i (h_store h))\<rparr>)
     else (Inline \<lparr>kind = kind b, seq = seq b, payload = wire_payload X s b\<rparr>, s1,
       h\<lparr>h_store := snd (insert_with_canonical (x_hash X) (ss_session_id s) b i (Some (canonical_bytes b)) (h_store h)),
         h_filter := snd (filter_insert (x_xxh X) i (h_filter h))\<rparr>))"
    using assms unfolding ingest_block_def Let_def canonical_bytes_and_id_eq prod.case i_def [symmetric] known_def wire_payload_def s1_def
    by (auto split: if_splits)
  then show "s' = log_blocks (x_hash X) [b] s"
    "core (h_store h') = c_ingest (x_hash X) (ss_session_id s) [b] (core (h_store h))"
    "sent_block X s (core (h_store h)) b fb"
    using k kp
    by (auto simp: log_blocks_def root_over_def c_ingest_def core_simps sent_block_def s1_def i_def [symmetric] split: if_splits)
qed

lemma log_blocks_fields [simp]:
  "ss_session_id (log_blocks H bs s) = ss_session_id s" "ss_base_root (log_blocks H bs s) = ss_base_root s"
  "ss_append_compressor (log_blocks H bs s) = ss_append_compressor s"
  "ss_ids (log_blocks H bs s) = ss_ids s @ map (block_id H) bs"
  "ss_root (log_blocks H bs s) = root_over H (ss_root s) (map (block_id H) bs)"
  "ss_base_len (log_blocks H bs s) = ss_base_len s" "ss_compressor (log_blocks H bs s) = ss_compressor s"
  by (simp_all add: log_blocks_def)

lemma log_blocks_append: "log_blocks H bs' (log_blocks H bs s) = log_blocks H (bs @ bs') s"
  by (simp add: log_blocks_def root_over_def)

lemma c_ingest_append: "c_ingest H sid (bs @ bs') c = c_ingest H sid bs' (c_ingest H sid bs c)"
  by (simp add: c_ingest_def)

text \<open>The frame entries of a turn, each against the contents at its turn in the loop.\<close>

fun sent_blocks :: "externals \<Rightarrow> session_shim \<Rightarrow> core \<Rightarrow> block list \<Rightarrow> frame_block list \<Rightarrow> bool" where
  "sent_blocks X s c [] [] \<longleftrightarrow> True"
| "sent_blocks X s c (b # bs) (fb # fbs) \<longleftrightarrow>
     sent_block X s c b fb \<and> sent_blocks X s (c_ingest (x_hash X) (ss_session_id s) [b] c) bs fbs"
| "sent_blocks X s c _ _ \<longleftrightarrow> False"

lemma sent_block_cong: "sent_block X (log_blocks H bs s) c b fb = sent_block X s c b fb"
  by (simp add: sent_block_def wire_payload_def)

lemma sent_blocks_cong: "sent_blocks X (log_blocks H bs' s) c bs fbs = sent_blocks X s c bs fbs"
  by (induction X s c bs fbs rule: sent_blocks.induct) (simp_all add: sent_block_cong)

lemma ingest_blocks_facts:
  assumes "ingest_blocks X bs (s, h) = (fbs, s', h')"
  shows "s' = log_blocks (x_hash X) bs s \<and>
    core (h_store h') = c_ingest (x_hash X) (ss_session_id s) bs (core (h_store h)) \<and>
    sent_blocks X s (core (h_store h)) bs fbs"
  using assms
proof (induction bs arbitrary: s h fbs s' h')
  case Nil
  then show ?case by (simp add: log_blocks_def root_over_def c_ingest_def)
next
  case (Cons b bs)
  obtain fb s1 h1 where b: "ingest_block X b (s, h) = (fb, s1, h1)" by (metis prod_cases3)
  obtain fbs' s2 h2 where bs: "ingest_blocks X bs (s1, h1) = (fbs', s2, h2)" by (metis prod_cases3)
  have e: "fbs = fb # fbs'" "s' = s2" "h' = h2" using Cons.prems b bs by simp_all
  note f = ingest_block_facts [OF b]
  note g = Cons.IH [OF bs]
  show ?case
    using g log_blocks_append [of "x_hash X" bs "[b]" s] c_ingest_append [of "x_hash X" "ss_session_id s" "[b]" bs]
    by (simp add: e f sent_blocks_cong)
qed

lemma c_ingest_queries:
  "c_ids (c_ingest H sid bs c) sid' = (if sid' = sid then c_ids c sid @ map (block_id H) bs else c_ids c sid')"
  "c_root (c_ingest H sid bs c) sid' = (if sid' = sid then root_over H (c_root c sid) (map (block_id H) bs) else c_root c sid')"
  by (induction bs arbitrary: c) (simp_all add: c_ingest_def root_over_def)

lemma c_ingest_Cons: "c_ingest H sid (b # bs) c = c_ingest H sid bs (c_push H sid (block_id H b) (c_put b (block_id H b) c))"
  by (simp add: c_ingest_def)

lemma c_ingest_keeps: "fst c j = Some b \<Longrightarrow> fst (c_ingest H sid bs c) j = Some b"
proof (induction bs arbitrary: c)
  case (Cons a bs)
  have "fst (c_push H sid (block_id H a) (c_put a (block_id H a) c)) j = Some b"
    using Cons.prems by (auto simp: fst_c_put)
  then show ?case using Cons.IH by (simp only: c_ingest_Cons)
qed (simp add: c_ingest_def)

lemma c_ingest_adds: "b \<in> set bs \<Longrightarrow> fst (c_ingest H sid bs c) (block_id H b) \<noteq> None"
proof (induction bs arbitrary: c)
  case (Cons a bs)
  define c1 where "c1 = c_push H sid (block_id H a) (c_put a (block_id H a) c)"
  have "fst c1 (block_id H a) \<noteq> None" by (simp add: c1_def)
  then obtain y where "fst c1 (block_id H a) = Some y" by blast
  then have a: "fst (c_ingest H sid bs c1) (block_id H a) \<noteq> None" using c_ingest_keeps [of c1 "block_id H a" y] by simp
  show ?case unfolding c_ingest_Cons c1_def [symmetric]
    using a Cons.IH [of c1] Cons.prems by (cases "b = a") simp_all
qed simp

lemma ingest_turn_facts:
  assumes "ingest_turn X bs (s, h) = (fr, s', h')"
  shows "s' = log_blocks (x_hash X) bs s"
    "core (h_store h') = c_ingest (x_hash X) (ss_session_id s) bs (core (h_store h))"
    "sent_blocks X s (core (h_store h)) bs (af_blocks fr)"
    "af_session_id fr = ss_session_id s" "af_base_root fr = ss_base_root s"
proof -
  obtain fbs s2 h2 where b: "ingest_blocks X bs (s, h) = (fbs, s2, h2)" by (metis prod_cases3)
  then have e: "fr = \<lparr>af_session_id = ss_session_id s2, af_base_root = ss_base_root s2, af_blocks = fbs\<rparr>" "s' = s2" "h' = h2"
    using assms by (auto simp: ingest_turn_def)
  show "s' = log_blocks (x_hash X) bs s"
    "core (h_store h') = c_ingest (x_hash X) (ss_session_id s) bs (core (h_store h))"
    "sent_blocks X s (core (h_store h)) bs (af_blocks fr)"
    "af_session_id fr = ss_session_id s" "af_base_root fr = ss_base_root s"
    using ingest_blocks_facts [OF b] by (simp_all add: e)
qed

lemma ingest_turn_ok:
  assumes "session_ok (x_hash X) (core (h_store h)) s" "ingest_turn X bs (s, h) = (fr, s', h')"
  shows "session_ok (x_hash X) (core (h_store h')) s'"
proof -
  have "fst (core (h_store h')) i \<noteq> None" if "i \<in> set (ss_ids s) \<union> block_id (x_hash X) ` set bs" for i
    using that assms(1) c_ingest_keeps c_ingest_adds
    unfolding ingest_turn_facts(2) [OF assms(2)] session_ok_def by blast
  then show ?thesis using assms(1)
    by (auto simp: session_ok_def ingest_turn_facts(1,2) [OF assms(2)] c_ingest_queries root_over_def)
qed

section \<open>Acknowledgements\<close>

lemma ack_scan_spec:
  "ack_scan H r i ids acked = Some n \<longleftrightarrow>
     (\<exists>m. 0 < m \<and> m \<le> length ids \<and> n = i + m \<and> root_over H r (take m ids) = acked \<and>
       (\<forall>k. 0 < k \<and> k < m \<longrightarrow> root_over H r (take k ids) \<noteq> acked))"
proof (induction ids arbitrary: r i)
  case (Cons d ids)
  have sh: "root_over H r (take (Suc k) (d # ids)) = root_over H (append_root H r d) (take k ids)" for k
    by (simp add: root_over_def)
  show ?case
  proof (cases "append_root H r d = acked")
    case True
    show ?thesis
    proof
      assume "ack_scan H r i (d # ids) acked = Some n"
      then have "n = i + 1" using True by simp
      then show "\<exists>m. 0 < m \<and> m \<le> length (d # ids) \<and> n = i + m \<and> root_over H r (take m (d # ids)) = acked \<and>
          (\<forall>k. 0 < k \<and> k < m \<longrightarrow> root_over H r (take k (d # ids)) \<noteq> acked)"
        using True by (intro exI [of _ 1]) (auto simp: root_over_def)
    next
      assume "\<exists>m. 0 < m \<and> m \<le> length (d # ids) \<and> n = i + m \<and> root_over H r (take m (d # ids)) = acked \<and>
          (\<forall>k. 0 < k \<and> k < m \<longrightarrow> root_over H r (take k (d # ids)) \<noteq> acked)"
      then obtain m where m: "0 < m" "n = i + m" "\<forall>k. 0 < k \<and> k < m \<longrightarrow> root_over H r (take k (d # ids)) \<noteq> acked"
        by blast
      have "\<not> 1 < m" using m(3) [rule_format, of 1] True by (auto simp: root_over_def)
      then have "m = 1" using m(1) by simp
      then show "ack_scan H r i (d # ids) acked = Some n" using True m(2) by simp
    qed
  next
    case False
    have "ack_scan H r i (d # ids) acked = Some n \<longleftrightarrow>
        (\<exists>m. 0 < m \<and> m \<le> length ids \<and> n = Suc i + m \<and> root_over H r (take (Suc m) (d # ids)) = acked \<and>
          (\<forall>k. 0 < k \<and> k < m \<longrightarrow> root_over H r (take (Suc k) (d # ids)) \<noteq> acked))"
      using False Cons.IH [of "append_root H r d" "Suc i"] by (simp add: sh)
    also have "\<dots> \<longleftrightarrow> (\<exists>m. 0 < m \<and> m \<le> length (d # ids) \<and> n = i + m \<and> root_over H r (take m (d # ids)) = acked \<and>
          (\<forall>k. 0 < k \<and> k < m \<longrightarrow> root_over H r (take k (d # ids)) \<noteq> acked))" (is "?L \<longleftrightarrow> ?R")
    proof
      assume ?L
      then obtain m where m: "0 < m" "m \<le> length ids" "n = Suc i + m" "root_over H r (take (Suc m) (d # ids)) = acked"
        "\<forall>k. 0 < k \<and> k < m \<longrightarrow> root_over H r (take (Suc k) (d # ids)) \<noteq> acked" by blast
      have "root_over H r (take k (d # ids)) \<noteq> acked" if "0 < k" "k < Suc m" for k
        using that m(5) False by (cases k; cases "k = 1") (auto simp: root_over_def)
      then show ?R using m(2-4) by (intro exI [of _ "Suc m"]) auto
    next
      assume ?R
      then obtain m where m: "0 < m" "m \<le> length (d # ids)" "n = i + m" "root_over H r (take m (d # ids)) = acked"
        "\<forall>k. 0 < k \<and> k < m \<longrightarrow> root_over H r (take k (d # ids)) \<noteq> acked" by blast
      have "m \<noteq> 1" using m(4) False by (auto simp: root_over_def)
      then obtain m' where "m = Suc m'" "0 < m'" using m(1) by (cases m) auto
      then show ?L using m(2-5) by (intro exI [of _ m']) auto
    qed
    finally show ?thesis .
  qed
qed auto

lemma apply_ack_ok:
  assumes "session_ok H c s" "apply_ack H acked s = (r, s')"
  shows "session_ok H c s'" "ss_session_id s' = ss_session_id s" "ss_ids s' = ss_ids s"
proof -
  have n: "n \<le> length (ss_ids s) \<and> root_over H ROOT_ZERO (take n (ss_ids s)) = acked"
    if "ack_scan H ROOT_ZERO 0 (ss_ids s) acked = Some n" for n
    using that by (auto simp: ack_scan_spec)
  show "session_ok H c s'"
    using assms(2) assms(1) n by (auto simp: apply_ack_def session_ok_def split: if_splits option.splits)
  show "ss_session_id s' = ss_session_id s" "ss_ids s' = ss_ids s"
    using assms(2) by (auto simp: apply_ack_def split: if_splits option.splits)
qed

text \<open>An acknowledgement is accepted exactly when its root is the root of a nonempty prefix of
  the client's log (or is already the base); the base then is a prefix with that root.\<close>

theorem apply_ack_prefix:
  assumes "session_ok H c s" "apply_ack H acked s = (r, s')"
  shows "(r \<longleftrightarrow> acked = ss_base_root s \<or> acked = ss_root s \<or>
      (\<exists>n. 0 < n \<and> n \<le> length (ss_ids s) \<and> acked = root_over H ROOT_ZERO (take n (ss_ids s)))) \<and>
    (if r then ss_base_root s' = acked \<and> acked = root_over H ROOT_ZERO (take (ss_base_len s') (ss_ids s')) else s' = s)"
proof -
  have "ack_scan H ROOT_ZERO 0 (ss_ids s) acked \<noteq> None \<longleftrightarrow>
      (\<exists>n. 0 < n \<and> n \<le> length (ss_ids s) \<and> acked = root_over H ROOT_ZERO (take n (ss_ids s)))"
  proof
    assume "ack_scan H ROOT_ZERO 0 (ss_ids s) acked \<noteq> None"
    then show "\<exists>n. 0 < n \<and> n \<le> length (ss_ids s) \<and> acked = root_over H ROOT_ZERO (take n (ss_ids s))"
      by (auto simp: ack_scan_spec)
  next
    assume a: "\<exists>n. 0 < n \<and> n \<le> length (ss_ids s) \<and> acked = root_over H ROOT_ZERO (take n (ss_ids s))"
    define m where "m = (LEAST n. 0 < n \<and> n \<le> length (ss_ids s) \<and> acked = root_over H ROOT_ZERO (take n (ss_ids s)))"
    have m: "0 < m \<and> m \<le> length (ss_ids s) \<and> acked = root_over H ROOT_ZERO (take m (ss_ids s))"
      unfolding m_def using a by (rule LeastI_ex)
    have "\<forall>k. 0 < k \<and> k < m \<longrightarrow> root_over H ROOT_ZERO (take k (ss_ids s)) \<noteq> acked"
      using not_less_Least m unfolding m_def by (metis (mono_tags, lifting) less_imp_le order_trans)
    then have "ack_scan H ROOT_ZERO 0 (ss_ids s) acked = Some m" unfolding ack_scan_spec using m by auto
    then show "ack_scan H ROOT_ZERO 0 (ss_ids s) acked \<noteq> None" by simp
  qed
  moreover have "ss_base_root s' = acked" if r
    using assms(2) that by (auto simp: apply_ack_def split: if_splits option.splits)
  moreover have "ss_base_root s' = root_over H ROOT_ZERO (take (ss_base_len s') (ss_ids s'))"
    using apply_ack_ok(1) [OF assms] by (simp add: session_ok_def)
  moreover have "s' = s" if "\<not> r" using assms(2) that by (auto simp: apply_ack_def split: if_splits option.splits)
  moreover have "r \<longleftrightarrow> acked = ss_root s \<or> acked = ss_base_root s \<or> ack_scan H ROOT_ZERO 0 (ss_ids s) acked \<noteq> None"
    using assms(2) by (auto simp: apply_ack_def split: if_splits option.splits)
  ultimately show ?thesis by auto
qed

text \<open>Two turns of a session, the blocks of which differ in their last byte.\<close>

definition step_hash :: hash where
  "step_hash x = replicate 31 0 @ [if x = [] then 0 else last x + 1]"

definition demo_session :: session_shim where
  "demo_session =
     log_blocks step_hash [block_new Message 2 [8]] (log_blocks step_hash [block_new Message 1 [7]]
       (session_with_filter 1 compressor_default))"

definition demo_core :: core where
  "demo_core = c_ingest step_hash 1 [block_new Message 1 [7], block_new Message 2 [8]] (Map.empty, Map.empty)"

lemma empty_core_queries [simp]: "c_ids (Map.empty, Map.empty) sid = []" "c_root (Map.empty, Map.empty) sid = ROOT_ZERO"
  by (simp_all add: c_ids_def c_root_def)

lemma demo_session_ok: "session_ok step_hash demo_core demo_session"
proof -
  have "fst demo_core (block_id step_hash b) \<noteq> None" if "b \<in> {block_new Message 1 [7], block_new Message 2 [8]}" for b
    unfolding demo_core_def using that by (intro c_ingest_adds) auto
  then show ?thesis
    by (simp add: session_ok_def demo_session_def session_with_filter_def demo_core_def c_ingest_queries root_over_def
        del: not_None_eq)
qed

lemma demo_session_fields:
  "ss_ids demo_session = map (block_id step_hash) [block_new Message 1 [7], block_new Message 2 [8]]"
  "ss_base_root demo_session = ROOT_ZERO" "ss_base_len demo_session = 0"
  "ss_root demo_session = root_over step_hash ROOT_ZERO (map (block_id step_hash) [block_new Message 1 [7], block_new Message 2 [8]])"
  by (simp_all add: demo_session_def session_with_filter_def root_over_def)

theorem apply_ack_prefix_witness:
  "fst (apply_ack step_hash (root_over step_hash ROOT_ZERO [block_id step_hash (block_new Message 1 [7])]) demo_session)"
proof -
  have "\<exists>n. 0 < n \<and> n \<le> length (ss_ids demo_session) \<and>
      root_over step_hash ROOT_ZERO [block_id step_hash (block_new Message 1 [7])] =
      root_over step_hash ROOT_ZERO (take n (ss_ids demo_session))"
    by (intro exI [of _ 1]) (simp add: demo_session_fields)
  then show ?thesis
    using apply_ack_prefix [OF demo_session_ok prod.collapse [symmetric]] by blast
qed

text \<open>A late acknowledgement moves the base backwards: after the newest root was acknowledged
  and the base advanced to the whole log, the delayed acknowledgement of an earlier turn is accepted
  and rewinds the base to that turn, so the next APPEND carries a base the receiver has left.\<close>

theorem stale_ack_rewinds:
  "let s1 = snd (apply_ack step_hash (ss_root demo_session) demo_session);
       (r, s2) = apply_ack step_hash (root_over step_hash ROOT_ZERO (take 1 (ss_ids demo_session))) s1
   in ss_base_len s1 = 2 \<and> r \<and> ss_base_len s2 = 1 \<and> ss_base_root s2 \<noteq> ss_base_root s1"
  by code_simp

section \<open>The coordinator\<close>

datatype shim_op =
    SIngest u128 "block list"
  | SBatch u128 "block list list"
  | SAck u128 merkle_root
  | SSession u128

fun shim_step :: "externals \<Rightarrow> shim_op \<Rightarrow> shim \<Rightarrow> shim" where
  "shim_step X (SIngest sid bs) m = snd (shim_ingest X sid bs m)"
| "shim_step X (SBatch sid turns) m = snd (shim_ingest_batch X sid turns m)"
| "shim_step X (SAck sid root) m = snd (shim_apply_ack (x_hash X) sid root m)"
| "shim_step X (SSession sid) m = snd (shim_session sid m)"

fun op_blocks :: "u128 \<Rightarrow> shim_op \<Rightarrow> block list" where
  "op_blocks sid (SIngest sid' bs) = (if sid' = sid then bs else [])"
| "op_blocks sid (SBatch sid' turns) = (if sid' = sid then concat turns else [])"
| "op_blocks sid _ = []"

definition shim_ok :: "hash \<Rightarrow> shim \<Rightarrow> bool" where
  "shim_ok H m \<longleftrightarrow>
     addressed H (core (h_store (sm_host m))) \<and>
     (\<forall>sid. ss_session_id (session_entry sid m) = sid \<and>
        session_ok H (core (h_store (sm_host m))) (session_entry sid m))"

lemma addressed_c_ingest: "addressed H c \<Longrightarrow> addressed H (c_ingest H sid bs c)"
proof (induction bs arbitrary: c)
  case Nil
  then show ?case by (simp add: c_ingest_def)
next
  case (Cons b bs)
  show ?case unfolding c_ingest_Cons by (rule Cons.IH) (intro addressed_ops Cons.prems)
qed

lemma session_ok_other:
  assumes "session_ok H c s" "ss_session_id s \<noteq> sid"
  shows "session_ok H (c_ingest H sid bs c) s"
proof -
  have "fst (c_ingest H sid bs c) i \<noteq> None" if "i \<in> set (ss_ids s)" for i
    using assms(1) that c_ingest_keeps [of c i _ H sid bs] unfolding session_ok_def by (metis not_Some_eq)
  then show ?thesis using assms by (simp add: session_ok_def c_ingest_queries del: not_None_eq)
qed

lemma shim_ingest_ok:
  assumes "shim_ok (x_hash X) m" "ingest_turn X bs (session_entry sid m, sm_host m) = (fr, s, h)"
  defines "m' \<equiv> m\<lparr>sm_sessions := (sm_sessions m)(sid \<mapsto> s), sm_host := h\<rparr>"
  shows "shim_ok (x_hash X) m'"
    and "ss_ids (session_entry sid' m') =
      ss_ids (session_entry sid' m) @ (if sid' = sid then map (block_id (x_hash X)) bs else [])"
proof -
  define H where "H = x_hash X"
  note f = ingest_turn_facts [OF assms(2), folded H_def]
  have ok: "addressed H (core (h_store (sm_host m)))" "ss_session_id (session_entry i m) = i"
    "session_ok H (core (h_store (sm_host m))) (session_entry i m)" for i
    using assms(1) by (simp_all add: shim_ok_def H_def)
  have e: "session_entry i m' = (if i = sid then s else session_entry i m)" for i
    by (simp add: m'_def session_entry_def split: option.split)
  have c: "core (h_store (sm_host m')) = c_ingest H sid bs (core (h_store (sm_host m)))"
    using f(2) ok(2) by (simp add: m'_def)
  have "session_ok H (core (h_store (sm_host m'))) s"
    using ingest_turn_ok [OF _ assms(2)] ok(3) by (simp add: m'_def H_def)
  moreover have "session_ok H (core (h_store (sm_host m'))) (session_entry i m)" if "i \<noteq> sid" for i
    unfolding c by (rule session_ok_other) (use that ok in simp_all)
  ultimately show "shim_ok (x_hash X) m'"
    using ok f(1) addressed_c_ingest by (auto simp: shim_ok_def e c H_def)
  show "ss_ids (session_entry sid' m') =
      ss_ids (session_entry sid' m) @ (if sid' = sid then map (block_id (x_hash X)) bs else [])"
    by (simp add: e f(1) H_def)
qed

lemma shim_step_ok:
  assumes "shim_ok (x_hash X) m"
  shows "shim_ok (x_hash X) (shim_step X p m) \<and>
    ss_ids (session_entry sid' (shim_step X p m)) =
      ss_ids (session_entry sid' m) @ map (block_id (x_hash X)) (op_blocks sid' p)"
proof (cases p)
  case (SIngest sid bs)
  obtain fr s h where t: "ingest_turn X bs (session_entry sid m, sm_host m) = (fr, s, h)" by (metis prod_cases3)
  then show ?thesis using shim_ingest_ok [OF assms t] SIngest by (simp add: shim_ingest_def)
next
  case (SBatch sid turns)
  obtain fr s h where t: "ingest_turn X (concat turns) (session_entry sid m, sm_host m) = (fr, s, h)" by (metis prod_cases3)
  then show ?thesis using shim_ingest_ok [OF assms t] SBatch by (simp add: shim_ingest_batch_def ingest_coalesced_def)
next
  case (SAck sid root)
  show ?thesis
  proof (cases "sm_sessions m sid")
    case None
    then show ?thesis using assms SAck by (simp add: shim_apply_ack_def)
  next
    case (Some s)
    obtain r s' where a: "apply_ack (x_hash X) root s = (r, s')" by force
    have s: "session_entry sid m = s" using Some by (simp add: session_entry_def)
    have "session_ok (x_hash X) (core (h_store (sm_host m))) s" "ss_session_id s = sid"
      using assms s unfolding shim_ok_def by metis+
    note f = apply_ack_ok [OF this(1) a]
    have e: "session_entry i (shim_step X p m) = (if i = sid then s' else session_entry i m)" for i
      using SAck Some a by (simp add: shim_apply_ack_def session_entry_def split: option.split)
    have h: "sm_host (shim_step X p m) = sm_host m" using SAck Some a by (simp add: shim_apply_ack_def)
    have ob: "op_blocks sid' p = []" using SAck by simp
    show ?thesis using assms f \<open>ss_session_id s = sid\<close> s unfolding shim_ok_def e h ob by auto
  qed
next
  case (SSession sid)
  have "session_entry i (shim_step X p m) = session_entry i m" "sm_host (shim_step X p m) = sm_host m" for i
    using SSession by (auto simp: shim_session_def session_entry_def Let_def split: option.split)
  then show ?thesis using assms SSession by (simp add: shim_ok_def)
qed

lemma shim_run_ok:
  assumes "shim_ok (x_hash X) m"
  shows "shim_ok (x_hash X) (fold (shim_step X) ops m) \<and>
    ss_ids (session_entry sid (fold (shim_step X) ops m)) =
      ss_ids (session_entry sid m) @ map (block_id (x_hash X)) (concat (map (op_blocks sid) ops))"
  using assms
proof (induction ops arbitrary: m)
  case (Cons p ops)
  then show ?case using shim_step_ok [OF Cons.prems, of p sid] Cons.IH [of "shim_step X p m"] by simp
qed simp

text \<open>C10: Over every sequence of turns, batches and acknowledgements of any number of sessions on one
  host, the store's log of each session is the ids of that session's blocks in order, its root is
  the session's root and the root of those ids, and every logged block can be fetched: the shared
  store and filter do not let sessions disturb each other.\<close>

theorem shim_sessions_isolated:
  assumes "core st = (Map.empty, Map.empty)"
    and "m = fold (shim_step X) ops (shim_new st c)"
    and "ids = map (block_id (x_hash X)) (concat (map (op_blocks sid) ops))"
  shows "ss_ids (session_entry sid m) = ids \<and> session_ids (h_store (sm_host m)) sid = ids \<and>
    session_root (h_store (sm_host m)) sid = root_over (x_hash X) ROOT_ZERO ids \<and>
    ss_root (session_entry sid m) = root_over (x_hash X) ROOT_ZERO ids \<and>
    (\<forall>i \<in> set ids. \<exists>b. store_get (h_store (sm_host m)) i = Some b \<and> block_id (x_hash X) b = i)"
proof -
  have "session_entry i (shim_new st c) = session_with_filter i c" for i
    by (simp add: session_entry_def shim_new_def shim_with_filter_def)
  then have "shim_ok (x_hash X) (shim_new st c)" "ss_ids (session_entry sid (shim_new st c)) = []"
    using assms(1)
    by (auto simp: shim_ok_def shim_new_def shim_with_filter_def session_with_filter_def session_ok_def root_over_def
        c_ids_def c_root_def)
  note r = shim_run_ok [OF this(1), of ops sid, folded assms(2)]
  have ids: "ss_ids (session_entry sid m) = ids" using r \<open>ss_ids _ = []\<close> assms(3) by simp
  have ok: "session_ok (x_hash X) (core (h_store (sm_host m))) (session_entry sid m)"
    "ss_session_id (session_entry sid m) = sid" "addressed (x_hash X) (core (h_store (sm_host m)))"
    using r by (simp_all add: shim_ok_def)
  have "\<exists>b. fst (core (h_store (sm_host m))) i = Some b \<and> block_id (x_hash X) b = i" if "i \<in> set ids" for i
    using ok(1,3) that ids by (auto simp: session_ok_def addressed_def)
  then show ?thesis using ok(1,2) ids by (simp add: core_queries session_ok_def)
qed

definition demo_externals :: externals where
  "demo_externals =
     \<lparr>x_hash = step_hash, x_xxh = demo_xx, x_zstd = demo_zstd, x_cdf = (\<lambda>k r. 0), x_repair = (\<lambda>pct n. 0)\<rparr>"

theorem shim_sessions_isolated_witness:
  "session_ids (h_store (sm_host (fold (shim_step demo_externals)
     [SIngest 1 [block_new Message 1 [7]], SIngest 2 [block_new Message 1 [9]], SIngest 1 [block_new Message 2 [8]]]
     (shim_new store_new compressor_default)))) 1 =
   map (block_id step_hash) [block_new Message 1 [7], block_new Message 2 [8]]"
  using shim_sessions_isolated [OF core_store_new refl refl, where X = demo_externals and sid = 1 and c = compressor_default and
      ops = "[SIngest 1 [block_new Message 1 [7]], SIngest 2 [block_new Message 1 [9]], SIngest 1 [block_new Message 2 [8]]]"]
  by (simp add: demo_externals_def)

end
