(* ===== verification/Receiver.thy ===== *)
theory Receiver
  imports Frames Store Compress Fountain
begin

text \<open>
  The receiving side (\<open>crates/receiver/src/lib.rs\<close>): APPEND frames are resolved, checked against
  the session root and applied; RESYNC seeds the session log with the client's manifest and names
  the missing blocks; BULK frames feed one fountain decoder per generation and store recovered
  contents until the pending set is empty.  A session's mutations are serialised by its lock, so
  every handler is one step.  Decompression is the stateless \<open>decompress_pure\<close>.
\<close>

section \<open>State\<close>

datatype receiver_error =
    RFountain fountain_error
  | RCompress compress_error
  | RFrame string
  | RMissingRef
  | RNoSession u128
  | ColdStartInProgress u128
  | BaseRootMismatch u128 merkle_root merkle_root

record log_pointer =
  lp_session_id :: u128
  lp_root :: merkle_root
  lp_len :: nat

record session_state =
  rs_pending :: "block_id set"
  rs_acked :: bool
  rs_decoders :: "u32 \<rightharpoonup> fountain_decoder"

record receiver =
  rc_store :: store
  rc_compressor :: compressor
  rc_sessions :: "u128 \<rightharpoonup> session_state"

definition fresh_session :: session_state where
  "fresh_session = \<lparr>rs_pending = {}, rs_acked = False, rs_decoders = Map.empty\<rparr>"

definition recover_session :: "store \<Rightarrow> u128 \<Rightarrow> session_state" where
  "recover_session st sid =
     (let pending = set (filter (\<lambda>i. \<not> store_contains st i) (session_ids st sid))
      in \<lparr>rs_pending = pending, rs_acked = (pending = {}), rs_decoders = Map.empty\<rparr>)"

definition receiver_new :: "store \<Rightarrow> compressor \<Rightarrow> receiver" where
  "receiver_new st c =
     \<lparr>rc_store = st, rc_compressor = c,
      rc_sessions = (\<lambda>sid. if sid \<in> session_list st then Some (recover_session st sid) else None)\<rparr>"

text \<open>\<open>g.entry(sid).or_insert_with(..)\<close>\<close>

definition entry_session :: "u128 \<Rightarrow> receiver \<Rightarrow> session_state" where
  "entry_session sid r = (case rc_sessions r sid of Some st \<Rightarrow> st | None \<Rightarrow> fresh_session)"

definition put_session :: "u128 \<Rightarrow> session_state \<Rightarrow> receiver \<Rightarrow> receiver" where
  "put_session sid st r = r\<lparr>rc_sessions := (rc_sessions r)(sid \<mapsto> st)\<rparr>"

section \<open>APPEND\<close>

datatype resolved = RInline block_id block | RRef block_id

fun resolved_id :: "resolved \<Rightarrow> block_id" where
  "resolved_id (RInline i b) = i"
| "resolved_id (RRef i) = i"

definition recover_block :: "hash \<Rightarrow> zstd \<Rightarrow> compressor \<Rightarrow> bytes \<Rightarrow> (block \<times> block_id, receiver_error) outcome" where
  "recover_block H z c blob =
     obind (omap_err RCompress (decompress_pure z c blob))
       (\<lambda>canon. omap_err RFrame (from_canonical_owned H canon))"

fun resolve_block :: "hash \<Rightarrow> zstd \<Rightarrow> compressor \<Rightarrow> frame_block \<Rightarrow> (resolved, receiver_error) outcome" where
  "resolve_block H z c (Inline w) = obind (recover_block H z c (payload w)) (\<lambda>(b, i). Ok (RInline i b))"
| "resolve_block H z c (Ref i) = Ok (RRef i)"

fun refs_available :: "store \<Rightarrow> block_id set \<Rightarrow> resolved list \<Rightarrow> bool" where
  "refs_available st avail [] = True"
| "refs_available st avail (RInline i b # rs) = refs_available st (insert i avail) rs"
| "refs_available st avail (RRef i # rs) =
     (if \<not> store_contains st i \<and> i \<notin> avail then False else refs_available st avail rs)"

fun apply_resolved :: "hash \<Rightarrow> u128 \<Rightarrow> resolved list \<Rightarrow> store \<Rightarrow> (unit, receiver_error) outcome \<times> store" where
  "apply_resolved H sid [] st = (Ok (), st)"
| "apply_resolved H sid (RInline i b # rs) st = apply_resolved H sid rs (snd (insert_with_id H sid b i st))"
| "apply_resolved H sid (RRef i # rs) st =
     (case reference H sid i st of
        (Ok u, st') \<Rightarrow> apply_resolved H sid rs st'
      | (Err e, st') \<Rightarrow> (Err RMissingRef, st')
      | (Panic, st') \<Rightarrow> (Panic, st'))"

definition target_root :: "hash \<Rightarrow> merkle_root \<Rightarrow> resolved list \<Rightarrow> merkle_root" where
  "target_root H base rs = fold (\<lambda>it root. append_root H root (resolved_id it)) rs base"

definition handle_append ::
    "hash \<Rightarrow> zstd \<Rightarrow> append_frame \<Rightarrow> receiver \<Rightarrow> (ack_frame, receiver_error) outcome \<times> receiver" where
  "handle_append H z fr r =
     (case otraverse (resolve_block H z (rc_compressor r)) (af_blocks fr) of
        Err e \<Rightarrow> (Err e, r)
      | Panic \<Rightarrow> (Panic, r)
      | Ok rs \<Rightarrow>
          if \<not> refs_available (rc_store r) {} rs then (Err RMissingRef, r)
          else
            let sid = af_session_id fr;
                st = entry_session sid r;
                r1 = put_session sid st r
            in if rs_pending st \<noteq> {} then (Err (ColdStartInProgress sid), r1)
               else
                 let cur_root = session_root (rc_store r1) sid;
                     target = target_root H (af_base_root fr) rs
                 in if af_base_root fr \<noteq> cur_root
                    then (if target = cur_root then (Ok \<lparr>ack_session_id = sid, ack_root = cur_root\<rparr>, r1)
                          else (Err (BaseRootMismatch sid (af_base_root fr) cur_root), r1))
                    else
                      case apply_resolved H sid rs (rc_store r1) of
                        (res, store') \<Rightarrow>
                          (obind res (\<lambda>_. Ok \<lparr>ack_session_id = sid, ack_root = session_root store' sid\<rparr>),
                           r1\<lparr>rc_store := store'\<rparr>))"

section \<open>RESYNC\<close>

definition handle_resync :: "resync_frame \<Rightarrow> receiver \<Rightarrow> block_id list \<times> receiver" where
  "handle_resync fr r =
     (let sid = rf_session_id fr;
          missing = filter (\<lambda>i. \<not> store_contains (rc_store r) i) (rf_manifest fr);
          r1 = r\<lparr>rc_store := seed_session sid (rf_manifest fr) (rf_client_root fr) (rc_store r)\<rparr>;
          st = (entry_session sid r1)\<lparr>rs_pending := set missing, rs_acked := (missing = [])\<rparr>
      in (missing, put_session sid st r1))"

section \<open>BULK\<close>

text \<open>A rejected symbol ends the loop; the symbols before it stay in the decoder.\<close>

fun add_symbols :: "bytes list \<Rightarrow> fountain_decoder \<Rightarrow> (unit, fountain_error) outcome \<times> fountain_decoder" where
  "add_symbols [] d = (Ok (), d)"
| "add_symbols (w # ws) d =
     (case decoder_add w d of
        (Ok b, d') \<Rightarrow> add_symbols ws d'
      | (Err e, d') \<Rightarrow> (Err e, d')
      | (Panic, d') \<Rightarrow> (Panic, d'))"

function parse_records :: "bytes \<Rightarrow> bytes list" where
  "parse_records flat =
     (if length flat < 4 then []
      else
        let blen = unat (rd32 (take 4 flat)); rest = drop 4 flat
        in if blen = 0 \<or> length rest < blen then []
           else take blen rest # parse_records (drop blen rest))"
  by pat_completeness auto
termination
  by (relation "measure length") auto

declare parse_records.simps [simp del]

fun store_contents :: "u128 \<Rightarrow> (block \<times> block_id) list \<Rightarrow> store \<Rightarrow> store" where
  "store_contents sid [] st = st"
| "store_contents sid ((b, i) # rs) st = store_contents sid rs (snd (store_content_with_id sid b i st))"

text \<open>The bookkeeping after a generation decoded: retire its decoder and its ids; the first time
  nothing is pending the session root is to be acknowledged.\<close>

definition finish_generation ::
    "u128 \<Rightarrow> u32 \<Rightarrow> block_id list \<Rightarrow> receiver \<Rightarrow> merkle_root option \<times> receiver" where
  "finish_generation sid gen ids r =
     (case rc_sessions r sid of
        None \<Rightarrow> (None, r)
      | Some st \<Rightarrow>
          (let st1 = st\<lparr>rs_decoders := (rs_decoders st)(gen := None), rs_pending := rs_pending st - set ids\<rparr>
           in if rs_pending st1 = {} \<and> \<not> rs_acked st1
              then (Some (session_root (rc_store r) sid), put_session sid (st1\<lparr>rs_acked := True\<rparr>) r)
              else (None, put_session sid st1 r)))"

definition handle_bulk ::
    "hash \<Rightarrow> zstd \<Rightarrow> bulk_frame \<Rightarrow> receiver \<Rightarrow> (merkle_root option, receiver_error) outcome \<times> receiver" where
  "handle_bulk H z fr r =
     (let sid = bf_session_id fr;
          gen = bf_generation fr;
          st = entry_session sid r;
          d = (case rs_decoders st gen of
                 Some d \<Rightarrow> d
               | None \<Rightarrow> decoder_new (unat (bf_k fr)) (unat (bf_symbol_size fr)));
          put = (\<lambda>d'. put_session sid (st\<lparr>rs_decoders := (rs_decoders st)(gen \<mapsto> d')\<rparr>) r)
      in case add_symbols (bf_symbols fr) d of
           (Err e, d1) \<Rightarrow> (Err (RFountain e), put d1)
         | (Panic, d1) \<Rightarrow> (Panic, put d1)
         | (Ok u, d1) \<Rightarrow>
             (case decoder_decode d1 of
                (Panic, d2) \<Rightarrow> (Panic, put d2)
              | (Err (Underdetermined a b), d2) \<Rightarrow> (Ok None, put d2)
              | (Err e, d2) \<Rightarrow> (Err (RFountain e), put d2)
              | (Ok symbols, d2) \<Rightarrow>
                  (case otraverse (recover_block H z (rc_compressor r)) (parse_records (concat symbols)) of
                     Err e \<Rightarrow> (Err e, put d2)
                   | Panic \<Rightarrow> (Panic, put d2)
                   | Ok recovered \<Rightarrow>
                       (let r1 = put d2;
                            r2 = r1\<lparr>rc_store := store_contents sid recovered (rc_store r1)\<rparr>
                        in case finish_generation sid gen (map snd recovered) r2 of
                             (completion, r3) \<Rightarrow> (Ok completion, r3)))))"

section \<open>Frames and queries\<close>

definition handle_frame ::
    "hash \<Rightarrow> zstd \<Rightarrow> frame \<Rightarrow> receiver \<Rightarrow> (frame option, receiver_error) outcome \<times> receiver" where
  "handle_frame H z f r =
     (case f of
        Append a \<Rightarrow> (case handle_append H z a r of (res, r') \<Rightarrow> (obind res (\<lambda>k. Ok (Some (Ack k))), r'))
      | Resync q \<Rightarrow>
          (case handle_resync q r of (missing, r') \<Rightarrow>
             if missing = []
             then (Ok (Some (Ack \<lparr>ack_session_id = rf_session_id q,
                                 ack_root = session_root (rc_store r') (rf_session_id q)\<rparr>)), r')
             else (Ok (Some (Missing \<lparr>mf_session_id = rf_session_id q, mf_missing = missing\<rparr>)), r'))
      | Bulk b \<Rightarrow>
          (case handle_bulk H z b r of (res, r') \<Rightarrow>
             (obind res (\<lambda>c. case c of
                Some root \<Rightarrow> Ok (Some (Ack \<lparr>ack_session_id = bf_session_id b, ack_root = root\<rparr>))
              | None \<Rightarrow> Ok None), r'))
      | Ack a \<Rightarrow> (Ok None, r)
      | Missing m \<Rightarrow> (Ok None, r))"

definition pointer :: "u128 \<Rightarrow> receiver \<Rightarrow> log_pointer option" where
  "pointer sid r =
     (if rc_sessions r sid \<noteq> None
      then Some \<lparr>lp_session_id = sid, lp_root = session_root (rc_store r) sid, lp_len = session_len (rc_store r) sid\<rparr>
      else None)"

definition receiver_root :: "u128 \<Rightarrow> receiver \<Rightarrow> merkle_root option" where
  "receiver_root sid r = (if rc_sessions r sid \<noteq> None then Some (session_root (rc_store r) sid) else None)"

definition receiver_reconstruct :: "u128 \<Rightarrow> receiver \<Rightarrow> block list" where
  "receiver_reconstruct sid r = (if rc_sessions r sid = None then [] else reconstruct (rc_store r) sid)"

definition receiver_reconstruct_range :: "u128 \<Rightarrow> nat \<Rightarrow> nat \<Rightarrow> receiver \<Rightarrow> (block list, string) outcome" where
  "receiver_reconstruct_range sid from to r =
     (if rc_sessions r sid = None then Ok [] else reconstruct_range (rc_store r) sid from to)"

section \<open>Errors leave the log alone\<close>

lemma put_session_store [simp]: "rc_store (put_session sid st r) = rc_store r"
  "rc_compressor (put_session sid st r) = rc_compressor r"
  by (simp_all add: put_session_def)

lemma entry_put [simp]: "entry_session sid (put_session sid st r) = st"
  by (simp add: entry_session_def put_session_def)

lemma target_root_ids: "target_root H base rs = root_over H base (map resolved_id rs)"
proof -
  have "fold (\<lambda>it root. append_root H root (resolved_id it)) rs base = foldl (append_root H) base (map resolved_id rs)"
    by (induction rs arbitrary: base) simp_all
  then show ?thesis by (simp add: target_root_def root_over_def)
qed

text \<open>The abstract effect of an APPEND: contents are added, ids are pushed on the log.\<close>

fun c_apply :: "hash \<Rightarrow> u128 \<Rightarrow> resolved list \<Rightarrow> core \<Rightarrow> core" where
  "c_apply H sid [] c = c"
| "c_apply H sid (RInline i b # rs) c = c_apply H sid rs (c_push H sid i (c_put b i c))"
| "c_apply H sid (RRef i # rs) c = c_apply H sid rs (c_push H sid i c)"

lemma refs_available_mono:
  assumes "refs_available st avail rs" "\<forall>i. store_contains st i \<or> i \<in> avail \<longrightarrow> store_contains st' i \<or> i \<in> avail'"
  shows "refs_available st' avail' rs"
  using assms
proof (induction st avail rs arbitrary: avail' rule: refs_available.induct)
  case (2 st avail i b rs)
  have "refs_available st' (insert i avail') rs" by (rule "2.IH") (use "2.prems" in auto)
  then show ?case by simp
next
  case (3 st avail i rs)
  have a: "store_contains st i \<or> i \<in> avail" "refs_available st avail rs" using "3.prems"(1) by (auto split: if_splits)
  have "refs_available st' avail' rs" by (rule "3.IH") (use a "3.prems"(2) in auto)
  moreover have "store_contains st' i \<or> i \<in> avail'" using "3.prems"(2) a(1) by blast
  ultimately show ?case by auto
qed simp

lemma apply_resolved_core:
  assumes "refs_available st {} rs"
  shows "fst (apply_resolved H sid rs st) = Ok () \<and> core (snd (apply_resolved H sid rs st)) = c_apply H sid rs (core st)"
  using assms
proof (induction rs arbitrary: st)
  case (Cons it rs)
  show ?case
  proof (cases it)
    case (RInline i b)
    define st' where "st' = snd (insert_with_id H sid b i st)"
    have c: "core st' = c_push H sid i (c_put b i (core st))" by (simp add: st'_def insert_with_id_def core_simps)
    have "store_contains st' j" if "store_contains st j \<or> j \<in> {i}" for j
      using that c by (auto simp: core_queries fst_c_put)
    then have "refs_available st' {} rs" using Cons.prems RInline
      by (intro refs_available_mono [of st "{i}" rs st' "{}"]) auto
    then show ?thesis using Cons.IH [of st'] c RInline by (simp add: st'_def)
  next
    case (RRef i)
    then have i: "store_contains st i" and rs: "refs_available st {} rs" using Cons.prems by (auto split: if_splits)
    define st' where "st' = snd (reference H sid i st)"
    have r: "reference H sid i st = (Ok (), st')"
      using i by (simp add: st'_def reference_def store_contains_def Let_def split_beta)
    have c: "core st' = c_push H sid i (core st)"
      using i by (auto simp: st'_def core_simps core_queries)
    have "refs_available st' {} rs" by (rule refs_available_mono [OF rs]) (simp add: core_queries c)
    then show ?thesis using Cons.IH [of st'] c r RRef by simp
  qed
qed simp

lemma c_apply_queries:
  "c_root (c_apply H sid rs c) sid' =
     (if sid' = sid then root_over H (c_root c sid) (map resolved_id rs) else c_root c sid')"
  "c_ids (c_apply H sid rs c) sid' =
     (if sid' = sid then c_ids c sid @ map resolved_id rs else c_ids c sid')"
  by (induction H sid rs c rule: c_apply.induct) (simp_all add: root_over_def)

lemma c_apply_keeps: "fst c j = Some b \<Longrightarrow> fst (c_apply H sid rs c) j = Some b"
proof (induction H sid rs c rule: c_apply.induct)
  case (2 H sid i b' rs c)
  have "fst (c_push H sid i (c_put b' i c)) j = Some b" using 2(2) by (auto simp: fst_c_put)
  then show ?case using 2(1) by simp
qed simp_all

text \<open>The cases of an APPEND that was resolved.\<close>

lemma handle_append_cases:
  assumes "otraverse (resolve_block H z (rc_compressor r)) (af_blocks fr) = Ok rs" "refs_available (rc_store r) {} rs"
    and "rs_pending (entry_session (af_session_id fr) r) = {}"
  shows "af_base_root fr = session_root (rc_store r) (af_session_id fr) \<Longrightarrow>
      \<exists>st'. handle_append H z fr r =
          (Ok \<lparr>ack_session_id = af_session_id fr, ack_root = session_root st' (af_session_id fr)\<rparr>,
           (put_session (af_session_id fr) (entry_session (af_session_id fr) r) r)\<lparr>rc_store := st'\<rparr>) \<and>
        core st' = c_apply H (af_session_id fr) rs (core (rc_store r))"
    and "af_base_root fr \<noteq> session_root (rc_store r) (af_session_id fr) \<Longrightarrow>
      target_root H (af_base_root fr) rs = session_root (rc_store r) (af_session_id fr) \<Longrightarrow>
      handle_append H z fr r =
        (Ok \<lparr>ack_session_id = af_session_id fr, ack_root = session_root (rc_store r) (af_session_id fr)\<rparr>,
         put_session (af_session_id fr) (entry_session (af_session_id fr) r) r)"
proof -
  obtain st' where "apply_resolved H (af_session_id fr) rs (rc_store r) = (Ok (), st')"
    "core st' = c_apply H (af_session_id fr) rs (core (rc_store r))"
    using apply_resolved_core [OF assms(2), of H "af_session_id fr"] by (metis prod.collapse)
  then show "af_base_root fr = session_root (rc_store r) (af_session_id fr) \<Longrightarrow>
      \<exists>st'. handle_append H z fr r =
          (Ok \<lparr>ack_session_id = af_session_id fr, ack_root = session_root st' (af_session_id fr)\<rparr>,
           (put_session (af_session_id fr) (entry_session (af_session_id fr) r) r)\<lparr>rc_store := st'\<rparr>) \<and>
        core st' = c_apply H (af_session_id fr) rs (core (rc_store r))"
    using assms by (intro exI [of _ st']) (simp add: handle_append_def Let_def)
  show "af_base_root fr \<noteq> session_root (rc_store r) (af_session_id fr) \<Longrightarrow>
      target_root H (af_base_root fr) rs = session_root (rc_store r) (af_session_id fr) \<Longrightarrow>
      handle_append H z fr r =
        (Ok \<lparr>ack_session_id = af_session_id fr, ack_root = session_root (rc_store r) (af_session_id fr)\<rparr>,
         put_session (af_session_id fr) (entry_session (af_session_id fr) r) r)"
    using assms by (simp add: handle_append_def Let_def)
qed

lemma resolve_panic:
  "otraverse (resolve_block H z c) bs = Panic \<Longrightarrow> \<exists>w. Inline w \<in> set bs \<and> decompress_pure z c (payload w) = Panic"
proof (induction bs)
  case (Cons fb bs)
  show ?case
  proof (cases "resolve_block H z c fb = Panic")
    case True
    then obtain w where "fb = Inline w" by (cases fb) simp_all
    then show ?thesis using True from_canonical_not_Panic(2)
      by (auto simp: recover_block_def obind_Panic_iff split: prod.splits)
  next
    case False
    then show ?thesis using Cons by (auto simp: obind_Panic_iff)
  qed
qed simp

lemma put_entry_known: "rc_sessions r sid \<noteq> None \<Longrightarrow> rc_sessions (put_session sid (entry_session sid r) r) = rc_sessions r"
  by (auto simp: put_session_def entry_session_def)

lemma put_entry_unknown: "rc_sessions r sid = None \<Longrightarrow> rc_sessions (put_session sid (entry_session sid r) r) = (rc_sessions r)(sid \<mapsto> fresh_session)"
  by (simp add: put_session_def entry_session_def)

text \<open>C16: An APPEND that is refused is not partly applied.  Whatever the error, the store with its logs,
  contents, counters and write-ahead log is as before, and so is the table of sessions, except that a
  refusal for a diverged base root enters a session that was not in it, with nothing pending and no
  decoders.  The handler panics only if decompressing the payload of one of the frame's inline blocks
  does.\<close>

theorem append_error_atomic:
  assumes "handle_append H z fr r = (res, r')"
  shows "(res = Panic \<longrightarrow> (\<exists>w. Inline w \<in> set (af_blocks fr) \<and> decompress_pure z (rc_compressor r) (payload w) = Panic)) \<and>
    (\<forall>e. res = Err e \<longrightarrow> rc_store r' = rc_store r \<and>
      (rc_sessions r' = rc_sessions r \<or>
       rc_sessions r (af_session_id fr) = None \<and> rc_sessions r' = (rc_sessions r)(af_session_id fr \<mapsto> fresh_session) \<and>
       e = BaseRootMismatch (af_session_id fr) (af_base_root fr) (session_root (rc_store r) (af_session_id fr))))"
proof (cases "otraverse (resolve_block H z (rc_compressor r)) (af_blocks fr)")
  case (Err e)
  then show ?thesis using assms by (auto simp: handle_append_def)
next
  case Panic
  then show ?thesis using resolve_panic [OF Panic] assms by (auto simp: handle_append_def)
next
  case (Ok rs)
  let ?sid = "af_session_id fr"
  show ?thesis
  proof (cases "refs_available (rc_store r) {} rs \<and> rs_pending (entry_session ?sid r) = {} \<and>
      af_base_root fr = session_root (rc_store r) ?sid")
    case True
    then show ?thesis using handle_append_cases(1) [OF Ok] assms by fastforce
  next
    case False
    have "rs_pending (entry_session ?sid r) \<noteq> {} \<Longrightarrow> rc_sessions r ?sid \<noteq> None"
      by (auto simp: entry_session_def fresh_session_def)
    then show ?thesis using False Ok assms put_entry_known [of r ?sid] put_entry_unknown [of r ?sid]
      by (cases "rc_sessions r ?sid = None") (auto simp: handle_append_def Let_def split: if_splits)
  qed
qed

definition demo_receiver :: receiver where
  "demo_receiver = receiver_new store_new compressor_default"

text \<open>A diverged APPEND to an unknown session: nothing is stored, but the session has a pointer afterwards.\<close>

theorem append_error_atomic_witness:
  "\<exists>r'. handle_append tail_hash demo_zstd \<lparr>af_session_id = 1, af_base_root = [9], af_blocks = []\<rparr> demo_receiver =
      (Err (BaseRootMismatch 1 [9] ROOT_ZERO), r') \<and>
    rc_store r' = rc_store demo_receiver \<and> pointer 1 demo_receiver = None \<and> pointer 1 r' \<noteq> None \<and> pointer 2 r' = None"
proof -
  define fr :: append_frame where "fr = \<lparr>af_session_id = 1, af_base_root = [9], af_blocks = []\<rparr>"
  obtain res r' where h: "handle_append tail_hash demo_zstd fr demo_receiver = (res, r')" by force
  have d: "rc_sessions demo_receiver = Map.empty" "session_root (rc_store demo_receiver) 1 = ROOT_ZERO"
    by (simp_all add: demo_receiver_def receiver_new_def store_new_def session_list_def session_root_def fun_eq_iff)
  have "ROOT_ZERO \<noteq> [9]" by (simp add: ROOT_ZERO_def numeral_eq_Suc)
  then have res: "res = Err (BaseRootMismatch 1 [9] ROOT_ZERO)" and "rc_sessions r' 1 \<noteq> None"
    using h d by (auto simp: fr_def handle_append_def Let_def entry_session_def fresh_session_def target_root_def put_session_def)
  moreover have "rc_store r' = rc_store demo_receiver \<and>
      (rc_sessions r' = rc_sessions demo_receiver \<or> rc_sessions r' = (rc_sessions demo_receiver)(1 \<mapsto> fresh_session))"
    using append_error_atomic [OF h] res by (auto simp: fr_def)
  ultimately show ?thesis using h d by (auto simp: fr_def pointer_def)
qed

lemma recover_block_compressed:
  assumes "zstd_ok z" "c_dict c' = c_dict c" "compress_pure z c (canonical_bytes b) = Ok y"
    and "length (payload b) \<le> MAX_BLOCK_PAYLOAD_BYTES"
  shows "recover_block H z c' y = Ok (b, block_id H b)"
proof -
  have "from_canonical_owned H (canonical_bytes b) = Ok (b, block_id H b)"
    unfolding from_canonical_owned_iff from_canonical_iff using assms(4)
    by (intro conjI exI [of _ "[]"]) simp_all
  then show ?thesis
    by (simp add: recover_block_def decompress_compress_pure [OF assms(1-3)])
qed

text \<open>C15: An APPEND is safe to retry.  After it was applied and its acknowledgement was lost, the
  same frame gets the same acknowledgement again and nothing is appended twice: the receiver is
  unchanged.\<close>

theorem append_replay_idempotent:
  assumes "handle_append H z fr r = (Ok ack, r')" "ack_root ack \<noteq> af_base_root fr"
  shows "handle_append H z fr r' = (Ok ack, r')"
proof -
  obtain rs where rs: "otraverse (resolve_block H z (rc_compressor r)) (af_blocks fr) = Ok rs"
    using assms(1) by (cases "otraverse (resolve_block H z (rc_compressor r)) (af_blocks fr)") (auto simp: handle_append_def)
  have av: "refs_available (rc_store r) {} rs" and pe: "rs_pending (entry_session (af_session_id fr) r) = {}"
    using assms(1) rs by (auto simp: handle_append_def Let_def split: if_splits)
  define r1 where "r1 = put_session (af_session_id fr) (entry_session (af_session_id fr) r) r"
  show ?thesis
  proof (cases "af_base_root fr = session_root (rc_store r) (af_session_id fr)")
    case True
    then obtain st' where st': "r' = r1\<lparr>rc_store := st'\<rparr>" "ack = \<lparr>ack_session_id = af_session_id fr, ack_root = session_root st' (af_session_id fr)\<rparr>"
      "core st' = c_apply H (af_session_id fr) rs (core (rc_store r))"
      using handle_append_cases(1) [OF rs av pe True] assms(1) by (auto simp: r1_def)
    have "store_contains st' i" if "store_contains (rc_store r) i" for i
      using that c_apply_keeps [of "core (rc_store r)" i] st'(3) by (auto simp: core_queries)
    then have "refs_available st' {} rs" using av by (rule_tac refs_available_mono [OF av]) simp
    moreover have "target_root H (af_base_root fr) rs = session_root st' (af_session_id fr)"
      using True by (simp add: target_root_ids core_queries st'(3) c_apply_queries)
    moreover have "entry_session (af_session_id fr) r' = entry_session (af_session_id fr) r"
      "put_session (af_session_id fr) (entry_session (af_session_id fr) r) r' = r'"
      by (simp_all add: st'(1) r1_def entry_session_def put_session_def)
    ultimately show ?thesis
      using handle_append_cases(2) [of H z r' fr rs] rs pe assms(2) by (simp add: st'(1,2) r1_def)
  next
    case False
    then have r': "r' = r1" "target_root H (af_base_root fr) rs = session_root (rc_store r) (af_session_id fr)"
      "ack = \<lparr>ack_session_id = af_session_id fr, ack_root = session_root (rc_store r) (af_session_id fr)\<rparr>"
      using assms(1) rs av pe by (auto simp: handle_append_def Let_def r1_def split: if_splits)
    have "entry_session (af_session_id fr) r1 = entry_session (af_session_id fr) r"
      "put_session (af_session_id fr) (entry_session (af_session_id fr) r) r1 = r1"
      by (simp_all add: r1_def put_session_def entry_session_def)
    then show ?thesis
      using handle_append_cases(2) [of H z r1 fr rs] rs av pe False r' by (simp add: r1_def)
  qed
qed

definition demo_append :: append_frame where
  "demo_append =
     \<lparr>af_session_id = 1, af_base_root = ROOT_ZERO,
      af_blocks = [Inline \<lparr>kind = Message, seq = 1, payload = 0 # canonical_bytes (block_new Message 1 [7])\<rparr>]\<rparr>"

definition demo_message :: block where
  "demo_message = block_new Message 1 [7]"

definition demo_store :: store where
  "demo_store = snd (insert_with_id tail_hash 1 demo_message (block_id tail_hash demo_message) store_new)"

lemma demo_append_runs:
  "recover_block tail_hash demo_zstd compressor_default (0 # canonical_bytes demo_message) =
     Ok (demo_message, block_id tail_hash demo_message)"
  "handle_append tail_hash demo_zstd demo_append demo_receiver =
      (Ok \<lparr>ack_session_id = 1, ack_root = session_root demo_store 1\<rparr>,
       (put_session 1 (entry_session 1 demo_receiver) demo_receiver)\<lparr>rc_store := demo_store\<rparr>)"
  "core demo_store = c_push tail_hash 1 (block_id tail_hash demo_message)
     (c_put demo_message (block_id tail_hash demo_message) (Map.empty, Map.empty))"
proof -
  have "compress_pure demo_zstd compressor_default (canonical_bytes demo_message) = Ok (0 # canonical_bytes demo_message)"
    by (simp add: compress_pure_eq compressor_default_def compressor_new_def demo_message_def block_new_def)
  then show rb: "recover_block tail_hash demo_zstd compressor_default (0 # canonical_bytes demo_message) =
      Ok (demo_message, block_id tail_hash demo_message)"
    by (rule recover_block_compressed [OF demo_zstd_ok refl]) (simp add: demo_message_def block_new_def MAX_BLOCK_PAYLOAD_BYTES_def)
  then have rs: "otraverse (resolve_block tail_hash demo_zstd (rc_compressor demo_receiver)) (af_blocks demo_append) =
      Ok [RInline (block_id tail_hash demo_message) demo_message]"
    by (simp add: demo_append_def demo_receiver_def receiver_new_def demo_message_def)
  have e: "rs_pending (entry_session 1 demo_receiver) = {}" "session_root (rc_store demo_receiver) 1 = ROOT_ZERO"
    "rc_store demo_receiver = store_new"
    by (simp_all add: demo_receiver_def receiver_new_def entry_session_def fresh_session_def session_list_def store_new_def
        session_root_def)
  have f: "af_session_id demo_append = 1" "af_base_root demo_append = ROOT_ZERO" by (simp_all add: demo_append_def)
  show "handle_append tail_hash demo_zstd demo_append demo_receiver =
      (Ok \<lparr>ack_session_id = 1, ack_root = session_root demo_store 1\<rparr>,
       (put_session 1 (entry_session 1 demo_receiver) demo_receiver)\<lparr>rc_store := demo_store\<rparr>)"
    unfolding handle_append_def rs using e f by (simp add: Let_def demo_store_def)
  show "core demo_store = c_push tail_hash 1 (block_id tail_hash demo_message)
     (c_put demo_message (block_id tail_hash demo_message) (Map.empty, Map.empty))"
    by (simp add: demo_store_def insert_with_id_def core_simps)
qed

theorem append_replay_idempotent_witness:
  "\<exists>ack r'. handle_append tail_hash demo_zstd demo_append demo_receiver = (Ok ack, r') \<and>
     session_len (rc_store r') 1 = 1 \<and> handle_append tail_hash demo_zstd demo_append r' = (Ok ack, r')"
proof -
  have "session_root demo_store 1 = append_root tail_hash ROOT_ZERO (block_id tail_hash demo_message)" "session_len demo_store 1 = 1"
    unfolding core_queries demo_append_runs(3) by (simp_all add: c_root_def c_ids_def c_push_def c_put_def)
  moreover have "append_root tail_hash ROOT_ZERO (block_id tail_hash demo_message) \<noteq> ROOT_ZERO"
    by (simp add: append_root_def tail_hash_def block_id_def ROOT_ZERO_def numeral_eq_Suc)
  ultimately show ?thesis
    using append_replay_idempotent [OF demo_append_runs(2)] demo_append_runs(2) by (auto simp: demo_append_def)
qed

end
