(* ===== verification/Protocol.thy ===== *)
theory Protocol
  imports Shim Receiver
begin

text \<open>
  The two peers together: a turn ingested by the shim, encoded as an APPEND frame, decoded and
  handled by the receiver, and its acknowledgement applied by the shim; and the cold start, from
  the RESYNC manifest through the fountain-coded BULK frames to the completing acknowledgement.
\<close>

section \<open>One exchange\<close>

definition deliver ::
    "externals \<Rightarrow> frame \<Rightarrow> receiver \<Rightarrow> (frame option, receiver_error) outcome \<times> receiver" where
  "deliver X f r =
     (case decode_frame (encode_frame f) of
        Ok f' \<Rightarrow> handle_frame (x_hash X) (x_zstd X) f' r
      | Err e \<Rightarrow> (Err (RFrame ''frame''), r)
      | Panic \<Rightarrow> (Panic, r))"

definition exchange ::
    "externals \<Rightarrow> block list \<Rightarrow> session_shim \<times> host \<times> receiver \<Rightarrow> (session_shim \<times> host \<times> receiver) option" where
  "exchange X bs p =
     (case p of (s, h, r) \<Rightarrow>
       (case ingest_turn X bs (s, h) of (fr, s1, h1) \<Rightarrow>
         (case deliver X (Append fr) r of
            (Ok (Some (Ack a)), r1) \<Rightarrow> Some (snd (apply_ack (x_hash X) (ack_root a) s1), h1, r1)
          | _ \<Rightarrow> None)))"

fun exchanges ::
    "externals \<Rightarrow> block list list \<Rightarrow> session_shim \<times> host \<times> receiver \<Rightarrow> (session_shim \<times> host \<times> receiver) option" where
  "exchanges X [] p = Some p"
| "exchanges X (bs # turns) p = (case exchange X bs p of None \<Rightarrow> None | Some p' \<Rightarrow> exchanges X turns p')"

text \<open>What is asked of zstd and the dictionary in use: zstd is correct (\<open>zstd_ok\<close>), and with this dictionary
  encoder contexts are built and compression succeeds.\<close>

definition zstd_works :: "zstd \<Rightarrow> dict \<Rightarrow> bool" where
  "zstd_works z D \<longleftrightarrow> zstd_ok z \<and> (\<forall>l. z_new_enc z l (dict_arg D) = Ok ()) \<and>
     (\<forall>l x. length x < 2 ^ 64 \<longrightarrow> (\<exists>y. z_compress z l (dict_arg D) x = Ok y))"

lemma compress_works:
  assumes "zstd_works z (c_dict c)" "length x < 2 ^ 64"
  shows "\<exists>y. compress_pure z c x = Ok y"
proof -
  obtain y where "z_compress z (c_level c) (dict_arg (c_dict c)) x = Ok y" "z_new_enc z (c_level c) (dict_arg (c_dict c)) = Ok ()"
    using assms unfolding zstd_works_def by blast
  then show ?thesis by (simp add: compress_pure_eq)
qed

text \<open>A turn that fits a frame: the wire payload is at most 18 bytes longer than the block's.\<close>

definition turn_ok :: "block list \<Rightarrow> bool" where
  "turn_ok bs \<longleftrightarrow> length bs \<le> MAX_FRAME_COUNT \<and> (\<forall>b \<in> set bs. length (payload b) + 18 \<le> MAX_INLINE_PAYLOAD_BYTES)"

definition in_sync :: "externals \<Rightarrow> session_shim \<Rightarrow> host \<Rightarrow> receiver \<Rightarrow> bool" where
  "in_sync X s h r \<longleftrightarrow>
     session_ok (x_hash X) (core (h_store h)) s \<and> ss_base_root s = ss_root s \<and>
     c_dict (rc_compressor r) = c_dict (ss_append_compressor s) \<and>
     rs_pending (entry_session (ss_session_id s) r) = {} \<and>
     c_ids (core (rc_store r)) (ss_session_id s) = ss_ids s \<and>
     c_root (core (rc_store r)) (ss_session_id s) = ss_root s \<and>
     (\<forall>i. fst (core (h_store h)) i \<noteq> None \<longrightarrow> fst (core (rc_store r)) i \<noteq> None) \<and>
     addressed (x_hash X) (core (rc_store r))"

section \<open>A turn resolves\<close>

lemma wire_payload_works:
  assumes "zstd_works (x_zstd X) (c_dict (ss_append_compressor s))" "length (payload b) + 18 \<le> MAX_INLINE_PAYLOAD_BYTES"
  shows "compress_pure (x_zstd X) (ss_append_compressor s) (canonical_bytes b) = Ok (wire_payload X s b)"
    and "length (wire_payload X s b) \<le> MAX_INLINE_PAYLOAD_BYTES"
proof -
  have "length (canonical_bytes b) < 2 ^ 64" using assms(2) by (simp add: MAX_INLINE_PAYLOAD_BYTES_def)
  from compress_works [OF assms(1) this]
  show c: "compress_pure (x_zstd X) (ss_append_compressor s) (canonical_bytes b) = Ok (wire_payload X s b)"
    by (auto simp: wire_payload_def)
  show "length (wire_payload X s b) \<le> MAX_INLINE_PAYLOAD_BYTES"
    using compress_pure_Ok [OF c] assms(2) by auto
qed

lemma sent_blocks_resolve:
  assumes "zstd_works (x_zstd X) (c_dict (ss_append_compressor s))" "\<forall>b \<in> set bs. length (payload b) + 18 \<le> MAX_INLINE_PAYLOAD_BYTES"
    and "c_dict rc = c_dict (ss_append_compressor s)" "sent_blocks X s c bs fbs"
    and "\<forall>i. fst c i \<noteq> None \<longrightarrow> store_contains st i \<or> i \<in> avail"
  shows "\<exists>rs. otraverse (resolve_block (x_hash X) (x_zstd X) rc) fbs = Ok rs \<and>
    map resolved_id rs = map (block_id (x_hash X)) bs \<and> refs_available st avail rs \<and>
    (\<forall>i b. RInline i b \<in> set rs \<longrightarrow> i = block_id (x_hash X) b \<and> b \<in> set bs)"
  using assms(2,4,5)
proof (induction bs arbitrary: fbs c avail)
  case Nil
  then show ?case by (cases fbs) auto
next
  case (Cons b bs)
  define H where "H = x_hash X"
  define i where "i = block_id H b"
  obtain fb fbs' where fbs: "fbs = fb # fbs'" using Cons.prems(2) by (cases fbs) auto
  define c' where "c' = c_ingest H (ss_session_id s) [b] c"
  have sb: "sent_block X s c b fb" "sent_blocks X s c' bs fbs'" using Cons.prems(2) fbs by (simp_all add: c'_def H_def)
  have c': "j = i \<or> fst c j \<noteq> None" if "fst c' j \<noteq> None" for j
    using that by (auto simp: c'_def c_ingest_def i_def fst_c_put split: if_splits)
  have small: "\<forall>b \<in> set bs. length (payload b) + 18 \<le> MAX_INLINE_PAYLOAD_BYTES"
    "length (payload b) + 18 \<le> MAX_INLINE_PAYLOAD_BYTES" using Cons.prems(1) by simp_all
  from sb(1) have "fb = Ref i \<and> fst c i \<noteq> None \<or> fb = Inline \<lparr>kind = kind b, seq = seq b, payload = wire_payload X s b\<rparr>"
    by (simp only: sent_block_def H_def i_def)
  then show ?case
  proof
    assume fb: "fb = Ref i \<and> fst c i \<noteq> None"
    have av: "store_contains st i \<or> i \<in> avail" using Cons.prems(3) fb by blast
    have "\<forall>j. fst c' j \<noteq> None \<longrightarrow> store_contains st j \<or> j \<in> avail"
      using Cons.prems(3) av c' by metis
    from Cons.IH [OF small(1) sb(2) this] obtain rs where
      "otraverse (resolve_block H (x_zstd X) rc) fbs' = Ok rs" "map resolved_id rs = map (block_id H) bs"
      "refs_available st avail rs" "\<forall>i b. RInline i b \<in> set rs \<longrightarrow> i = block_id H b \<and> b \<in> set bs"
      unfolding H_def by blast
    then show ?thesis using fb av by (intro exI [of _ "RRef i # rs"]) (auto simp: fbs i_def H_def)
  next
    assume fb: "fb = Inline \<lparr>kind = kind b, seq = seq b, payload = wire_payload X s b\<rparr>"
    have rb: "recover_block H (x_zstd X) rc (wire_payload X s b) = Ok (b, i)"
      unfolding i_def using assms(1,3) small(2)
      by (intro recover_block_compressed [OF _ _ wire_payload_works(1) [OF assms(1) small(2)]])
        (simp_all add: zstd_works_def MAX_BLOCK_PAYLOAD_BYTES_def MAX_INLINE_PAYLOAD_BYTES_def)
    have "\<forall>j. fst c' j \<noteq> None \<longrightarrow> store_contains st j \<or> j \<in> insert i avail"
      using Cons.prems(3) c' by (metis insert_iff)
    from Cons.IH [OF small(1) sb(2) this] obtain rs where
      "otraverse (resolve_block H (x_zstd X) rc) fbs' = Ok rs" "map resolved_id rs = map (block_id H) bs"
      "refs_available st (insert i avail) rs" "\<forall>i b. RInline i b \<in> set rs \<longrightarrow> i = block_id H b \<and> b \<in> set bs"
      unfolding H_def by blast
    then show ?thesis using fb rb by (intro exI [of _ "RInline i b # rs"]) (auto simp: fbs i_def H_def)
  qed
qed

lemma c_apply_contents:
  assumes "refs_available st avail rs" "\<forall>i. store_contains st i \<or> i \<in> avail \<longrightarrow> fst c i \<noteq> None"
  shows "\<forall>it \<in> set rs. fst (c_apply H sid rs c) (resolved_id it) \<noteq> None"
  using assms
proof (induction rs arbitrary: avail c)
  case (Cons it rs)
  show ?case
  proof (cases it)
    case (RInline i b)
    define c1 where "c1 = c_push H sid i (c_put b i c)"
    have c1: "fst c1 i \<noteq> None" "fst c j \<noteq> None \<Longrightarrow> fst c1 j \<noteq> None" for j by (auto simp: c1_def fst_c_put)
    have "\<forall>it \<in> set rs. fst (c_apply H sid rs c1) (resolved_id it) \<noteq> None"
      using Cons.prems RInline c1 by (intro Cons.IH [of "insert i avail"]) auto
    moreover have "fst (c_apply H sid rs c1) i \<noteq> None" using c1(1) c_apply_keeps by blast
    ultimately show ?thesis using RInline by (simp add: c1_def)
  next
    case (RRef i)
    then have i: "fst c i \<noteq> None" "refs_available st avail rs" using Cons.prems by (auto split: if_splits)
    have "\<forall>it \<in> set rs. fst (c_apply H sid rs (c_push H sid i c)) (resolved_id it) \<noteq> None"
      using Cons.prems(2) i by (intro Cons.IH [of avail]) auto
    moreover have "fst (c_apply H sid rs (c_push H sid i c)) i \<noteq> None"
      using i(1) c_apply_keeps [of "c_push H sid i c" i] by fastforce
    ultimately show ?thesis using RRef by simp
  qed
qed simp

lemma c_apply_addressed:
  assumes "addressed H c" "\<forall>i b. RInline i b \<in> set rs \<longrightarrow> i = block_id H b"
  shows "addressed H (c_apply H sid rs c)"
  using assms
proof (induction H sid rs c rule: c_apply.induct)
  case (2 H sid i b rs c)
  have "i = block_id H b" using "2.prems"(2) by simp
  then have "addressed H (c_push H sid i (c_put b i c))" using addressed_ops(1,2) "2.prems"(1) by blast
  then show ?case using "2.IH" "2.prems"(2) by simp
qed auto

lemma c_apply_ran:
  "\<forall>i b. RInline i b \<in> set rs \<longrightarrow> b \<in> B \<Longrightarrow> ran (fst (c_apply H sid rs c)) \<subseteq> ran (fst c) \<union> B"
proof (induction H sid rs c rule: c_apply.induct)
  case (2 H sid i b rs c)
  have "ran (fst (c_push H sid i (c_put b i c))) \<subseteq> ran (fst c) \<union> B"
    using "2.prems" by (auto simp: ran_def fst_c_put split: if_splits)
  then show ?case using "2.IH" "2.prems" by (simp add: subset_iff) blast
qed auto

section \<open>Steady state\<close>

lemma c_ingest_contents: "fst (c_ingest H sid bs c) i \<noteq> None \<Longrightarrow> fst c i \<noteq> None \<or> i \<in> set (map (block_id H) bs)"
proof (induction bs arbitrary: c)
  case (Cons b bs)
  have "fst (c_push H sid (block_id H b) (c_put b (block_id H b) c)) i \<noteq> None \<longleftrightarrow> i = block_id H b \<or> fst c i \<noteq> None"
    by (auto simp: fst_c_put)
  then show ?case using Cons.IH [OF Cons.prems [unfolded c_ingest_Cons]] by auto
qed (simp add: c_ingest_def)

lemma sent_blocks_wf:
  assumes "zstd_works (x_zstd X) (c_dict (ss_append_compressor s))" "hash32 (x_hash X)"
    and "\<forall>b \<in> set bs. length (payload b) + 18 \<le> MAX_INLINE_PAYLOAD_BYTES" "sent_blocks X s c bs fbs"
  shows "length fbs = length bs \<and> list_all wf_frame_block fbs"
  using assms(3,4)
proof (induction bs arbitrary: fbs c)
  case Nil
  then show ?case by (cases fbs) auto
next
  case (Cons b bs)
  then obtain fb fbs' where fbs: "fbs = fb # fbs'" by (cases fbs) auto
  define c' where "c' = c_ingest (x_hash X) (ss_session_id s) [b] c"
  have sb: "sent_block X s c b fb" "sent_blocks X s c' bs fbs'" using Cons.prems(2) fbs by (simp_all add: c'_def)
  have "length fbs' = length bs \<and> list_all wf_frame_block fbs'" using Cons.IH [OF _ sb(2)] Cons.prems(1) by simp
  moreover have "wf_frame_block fb"
    using sb(1) wire_payload_works(2) [OF assms(1), of b] assms(2) Cons.prems(1) by (auto simp: sent_block_def)
  ultimately show ?case by (simp add: fbs)
qed

lemma deliver_wf: "wf_frame f \<Longrightarrow> deliver X f r = handle_frame (x_hash X) (x_zstd X) f r"
  by (simp add: deliver_def decode_encode_frame)

lemma entry_session_put_other: "entry_session sid (put_session sid (entry_session sid r) r) = entry_session sid r"
  by simp

lemma exchange_in_sync:
  assumes z: "zstd_works (x_zstd X) (c_dict (ss_append_compressor s))" and H: "hash32 (x_hash X)" and sync: "in_sync X s h r" and t: "turn_ok bs"
  obtains s' h' r' where "exchange X bs (s, h, r) = Some (s', h', r')" "in_sync X s' h' r'"
    "ss_session_id s' = ss_session_id s" "ss_ids s' = ss_ids s @ map (block_id (x_hash X)) bs"
    "ran (fst (core (rc_store r'))) \<subseteq> ran (fst (core (rc_store r))) \<union> set bs" "rc_sessions r' (ss_session_id s) \<noteq> None"
    "c_dict (ss_append_compressor s') = c_dict (ss_append_compressor s)"
proof -
  define Ha where "Ha = x_hash X"
  define sid where "sid = ss_session_id s"
  obtain fr s1 h1 where it: "ingest_turn X bs (s, h) = (fr, s1, h1)" by (metis prod_cases3)
  note f = ingest_turn_facts [OF it, folded Ha_def sid_def]
  have sok: "session_ok Ha (core (h_store h)) s" and base: "ss_base_root s = ss_root s"
    and dict: "c_dict (rc_compressor r) = c_dict (ss_append_compressor s)"
    and pend: "rs_pending (entry_session sid r) = {}"
    and ids: "c_ids (core (rc_store r)) sid = ss_ids s" and root: "c_root (core (rc_store r)) sid = ss_root s"
    and sub: "\<forall>i. fst (core (h_store h)) i \<noteq> None \<longrightarrow> fst (core (rc_store r)) i \<noteq> None"
    and addr: "addressed Ha (core (rc_store r))"
    using sync unfolding in_sync_def Ha_def sid_def by blast+
  have small: "\<forall>b \<in> set bs. length (payload b) + 18 \<le> MAX_INLINE_PAYLOAD_BYTES" using t by (simp add: turn_ok_def)
  have rl: "length (ss_root s) = 32" using sok H by (simp add: session_ok_def Ha_def)
  have wf: "wf_frame (Append fr)"
    using sent_blocks_wf [OF z H small f(3)] t rl base by (simp add: f(5) turn_ok_def)
  have "\<forall>i. fst (core (h_store h)) i \<noteq> None \<longrightarrow> store_contains (rc_store r) i \<or> i \<in> {}"
    using sub by (simp add: core_queries)
  from sent_blocks_resolve [OF z small dict f(3) this] obtain rs where rs:
    "otraverse (resolve_block Ha (x_zstd X) (rc_compressor r)) (af_blocks fr) = Ok rs"
    "map resolved_id rs = map (block_id Ha) bs" "refs_available (rc_store r) {} rs"
    "\<forall>i b. RInline i b \<in> set rs \<longrightarrow> i = block_id Ha b \<and> b \<in> set bs"
    unfolding Ha_def by blast
  have "af_base_root fr = session_root (rc_store r) (af_session_id fr)"
    by (simp add: f(4,5) core_queries root base)
  with handle_append_cases(1) [OF rs(1,3)] pend obtain st' where st':
    "handle_append Ha (x_zstd X) fr r = (Ok \<lparr>ack_session_id = sid, ack_root = session_root st' sid\<rparr>,
       (put_session sid (entry_session sid r) r)\<lparr>rc_store := st'\<rparr>)"
    "core st' = c_apply Ha sid rs (core (rc_store r))"
    unfolding f(4) by metis
  define r' where "r' = (put_session sid (entry_session sid r) r)\<lparr>rc_store := st'\<rparr>"
  have root': "session_root st' sid = ss_root s1"
    unfolding core_queries st'(2) c_apply_queries rs(2) by (simp add: root f(1))
  define s' where "s' = snd (apply_ack Ha (session_root st' sid) s1)"
  have s': "s' = s1\<lparr>ss_base_root := ss_root s1, ss_base_len := length (ss_ids s1)\<rparr>"
    by (simp add: s'_def apply_ack_def root')
  have ex: "exchange X bs (s, h, r) = Some (s', h1, r')"
    using st'(1) by (simp add: exchange_def it deliver_wf [OF wf] handle_frame_def Ha_def [symmetric] s'_def r'_def)
  have s1ok: "session_ok Ha (core (h_store h1)) s1" using ingest_turn_ok [OF _ it] sok by (simp add: Ha_def)
  have "\<forall>i. fst (core (h_store h1)) i \<noteq> None \<longrightarrow> fst (core st') i \<noteq> None"
  proof (intro allI impI)
    fix i assume "fst (core (h_store h1)) i \<noteq> None"
    then have "fst (core (h_store h)) i \<noteq> None \<or> i \<in> set (map (block_id Ha) bs)"
      using c_ingest_contents unfolding f(2) by blast
    then show "fst (core st') i \<noteq> None"
    proof
      assume "fst (core (h_store h)) i \<noteq> None"
      then obtain b where "fst (core (rc_store r)) i = Some b" using sub by blast
      then show ?thesis using c_apply_keeps unfolding st'(2) by (metis option.distinct(1))
    next
      assume "i \<in> set (map (block_id Ha) bs)"
      then have "i \<in> set (map resolved_id rs)" by (simp only: rs(2))
      moreover have "\<forall>it \<in> set rs. fst (c_apply Ha sid rs (core (rc_store r))) (resolved_id it) \<noteq> None"
        by (rule c_apply_contents [OF rs(3)]) (simp add: core_queries)
      ultimately show ?thesis unfolding st'(2) by auto
    qed
  qed
  moreover have "addressed Ha (core st')" unfolding st'(2) using c_apply_addressed [OF addr] rs(4) by blast
  moreover have "c_ids (core st') sid = ss_ids s1" "c_root (core st') sid = ss_root s1"
    unfolding st'(2) c_apply_queries rs(2) by (simp_all add: ids root f(1))
  moreover have "entry_session sid r' = entry_session sid r"
    by (simp add: r'_def entry_session_def put_session_def)
  ultimately have "in_sync X s' h1 r'"
    using s1ok dict pend unfolding in_sync_def Ha_def [symmetric]
    by (simp add: s' r'_def f(1) session_ok_def sid_def [symmetric])
  moreover have "ran (fst (core (rc_store r'))) \<subseteq> ran (fst (core (rc_store r))) \<union> set bs"
    using c_apply_ran [of rs "set bs"] rs(4) st'(2) by (simp add: r'_def)
  ultimately show ?thesis using that ex by (simp add: s' f(1) Ha_def [symmetric] r'_def put_session_def sid_def)
qed

lemma exchanges_in_sync:
  assumes "zstd_works (x_zstd X) (c_dict (ss_append_compressor s))" "hash32 (x_hash X)" "in_sync X s h r" "\<forall>bs \<in> set turns. turn_ok bs"
  shows "\<exists>s' h' r'. exchanges X turns (s, h, r) = Some (s', h', r') \<and> in_sync X s' h' r' \<and>
    ss_session_id s' = ss_session_id s \<and> ss_ids s' = ss_ids s @ map (block_id (x_hash X)) (concat turns) \<and>
    ran (fst (core (rc_store r'))) \<subseteq> ran (fst (core (rc_store r))) \<union> set (concat turns) \<and>
    (turns = [] \<or> rc_sessions r' (ss_session_id s) \<noteq> None)"
  using assms(1,3,4)
proof (induction turns arbitrary: s h r)
  case (Cons bs turns)
  have "turn_ok bs" "\<forall>bs \<in> set turns. turn_ok bs" using Cons.prems(3) by simp_all
  from exchange_in_sync [OF Cons.prems(1) assms(2) Cons.prems(2) this(1)]
  obtain s1 h1 r1 where e: "exchange X bs (s, h, r) = Some (s1, h1, r1)" "in_sync X s1 h1 r1"
    "ss_session_id s1 = ss_session_id s" "ss_ids s1 = ss_ids s @ map (block_id (x_hash X)) bs"
    "ran (fst (core (rc_store r1))) \<subseteq> ran (fst (core (rc_store r))) \<union> set bs" "rc_sessions r1 (ss_session_id s) \<noteq> None"
    "c_dict (ss_append_compressor s1) = c_dict (ss_append_compressor s)" .
  have "zstd_works (x_zstd X) (c_dict (ss_append_compressor s1))" using Cons.prems(1) e(7) by simp
  from Cons.IH [OF this e(2) \<open>\<forall>bs \<in> set turns. turn_ok bs\<close>] obtain s' h' r' where g:
    "exchanges X turns (s1, h1, r1) = Some (s', h', r')" "in_sync X s' h' r'" "ss_session_id s' = ss_session_id s1"
    "ss_ids s' = ss_ids s1 @ map (block_id (x_hash X)) (concat turns)"
    "ran (fst (core (rc_store r'))) \<subseteq> ran (fst (core (rc_store r1))) \<union> set (concat turns)"
    "turns = [] \<or> rc_sessions r' (ss_session_id s1) \<noteq> None"
    by blast
  have "rc_sessions r' (ss_session_id s) \<noteq> None" using g(1,6) e(3,6) by (cases turns) auto
  moreover have "ran (fst (core (rc_store r'))) \<subseteq> ran (fst (core (rc_store r))) \<union> set (concat (bs # turns))"
    using g(5) e(5) by auto
  ultimately show ?case using e g by auto
qed simp

text \<open>C4: The steady state is stable.  Once the peers agree on the log, every later turn, however
  many, is delivered over the wire, accepted and acknowledged, and leaves the peers agreeing again:
  the receiver's log is extended by exactly the turns' block ids and its root is the client's root.\<close>

theorem steady_state_sync:
  assumes "zstd_works (x_zstd X) (c_dict (ss_append_compressor s))" "hash32 (x_hash X)" "in_sync X s h r" "\<forall>bs \<in> set turns. turn_ok bs"
  shows "\<exists>s' h' r'. exchanges X turns (s, h, r) = Some (s', h', r') \<and> in_sync X s' h' r' \<and>
    session_ids (rc_store r') (ss_session_id s) =
      session_ids (rc_store r) (ss_session_id s) @ map (block_id (x_hash X)) (concat turns) \<and>
    session_root (rc_store r') (ss_session_id s) = ss_root s'"
proof -
  obtain s' h' r' where g: "exchanges X turns (s, h, r) = Some (s', h', r')" "in_sync X s' h' r'"
    "ss_session_id s' = ss_session_id s" "ss_ids s' = ss_ids s @ map (block_id (x_hash X)) (concat turns)"
    using exchanges_in_sync [OF assms] by blast
  have "c_ids (core (rc_store r)) (ss_session_id s) = ss_ids s" using assms(3) by (simp add: in_sync_def)
  moreover have "c_ids (core (rc_store r')) (ss_session_id s) = ss_ids s'" "c_root (core (rc_store r')) (ss_session_id s) = ss_root s'"
    using g(2,3) by (simp_all add: in_sync_def)
  ultimately show ?thesis using g unfolding core_queries by auto
qed

lemma fresh_in_sync:
  assumes "core st = (Map.empty, Map.empty)" "core st' = (Map.empty, Map.empty)"
  shows "in_sync X (fst (session_shim_new sid st c)) (snd (session_shim_new sid st c)) (receiver_new st' c)"
proof -
  have "st_sessions st' = Map.empty" using assms(2) by (simp add: core_def)
  then show ?thesis using assms
    by (simp add: in_sync_def session_shim_new_def session_with_filter_def session_ok_def root_over_def with_level_def
        receiver_new_def entry_session_def fresh_session_def session_list_def)
qed

lemma map_filter_total: "\<forall>x \<in> set xs. f (g x) = Some x \<Longrightarrow> List.map_filter f (map g xs) = xs"
  by (induction xs) (simp_all add: List.map_filter_def)

text \<open>C1: End to end: for a new session between a shim and a receiver with empty stores, after any
  sequence of turns the receiver reconstructs exactly the blocks the client ingested, in order,
  provided no two of them collide under the block hash.\<close>

theorem append_log_delivered:
  assumes "zstd_works (x_zstd X) (c_dict c)" "hash32 (x_hash X)" "\<forall>bs \<in> set turns. turn_ok bs"
    and "inj_on (block_id (x_hash X)) (set (concat turns))"
    and "session_shim_new sid store_new c = (s, h)"
  shows "\<exists>s' h' r'. exchanges X turns (s, h, receiver_new store_new c) = Some (s', h', r') \<and>
    receiver_reconstruct sid r' = concat turns \<and> session_root (rc_store r') sid = ss_root s'"
proof -
  define H where "H = x_hash X"
  define bs where "bs = concat turns"
  have sync: "in_sync X s h (receiver_new store_new c)" and sid: "ss_session_id s = sid" and ids: "ss_ids s = []"
    and dict: "c_dict (ss_append_compressor s) = c_dict c"
    using fresh_in_sync [of store_new store_new X sid c] assms(5)
    by (auto simp: session_shim_new_def session_with_filter_def with_level_def)
  from exchanges_in_sync [OF assms(1) [folded dict] assms(2) sync assms(3)] obtain s' h' r' where
    g: "exchanges X turns (s, h, receiver_new store_new c) = Some (s', h', r')" "in_sync X s' h' r'"
    "ss_session_id s' = sid" "ss_ids s' = map (block_id H) bs"
    "ran (fst (core (rc_store r'))) \<subseteq> set bs" "turns = [] \<or> rc_sessions r' sid \<noteq> None"
    unfolding sid ids H_def bs_def by (auto simp: receiver_new_def)
  define c' where "c' = core (rc_store r')"
  have sy: "session_ok H (core (h_store h')) s'" "c_ids c' sid = map (block_id H) bs" "c_root c' sid = ss_root s'"
      "\<forall>i. fst (core (h_store h')) i \<noteq> None \<longrightarrow> fst c' i \<noteq> None" "addressed H c'"
    using g(2,3,4) unfolding in_sync_def H_def c'_def by auto
  have "fst c' (block_id H b) = Some b" if "b \<in> set bs" for b
  proof -
    have "fst (core (h_store h')) (block_id H b) \<noteq> None" using sy(1) that g(4) by (simp add: session_ok_def del: not_None_eq)
    then obtain y where y: "fst c' (block_id H b) = Some y" using sy(4) by blast
    then have "y \<in> set bs" "block_id H y = block_id H b" using g(5) sy(5) by (auto simp: c'_def ran_def addressed_def)
    then show ?thesis using y that assms(4) by (auto simp: inj_on_def H_def bs_def)
  qed
  then have "List.map_filter (fst c') (map (block_id H) bs) = bs" by (intro map_filter_total) simp
  then have "reconstruct (rc_store r') sid = bs" by (simp add: core_queries c'_def [symmetric] sy(2))
  moreover have "receiver_reconstruct sid r' = reconstruct (rc_store r') sid \<or> bs = []"
    using g(6) by (auto simp: receiver_reconstruct_def bs_def)
  moreover have "receiver_reconstruct sid r' = []" if "bs = []"
    using calculation(1) that by (simp add: receiver_reconstruct_def)
  ultimately show ?thesis using g(1) sy(3) by (auto simp: core_queries c'_def bs_def)
qed

lemma demo_works: "zstd_works demo_zstd D" "hash32 step_hash"
proof -
  show "zstd_works demo_zstd D" using demo_zstd_ok by (simp add: zstd_works_def demo_zstd_def)
  show "hash32 step_hash" by (simp add: hash32_def step_hash_def)
qed

definition demo_turns :: "block list list" where
  "demo_turns = [[block_new Message 1 [7], block_new Message 2 [8]], [block_new Message 1 [7]]]"

lemma demo_turns_ok:
  "\<forall>bs \<in> set demo_turns. turn_ok bs" "inj_on (block_id step_hash) (set (concat demo_turns))"
  by (auto simp: demo_turns_def turn_ok_def block_new_def MAX_FRAME_COUNT_def MAX_INLINE_PAYLOAD_BYTES_def
      block_id_def step_hash_def canonical_into_def)

theorem steady_state_sync_witness:
  "\<exists>s' h' r'. exchanges demo_externals demo_turns
      (fst (session_shim_new 1 store_new compressor_default), snd (session_shim_new 1 store_new compressor_default),
       receiver_new store_new compressor_default) = Some (s', h', r') \<and>
    in_sync demo_externals s' h' r'"
proof -
  have "zstd_works (x_zstd demo_externals) D" "hash32 (x_hash demo_externals)" for D using demo_works by (simp_all add: demo_externals_def)
  from steady_state_sync [OF this fresh_in_sync [OF core_store_new core_store_new] demo_turns_ok(1)]
  show ?thesis by blast
qed

theorem append_log_delivered_witness:
  "\<exists>s' h' r'. exchanges demo_externals demo_turns
      (fst (session_shim_new 1 store_new compressor_default), snd (session_shim_new 1 store_new compressor_default),
       receiver_new store_new compressor_default) = Some (s', h', r') \<and>
    receiver_reconstruct 1 r' = [block_new Message 1 [7], block_new Message 2 [8], block_new Message 1 [7]]"
proof -
  have w: "zstd_works (x_zstd demo_externals) (c_dict compressor_default)" "hash32 (x_hash demo_externals)"
    "inj_on (block_id (x_hash demo_externals)) (set (concat demo_turns))"
    using demo_works demo_turns_ok(2) by (simp_all add: demo_externals_def)
  have "concat demo_turns = [block_new Message 1 [7], block_new Message 2 [8], block_new Message 1 [7]]"
    by (simp add: demo_turns_def)
  then show ?thesis
    using append_log_delivered [OF w(1,2) demo_turns_ok(1) w(3) prod.collapse [symmetric], of 1] by auto
qed

end
