(* ===== verification/Envelope.thy ===== *)
theory Envelope
  imports Protocol
begin

text \<open>
  The formats of the sidecar (\<open>crates/sidecar/src/lib.rs\<close>): the binary envelope around a chat request, the
  hexadecimal roots of the HTTP headers, and the token comparison.  JSON is handled by \<open>serde_json\<close>,
  whose functions the model takes as a record of parameters over an unspecified type of values.
\<close>

section \<open>Parameters and errors\<close>

record 'j serde =
  sj_to_vec :: "'j \<Rightarrow> bytes"
  sj_from_slice :: "bytes \<Rightarrow> 'j option"
  sj_metadata_from_slice :: "bytes \<Rightarrow> 'j option"
  sj_as_object :: "'j \<Rightarrow> (string \<rightharpoonup> 'j) option"
  sj_as_str :: "'j \<Rightarrow> string option"
  sj_has_role :: "bytes \<Rightarrow> bool"

definition ascii :: "string \<Rightarrow> bytes" where
  "ascii s = map of_char s"

text \<open>\<open>SidecarError\<close>; where the code keeps the text of another error, the model keeps the error, and
  the text of a failed HTTP response is left out.\<close>

datatype frame_cause =
    FromFrame frame_error
  | FromCompress compress_error
  | FromCanonical string
  | FromShim shim_error

datatype sidecar_error =
    EnvelopeError string
  | MetadataError
  | FrameError frame_cause
  | SidecarReceiver receiver_error
  | RequestNotObject
  | MessagesInMetadata
  | InvalidMessage nat
  | RequestInFlight
  | InvalidAckHeader
  | UnexpectedAckRoot
  | UnexpectedFrame
  | HttpStatus nat
  | UpstreamError
  | Durability

section \<open>The chat envelope\<close>

definition PROTOCOL_VERSION :: u16 where "PROTOCOL_VERSION = 1"
definition MAGIC :: bytes where "MAGIC = ascii ''DLR1''"
definition MAX_METADATA_BYTES :: nat where "MAX_METADATA_BYTES = 2 * 1024 * 1024"
definition MAX_REQUEST_BYTES :: nat where "MAX_REQUEST_BYTES = 64 * 1024 * 1024"

record 'j chat_envelope =
  ce_request :: 'j
  ce_frame :: bytes

text \<open>\<open>usize::checked_add\<close> on 64 bits\<close>

definition checked_add :: "nat \<Rightarrow> nat \<Rightarrow> nat option" where
  "checked_add a b = (if a + b < 2 ^ 64 then Some (a + b) else None)"

definition encode_parts :: "bytes \<Rightarrow> bytes \<Rightarrow> (bytes, sidecar_error) outcome" where
  "encode_parts metadata frame =
     (if length metadata > MAX_METADATA_BYTES then Err (EnvelopeError ''metadata exceeds 2 MiB'')
      else case Option.bind (checked_add 10 (length metadata)) (\<lambda>n. checked_add n (length frame)) of
        None \<Rightarrow> Err (EnvelopeError ''length overflow'')
      | Some len \<Rightarrow>
          if len > MAX_REQUEST_BYTES then Err (EnvelopeError ''request exceeds 64 MiB'')
          else Ok (MAGIC @ le16 PROTOCOL_VERSION @ le32 (word_of_nat (length metadata)) @ metadata @ frame))"

text \<open>The metadata object \<open>{"request": ...}\<close>\<close>

definition metadata_bytes :: "'j serde \<Rightarrow> 'j \<Rightarrow> bytes" where
  "metadata_bytes J request = ascii ''{\"request\":'' @ sj_to_vec J request @ ascii ''}''"

definition envelope_encode :: "'j serde \<Rightarrow> 'j chat_envelope \<Rightarrow> (bytes, sidecar_error) outcome" where
  "envelope_encode J e = encode_parts (metadata_bytes J (ce_request e)) (ce_frame e)"

definition envelope_decode :: "'j serde \<Rightarrow> bytes \<Rightarrow> ('j chat_envelope, sidecar_error) outcome" where
  "envelope_decode J body =
     (if length body < 10 \<or> take 4 body \<noteq> MAGIC then Err (EnvelopeError ''bad magic or truncated header'')
      else if rd16 (take 2 (drop 4 body)) \<noteq> PROTOCOL_VERSION then Err (EnvelopeError ''unsupported protocol version'')
      else
        let metadata_len = unat (rd32 (take 4 (drop 6 body)))
        in if metadata_len > MAX_METADATA_BYTES then Err (EnvelopeError ''metadata exceeds 2 MiB'')
           else case checked_add 10 metadata_len of
             None \<Rightarrow> Err (EnvelopeError ''length overflow'')
           | Some frame_start \<Rightarrow>
               if frame_start \<ge> length body then Err (EnvelopeError ''missing frame'')
               else case sj_metadata_from_slice J (take (frame_start - 10) (drop 10 body)) of
                 None \<Rightarrow> Err MetadataError
               | Some request \<Rightarrow> Ok \<lparr>ce_request = request, ce_frame = drop frame_start body\<rparr>)"

section \<open>Roots in headers\<close>

definition HEX :: string where "HEX = ''0123456789abcdef''"

definition root_hex :: "merkle_root \<Rightarrow> string" where
  "root_hex root = concat (map (\<lambda>b. [HEX ! unat (drop_bit 4 b), HEX ! unat (b AND 15)]) root)"

definition hex_nibble :: "u8 \<Rightarrow> u8 option" where
  "hex_nibble v =
     (if of_char CHR ''0'' \<le> v \<and> v \<le> of_char CHR ''9'' then Some (v - of_char CHR ''0'')
      else if of_char CHR ''a'' \<le> v \<and> v \<le> of_char CHR ''f'' then Some (v - of_char CHR ''a'' + 10)
      else if of_char CHR ''A'' \<le> v \<and> v \<le> of_char CHR ''F'' then Some (v - of_char CHR ''A'' + 10)
      else None)"

fun parse_pairs :: "bytes \<Rightarrow> bytes option" where
  "parse_pairs (a # b # r) =
     (case hex_nibble a of
        None \<Rightarrow> None
      | Some x \<Rightarrow> (case hex_nibble b of
          None \<Rightarrow> None
        | Some y \<Rightarrow> map_option (\<lambda>rest. (push_bit 4 x OR y) # rest) (parse_pairs r)))"
| "parse_pairs r = Some []"

definition parse_root_hex :: "string \<Rightarrow> merkle_root option" where
  "parse_root_hex s = (if length s \<noteq> 64 then None else parse_pairs (ascii s))"

section \<open>Token comparison\<close>

definition constant_time_eq :: "bytes \<Rightarrow> bytes \<Rightarrow> bool" where
  "constant_time_eq l r =
     (if length l \<noteq> length r then False
      else fold (\<lambda>(a, b) diff. diff OR (a XOR b)) (zip l r) 0 = 0)"

section \<open>Properties\<close>

lemma encode_parts_Ok:
  "encode_parts md frame = Ok body \<longleftrightarrow>
     length md \<le> MAX_METADATA_BYTES \<and> 10 + length md + length frame \<le> MAX_REQUEST_BYTES \<and>
     body = MAGIC @ le16 PROTOCOL_VERSION @ le32 (word_of_nat (length md)) @ md @ frame"
  by (auto simp: encode_parts_def checked_add_def MAX_REQUEST_BYTES_def MAX_METADATA_BYTES_def split: if_splits)

lemma encode_parts_not_Panic [no_panic]: "encode_parts md frame \<noteq> Panic"
  by (simp add: encode_parts_def split: option.split)

lemma MAGIC_length [simp]: "length MAGIC = 4"
  by (simp add: MAGIC_def ascii_def)

lemma envelope_decode_bytes:
  assumes "length md \<le> MAX_METADATA_BYTES" "frame \<noteq> []"
  shows "envelope_decode J (MAGIC @ le16 PROTOCOL_VERSION @ le32 (word_of_nat (length md)) @ md @ frame) =
    (case sj_metadata_from_slice J md of None \<Rightarrow> Err MetadataError | Some r \<Rightarrow> Ok \<lparr>ce_request = r, ce_frame = frame\<rparr>)"
proof -
  have "length md < 2 ^ 32" using assms(1) by (simp add: MAX_METADATA_BYTES_def)
  then have u: "unat (word_of_nat (length md) :: u32) = length md" by (simp add: unat_of_nat)
  have d: "drop (10 + length md) (MAGIC @ le16 PROTOCOL_VERSION @ le32 (word_of_nat (length md)) @ md @ frame) = frame" by simp
  show ?thesis using assms unfolding envelope_decode_def
    by (simp add: u checked_add_def MAX_METADATA_BYTES_def Let_def d [simplified] split: option.split)
qed

lemma le_rd:
  "length a = 2 \<Longrightarrow> le16 (rd16 a) = a" "length b = 4 \<Longrightarrow> le32 (rd32 b) = b"
  using from_le_lt [of a] from_le_lt [of b] to_le_from_le [of a] to_le_from_le [of b]
  by (simp_all add: le16_def rd16_def le32_def rd32_def unat_of_nat take_bit_nat_eq_self)

text \<open>The envelope decoder accepts exactly what the encoder writes: a body decodes to a request and a frame if
  and only if it is the encoding of metadata that parses to that request, within the metadata limit,
  followed by that frame, which is not empty.\<close>

theorem envelope_decode_exact:
  "envelope_decode J body = Ok e \<longleftrightarrow>
     (\<exists>md. body = MAGIC @ le16 PROTOCOL_VERSION @ le32 (word_of_nat (length md)) @ md @ ce_frame e \<and>
           length md \<le> MAX_METADATA_BYTES \<and> ce_frame e \<noteq> [] \<and> sj_metadata_from_slice J md = Some (ce_request e))"
proof
  assume d: "envelope_decode J body = Ok e"
  define n where "n = unat (rd32 (take 4 (drop 6 body)))"
  have h: "10 \<le> length body" "take 4 body = MAGIC" "rd16 (take 2 (drop 4 body)) = PROTOCOL_VERSION"
    "n \<le> MAX_METADATA_BYTES" "10 + n < length body" "sj_metadata_from_slice J (take n (drop 10 body)) = Some (ce_request e)"
    "ce_frame e = drop (10 + n) body"
    using d by (auto simp: envelope_decode_def Let_def n_def [symmetric] checked_add_def split: if_splits option.splits)
  have v: "take 2 (drop 4 body) = le16 PROTOCOL_VERSION"
    using h(1,3) le_rd(1) [of "take 2 (drop 4 body)"] by simp
  have w: "take 4 (drop 6 body) = le32 (word_of_nat n)"
    using h(1) le_rd(2) [of "take 4 (drop 6 body)"] by (simp add: n_def)
  have len: "length (take n (drop 10 body)) = n" using h(5) by simp
  have "body = take 4 body @ take 2 (drop 4 body) @ take 4 (drop 6 body) @ take n (drop 10 body) @ drop (10 + n) body"
  proof -
    have "drop 4 body = take 2 (drop 4 body) @ drop 6 body" "drop 6 body = take 4 (drop 6 body) @ drop 10 body"
      "drop 10 body = take n (drop 10 body) @ drop (10 + n) body"
      using append_take_drop_id [of 2 "drop 4 body"] append_take_drop_id [of 4 "drop 6 body"] append_take_drop_id [of n "drop 10 body"]
      by (simp_all add: add.commute)
    then show ?thesis by (metis append_take_drop_id)
  qed
  then show "\<exists>md. body = MAGIC @ le16 PROTOCOL_VERSION @ le32 (word_of_nat (length md)) @ md @ ce_frame e \<and>
           length md \<le> MAX_METADATA_BYTES \<and> ce_frame e \<noteq> [] \<and> sj_metadata_from_slice J md = Some (ce_request e)"
  proof (intro exI conjI)
    show "body = MAGIC @ le16 PROTOCOL_VERSION @ le32 (word_of_nat (length (take n (drop 10 body)))) @ take n (drop 10 body) @ ce_frame e"
      using \<open>body = take 4 body @ _\<close> len by (simp only: h(2,7) v w)
    show "ce_frame e \<noteq> []" using h(5,7) by simp
  qed (use h(4,6) len in simp_all)
next
  assume "\<exists>md. body = MAGIC @ le16 PROTOCOL_VERSION @ le32 (word_of_nat (length md)) @ md @ ce_frame e \<and>
           length md \<le> MAX_METADATA_BYTES \<and> ce_frame e \<noteq> [] \<and> sj_metadata_from_slice J md = Some (ce_request e)"
  then obtain md where m: "body = MAGIC @ le16 PROTOCOL_VERSION @ le32 (word_of_nat (length md)) @ md @ ce_frame e"
    "length md \<le> MAX_METADATA_BYTES" "ce_frame e \<noteq> []" "sj_metadata_from_slice J md = Some (ce_request e)" by blast
  show "envelope_decode J body = Ok e" unfolding m(1) envelope_decode_bytes [OF m(2,3)] m(4) by simp
qed

lemma nibble_of_hex: "n < 16 \<Longrightarrow> hex_nibble (of_char (HEX ! n)) = Some (word_of_nat n)"
proof -
  assume "n < 16"
  then have "n \<in> set [0..<16]" by simp
  moreover have "list_all (\<lambda>n. hex_nibble (of_char (HEX ! n)) = Some (word_of_nat n)) [0..<16]" by code_simp
  ultimately show ?thesis by (simp only: list_all_iff)
qed

lemma byte_of_nibbles: "push_bit 4 (word_of_nat (unat (drop_bit 4 b))) OR word_of_nat (unat (b AND 15)) = (b :: u8)"
proof -
  have "push_bit 4 (drop_bit 4 b) OR (b AND mask 4) = b"
    by (rule bit_word_eqI) (auto simp: bit_or_iff bit_and_iff bit_push_bit_iff bit_drop_bit_eq bit_mask_iff not_le)
  then show ?thesis by (simp add: mask_numeral)
qed

lemma hex_nibble_bounds: "unat (drop_bit 4 b) < 16" "unat (b AND 15) < 16" for b :: u8
proof -
  show "unat (drop_bit 4 b) < 16" using unsigned_less [of b, where ?'a = nat]
    by (simp add: drop_bit_eq_div unat_div div_less_iff_less_mult)
  have "b AND 15 \<le> 15" by (rule word_and_le1)
  then show "unat (b AND 15) < 16" by (simp add: word_le_nat_alt)
qed

lemma parse_pairs_hex: "parse_pairs (ascii (root_hex r)) = Some r"
proof (induction r)
  case (Cons b r)
  then show ?case using hex_nibble_bounds [of b] nibble_of_hex byte_of_nibbles [of b] by (simp add: root_hex_def ascii_def)
qed (simp add: root_hex_def ascii_def)

lemma fold_diff: "fold (\<lambda>(a, b) diff. diff OR (a XOR b)) (zip l r) d = 0 \<longleftrightarrow> d = 0 \<and> (\<forall>(a, b) \<in> set (zip l r). a = (b :: u8))"
proof (induction "zip l r" arbitrary: l r d)
  case (Cons p ps)
  obtain a l' where l: "l = a # l'" "fst p = a" using Cons.hyps(2) by (cases l; cases r) auto
  obtain b r' where r: "r = b # r'" "snd p = b" "ps = zip l' r'" using Cons.hyps(2) l by (cases r) auto
  have "a XOR b = 0 \<longleftrightarrow> a = b" by (metis xor_self_eq xor.left_neutral xor.assoc)
  moreover have "d OR (a XOR b) = 0 \<longleftrightarrow> d = 0 \<and> a XOR b = 0" by (simp add: or_eq_0_iff)
  ultimately show ?case using Cons.hyps(1) [OF r(3), of "d OR (a XOR b)"] by (auto simp: l r)
qed auto

text \<open>Header values are faithful: a 32-byte root survives printing and parsing, and the constant-time token
  comparison is equality of byte strings.\<close>

theorem header_values_exact:
  "(length r = 32 \<longrightarrow> parse_root_hex (root_hex r) = Some r) \<and> constant_time_eq a b = (a = b)"
proof
  have "length (root_hex r) = 2 * length r" by (induction r) (simp_all add: root_hex_def)
  then show "length r = 32 \<longrightarrow> parse_root_hex (root_hex r) = Some r" by (simp add: parse_root_hex_def parse_pairs_hex)
  show "constant_time_eq a b = (a = b)"
    unfolding constant_time_eq_def fold_diff by (auto simp: list_eq_iff_zip_eq)
qed

theorem header_values_exact_witness: "parse_root_hex (root_hex (replicate 32 171)) = Some (replicate 32 171)"
  using header_values_exact [of "replicate 32 171"] by simp

end
