(* ===== verification/ColdStart.thy ===== *)
theory ColdStart
  imports Protocol
begin

text \<open>
  The cold start: the client's manifest seeds the receiver's log, the missing blocks travel as
  fountain-coded generations of whole records, and the receiver acknowledges when the last missing
  block is stored, in whatever order the generations arrive.
\<close>

section \<open>Records and chunks\<close>

definition frame_record :: "bytes \<Rightarrow> bytes" where
  "frame_record z = le32 (word_of_nat (length z)) @ z"

lemma frame_record_nonempty [simp]: "frame_record z \<noteq> []"
proof -
  have "length (frame_record z) = 4 + length z" by (simp add: frame_record_def le32_def)
  then show ?thesis by auto
qed

lemma parse_records_zeros: "parse_records (replicate n 0) = []"
proof (cases "n < 4")
  case False
  have "take 4 (replicate n (0 :: u8)) = replicate 4 0" using False by simp
  moreover have "rd32 (replicate 4 0) = 0" by (simp add: rd32_def numeral_eq_Suc)
  ultimately show ?thesis by (subst parse_records.simps) (simp add: Let_def)
qed (simp add: parse_records.simps)

lemma parse_records_frames:
  assumes "\<forall>z \<in> set zs. z \<noteq> [] \<and> length z < 2 ^ 32"
  shows "parse_records (concat (map frame_record zs) @ replicate n 0) = zs"
  using assms
proof (induction zs)
  case Nil
  then show ?case by (simp add: parse_records_zeros)
next
  case (Cons z zs)
  define rest where "rest = concat (map frame_record zs) @ replicate n 0"
  have l: "unat (word_of_nat (length z) :: u32) = length z" using Cons.prems by (simp add: unat_of_nat)
  have "parse_records (le32 (word_of_nat (length z)) @ z @ rest) = z # parse_records rest"
    using Cons.prems by (subst parse_records.simps) (simp add: Let_def codec_simps l)
  then have "parse_records (concat (map frame_record (z # zs)) @ replicate n 0) = z # parse_records rest"
    by (simp only: rest_def frame_record_def list.map concat.simps append.assoc)
  then show ?case using Cons by (simp add: rest_def)
qed

lemma pack_records_groups:
  "\<exists>groups. pack_records full recs (concat cur) = map concat groups \<and> concat groups = cur @ recs"
  if "\<forall>x \<in> set (cur @ recs). x \<noteq> []"
  using that
proof (induction recs arbitrary: cur)
  case Nil
  show ?case
  proof (cases "concat cur = []")
    case True
    then have "cur = []" using Nil by (cases cur) auto
    then show ?thesis by (intro exI [of _ "[]"]) simp
  next
    case False
    then show ?thesis by (intro exI [of _ "[cur]"]) simp
  qed
next
  case (Cons x recs)
  show ?case
  proof (cases "concat cur \<noteq> [] \<and> length (concat cur) + length x > full")
    case True
    from Cons.IH [of "[x]"] Cons.prems obtain groups where
      "pack_records full recs (concat [x]) = map concat groups" "concat groups = [x] @ recs" by auto
    then show ?thesis using True by (intro exI [of _ "cur # groups"]) simp
  next
    case False
    from Cons.IH [of "cur @ [x]"] Cons.prems obtain groups where
      "pack_records full recs (concat (cur @ [x])) = map concat groups" "concat groups = (cur @ [x]) @ recs" by auto
    then show ?thesis using False by (intro exI [of _ groups]) auto
  qed
qed

lemma pack_records_size:
  assumes "\<forall>x \<in> set recs. length x \<le> m" "full \<le> m" "length cur \<le> m"
  shows "\<forall>c \<in> set (pack_records full recs cur). c \<noteq> [] \<and> length c \<le> m"
  using assms
proof (induction recs arbitrary: cur)
  case (Cons x recs)
  show ?case
  proof (cases "cur \<noteq> [] \<and> length cur + length x > full")
    case True
    then have "pack_records full (x # recs) cur = cur # pack_records full recs x" by (simp only: pack_records.simps if_True simp_thms)
    moreover have "\<forall>c \<in> set (pack_records full recs x). c \<noteq> [] \<and> length c \<le> m"
      by (rule Cons.IH) (use Cons.prems in simp_all)
    ultimately show ?thesis using True Cons.prems(3) by simp
  next
    case False
    then have "length (cur @ x) \<le> m" using Cons.prems by auto
    then have "\<forall>c \<in> set (pack_records full recs (cur @ x)). c \<noteq> [] \<and> length c \<le> m"
      by (rule_tac Cons.IH) (use Cons.prems in simp_all)
    then show ?thesis using False by (simp only: pack_records.simps if_False)
  qed
qed simp

section \<open>One generation\<close>

lemma add_symbols_sent:
  assumes "k \<le> 2 ^ 16" "\<forall>w \<in> set ws. \<exists>pairs pl. w = encode_symbol_wire pairs pl \<and> sent_symbol k sz S pairs pl"
    and "fd_k d = k" "fd_symbol_size d = sz"
  shows "add_symbols ws d = (Ok (), foldl (\<lambda>d w. snd (decoder_add w d)) d ws)"
  using assms(2-4)
proof (induction ws arbitrary: d)
  case (Cons w ws)
  obtain pairs pl where w: "w = encode_symbol_wire pairs pl" "sent_symbol k sz S pairs pl" using Cons.prems(1) by auto
  have "decoder_add w d = (Ok True, d\<lparr>fd_syms := fd_syms d @ [\<lparr>cover = pairs, ps_payload = pl\<rparr>]\<rparr>)"
    unfolding w(1) using w(2) assms(1) Cons.prems(2,3)
    by (intro decoder_add_wire) (auto simp: sent_symbol_def sym_wf_def)
  then show ?case using Cons by simp
qed simp

lemma div_ceil_self: "0 < a \<Longrightarrow> div_ceil a a = 1"
  unfolding div_ceil_def by (rule div_nat_eqI) simp_all

text \<open>The bounds of a chunk that the u16 indices and the u32 fields of a frame can carry.\<close>

definition chunk_ok :: "session_shim \<Rightarrow> bytes \<Rightarrow> bool" where
  "chunk_ok s chunk \<longleftrightarrow> chunk \<noteq> [] \<and> ss_fountain_symbol_size s = 1024 \<and> length chunk \<le> 1024 * 65535"

lemma encode_chunk_decodes:
  assumes "chunk_ok s chunk"
  obtains fr d d' syms n where "encode_chunk X pct s (g, chunk) = Ok fr"
    "bf_session_id fr = ss_session_id s" "bf_generation fr = word_of_nat g"
    "add_symbols (bf_symbols fr) (decoder_new (unat (bf_k fr)) (unat (bf_symbol_size fr))) = (Ok (), d)"
    "decoder_decode d = (Ok syms, d')" "concat syms = chunk @ replicate n 0"
proof -
  define gs where "gs = max (div_ceil (length chunk) 1024) 1"
  define cfg where "cfg = \<lparr>bc_gen_size = gs, bc_symbol_size = 1024, bc_repair = x_repair X pct, bc_generations = 0\<rparr>"
  have sz: "ss_fountain_symbol_size s = 1024" "chunk \<noteq> []" "length chunk \<le> 1024 * 65535" using assms by (simp_all add: chunk_ok_def)
  have gs: "gs \<le> 65535" "0 < gs" using sz(3) by (auto simp: gs_def div_ceil_def)
  have one: "total_full_gens (length chunk) cfg = 1"
  proof -
    have "max (div_ceil (length chunk) (bc_symbol_size cfg)) 1 = gs" "bc_gen_size cfg = gs"
      by (simp_all add: cfg_def gs_def)
    then show ?thesis unfolding total_full_gens_def Let_def using gs(2) by (simp only: div_ceil_self)
  qed
  have bok: "bulk_ok chunk cfg" using sz(2) gs by (simp add: bulk_ok_def one) (simp add: cfg_def)
  define e where "e = generation_encoder chunk cfg 0"
  define count where "count = gs + x_repair X pct gs"
  have coded: "bulk_encode (x_cdf X) chunk cfg = Ok (map (\<lambda>w. (0, w)) (fst (produce (x_cdf X) count e)))"
    unfolding bulk_encode_eq [OF bok] one by (simp add: e_def count_def cfg_def)
  define ws where "ws = fst (produce (x_cdf X) count e)"
  have k: "source_k (fe_source e) = gs" "source_symbol_size (fe_source e) = 1024"
    by (simp_all add: e_def generation_encoder_def cfg_def)
  have wf: "encoder_wf e" using encoder_new_wf(2) [OF generation_encoder_new [OF bok]] one by (simp add: e_def)
  have pr: "\<forall>w \<in> set ws. \<exists>count. w \<in> set (fst (produce (x_cdf X) count e))" by (auto simp: ws_def)
  have sent: "\<forall>w \<in> set ws. \<exists>pairs pl. w = encode_symbol_wire pairs pl \<and> sent_symbol gs 1024 (src (fe_source e)) pairs pl"
    using produce_sent [OF wf] gs unfolding k ws_def by simp
  have sys: "\<forall>i < gs. systematic_symbol (fe_source e) i \<in> set ws"
    by (auto simp: ws_def produce_def k Let_def count_def split: prod.split)
  define d where "d = receive_all gs 1024 ws"
  have add: "add_symbols ws (decoder_new gs 1024) = (Ok (), d)"
    unfolding d_def receive_all_def using gs by (intro add_symbols_sent [OF _ sent]) (simp_all add: decoder_new_def)
  have "sources_determined e ws" using systematic_determined [OF wf _ pr] sys gs unfolding k by simp
  then have dec: "fst (decoder_decode d) = Ok (map (src (fe_source e)) [0..<gs])"
    using decode_received [OF wf _ _ pr] gs unfolding k d_def by simp
  have "concat (map (src (fe_source e)) [0..<gs]) = take (gs * 1024) (coded_buffer chunk cfg)"
    using chunks_concat [of 1024 0 "coded_buffer chunk cfg" gs] by (simp add: e_def generation_encoder_def cfg_def src_shared)
  also have "\<dots> = chunk @ replicate (gs * 1024 - length chunk) 0"
    using total_full_gens_bound(1) [of cfg "length chunk"] gs
    by (simp add: coded_buffer_def one padded_def) (simp add: cfg_def)
  finally have cc: "concat (map (src (fe_source e)) [0..<gs]) = chunk @ replicate (gs * 1024 - length chunk) 0" .
  define fr where "fr = \<lparr>bf_session_id = ss_session_id s, bf_generation = word_of_nat g, bf_k = word_of_nat gs,
    bf_symbol_size = word_of_nat 1024, bf_symbols = ws\<rparr>"
  have "encode_chunk X pct s (g, chunk) = Ok fr"
  proof -
    have u: "unat (ss_fountain_symbol_size s) = 1024" by (simp add: sz(1))
    show ?thesis unfolding encode_chunk_def Let_def prod.case u gs_def [symmetric] cfg_def [symmetric] coded
      by (simp add: fr_def ws_def o_def)
  qed
  moreover have "unat (bf_k fr) = gs" "unat (bf_symbol_size fr) = 1024" using gs by (simp_all add: fr_def unat_of_nat)
  moreover obtain d' where "decoder_decode d = (Ok (map (src (fe_source e)) [0..<gs]), d')" using dec by (metis prod.collapse)
  ultimately show ?thesis using that [of fr d] add cc by (simp add: fr_def)
qed

section \<open>Receiving a generation\<close>

definition c_puts :: "(block \<times> block_id) list \<Rightarrow> core \<Rightarrow> core" where
  "c_puts rec c = fold (\<lambda>(b, i) c. c_put b i c) rec c"

lemma store_contents_core: "core (store_contents sid rec st) = c_puts rec (core st)"
  by (induction sid rec st rule: store_contents.induct) (simp_all add: c_puts_def core_simps)

lemma c_puts_queries [simp]: "snd (c_puts rec c) = snd c" "c_ids (c_puts rec c) sid = c_ids c sid" "c_root (c_puts rec c) sid = c_root c sid"
proof -
  show s: "snd (c_puts rec c) = snd c" by (induction rec arbitrary: c) (auto simp: c_puts_def)
  then show "c_ids (c_puts rec c) sid = c_ids c sid" "c_root (c_puts rec c) sid = c_root c sid"
    by (simp_all add: c_ids_def c_root_def)
qed

lemma c_puts_contents: "fst (c_puts rec c) i \<noteq> None \<longleftrightarrow> fst c i \<noteq> None \<or> i \<in> snd ` set rec"
proof (induction rec arbitrary: c)
  case (Cons p rec)
  obtain b j where p: "p = (b, j)" by force
  have "fst (c_puts (p # rec) c) i = fst (c_puts rec (c_put b j c)) i" by (simp add: c_puts_def p)
  then show ?case using Cons.IH [of "c_put b j c"] by (auto simp: p fst_c_put)
qed (simp add: c_puts_def)

lemma c_puts_addressed: "addressed H c \<Longrightarrow> \<forall>(b, i) \<in> set rec. i = block_id H b \<Longrightarrow> addressed H (c_puts rec c)"
proof (induction rec arbitrary: c)
  case (Cons p rec)
  obtain b j where p: "p = (b, j)" by force
  have "c_puts (p # rec) c = c_puts rec (c_put b j c)" by (simp add: c_puts_def p)
  moreover have "addressed H (c_put b j c)" using Cons.prems p addressed_ops(1) by auto
  ultimately show ?case using Cons.IH Cons.prems(2) by simp
qed (simp add: c_puts_def)

text \<open>A frame that decodes on a new decoder to the blocks \<open>rec\<close>.\<close>

definition carries :: "externals \<Rightarrow> compressor \<Rightarrow> u128 \<Rightarrow> bulk_frame \<Rightarrow> (block \<times> block_id) list \<Rightarrow> bool" where
  "carries X c sid fr rec \<longleftrightarrow>
     bf_session_id fr = sid \<and>
     (\<exists>d syms d'. add_symbols (bf_symbols fr) (decoder_new (unat (bf_k fr)) (unat (bf_symbol_size fr))) = (Ok (), d) \<and>
       decoder_decode d = (Ok syms, d') \<and>
       otraverse (recover_block (x_hash X) (x_zstd X) c) (parse_records (concat syms)) = Ok rec)"

lemma handle_bulk_carries:
  assumes "carries X (rc_compressor r) sid fr rec" "rs_decoders (entry_session sid r) (bf_generation fr) = None"
  defines "st \<equiv> entry_session sid r"
  defines "p \<equiv> rs_pending st - snd ` set rec"
  shows "\<exists>st' r'. handle_bulk (x_hash X) (x_zstd X) fr r =
      (Ok (if p = {} \<and> \<not> rs_acked st then Some (session_root st' sid) else None), r') \<and>
    rc_store r' = st' \<and> core st' = c_puts rec (core (rc_store r)) \<and> rc_compressor r' = rc_compressor r \<and>
    rs_pending (entry_session sid r') = p \<and> rs_acked (entry_session sid r') = (rs_acked st \<or> p = {}) \<and>
    (\<forall>g. rs_decoders st g = None \<longrightarrow> rs_decoders (entry_session sid r') g = None)"
proof -
  obtain d syms d' where c: "bf_session_id fr = sid"
    "add_symbols (bf_symbols fr) (decoder_new (unat (bf_k fr)) (unat (bf_symbol_size fr))) = (Ok (), d)"
    "decoder_decode d = (Ok syms, d')"
    "otraverse (recover_block (x_hash X) (x_zstd X) (rc_compressor r)) (parse_records (concat syms)) = Ok rec"
    using assms(1) by (auto simp: carries_def)
  define r1 where "r1 = put_session sid (st\<lparr>rs_decoders := (rs_decoders st)(bf_generation fr \<mapsto> d')\<rparr>) r"
  define r2 where "r2 = r1\<lparr>rc_store := store_contents sid rec (rc_store r1)\<rparr>"
  have h: "handle_bulk (x_hash X) (x_zstd X) fr r =
      (case finish_generation sid (bf_generation fr) (map snd rec) r2 of (completion, r3) \<Rightarrow> (Ok completion, r3))"
    using assms(2) c by (simp add: handle_bulk_def Let_def st_def r1_def r2_def)
  have s: "rc_sessions r2 sid = Some (st\<lparr>rs_decoders := (rs_decoders st)(bf_generation fr \<mapsto> d')\<rparr>)"
    by (simp add: r2_def r1_def put_session_def)
  have st2: "rc_store r2 = store_contents sid rec (rc_store r)" by (simp add: r2_def r1_def)
  have dec: "rs_decoders st (bf_generation fr) = None" using assms(2) by (simp add: st_def)
  define st1 where "st1 = st\<lparr>rs_decoders := (rs_decoders st)(bf_generation fr := None), rs_pending := p\<rparr>"
  have fin: "finish_generation sid (bf_generation fr) (map snd rec) r2 =
    (if p = {} \<and> \<not> rs_acked st then (Some (session_root (rc_store r2) sid), put_session sid (st1\<lparr>rs_acked := True\<rparr>) r2)
     else (None, put_session sid st1 r2))"
    unfolding finish_generation_def s by (simp add: Let_def p_def st1_def)
  have c2: "rc_compressor r2 = rc_compressor r" "core (rc_store r2) = c_puts rec (core (rc_store r))"
    by (simp add: r2_def r1_def) (simp add: st2 store_contents_core)
  have f1: "rs_pending st1 = p" "rs_acked st1 = rs_acked st" "\<And>g. rs_decoders st g = None \<Longrightarrow> rs_decoders st1 g = None"
    by (simp_all add: st1_def)
  show ?thesis
  proof (cases "p = {} \<and> \<not> rs_acked st")
    case True
    then show ?thesis unfolding h fin using c2 f1
      by (intro exI [of _ "rc_store r2"] exI [of _ "put_session sid (st1\<lparr>rs_acked := True\<rparr>) r2"]) simp
  next
    case False
    then show ?thesis unfolding h fin using c2 f1
      by (intro exI [of _ "rc_store r2"] exI [of _ "put_session sid st1 r2"]) auto
  qed
qed

section \<open>Any order of generations\<close>

fun bulk_run ::
    "externals \<Rightarrow> bulk_frame list \<Rightarrow> receiver \<Rightarrow> (merkle_root option, receiver_error) outcome list \<times> receiver" where
  "bulk_run X [] r = ([], r)"
| "bulk_run X (f # fs) r =
     (case handle_bulk (x_hash X) (x_zstd X) f r of (res, r1) \<Rightarrow>
       (case bulk_run X fs r1 of (rs, r2) \<Rightarrow> (res # rs, r2)))"

text \<open>The acknowledgements among the results.\<close>

definition completions :: "(merkle_root option, receiver_error) outcome list \<Rightarrow> merkle_root list" where
  "completions rs = List.map_filter (\<lambda>x. case x of Ok c \<Rightarrow> c | _ \<Rightarrow> None) rs"

lemma bulk_run_carries:
  assumes "\<forall>f \<in> set fs. carries X (rc_compressor r) sid f (blocks f) \<and> (\<forall>(b, i) \<in> set (blocks f). i = block_id (x_hash X) b)"
    and "\<forall>f \<in> set fs. rs_decoders (entry_session sid r) (bf_generation f) = None"
    and "rs_acked (entry_session sid r) \<longleftrightarrow> rs_pending (entry_session sid r) = {}"
    and "bulk_run X fs r = (rs, r')" "addressed (x_hash X) (core (rc_store r))"
  shows "let p = rs_pending (entry_session sid r); p' = rs_pending (entry_session sid r') in
    p' = p - (\<Union>f \<in> set fs. snd ` set (blocks f)) \<and> (rs_acked (entry_session sid r') \<longleftrightarrow> p' = {}) \<and>
    (\<forall>x \<in> set rs. \<exists>c. x = Ok c) \<and>
    completions rs = (if p \<noteq> {} \<and> p' = {} then [session_root (rc_store r) sid] else []) \<and>
    snd (core (rc_store r')) = snd (core (rc_store r)) \<and> addressed (x_hash X) (core (rc_store r')) \<and>
    (\<forall>i. fst (core (rc_store r')) i \<noteq> None \<longleftrightarrow>
      fst (core (rc_store r)) i \<noteq> None \<or> i \<in> (\<Union>f \<in> set fs. snd ` set (blocks f))) \<and>
    rc_compressor r' = rc_compressor r"
  using assms
proof (induction fs arbitrary: r rs)
  case Nil
  then show ?case by (auto simp: Let_def completions_def List.map_filter_def)
next
  case (Cons f fs)
  define st where "st = entry_session sid r"
  define p where "p = rs_pending st - snd ` set (blocks f)"
  have cf: "carries X (rc_compressor r) sid f (blocks f)" "\<forall>(b, i) \<in> set (blocks f). i = block_id (x_hash X) b"
    "rs_decoders (entry_session sid r) (bf_generation f) = None"
    using Cons.prems(1,2) by auto
  obtain r1 where r1: "handle_bulk (x_hash X) (x_zstd X) f r =
      (Ok (if p = {} \<and> \<not> rs_acked st then Some (session_root (rc_store r1) sid) else None), r1)"
    "core (rc_store r1) = c_puts (blocks f) (core (rc_store r))" "rc_compressor r1 = rc_compressor r"
    "rs_pending (entry_session sid r1) = p" "rs_acked (entry_session sid r1) = (rs_acked st \<or> p = {})"
    "\<forall>g. rs_decoders st g = None \<longrightarrow> rs_decoders (entry_session sid r1) g = None"
    using handle_bulk_carries [OF cf(1,3)] unfolding st_def [symmetric] p_def [symmetric] by blast
  obtain rs' where rs': "bulk_run X fs r1 = (rs', r')"
    "rs = Ok (if p = {} \<and> \<not> rs_acked st then Some (session_root (rc_store r1) sid) else None) # rs'"
    using Cons.prems(4) r1(1) by (auto split: prod.splits)
  have ack: "rs_acked st \<longleftrightarrow> rs_pending st = {}" using Cons.prems(3) by (simp add: st_def)
  have root: "session_root (rc_store r1) sid = session_root (rc_store r) sid" by (simp add: core_queries r1(2))
  have pre: "\<forall>f \<in> set fs. carries X (rc_compressor r1) sid f (blocks f) \<and> (\<forall>(b, i) \<in> set (blocks f). i = block_id (x_hash X) b)"
    "\<forall>f \<in> set fs. rs_decoders (entry_session sid r1) (bf_generation f) = None"
    "rs_acked (entry_session sid r1) \<longleftrightarrow> rs_pending (entry_session sid r1) = {}"
    "addressed (x_hash X) (core (rc_store r1))"
    using Cons.prems(1,2) r1 ack c_puts_addressed [OF Cons.prems(5) cf(2)] by (auto simp: st_def p_def)
  note IH = Cons.IH [OF pre(1-3) rs'(1) pre(4), unfolded Let_def r1(4)]
  define p' where "p' = rs_pending (entry_session sid r')"
  have p': "p' = p - (\<Union>f \<in> set fs. snd ` set (blocks f))" using IH by (simp add: p'_def)
  have comp: "completions rs =
      (if p = {} \<and> \<not> rs_acked st then [session_root (rc_store r) sid] else []) @ completions rs'"
    by (simp add: rs'(2) completions_def List.map_filter_def root)
  have "completions rs = (if rs_pending st \<noteq> {} \<and> p' = {} then [session_root (rc_store r) sid] else [])"
  proof -
    have sub: "rs_pending st = {} \<Longrightarrow> p = {}" by (simp add: p_def)
    have "completions rs' = (if p \<noteq> {} \<and> p' = {} then [session_root (rc_store r) sid] else [])"
      using IH by (simp add: p'_def root)
    moreover have "p = {} \<Longrightarrow> p' = {}" using p' by simp
    ultimately show ?thesis using comp ack sub by (cases "p = {}") auto
  qed
  moreover have "p' = rs_pending st - (\<Union>f \<in> set (f # fs). snd ` set (blocks f))" using p' by (auto simp: p_def)
  moreover have "\<forall>i. fst (core (rc_store r')) i \<noteq> None \<longleftrightarrow>
      fst (core (rc_store r)) i \<noteq> None \<or> i \<in> (\<Union>f \<in> set (f # fs). snd ` set (blocks f))"
    using IH c_puts_contents [of "blocks f" "core (rc_store r)"] by (auto simp: r1(2))
  ultimately show ?case using IH rs'(2)
    unfolding Let_def st_def [symmetric] p'_def [symmetric] by (simp add: r1(2,3))
qed

section \<open>The frames of a cold start\<close>

text \<open>What the client must have for its bulk frames to be decodable: the coding parameters of every
  session, and blocks of less than 64 MiB (the coefficient indices on the wire are 16 bits).\<close>

definition sendable :: "session_shim \<Rightarrow> block \<Rightarrow> bool" where
  "sendable s b \<longleftrightarrow> length (payload b) + 22 \<le> 1024 * 65535"

definition coding_params :: "session_shim \<Rightarrow> bool" where
  "coding_params s \<longleftrightarrow> ss_fountain_k s = 64 \<and> ss_fountain_symbol_size s = 1024"

definition bulk_payload :: "externals \<Rightarrow> session_shim \<Rightarrow> block \<Rightarrow> bytes" where
  "bulk_payload X s b = (case compress_pure (x_zstd X) (ss_compressor s) (canonical_bytes b) of Ok y \<Rightarrow> y | _ \<Rightarrow> [])"

lemma bulk_payload_works:
  assumes "zstd_works (x_zstd X) (c_dict (ss_compressor s))" "sendable s b" "c_dict rc = c_dict (ss_compressor s)"
  shows "bulk_record X (ss_compressor s) b = Ok (frame_record (bulk_payload X s b))"
    and "bulk_payload X s b \<noteq> [] \<and> length (bulk_payload X s b) \<le> length (payload b) + 18"
    and "recover_block (x_hash X) (x_zstd X) rc (bulk_payload X s b) = Ok (b, block_id (x_hash X) b)"
proof -
  have "length (canonical_bytes b) < 2 ^ 64" using assms(2) by (simp add: sendable_def)
  from compress_works [OF assms(1) this]
  have c: "compress_pure (x_zstd X) (ss_compressor s) (canonical_bytes b) = Ok (bulk_payload X s b)"
    by (auto simp: bulk_payload_def)
  show "bulk_record X (ss_compressor s) b = Ok (frame_record (bulk_payload X s b))"
    by (simp add: bulk_record_def c frame_record_def)
  show "bulk_payload X s b \<noteq> [] \<and> length (bulk_payload X s b) \<le> length (payload b) + 18"
    using compress_pure_Ok [OF c] by auto
  show "recover_block (x_hash X) (x_zstd X) rc (bulk_payload X s b) = Ok (b, block_id (x_hash X) b)"
    using assms(1,2) by (intro recover_block_compressed [OF _ assms(3) c])
      (simp_all add: zstd_works_def sendable_def MAX_BLOCK_PAYLOAD_BYTES_def)
qed

lemma bulk_records_eq:
  assumes "zstd_works (x_zstd X) (c_dict (ss_compressor s))" "\<forall>i \<in> set is. \<exists>b. store_get st i = Some b \<and> sendable s b"
  shows "bulk_records X (ss_compressor s) st is =
    Ok (map (\<lambda>i. frame_record (bulk_payload X s (the (store_get st i)))) is)"
  using assms(2)
proof (induction "is")
  case (Cons i "is")
  then obtain b where b: "store_get st i = Some b" "sendable s b" by auto
  then show ?case using Cons bulk_payload_works(1) [OF assms(1) b(2) refl] by simp
qed simp

lemma otraverse_map_Ok: "\<forall>x \<in> set xs. f (g x) = Ok (h x) \<Longrightarrow> otraverse f (map g xs) = Ok (map h xs)"
  by (induction xs) simp_all

lemma chunk_carries:
  assumes "zstd_works (x_zstd X) (c_dict (ss_compressor s))" "coding_params s" "c_dict rc = c_dict (ss_compressor s)"
    and "\<forall>b \<in> set bs. sendable s b" "bs \<noteq> []"
    and "length (concat (map (\<lambda>b. frame_record (bulk_payload X s b)) bs)) \<le> 1024 * 65535"
  shows "\<exists>fr. encode_chunk X pct s (g, concat (map (\<lambda>b. frame_record (bulk_payload X s b)) bs)) = Ok fr \<and>
    bf_generation fr = word_of_nat g \<and> carries X rc (ss_session_id s) fr (map (\<lambda>b. (b, block_id (x_hash X) b)) bs)"
proof -
  define chunk where "chunk = concat (map (\<lambda>b. frame_record (bulk_payload X s b)) bs)"
  have "chunk \<noteq> []" using assms(5) by (cases bs) (simp_all add: chunk_def)
  then have "chunk_ok s chunk" using assms(2,6) by (simp add: chunk_ok_def coding_params_def chunk_def)
  from encode_chunk_decodes [OF this, of X pct g] obtain fr d d' syms n where
    f: "encode_chunk X pct s (g, chunk) = Ok fr" "bf_session_id fr = ss_session_id s" "bf_generation fr = word_of_nat g"
    "add_symbols (bf_symbols fr) (decoder_new (unat (bf_k fr)) (unat (bf_symbol_size fr))) = (Ok (), d)"
    "decoder_decode d = (Ok syms, d')" "concat syms = chunk @ replicate n 0" .
  have zs: "\<forall>z \<in> set (map (bulk_payload X s) bs). z \<noteq> [] \<and> length z < 2 ^ 32"
  proof
    fix z assume "z \<in> set (map (bulk_payload X s) bs)"
    then obtain b where b: "b \<in> set bs" "z = bulk_payload X s b" by auto
    then have "sendable s b" using assms(4) by blast
    then show "z \<noteq> [] \<and> length z < 2 ^ 32"
      using bulk_payload_works(2) [OF assms(1) _ assms(3)] b(2) by (fastforce simp: sendable_def)
  qed
  have "parse_records (concat syms) = map (bulk_payload X s) bs"
    using parse_records_frames [OF zs, of n] by (simp add: f(6) chunk_def o_def)
  moreover have "otraverse (recover_block (x_hash X) (x_zstd X) rc) (map (bulk_payload X s) bs) =
      Ok (map (\<lambda>b. (b, block_id (x_hash X) b)) bs)"
    using bulk_payload_works(3) [OF assms(1) _ assms(3)] assms(4) by (intro otraverse_map_Ok) blast
  ultimately have "carries X rc (ss_session_id s) fr (map (\<lambda>b. (b, block_id (x_hash X) b)) bs)"
    using f by (auto simp: carries_def)
  then show ?thesis using f(1,3) by (auto simp: chunk_def)
qed

lemma carries_unique: "carries X c sid f rec \<Longrightarrow> carries X c sid f rec' \<Longrightarrow> rec = rec'"
  by (auto simp: carries_def)

lemma concat_eq_map: "concat groups = map f xs \<Longrightarrow> \<exists>bg. groups = map (map f) bg \<and> concat bg = xs"
proof (induction groups arbitrary: xs)
  case Nil
  then show ?case by (intro exI [of _ "[]"]) simp
next
  case (Cons g groups)
  then obtain us vs where u: "xs = us @ vs" "g = map f us" "concat groups = map f vs" by (auto simp: append_eq_map_conv)
  from Cons.IH [OF u(3)] obtain bg where "groups = map (map f) bg" "concat bg = vs" by blast
  then show ?case using u by (intro exI [of _ "us # bg"]) simp
qed

lemma bulk_frames_carry:
  assumes z: "zstd_works (x_zstd X) (c_dict (ss_compressor s))" and cp: "coding_params s" and dict: "c_dict rc = c_dict (ss_compressor s)"
    and have_blocks: "\<forall>i \<in> set missing. \<exists>b. store_get st i = Some b \<and> sendable s b \<and> block_id (x_hash X) b = i"
    and ne: "missing \<noteq> []"
  shows "\<exists>frames blocks. bulk_frames_for X missing pct s st = Ok frames \<and>
    (\<forall>f \<in> set frames. carries X rc (ss_session_id s) f (blocks f) \<and> (\<forall>(b, i) \<in> set (blocks f). i = block_id (x_hash X) b)) \<and>
    (\<Union>f \<in> set frames. snd ` set (blocks f)) = set missing"
proof -
  define bsm where "bsm = map (\<lambda>i. the (store_get st i)) missing"
  define rcd where "rcd = (\<lambda>b. frame_record (bulk_payload X s b))"
  have sb: "\<forall>b \<in> set bsm. sendable s b" "map (block_id (x_hash X)) bsm = missing"
  proof -
    show "\<forall>b \<in> set bsm. sendable s b" using have_blocks by (auto simp: bsm_def)
    have "map (block_id (x_hash X) \<circ> (\<lambda>i. the (store_get st i))) missing = missing"
      by (rule map_idI) (use have_blocks in auto)
    then show "map (block_id (x_hash X)) bsm = missing" by (simp add: bsm_def)
  qed
  have recs: "bulk_records X (ss_compressor s) st missing = Ok (map rcd bsm)"
    using bulk_records_eq [OF z] have_blocks by (simp add: bsm_def rcd_def o_def) blast
  have rl: "length (rcd b) \<le> 1024 * 65535" if "sendable s b" for b
  proof -
    have "length (rcd b) = 4 + length (bulk_payload X s b)" by (simp add: rcd_def frame_record_def le32_def)
    then show ?thesis using bulk_payload_works(2) [OF z that dict] that by (simp add: sendable_def)
  qed
  define chunks where "chunks = pack_records (unat (ss_fountain_k s) * unat (ss_fountain_symbol_size s)) (map rcd bsm) []"
  obtain groups where "chunks = map concat groups" "concat groups = map rcd bsm"
    using pack_records_groups [of "[]" "map rcd bsm"] by (auto simp: chunks_def rcd_def)
  with concat_eq_map obtain bg where bg: "chunks = map (\<lambda>bs. concat (map rcd bs)) bg" "concat bg = bsm"
    by (force simp: o_def)
  have size: "\<forall>c \<in> set chunks. c \<noteq> [] \<and> length c \<le> 1024 * 65535"
    unfolding chunks_def using rl sb(1) cp by (intro pack_records_size) (auto simp: coding_params_def)
  have one: "\<exists>fr. encode_chunk X pct s (g, concat (map rcd bs)) = Ok fr \<and> bf_generation fr = word_of_nat g \<and>
      carries X rc (ss_session_id s) fr (map (\<lambda>b. (b, block_id (x_hash X) b)) bs)" if "bs \<in> set bg" for bs g
  proof -
    have "concat (map rcd bs) \<in> set chunks" using that by (auto simp: bg(1))
    then have "concat (map rcd bs) \<noteq> [] \<and> length (concat (map rcd bs)) \<le> 1024 * 65535" using size by blast
    moreover from this have "bs \<noteq> []" by auto
    moreover have "\<forall>b \<in> set bs. sendable s b" using that sb(1) bg(2) by auto
    ultimately show ?thesis using chunk_carries [OF z cp dict, of bs pct g] unfolding rcd_def by blast
  qed
  define mk where "mk = (\<lambda>g bs. case encode_chunk X pct s (g, concat (map rcd bs)) of Ok fr \<Rightarrow> fr | _ \<Rightarrow> undefined)"
  have mk: "encode_chunk X pct s (g, concat (map rcd bs)) = Ok (mk g bs) \<and>
      carries X rc (ss_session_id s) (mk g bs) (map (\<lambda>b. (b, block_id (x_hash X) b)) bs)" if bsg: "bs \<in> set bg" for bs g
  proof -
    obtain fr where fr: "encode_chunk X pct s (g, concat (map rcd bs)) = Ok fr"
      "carries X rc (ss_session_id s) fr (map (\<lambda>b. (b, block_id (x_hash X) b)) bs)"
      using one [OF bsg, of g] by blast
    have "mk g bs = fr" by (simp add: mk_def fr(1))
    then show ?thesis using fr by simp
  qed
  define frames where "frames = map (\<lambda>(g, bs). mk g bs) (zip [0..<length bg] bg)"
  have "zip [0..<length chunks] chunks = map (\<lambda>(g, bs). (g, concat (map rcd bs))) (zip [0..<length bg] bg)"
    by (simp add: bg(1) zip_map2)
  then have "otraverse (encode_chunk X pct s) (zip [0..<length chunks] chunks) = Ok frames"
    unfolding frames_def using mk by (auto intro!: otraverse_map_Ok dest: set_zip_rightD)
  then have ok: "bulk_frames_for X missing pct s st = Ok frames"
    using ne by (simp add: bulk_frames_for_def recs Let_def chunks_def [symmetric])
  have fr: "f \<in> set frames \<longleftrightarrow> (\<exists>g < length bg. f = mk g (bg ! g))" for f
  proof -
    have "frames = map (\<lambda>g. mk g (bg ! g)) [0..<length bg]" unfolding frames_def by (rule nth_equalityI) simp_all
    then show ?thesis by auto
  qed
  define blocks where "blocks f = (SOME rec. carries X rc (ss_session_id s) f rec)" for f
  have bl: "blocks (mk g bs) = map (\<lambda>b. (b, block_id (x_hash X) b)) bs" if "bs \<in> set bg" for g bs
    unfolding blocks_def using mk [OF that, of g] carries_unique by (metis (mono_tags, lifting) someI_ex)
  have "\<forall>f \<in> set frames. carries X rc (ss_session_id s) f (blocks f) \<and> (\<forall>(b, i) \<in> set (blocks f). i = block_id (x_hash X) b)"
    using mk bl by (auto simp: fr)
  moreover have "(\<Union>f \<in> set frames. snd ` set (blocks f)) = set missing"
  proof -
    have "(\<Union>f \<in> set frames. snd ` set (blocks f)) = (\<Union>g < length bg. block_id (x_hash X) ` set (bg ! g))"
    proof -
      have "set frames = (\<lambda>g. mk g (bg ! g)) ` {..<length bg}" using fr by blast
      then have "(\<Union>f \<in> set frames. snd ` set (blocks f)) = (\<Union>g < length bg. snd ` set (blocks (mk g (bg ! g))))" by simp
      also have "\<dots> = (\<Union>g < length bg. block_id (x_hash X) ` set (bg ! g))"
        using bl [OF nth_mem] by (intro SUP_cong) (simp_all add: image_image)
      finally show ?thesis .
    qed
    also have "\<dots> = block_id (x_hash X) ` set (concat bg)"
    proof -
      have "set bg = (!) bg ` {..<length bg}" by (auto simp: in_set_conv_nth)
      then have "set (concat bg) = (\<Union>g < length bg. set (bg ! g))" by simp
      then show ?thesis by (simp only: image_UN)
    qed
    also have "\<dots> = set missing" using sb(2) bg(2) by (metis set_map)
    finally show ?thesis .
  qed
  ultimately show ?thesis using ok by blast
qed

section \<open>Completion\<close>

text \<open>A receiver without decoders left over from an earlier transfer of the session.\<close>

definition no_stale_decoders :: "u128 \<Rightarrow> receiver \<Rightarrow> bool" where
  "no_stale_decoders sid r \<longleftrightarrow> rs_decoders (entry_session sid r) = Map.empty"

lemma handle_resync_facts:
  assumes "handle_resync fr r = (missing, r1)"
  shows "missing = filter (\<lambda>i. fst (core (rc_store r)) i = None) (rf_manifest fr)"
    "core (rc_store r1) = c_seed (rf_session_id fr) (rf_manifest fr) (rf_client_root fr) (core (rc_store r))"
    "rs_pending (entry_session (rf_session_id fr) r1) = set missing"
    "rs_acked (entry_session (rf_session_id fr) r1) \<longleftrightarrow> missing = []"
    "rs_decoders (entry_session (rf_session_id fr) r1) = rs_decoders (entry_session (rf_session_id fr) r)"
    "rc_compressor r1 = rc_compressor r"
proof -
  have m: "missing = filter (\<lambda>i. \<not> store_contains (rc_store r) i) (rf_manifest fr)"
    and r1: "r1 = put_session (rf_session_id fr) ((entry_session (rf_session_id fr) r)\<lparr>rs_pending := set missing, rs_acked := (missing = [])\<rparr>)
      (r\<lparr>rc_store := seed_session (rf_session_id fr) (rf_manifest fr) (rf_client_root fr) (rc_store r)\<rparr>)"
    using assms by (auto simp: handle_resync_def Let_def entry_session_def)
  show "missing = filter (\<lambda>i. fst (core (rc_store r)) i = None) (rf_manifest fr)" using m by (simp add: core_queries)
  show "core (rc_store r1) = c_seed (rf_session_id fr) (rf_manifest fr) (rf_client_root fr) (core (rc_store r))"
    "rs_pending (entry_session (rf_session_id fr) r1) = set missing"
    "rs_acked (entry_session (rf_session_id fr) r1) \<longleftrightarrow> missing = []"
    "rs_decoders (entry_session (rf_session_id fr) r1) = rs_decoders (entry_session (rf_session_id fr) r)"
    "rc_compressor r1 = rc_compressor r"
    by (simp_all add: r1 core_simps)
qed

text \<open>C2: A cold start completes on a receiver that holds no decoder of the session.  Suppose zstd works
  with the dictionary both sides use, the coding parameters are the default ones, every block the client holds
  is below 64 MiB, the stores are content-addressed, and the receiver has no decoders left from an
  earlier transfer of this session (after an aborted one the claim fails, see the end of this
  file).  Then after RESYNC the client can
  code the missing blocks; when every BULK frame has arrived, in any order and with any repetitions,
  the receiver holds every block of the manifest, its log and root are the client's, nothing is
  pending, no frame was refused, and exactly one acknowledgement was sent, of the client's root.\<close>

theorem cold_start_completes:
  assumes "zstd_works (x_zstd X) (c_dict (ss_compressor s))" "coding_params s" "c_dict (rc_compressor r) = c_dict (ss_compressor s)"
    and "session_ok (x_hash X) (core (h_store h)) s" "addressed (x_hash X) (core (h_store h))"
    and "addressed (x_hash X) (core (rc_store r))" "no_stale_decoders (ss_session_id s) r"
    and "\<forall>i b. store_get (h_store h) i = Some b \<longrightarrow> sendable s b"
    and "handle_resync (session_resync_frame s) r = (missing, r1)" "missing \<noteq> []"
  shows "\<exists>frames. bulk_frames_for X missing pct s (h_store h) = Ok frames \<and>
    (\<forall>fs rs r2. set fs = set frames \<and> bulk_run X fs r1 = (rs, r2) \<longrightarrow>
       (\<forall>i \<in> set (ss_ids s). store_contains (rc_store r2) i) \<and>
       session_ids (rc_store r2) (ss_session_id s) = ss_ids s \<and>
       session_root (rc_store r2) (ss_session_id s) = ss_root s \<and>
       rs_pending (entry_session (ss_session_id s) r2) = {} \<and>
       (\<forall>x \<in> set rs. \<exists>c. x = Ok c) \<and> completions rs = [ss_root s])"
proof -
  define sid where "sid = ss_session_id s"
  have rf: "rf_session_id (session_resync_frame s) = sid" "rf_manifest (session_resync_frame s) = ss_ids s"
    "rf_client_root (session_resync_frame s) = ss_root s" by (simp_all add: session_resync_frame_def sid_def)
  note R = handle_resync_facts [OF assms(9), unfolded rf]
  have "\<forall>i \<in> set missing. \<exists>b. store_get (h_store h) i = Some b \<and> sendable s b \<and> block_id (x_hash X) b = i"
    using assms(4,5,8) by (auto simp: R(1) session_ok_def addressed_def core_queries)
  from bulk_frames_carry [OF assms(1,2) assms(3) this assms(10), of pct] obtain frames blocks where
    F: "bulk_frames_for X missing pct s (h_store h) = Ok frames"
    "\<forall>f \<in> set frames. carries X (rc_compressor r) sid f (blocks f) \<and> (\<forall>(b, i) \<in> set (blocks f). i = block_id (x_hash X) b)"
    "(\<Union>f \<in> set frames. snd ` set (blocks f)) = set missing"
    unfolding sid_def by blast
  show ?thesis
  proof (intro exI conjI allI impI, rule F(1))
    fix fs rs r2 assume a: "set fs = set frames \<and> bulk_run X fs r1 = (rs, r2)"
    then have run: "bulk_run X fs r1 = (rs, r2)" and fs: "set fs = set frames" by simp_all
    have pre: "\<forall>f \<in> set fs. carries X (rc_compressor r1) sid f (blocks f) \<and> (\<forall>(b, i) \<in> set (blocks f). i = block_id (x_hash X) b)"
      "\<forall>f \<in> set fs. rs_decoders (entry_session sid r1) (bf_generation f) = None"
      "rs_acked (entry_session sid r1) \<longleftrightarrow> rs_pending (entry_session sid r1) = {}"
      "addressed (x_hash X) (core (rc_store r1))"
    proof -
      show "\<forall>f \<in> set fs. carries X (rc_compressor r1) sid f (blocks f) \<and> (\<forall>(b, i) \<in> set (blocks f). i = block_id (x_hash X) b)"
        using F(2) fs R(6) by simp
      show "\<forall>f \<in> set fs. rs_decoders (entry_session sid r1) (bf_generation f) = None"
        using R(5) assms(7) by (simp add: no_stale_decoders_def sid_def)
      show "rs_acked (entry_session sid r1) \<longleftrightarrow> rs_pending (entry_session sid r1) = {}"
        using R(3,4) by simp
      show "addressed (x_hash X) (core (rc_store r1))" using R(2) assms(6) by simp
    qed
    note B = bulk_run_carries [OF pre(1-3) run pre(4), unfolded Let_def fs F(3) R(3)]
    show "rs_pending (entry_session (ss_session_id s) r2) = {}" using B by (simp add: sid_def)
    show "\<forall>x \<in> set rs. \<exists>c. x = Ok c" using B by blast
    have "completions rs = [session_root (rc_store r1) sid]" using B assms(10) by simp
    then show "completions rs = [ss_root s]" by (simp add: core_queries R(2))
    have "snd (core (rc_store r2)) = snd (core (rc_store r1))" using B by blast
    then show "session_ids (rc_store r2) (ss_session_id s) = ss_ids s" "session_root (rc_store r2) (ss_session_id s) = ss_root s"
      using R(2) unfolding core_queries c_ids_def c_root_def by (simp_all add: c_seed_def sid_def)
    have "\<forall>i. fst (core (rc_store r2)) i \<noteq> None \<longleftrightarrow> fst (core (rc_store r1)) i \<noteq> None \<or> i \<in> set missing" using B by blast
    then show "\<forall>i \<in> set (ss_ids s). store_contains (rc_store r2) i" unfolding core_queries R(2) by (auto simp: R(1))
  qed
qed

definition demo_log :: "session_shim \<times> host" where
  "demo_log = snd (ingest_turn demo_externals [block_new Message 1 [7]] (session_shim_new 1 store_new compressor_default))"

lemma demo_log_facts:
  "session_ok step_hash (core (h_store (snd demo_log))) (fst demo_log)"
  "core (h_store (snd demo_log)) = c_ingest step_hash 1 [block_new Message 1 [7]] (Map.empty, Map.empty)"
  "coding_params (fst demo_log)" "c_dict (ss_compressor (fst demo_log)) = dict_empty"
  "ss_session_id (fst demo_log) = 1" "ss_ids (fst demo_log) = [block_id step_hash (block_new Message 1 [7])]"
proof -
  define s0 where "s0 = fst (session_shim_new 1 store_new compressor_default)"
  define h0 where "h0 = snd (session_shim_new 1 store_new compressor_default)"
  define fr where "fr = fst (ingest_turn demo_externals [block_new Message 1 [7]] (s0, h0))"
  have t: "ingest_turn demo_externals [block_new Message 1 [7]] (s0, h0) = (fr, fst demo_log, snd demo_log)"
    by (simp add: demo_log_def fr_def s0_def h0_def)
  have x: "x_hash demo_externals = step_hash" by (simp add: demo_externals_def)
  have h0: "core (h_store h0) = (Map.empty, Map.empty)" "ss_session_id s0 = 1"
    by (simp_all add: h0_def s0_def session_shim_new_def session_with_filter_def)
  have "session_ok step_hash (core (h_store h0)) s0"
    using fresh_in_sync [OF core_store_new core_store_new, of demo_externals 1 compressor_default]
    by (simp add: in_sync_def x s0_def h0_def)
  then show "session_ok step_hash (core (h_store (snd demo_log))) (fst demo_log)"
    using ingest_turn_ok [OF _ t] by (simp add: x)
  note f = ingest_turn_facts [OF t, unfolded x h0]
  show "core (h_store (snd demo_log)) = c_ingest step_hash 1 [block_new Message 1 [7]] (Map.empty, Map.empty)"
    by (rule f(2))
  show "coding_params (fst demo_log)" "c_dict (ss_compressor (fst demo_log)) = dict_empty"
    "ss_session_id (fst demo_log) = 1" "ss_ids (fst demo_log) = [block_id step_hash (block_new Message 1 [7])]"
    unfolding f(1) by (simp_all add: s0_def session_shim_new_def session_with_filter_def coding_params_def log_blocks_def
        compressor_default_def compressor_new_def)
qed

theorem cold_start_completes_witness:
  "\<exists>missing r1 frames. handle_resync (session_resync_frame (fst demo_log)) demo_receiver = (missing, r1) \<and>
     missing = [block_id step_hash (block_new Message 1 [7])] \<and>
     bulk_frames_for demo_externals missing 5 (fst demo_log) (h_store (snd demo_log)) = Ok frames \<and>
     completions (fst (bulk_run demo_externals (rev frames @ frames) r1)) = [ss_root (fst demo_log)]"
proof -
  define s where "s = fst demo_log"
  define h where "h = snd demo_log"
  note F = demo_log_facts [folded s_def h_def]
  have x: "x_hash demo_externals = step_hash" "x_zstd demo_externals = demo_zstd" by (simp_all add: demo_externals_def)
  have r: "core (rc_store demo_receiver) = (Map.empty, Map.empty)" "c_dict (rc_compressor demo_receiver) = dict_empty"
    "no_stale_decoders 1 demo_receiver"
    by (simp_all add: demo_receiver_def receiver_new_def no_stale_decoders_def entry_session_def fresh_session_def
        compressor_default_def compressor_new_def session_list_def store_new_def)
      (simp add: core_def)
  obtain missing r1 where R: "handle_resync (session_resync_frame s) demo_receiver = (missing, r1)" by force
  have m: "missing = [block_id step_hash (block_new Message 1 [7])]"
    using handle_resync_facts(1) [OF R] by (simp add: r session_resync_frame_def F(6))
  have st: "store_get (h_store h) i = Some b \<Longrightarrow> b = block_new Message 1 [7]" for i b
    by (auto simp: core_queries F(2) c_ingest_def fst_c_put split: if_splits)
  have "sendable s (block_new Message 1 [7])" by (simp add: sendable_def block_new_def)
  then have sendable: "\<forall>i b. store_get (h_store h) i = Some b \<longrightarrow> sendable s b" using st by metis
  have ad: "addressed (x_hash demo_externals) (core (h_store h))" "addressed (x_hash demo_externals) (core (rc_store demo_receiver))"
    unfolding F(2) r(1) x by (intro addressed_c_ingest addressed_ops)+
  have pre: "zstd_works (x_zstd demo_externals) (c_dict (ss_compressor s))" "c_dict (rc_compressor demo_receiver) = c_dict (ss_compressor s)"
    "session_ok (x_hash demo_externals) (core (h_store h)) s" "no_stale_decoders (ss_session_id s) demo_receiver" "missing \<noteq> []"
    using demo_works(1) F(1,4,5) r(2,3) by (simp_all add: x m)
  from cold_start_completes [OF pre(1) F(3) pre(2,3) ad pre(4) sendable R pre(5), of 5] obtain frames where
    fr: "bulk_frames_for demo_externals missing 5 s (h_store h) = Ok frames"
    "\<And>fs rs r2. set fs = set frames \<and> bulk_run demo_externals fs r1 = (rs, r2) \<Longrightarrow> completions rs = [ss_root s]"
    by blast
  have "completions (fst (bulk_run demo_externals (rev frames @ frames) r1)) = [ss_root s]"
    by (rule fr(2) [OF conjI [OF _ prod.collapse [symmetric]]]) simp
  then show ?thesis using R m fr(1)
    unfolding s_def h_def by blast
qed

definition stale_decoder :: fountain_decoder where
  "stale_decoder = \<lparr>fd_k = 2, fd_symbol_size = 1, fd_syms = [\<lparr>cover = [(0, 1)], ps_payload = [5]\<rparr>]\<rparr>"

lemma stale_decoder_steps:
  "add_symbols [systematic_symbol (Owned [[5], [6]]) 0] (decoder_new 2 1) = (Ok (), stale_decoder)"
  "decoder_decode stale_decoder = (Err (Underdetermined 1 2), stale_decoder)"
  "fst (add_symbols [systematic_symbol (Owned [[9]]) 0] stale_decoder) = Ok ()"
  "fst (decoder_decode (snd (add_symbols [systematic_symbol (Owned [[9]]) 0] stale_decoder))) = Err (Underdetermined 0 1)"
  by code_simp+

text \<open>RESYNC keeps the decoders of an aborted transfer: here one symbol of generation 0 (two source
  symbols) had arrived before the client restarted the cold start; the restarted transfer's
  generation 0, complete in one frame and decodable on its own, is fed to the old decoder and yields
  nothing, so the cold start cannot complete.\<close>

theorem stale_decoder_blocks_cold_start:
  "let old = \<lparr>bf_session_id = 1, bf_generation = 0, bf_k = 2, bf_symbol_size = 1,
         bf_symbols = [systematic_symbol (Owned [[5], [6]]) 0]\<rparr>;
       new = \<lparr>bf_session_id = 1, bf_generation = 0, bf_k = 1, bf_symbol_size = 1,
         bf_symbols = [systematic_symbol (Owned [[9]]) 0]\<rparr>;
       rf = \<lparr>rf_session_id = 1, rf_client_root = ROOT_ZERO, rf_manifest = [[3]]\<rparr>;
       (a, r1) = handle_bulk step_hash demo_zstd old demo_receiver;
       (missing, r2) = handle_resync rf r1
   in a = Ok None \<and> missing = [[3]] \<and> fst (handle_bulk step_hash demo_zstd new r2) = Ok None \<and>
      fst (decoder_decode (snd (add_symbols (bf_symbols new) (decoder_new 1 1)))) = Ok [[9]]"
proof -
  define old where "old = \<lparr>bf_session_id = 1, bf_generation = 0, bf_k = 2, bf_symbol_size = 1,
    bf_symbols = [systematic_symbol (Owned [[5], [6]]) 0]\<rparr>"
  define new where "new = \<lparr>bf_session_id = 1, bf_generation = 0, bf_k = 1, bf_symbol_size = 1,
    bf_symbols = [systematic_symbol (Owned [[9]]) 0]\<rparr>"
  define rf where "rf = \<lparr>rf_session_id = 1, rf_client_root = ROOT_ZERO, rf_manifest = [[3]]\<rparr>"
  obtain d e where d: "add_symbols [systematic_symbol (Owned [[9]]) 0] stale_decoder = (Ok (), d)"
    "decoder_decode d = (Err (Underdetermined 0 1), e)"
    using stale_decoder_steps(3,4) by (metis prod.collapse snd_conv)
  define r1 where "r1 = snd (handle_bulk step_hash demo_zstd old demo_receiver)"
  have "entry_session 1 demo_receiver = fresh_session" "rc_store demo_receiver = store_new"
    by (simp_all add: demo_receiver_def receiver_new_def entry_session_def session_list_def store_new_def)
  then have b: "handle_bulk step_hash demo_zstd old demo_receiver =
      (Ok None, put_session 1 (fresh_session\<lparr>rs_decoders := [0 \<mapsto> stale_decoder]\<rparr>) demo_receiver)" "rc_store demo_receiver = store_new"
    using stale_decoder_steps(1,2) by (simp_all add: handle_bulk_def old_def Let_def fresh_session_def)
  obtain missing r2 where r2: "handle_resync rf r1 = (missing, r2)" by force
  have m: "missing = [[3]]" and dec: "rs_decoders (entry_session 1 r2) = [0 \<mapsto> stale_decoder]"
    using handle_resync_facts(1,5) [OF r2] by (simp_all add: rf_def r1_def b core_queries)
  have "fst (handle_bulk step_hash demo_zstd new r2) = Ok None"
    using d by (simp add: handle_bulk_def new_def Let_def dec)
  moreover have "fst (decoder_decode (snd (add_symbols (bf_symbols new) (decoder_new 1 1)))) = Ok [[9]]"
    unfolding new_def by code_simp
  ultimately show ?thesis
    using b(1) r2 m by (simp add: old_def [symmetric] new_def [symmetric] rf_def [symmetric] r1_def Let_def)
qed

end
