(* ===== verification/Gapless.thy ===== *)
theory Gapless
  imports ColdStart
begin

text \<open>
  What any frame may do to the receiver (\<open>crates/receiver/src/lib.rs\<close>): contents are only ever added, the
  logs of other sessions stay, and an id of a log whose content is absent is always in the pending set
  of its session.  So a session with nothing pending reconstructs completely.
\<close>

definition no_gaps :: "receiver \<Rightarrow> bool" where
  "no_gaps r \<longleftrightarrow>
     (\<forall>sid. \<forall>i \<in> set (session_ids (rc_store r) sid). store_contains (rc_store r) i \<or> i \<in> rs_pending (entry_session sid r))"

text \<open>The effect of a step of session \<open>sid\<close> on everything else.\<close>

definition keeps :: "u128 \<Rightarrow> receiver \<Rightarrow> receiver \<Rightarrow> bool" where
  "keeps sid r r' \<longleftrightarrow>
     fst (core (rc_store r)) \<subseteq>\<^sub>m fst (core (rc_store r')) \<and>
     (\<forall>k. k \<noteq> sid \<longrightarrow> session_ids (rc_store r') k = session_ids (rc_store r) k \<and> rc_sessions r' k = rc_sessions r k)"

lemma keeps_refl [simp, intro]: "keeps sid r r"
  by (simp add: keeps_def)

lemma keeps_contains: "keeps sid r r' \<Longrightarrow> store_contains (rc_store r) i \<Longrightarrow> store_contains (rc_store r') i"
  by (auto simp: keeps_def core_queries map_le_def dom_def)

lemma keeps_entry: "keeps sid r r' \<Longrightarrow> k \<noteq> sid \<Longrightarrow> entry_session k r' = entry_session k r"
  by (simp add: keeps_def entry_session_def)

text \<open>A step that keeps the rest is safe if its own session has no gap afterwards.\<close>

lemma no_gaps_step:
  assumes "no_gaps r" "keeps sid r r'"
    and "\<And>i. i \<in> set (session_ids (rc_store r') sid) \<Longrightarrow> store_contains (rc_store r') i \<or> i \<in> rs_pending (entry_session sid r')"
  shows "no_gaps r'"
  unfolding no_gaps_def
proof (intro allI ballI)
  fix k i
  assume i: "i \<in> set (session_ids (rc_store r') k)"
  show "store_contains (rc_store r') i \<or> i \<in> rs_pending (entry_session k r')"
  proof (cases "k = sid")
    case False
    then have "i \<in> set (session_ids (rc_store r) k)" using i assms(2) by (simp add: keeps_def)
    then have "store_contains (rc_store r) i \<or> i \<in> rs_pending (entry_session k r)" using assms(1) by (simp add: no_gaps_def)
    then show ?thesis using keeps_contains [OF assms(2)] keeps_entry [OF assms(2) False] by auto
  qed (use assms(3) i in blast)
qed

lemma keeps_put [simp]: "keeps sid r (put_session sid st r)"
  by (simp add: keeps_def put_session_def)

lemma c_apply_extends: "fst c \<subseteq>\<^sub>m fst (c_apply H sid rs c)"
  unfolding map_le_def dom_def by (auto simp: c_apply_keeps)

text \<open>APPEND\<close>

lemma append_step:
  assumes "handle_append H z fr r = (res, r')"
  defines "sid \<equiv> af_session_id fr"
  shows "keeps sid r r'" "no_gaps r \<Longrightarrow> no_gaps r'"
    "res = Ok ack \<Longrightarrow> rs_pending (entry_session sid r') = {} \<and> rc_sessions r' sid \<noteq> None \<and>
       ack_session_id ack = sid \<and> ack_root ack = session_root (rc_store r') sid \<and>
       (\<exists>new. session_ids (rc_store r') sid = session_ids (rc_store r) sid @ new)"
    "(\<And>ack. res \<noteq> Ok ack) \<Longrightarrow> session_ids (rc_store r') sid = session_ids (rc_store r) sid"
    "rc_sessions r sid \<noteq> None \<Longrightarrow> rc_sessions r' sid \<noteq> None"
proof -
  define r1 where "r1 = put_session sid (entry_session sid r) r"
  have p: "entry_session sid r1 = entry_session sid r" "rc_sessions r1 sid \<noteq> None" "keeps sid r r1"
    "rc_store r1 = rc_store r" unfolding r1_def by (simp_all add: put_session_def entry_session_def keeps_def)
  have quiet: "no_gaps r1" if "no_gaps r"
    using that p by (intro no_gaps_step [OF that p(3)]) (auto simp: no_gaps_def)
  have "keeps sid r r' \<and> (no_gaps r \<longrightarrow> no_gaps r') \<and> (\<forall>ack. res = Ok ack \<longrightarrow> rs_pending (entry_session sid r') = {} \<and>
      rc_sessions r' sid \<noteq> None \<and> ack_session_id ack = sid \<and> ack_root ack = session_root (rc_store r') sid \<and>
      (\<exists>new. session_ids (rc_store r') sid = session_ids (rc_store r) sid @ new)) \<and>
    ((\<forall>ack. res \<noteq> Ok ack) \<longrightarrow> session_ids (rc_store r') sid = session_ids (rc_store r) sid) \<and>
    (rc_sessions r sid \<noteq> None \<longrightarrow> rc_sessions r' sid \<noteq> None)"
  proof (cases "otraverse (resolve_block H z (rc_compressor r)) (af_blocks fr)")
    case (Ok rs)
    show ?thesis
    proof (cases "refs_available (rc_store r) {} rs \<and> rs_pending (entry_session sid r) = {} \<and> af_base_root fr = session_root (rc_store r) sid")
      case True
      then obtain st' where st': "res = Ok \<lparr>ack_session_id = sid, ack_root = session_root st' sid\<rparr>" "r' = r1\<lparr>rc_store := st'\<rparr>"
        "core st' = c_apply H sid rs (core (rc_store r))"
        using handle_append_cases(1) [OF Ok, folded sid_def, folded r1_def] assms(1) by auto
      have ids: "session_ids st' k = (if k = sid then session_ids (rc_store r) sid @ map resolved_id rs else session_ids (rc_store r) k)" for k
        by (simp add: core_queries st'(3) c_apply_queries)
      have k: "keeps sid r r'" using p(3) c_apply_extends [of "core (rc_store r)"] st'(3)
        by (simp add: keeps_def st'(2) ids)
      have new: "store_contains st' (resolved_id it)" if "it \<in> set rs" for it
        using c_apply_contents [of "rc_store r" "{}" rs "core (rc_store r)" H sid] True that
        by (simp add: core_queries st'(3))
      have e: "entry_session sid r' = entry_session sid r" using p(1) by (simp add: st'(2) entry_session_def)
      have "no_gaps r'" if "no_gaps r"
      proof (rule no_gaps_step [OF that k])
        fix i assume "i \<in> set (session_ids (rc_store r') sid)"
        then have "i \<in> set (session_ids (rc_store r) sid) \<or> i \<in> resolved_id ` set rs" by (auto simp: st'(2) ids)
        then show "store_contains (rc_store r') i \<or> i \<in> rs_pending (entry_session sid r')"
          using that keeps_contains [OF k] new e by (auto simp: no_gaps_def st'(2))
      qed
      then show ?thesis using k st' e True p(2) by (auto simp: ids)
    next
      case False
      then show ?thesis using assms(1) Ok p quiet
        by (auto simp: handle_append_def Let_def r1_def [symmetric] sid_def [symmetric] split: if_splits)
    qed
  qed (use assms(1) in \<open>auto simp: handle_append_def\<close>)
  then show "keeps sid r r'" "no_gaps r \<Longrightarrow> no_gaps r'"
    "res = Ok ack \<Longrightarrow> rs_pending (entry_session sid r') = {} \<and> rc_sessions r' sid \<noteq> None \<and>
       ack_session_id ack = sid \<and> ack_root ack = session_root (rc_store r') sid \<and>
       (\<exists>new. session_ids (rc_store r') sid = session_ids (rc_store r) sid @ new)"
    "(\<And>ack. res \<noteq> Ok ack) \<Longrightarrow> session_ids (rc_store r') sid = session_ids (rc_store r) sid"
    "rc_sessions r sid \<noteq> None \<Longrightarrow> rc_sessions r' sid \<noteq> None" by blast+
qed

text \<open>RESYNC\<close>

lemma resync_step:
  assumes "handle_resync fr r = (missing, r')"
  shows "keeps (rf_session_id fr) r r'" "no_gaps r \<Longrightarrow> no_gaps r'"
proof -
  note f = handle_resync_facts [OF assms]
  have "rc_sessions r' k = rc_sessions r k" if "k \<noteq> rf_session_id fr" for k
    using assms that by (auto simp: handle_resync_def Let_def put_session_def)
  then show k: "keeps (rf_session_id fr) r r'"
    by (simp add: keeps_def core_queries f(2) c_seed_def c_ids_def)
  have c: "fst (core (rc_store r')) = fst (core (rc_store r))" by (simp add: f(2) c_seed_def)
  show "no_gaps r'" if "no_gaps r"
    by (rule no_gaps_step [OF that k]) (auto simp: core_queries f(1,2,3) c c_seed_def c_ids_def)
qed

text \<open>BULK\<close>

lemma c_puts_extends: "fst c \<subseteq>\<^sub>m fst (c_puts rec c)"
proof (induction rec arbitrary: c)
  case (Cons p rec)
  have "fst c \<subseteq>\<^sub>m fst (c_put (fst p) (snd p) c)" by (auto simp: map_le_def fst_c_put)
  then show ?case using Cons [of "c_put (fst p) (snd p) c"] map_le_trans by (fastforce simp: c_puts_def split_beta)
qed (simp add: c_puts_def)

definition put_decoder :: "bulk_frame \<Rightarrow> receiver \<Rightarrow> fountain_decoder \<Rightarrow> receiver" where
  "put_decoder fr r d =
     put_session (bf_session_id fr) ((entry_session (bf_session_id fr) r)\<lparr>rs_decoders :=
       (rs_decoders (entry_session (bf_session_id fr) r))(bf_generation fr \<mapsto> d)\<rparr>) r"

lemma handle_bulk_cases:
  assumes "handle_bulk H z fr r = (res, r')"
  obtains (waiting) d where "r' = put_decoder fr r d"
  | (decoded) d recs recovered where
      "otraverse (recover_block H z (rc_compressor r)) recs = Ok recovered"
      "r' = snd (finish_generation (bf_session_id fr) (bf_generation fr) (map snd recovered)
        ((put_decoder fr r d)\<lparr>rc_store := store_contents (bf_session_id fr) recovered (rc_store r)\<rparr>))"
proof -
  define sid where "sid = bf_session_id fr"
  define d0 where "d0 = (case rs_decoders (entry_session sid r) (bf_generation fr) of
      Some d \<Rightarrow> d | None \<Rightarrow> decoder_new (unat (bf_k fr)) (unat (bf_symbol_size fr)))"
  obtain o1 d1 where a: "add_symbols (bf_symbols fr) d0 = (o1, d1)" by fastforce
  obtain o2 d2 where b: "decoder_decode d1 = (o2, d2)" by fastforce
  have put_eq: "put_session sid ((entry_session sid r)\<lparr>rs_decoders := (rs_decoders (entry_session sid r))(bf_generation fr \<mapsto> d)\<rparr>) r
      = put_decoder fr r d" for d by (simp add: put_decoder_def sid_def)
  have st: "rc_store (put_decoder fr r d) = rc_store r" for d by (simp add: put_decoder_def)
  note h = assms [unfolded handle_bulk_def Let_def, folded sid_def, folded d0_def, unfolded a b, simplified]
  have "(\<exists>d. r' = put_decoder fr r d) \<or> (\<exists>d recs recovered. otraverse (recover_block H z (rc_compressor r)) recs = Ok recovered \<and>
      r' = snd (finish_generation sid (bf_generation fr) (map snd recovered)
        ((put_decoder fr r d)\<lparr>rc_store := store_contents sid recovered (rc_store (put_decoder fr r d))\<rparr>)))"
    using h unfolding put_eq
    by (auto split: outcome.splits fountain_error.splits prod.splits) (metis snd_conv)+
  then show ?thesis using that by (auto simp: sid_def st)
qed

lemma bulk_step:
  assumes "handle_bulk H z fr r = (res, r')"
  shows "keeps (bf_session_id fr) r r'" "no_gaps r \<Longrightarrow> no_gaps r'"
proof -
  define sid where "sid = bf_session_id fr"
  have quiet: "keeps sid r (put_decoder fr r d) \<and> (no_gaps r \<longrightarrow> no_gaps (put_decoder fr r d))" for d
  proof -
    have k: "keeps sid r (put_decoder fr r d)" by (simp add: put_decoder_def sid_def)
    have "no_gaps (put_decoder fr r d)" if "no_gaps r"
      by (rule no_gaps_step [OF that k]) (use that in \<open>auto simp: put_decoder_def no_gaps_def sid_def\<close>)
    then show ?thesis using k by blast
  qed
  have "keeps sid r r' \<and> (no_gaps r \<longrightarrow> no_gaps r')"
    using assms
  proof (cases rule: handle_bulk_cases)
    case (decoded d recs recovered)
    have s: "core (rc_store r') = c_puts recovered (core (rc_store r))" "rc_sessions r' k = rc_sessions r k \<or> k = sid"
      "rs_pending (entry_session sid r') = rs_pending (entry_session sid r) - snd ` set recovered" for k
      unfolding decoded(2) by (auto simp: finish_generation_def Let_def put_decoder_def put_session_def entry_session_def
          store_contents_core sid_def)
    then have k: "keeps sid r r'" using c_puts_extends [of "core (rc_store r)"] by (auto simp: keeps_def core_queries)
    have cont: "store_contains (rc_store r') i \<longleftrightarrow> store_contains (rc_store r) i \<or> i \<in> snd ` set recovered" for i
      by (simp only: core_queries s(1) c_puts_contents)
    have ids: "session_ids (rc_store r') sid = session_ids (rc_store r) sid" by (simp add: core_queries s(1))
    have "no_gaps r'" if "no_gaps r"
      by (rule no_gaps_step [OF that k], unfold cont ids s(3)) (use that in \<open>auto simp: no_gaps_def\<close>)
    then show ?thesis using k by blast
  qed (use quiet in blast)
  then show "keeps (bf_session_id fr) r r'" "no_gaps r \<Longrightarrow> no_gaps r'" by (simp_all add: sid_def)
qed

text \<open>Any frame\<close>

fun frame_session_id :: "frame \<Rightarrow> u128" where
  "frame_session_id (Append f) = af_session_id f"
| "frame_session_id (Resync f) = rf_session_id f"
| "frame_session_id (Bulk f) = bf_session_id f"
| "frame_session_id (Ack f) = ack_session_id f"
| "frame_session_id (Missing f) = mf_session_id f"

lemma frame_step:
  assumes "handle_frame H z f r = (res, r')"
  shows "keeps (frame_session_id f) r r' \<and> (no_gaps r \<longrightarrow> no_gaps r')"
proof (cases f)
  case (Append a)
  then obtain res' where "handle_append H z a r = (res', r')" using assms by (auto simp: handle_frame_def split: prod.splits)
  then show ?thesis using append_step(1,2) Append by fastforce
next
  case (Resync q)
  then obtain m where "handle_resync q r = (m, r')" using assms by (auto simp: handle_frame_def split: prod.splits if_splits)
  then show ?thesis using resync_step Resync by fastforce
next
  case (Bulk b)
  then obtain res' where "handle_bulk H z b r = (res', r')" using assms by (auto simp: handle_frame_def split: prod.splits)
  then show ?thesis using bulk_step Bulk by fastforce
qed (use assms in \<open>auto simp: handle_frame_def\<close>)

lemma new_no_gaps: "no_gaps (receiver_new st c)"
  by (auto simp: no_gaps_def receiver_new_def entry_session_def recover_session_def session_list_def session_ids_def dom_def
      Let_def split: option.splits)

text \<open>A run of frames in any order, answered or refused.\<close>

definition run_frames :: "hash \<Rightarrow> zstd \<Rightarrow> frame list \<Rightarrow> receiver \<Rightarrow> receiver" where
  "run_frames H z fs r = fold (\<lambda>f r. snd (handle_frame H z f r)) fs r"

lemma run_frames_no_gaps: "no_gaps r \<Longrightarrow> no_gaps (run_frames H z fs r)"
proof (induction fs arbitrary: r)
  case (Cons f fs)
  have "no_gaps (snd (handle_frame H z f r))" using frame_step [of H z f r] Cons.prems by (metis prod.collapse)
  then show ?case using Cons.IH by (simp add: run_frames_def)
qed (simp add: run_frames_def)

lemma map_filter_complete: "map g is = map Some bs \<Longrightarrow> List.map_filter g is = bs"
  by (induction "is" arbitrary: bs) (auto simp: List.map_filter_simps map_eq_Cons_conv Cons_eq_map_conv)

lemma reconstruct_complete:
  assumes "map (st_blocks (rc_store r)) (session_ids (rc_store r) sid) = map Some blocks" "rc_sessions r sid \<noteq> None"
  shows "receiver_reconstruct sid r = blocks"
  using assms map_filter_complete [OF assms(1)]
  by (auto simp: receiver_reconstruct_def reconstruct_def collect_blocks_def session_ids_def split: option.splits)

lemma no_gaps_complete:
  assumes "no_gaps r" "rs_pending (entry_session sid r) = {}"
  shows "\<exists>blocks. map (st_blocks (rc_store r)) (session_ids (rc_store r) sid) = map Some blocks"
proof -
  have "\<forall>i \<in> set (session_ids (rc_store r) sid). st_blocks (rc_store r) i \<noteq> None"
    using assms by (auto simp: no_gaps_def store_contains_def)
  then have "map (st_blocks (rc_store r)) (session_ids (rc_store r) sid) =
      map Some (map (the \<circ> st_blocks (rc_store r)) (session_ids (rc_store r) sid))" by auto
  then show ?thesis by blast
qed

text \<open>C14: No frame can leave a silent hole in a log.  After any sequence of frames on a receiver recovered from
  any store, whatever was refused on the way, a session with nothing pending has the content of every
  id of its log: reconstruction gives one block for each id, in order.  And a frame of one session leaves
  the log of every other as it was.\<close>

theorem receiver_log_complete:
  fixes H z fs st c
  defines "r \<equiv> run_frames H z fs (receiver_new st c)"
  assumes "rc_sessions r sid \<noteq> None" "rs_pending (entry_session sid r) = {}"
  shows "map Some (receiver_reconstruct sid r) = map (st_blocks (rc_store r)) (session_ids (rc_store r) sid) \<and>
    (\<forall>f. frame_session_id f \<noteq> sid \<longrightarrow>
       receiver_reconstruct sid (snd (handle_frame H z f r)) = receiver_reconstruct sid r)"
proof -
  have g: "no_gaps r" unfolding r_def by (rule run_frames_no_gaps [OF new_no_gaps])
  obtain bs where bs: "map (st_blocks (rc_store r)) (session_ids (rc_store r) sid) = map Some bs"
    using no_gaps_complete [OF g assms(3)] by blast
  note rb = reconstruct_complete [OF bs assms(2)]
  have "receiver_reconstruct sid (snd (handle_frame H z f r)) = bs" if "frame_session_id f \<noteq> sid" for f
  proof -
    define r' where "r' = snd (handle_frame H z f r)"
    have k: "keeps (frame_session_id f) r r'" using frame_step [of H z f r] unfolding r'_def by (metis prod.collapse)
    have "st_blocks (rc_store r') i = st_blocks (rc_store r) i" if "i \<in> set (session_ids (rc_store r) sid)" for i
    proof -
      have "st_blocks (rc_store r) i \<in> Some ` set bs" using that bs by (metis image_eqI list.set_map)
      then show ?thesis using k by (auto simp: keeps_def core_def map_le_def dom_def)
    qed
    then have "map (st_blocks (rc_store r')) (session_ids (rc_store r') sid) = map Some bs"
      using bs k that by (simp add: keeps_def flip: bs)
    then show ?thesis unfolding r'_def [symmetric]
      by (rule reconstruct_complete) (use k that assms(2) in \<open>simp add: keeps_def\<close>)
  qed
  then show ?thesis using rb bs by simp
qed

theorem receiver_log_complete_witness:
  "receiver_reconstruct 1 (run_frames tail_hash demo_zstd
     [Resync \<lparr>rf_session_id = 1, rf_client_root = ROOT_ZERO, rf_manifest = []\<rparr>] demo_receiver) = []"
proof -
  define fs where "fs = [Resync \<lparr>rf_session_id = 1, rf_client_root = ROOT_ZERO, rf_manifest = []\<rparr>]"
  define r where "r = run_frames tail_hash demo_zstd fs (receiver_new store_new compressor_default)"
  have h: "r = snd (handle_resync \<lparr>rf_session_id = 1, rf_client_root = ROOT_ZERO, rf_manifest = []\<rparr> demo_receiver)"
    by (simp add: r_def fs_def run_frames_def handle_frame_def demo_receiver_def handle_resync_def Let_def)
  have "rc_sessions r 1 \<noteq> None" "rs_pending (entry_session 1 r) = {}" "session_ids (rc_store r) 1 = []"
    by (simp_all add: h handle_resync_def Let_def put_session_def entry_session_def core_queries core_simps)
  then show ?thesis
    using receiver_log_complete [of tail_hash demo_zstd fs store_new compressor_default 1, folded r_def]
    by (simp add: r_def fs_def demo_receiver_def)
qed

end
