(* ===== verification/Projection.thy ===== *)
theory Projection
  imports Envelope Gapless "HOL-Library.AList"
begin

text \<open>
  The sidecar's projection of a session into the \<open>messages\<close> array of a chat request
  (\<open>crates/sidecar/src/lib.rs\<close>): joining payloads with commas into chunks, extending a cached projection by
  the messages appended since, and the bounded least-recently-used cache of projections.
\<close>

section \<open>Operations\<close>

definition PROJECTION_CHUNK_BYTES :: nat where "PROJECTION_CHUNK_BYTES = 64 * 1024"
definition PROJECTION_CACHE_JSON_BYTES :: nat where "PROJECTION_CACHE_JSON_BYTES = 256 * 1024 * 1024"
definition PROJECTION_CACHE_SESSIONS :: nat where "PROJECTION_CACHE_SESSIONS = 64"

text \<open>\<open>usize::saturating_add\<close>\<close>

definition sat_add :: "nat \<Rightarrow> nat \<Rightarrow> nat" where
  "sat_add a b = min (a + b) (2 ^ 64 - 1)"

record cached_projection =
  cp_root :: merkle_root
  cp_count :: nat
  cp_chunks :: "bytes list"
  cp_json_bytes :: nat

abbreviation comma :: bytes where "comma \<equiv> ascii '',''"

fun projection_loop :: "bytes list \<Rightarrow> bytes list \<Rightarrow> bytes \<Rightarrow> nat \<Rightarrow> nat \<Rightarrow> bytes list \<times> nat \<times> nat" where
  "projection_loop [] chunks pending cnt json =
     ((if pending \<noteq> [] then chunks @ [pending] else chunks), cnt, json)"
| "projection_loop (pl # ps) chunks pending cnt json =
     (let comma_bytes = (if cnt > 0 then 1 else 0);
          json' = sat_add (sat_add json comma_bytes) (length pl);
          combined_len = sat_add comma_bytes (length pl);
          sep = (if comma_bytes \<noteq> (0 :: nat) then comma else []);
          cnt' = sat_add cnt 1
      in if combined_len \<le> PROJECTION_CHUNK_BYTES then
           (if sat_add (length pending) combined_len > PROJECTION_CHUNK_BYTES
            then projection_loop ps (chunks @ [pending]) (sep @ pl) cnt' json'
            else projection_loop ps chunks (pending @ sep @ pl) cnt' json')
         else
           projection_loop ps
             ((if pending \<noteq> [] then chunks @ [pending] else chunks) @ (if comma_bytes \<noteq> (0 :: nat) then [comma] else []) @ [pl])
             [] cnt' json')"

definition append_projection_payloads :: "bytes list \<Rightarrow> cached_projection \<Rightarrow> cached_projection" where
  "append_projection_payloads payloads p =
     (case projection_loop payloads (cp_chunks p) [] (cp_count p) (cp_json_bytes p) of
        (chunks, cnt, json) \<Rightarrow> p\<lparr>cp_chunks := chunks, cp_count := cnt, cp_json_bytes := json\<rparr>)"

fun first_invalid :: "'j serde \<Rightarrow> nat \<Rightarrow> block list \<Rightarrow> nat option" where
  "first_invalid J i [] = None"
| "first_invalid J i (b # bs) = (if sj_has_role J (payload b) then first_invalid J (i + 1) bs else Some i)"

definition extend_or_reconstruct_projection ::
  "'j serde \<Rightarrow> receiver \<Rightarrow> u128 \<Rightarrow> merkle_root \<Rightarrow> cached_projection option \<Rightarrow> (cached_projection, sidecar_error) outcome" where
  "extend_or_reconstruct_projection J r sid root cached =
     (let len = session_len (rc_store r) sid
      in case (case cached of Some c \<Rightarrow> if cp_count c \<le> len then Some c else None | None \<Rightarrow> None) of
        Some p \<Rightarrow>
          (case receiver_reconstruct_range sid (cp_count p) len r of
             Ok additions \<Rightarrow>
               if length additions \<noteq> len - cp_count p then Err (EnvelopeError ''session projection is incomplete'')
               else Ok ((append_projection_payloads (map payload additions) p)\<lparr>cp_root := root\<rparr>)
           | _ \<Rightarrow> Panic)
      | None \<Rightarrow>
          (let blocks = receiver_reconstruct sid r
           in case first_invalid J 0 blocks of
             Some i \<Rightarrow> Err (InvalidMessage i)
           | None \<Rightarrow> Ok (append_projection_payloads (map payload blocks)
               \<lparr>cp_root = root, cp_count = 0, cp_chunks = [], cp_json_bytes = 0\<rparr>)))"

subsection \<open>The cache\<close>

record projection_cache =
  pc_entries :: "(u128 \<times> cached_projection) list"
  pc_lru :: "u128 list"
  pc_json_bytes :: nat

definition cache_default :: projection_cache where
  "cache_default = \<lparr>pc_entries = [], pc_lru = [], pc_json_bytes = 0\<rparr>"

definition cache_touch :: "u128 \<Rightarrow> projection_cache \<Rightarrow> projection_cache" where
  "cache_touch sid c = c\<lparr>pc_lru := filter (\<lambda>i. i \<noteq> sid) (pc_lru c) @ [sid]\<rparr>"

definition cache_get :: "u128 \<Rightarrow> merkle_root \<Rightarrow> projection_cache \<Rightarrow> cached_projection option \<times> projection_cache" where
  "cache_get sid root c =
     (case map_of (pc_entries c) sid of
        Some p \<Rightarrow> if cp_root p = root then (Some p, cache_touch sid c) else (None, c)
      | None \<Rightarrow> (None, c))"

definition cache_drop :: "u128 \<Rightarrow> projection_cache \<Rightarrow> projection_cache" where
  "cache_drop sid c =
     (case map_of (pc_entries c) sid of
        Some p \<Rightarrow> c\<lparr>pc_entries := AList.delete sid (pc_entries c), pc_json_bytes := pc_json_bytes c - cp_json_bytes p\<rparr>
      | None \<Rightarrow> c)"

definition cache_remove :: "u128 \<Rightarrow> projection_cache \<Rightarrow> projection_cache" where
  "cache_remove sid c = (cache_drop sid c)\<lparr>pc_lru := filter (\<lambda>i. i \<noteq> sid) (pc_lru c)\<rparr>"

fun evict_for :: "nat \<Rightarrow> u128 list \<Rightarrow> projection_cache \<Rightarrow> projection_cache" where
  "evict_for need lru c =
     (if pc_entries c \<noteq> [] \<and>
         (length (pc_entries c) \<ge> PROJECTION_CACHE_SESSIONS \<or> sat_add (pc_json_bytes c) need > PROJECTION_CACHE_JSON_BYTES)
      then (case lru of [] \<Rightarrow> c\<lparr>pc_lru := []\<rparr> | oldest # rest \<Rightarrow> evict_for need rest (cache_drop oldest c))
      else c\<lparr>pc_lru := lru\<rparr>)"

declare evict_for.simps [simp del]

definition cache_insert :: "u128 \<Rightarrow> cached_projection \<Rightarrow> projection_cache \<Rightarrow> projection_cache" where
  "cache_insert sid p c =
     (let c1 = cache_remove sid c; c2 = evict_for (cp_json_bytes p) (pc_lru c1) c1
      in c2\<lparr>pc_json_bytes := sat_add (pc_json_bytes c2) (cp_json_bytes p),
            pc_entries := AList.update sid p (pc_entries c2), pc_lru := pc_lru c2 @ [sid]\<rparr>)"

section \<open>The projected array\<close>

fun json_join :: "bytes list \<Rightarrow> bytes" where
  "json_join [] = []"
| "json_join [p] = p"
| "json_join (p # q # ps) = p @ comma @ json_join (q # ps)"

lemma json_join_snoc: "json_join (ps @ [p]) = json_join ps @ (if ps = [] then [] else comma) @ p"
  by (induction ps rule: json_join.induct) simp_all

text \<open>A projection of exactly these payloads.\<close>

definition projects :: "cached_projection \<Rightarrow> bytes list \<Rightarrow> bool" where
  "projects p ps \<longleftrightarrow> concat (cp_chunks p) = json_join ps \<and> cp_count p = length ps \<and> cp_json_bytes p = length (json_join ps)"

lemma length_json_join_mono: "length (json_join ps) \<le> length (json_join (ps @ qs))"
proof (induction qs rule: rev_induct)
  case (snoc q qs)
  then show ?case using json_join_snoc [of "ps @ qs" q] by simp
qed simp

lemma comma_length [simp]: "length comma = 1"
  by (simp add: ascii_def)

lemma projection_loop_joins:
  assumes "length (json_join (xs @ ps)) < 2 ^ 64" "length (xs @ ps) < 2 ^ 64"
    and "concat chunks @ pending = json_join xs" "cnt = length xs" "json = length (json_join xs)"
    and "length pending \<le> PROJECTION_CHUNK_BYTES"
  shows "\<exists>chunks'. projection_loop ps chunks pending cnt json = (chunks', length (xs @ ps), length (json_join (xs @ ps))) \<and>
    concat chunks' = json_join (xs @ ps)"
  using assms
proof (induction ps arbitrary: chunks pending cnt json xs)
  case Nil
  then show ?case by auto
next
  case (Cons p ps)
  let ?sep = "if xs = [] then [] else comma" and ?c = "if cnt > 0 then 1 else (0 :: nat)"
  have j: "json_join (xs @ [p]) = json_join xs @ ?sep @ p" by (rule json_join_snoc)
  have l: "length (json_join (xs @ [p])) < 2 ^ 64"
    using length_json_join_mono [of "xs @ [p]" ps] Cons.prems(1) by simp
  have c: "?c = length ?sep" using Cons.prems(4) by simp
  have sums: "sat_add (sat_add json ?c) (length p) = length (json_join (xs @ [p]))" "sat_add ?c (length p) = length (?sep @ p)"
    "sat_add cnt 1 = length (xs @ [p])"
    using l Cons.prems(2,4,5) unfolding c j sat_add_def by auto
  have sep: "(if ?c \<noteq> 0 then comma else []) = ?sep" using Cons.prems(4) by simp
  have small: "sat_add (length pending) (length (?sep @ p)) = length (pending @ ?sep @ p)" if "length (?sep @ p) \<le> PROJECTION_CHUNK_BYTES"
    using that Cons.prems(6) by (simp add: sat_add_def PROJECTION_CHUNK_BYTES_def)
  have IH: "\<exists>chunks'. projection_loop ps ch pe (length (xs @ [p])) (length (json_join (xs @ [p])))
      = (chunks', length (xs @ p # ps), length (json_join (xs @ p # ps))) \<and> concat chunks' = json_join (xs @ p # ps)"
    if "concat ch @ pe = json_join (xs @ [p])" "length pe \<le> PROJECTION_CHUNK_BYTES" for ch pe
    using Cons.IH [of "xs @ [p]" ch pe] that Cons.prems(1,2) by simp
  have unf: "projection_loop (p # ps) chunks pending cnt json =
      (if length (?sep @ p) \<le> PROJECTION_CHUNK_BYTES then
         (if length (pending @ ?sep @ p) > PROJECTION_CHUNK_BYTES
          then projection_loop ps (chunks @ [pending]) (?sep @ p) (length (xs @ [p])) (length (json_join (xs @ [p])))
          else projection_loop ps chunks (pending @ ?sep @ p) (length (xs @ [p])) (length (json_join (xs @ [p]))))
       else projection_loop ps
         ((if pending \<noteq> [] then chunks @ [pending] else chunks) @ (if ?c \<noteq> 0 then [comma] else []) @ [p]) []
         (length (xs @ [p])) (length (json_join (xs @ [p]))))"
    unfolding projection_loop.simps Let_def sums sep
    by (cases "length (?sep @ p) \<le> PROJECTION_CHUNK_BYTES") (simp_all only: small if_True if_False)
  have sc: "concat (if ?c \<noteq> 0 then [comma] else []) = ?sep" using Cons.prems(4) by simp
  show ?case
  proof (cases "length (?sep @ p) \<le> PROJECTION_CHUNK_BYTES")
    case True
    show ?thesis
    proof (cases "length (pending @ ?sep @ p) > PROJECTION_CHUNK_BYTES")
      case over: True
      show ?thesis unfolding unf if_P [OF True] if_P [OF over]
        by (rule IH [OF _ True]) (use Cons.prems(3) j in \<open>simp flip: append_assoc\<close>)
    next
      case False
      show ?thesis unfolding unf if_P [OF True] if_not_P [OF False]
        by (rule IH) (use Cons.prems(3) j False in \<open>simp_all flip: append_assoc\<close>)
    qed
  next
    case False
    have "concat (if pending \<noteq> [] then chunks @ [pending] else chunks) = concat chunks @ pending" by simp
    then show ?thesis unfolding unf if_not_P [OF False]
      by (intro IH) (simp_all only: concat_append sc Cons.prems(3) j concat.simps append_Nil2 append_assoc list.size le0)
  qed
qed

lemma append_projection:
  assumes "projects p xs" "length (json_join (xs @ ps)) < 2 ^ 64" "length (xs @ ps) < 2 ^ 64"
  shows "projects (append_projection_payloads ps p) (xs @ ps)" "cp_root (append_projection_payloads ps p) = cp_root p"
proof -
  obtain ch where "projection_loop ps (cp_chunks p) [] (cp_count p) (cp_json_bytes p) = (ch, length (xs @ ps), length (json_join (xs @ ps)))"
    "concat ch = json_join (xs @ ps)"
    using projection_loop_joins [OF assms(2,3), of "cp_chunks p" "[]" "cp_count p" "cp_json_bytes p"] assms(1)
    by (auto simp: projects_def)
  then show "projects (append_projection_payloads ps p) (xs @ ps)" "cp_root (append_projection_payloads ps p) = cp_root p"
    by (simp_all add: append_projection_payloads_def projects_def)
qed

text \<open>A session whose contents are all present.\<close>

definition complete_log :: "receiver \<Rightarrow> u128 \<Rightarrow> block list \<Rightarrow> bool" where
  "complete_log r sid blocks \<longleftrightarrow>
     rc_sessions r sid \<noteq> None \<and> map (st_blocks (rc_store r)) (session_ids (rc_store r) sid) = map Some blocks"

lemma complete_log_reconstruct:
  assumes "complete_log r sid blocks"
  shows "receiver_reconstruct sid r = blocks" "session_len (rc_store r) sid = length blocks"
    "k \<le> length blocks \<Longrightarrow> receiver_reconstruct_range sid k (length blocks) r = Ok (drop k blocks)"
proof -
  note c = assms [unfolded complete_log_def]
  have len: "length (session_ids (rc_store r) sid) = length blocks" using c by (metis length_map)
  have d: "List.map_filter (st_blocks (rc_store r)) (drop k (session_ids (rc_store r) sid)) = drop k blocks" for k
    by (rule map_filter_complete) (use c in \<open>metis drop_map\<close>)
  show "receiver_reconstruct sid r = blocks" using c by (intro reconstruct_complete) simp_all
  show "session_len (rc_store r) sid = length blocks" using len
    by (auto simp: session_len_def session_ids_def split: option.splits)
  show "receiver_reconstruct_range sid k (length blocks) r = Ok (drop k blocks)" if "k \<le> length blocks"
    using c d [of k] len that
    by (auto simp: receiver_reconstruct_range_def reconstruct_range_def collect_blocks_def session_ids_def slice_of_def
        List.map_filter_simps split: option.splits)
qed

lemma first_invalid_None: "first_invalid J i bs = None \<longleftrightarrow> (\<forall>b \<in> set bs. sj_has_role J (payload b))"
  by (induction J i bs rule: first_invalid.induct) auto

lemma extend_projects:
  assumes "complete_log r sid blocks"
    and "\<forall>c. cached = Some c \<longrightarrow> (\<exists>k \<le> length blocks. projects c (map payload (take k blocks)))"
    and "length (json_join (map payload blocks)) < 2 ^ 64" "length blocks < 2 ^ 64"
  shows "(\<exists>p. extend_or_reconstruct_projection J r sid root cached = Ok p \<and> cp_root p = root \<and> projects p (map payload blocks)) \<or>
    cached = None \<and> (\<exists>i. extend_or_reconstruct_projection J r sid root cached = Err (InvalidMessage i)) \<and>
      (\<exists>b \<in> set blocks. \<not> sj_has_role J (payload b))"
proof (cases cached)
  case None
  let ?e = "\<lparr>cp_root = root, cp_count = 0, cp_chunks = [], cp_json_bytes = 0\<rparr>"
  note c = complete_log_reconstruct [OF assms(1)]
  have "projects ?e []" by (simp add: projects_def)
  from append_projection [OF this, of "map payload blocks"] assms(3,4)
  show ?thesis using None c first_invalid_None [of J 0 blocks]
    by (cases "first_invalid J 0 blocks") (auto simp: extend_or_reconstruct_projection_def Let_def)
next
  case (Some cp)
  note c = complete_log_reconstruct [OF assms(1)]
  obtain k where k: "k \<le> length blocks" "projects cp (map payload (take k blocks))" using Some assms(2) by blast
  have e: "map payload (take k blocks) @ map payload (drop k blocks) = map payload blocks" by (simp flip: map_append)
  have n: "cp_count cp = k" using k by (simp add: projects_def)
  note a = append_projection [OF k(2), of "map payload (drop k blocks)", unfolded e]
  have "projects ((append_projection_payloads (map payload (drop k blocks)) cp)\<lparr>cp_root := root\<rparr>) (map payload blocks)"
    using a(1) assms(3,4) by (simp add: projects_def)
  then show ?thesis using Some c k(1) by (simp add: extend_or_reconstruct_projection_def Let_def n)
qed

text \<open>Extending a cached projection gives the same array as projecting the whole session: if the session's
  contents are present and each is a message, and the cache, if any, holds a projection of a prefix of
  the log, then the result is a projection of the whole log at the given root; its byte count is the
  length of the concatenated chunks.\<close>

theorem projection_of_log:
  assumes "complete_log r sid blocks" "\<forall>b \<in> set blocks. sj_has_role J (payload b)"
    and "\<forall>c. cached = Some c \<longrightarrow> (\<exists>k \<le> length blocks. projects c (map payload (take k blocks)))"
    and "length (json_join (map payload blocks)) < 2 ^ 64" "length blocks < 2 ^ 64"
  shows "\<exists>p. extend_or_reconstruct_projection J r sid root cached = Ok p \<and> cp_root p = root \<and>
    concat (cp_chunks p) = json_join (map payload blocks) \<and> cp_count p = length blocks \<and>
    cp_json_bytes p = length (concat (cp_chunks p))"
  using extend_projects [OF assms(1,3-5), of J root] assms(2) by (fastforce simp: projects_def)

definition demo_serde :: "bytes serde" where
  "demo_serde =
     \<lparr>sj_to_vec = (\<lambda>v. ascii ''{\"m\":1}''), sj_from_slice = Some, sj_metadata_from_slice = Some,
      sj_as_object = (\<lambda>v. Some [''role'' \<mapsto> v]), sj_as_str = (\<lambda>v. Some ''user''), sj_has_role = (\<lambda>b. True)\<rparr>"

definition two_messages :: receiver where
  "two_messages =
     \<lparr>rc_store = store_new\<lparr>st_blocks := [[1] \<mapsto> block_new Message 1 [65], [2] \<mapsto> block_new Message 2 [66]],
        st_sessions := [7 \<mapsto> \<lparr>sl_ids = [[1], [2]], sl_root = ROOT_ZERO\<rparr>]\<rparr>,
      rc_compressor = compressor_default, rc_sessions = [7 \<mapsto> fresh_session]\<rparr>"

theorem projection_of_log_witness:
  "\<exists>p. extend_or_reconstruct_projection demo_serde two_messages 7 ROOT_ZERO
      (Some \<lparr>cp_root = ROOT_ZERO, cp_count = 1, cp_chunks = [[65]], cp_json_bytes = 1\<rparr>) = Ok p \<and>
    concat (cp_chunks p) = [65, 44, 66]"
proof -
  define bs where "bs = [block_new Message 1 [65], block_new Message 2 [66]]"
  have "complete_log two_messages 7 bs"
    by (simp add: complete_log_def two_messages_def store_new_def session_ids_def bs_def)
  moreover have "projects \<lparr>cp_root = ROOT_ZERO, cp_count = 1, cp_chunks = [[65]], cp_json_bytes = 1\<rparr> (map payload (take 1 bs))"
    by (simp add: projects_def bs_def block_new_def)
  moreover have "json_join (map payload bs) = [65, 44, 66]" by (simp add: bs_def block_new_def ascii_def)
  moreover have "length bs = 2" "\<forall>b \<in> set bs. sj_has_role demo_serde (payload b)" by (simp_all add: bs_def demo_serde_def)
  ultimately show ?thesis
    using projection_of_log [of two_messages 7 bs demo_serde
      "Some \<lparr>cp_root = ROOT_ZERO, cp_count = 1, cp_chunks = [[65]], cp_json_bytes = 1\<rparr>" ROOT_ZERO] by fastforce
qed

section \<open>The cache stays within its bounds\<close>

definition cached_bytes :: "(u128 \<times> cached_projection) list \<Rightarrow> nat" where
  "cached_bytes es = sum_list (map (\<lambda>e. cp_json_bytes (snd e)) es)"

text \<open>The entries, the recency list and the byte count agree.\<close>

definition cache_consistent :: "projection_cache \<Rightarrow> bool" where
  "cache_consistent c \<longleftrightarrow>
     distinct (map fst (pc_entries c)) \<and> distinct (pc_lru c) \<and> set (pc_lru c) = fst ` set (pc_entries c) \<and>
     pc_json_bytes c = cached_bytes (pc_entries c)"

definition cache_bounded :: "projection_cache \<Rightarrow> bool" where
  "cache_bounded c \<longleftrightarrow>
     length (pc_entries c) \<le> PROJECTION_CACHE_SESSIONS \<and>
     (pc_json_bytes c \<le> PROJECTION_CACHE_JSON_BYTES \<or> length (pc_entries c) \<le> 1)"

lemma delete_filter: "AList.delete k es = filter (\<lambda>e. fst e \<noteq> k) es"
  by (auto simp: AList.delete_eq intro: filter_cong)

lemma cached_bytes_delete:
  "distinct (map fst es) \<Longrightarrow> map_of es k = Some p \<Longrightarrow> cached_bytes es = cp_json_bytes p + cached_bytes (filter (\<lambda>e. fst e \<noteq> k) es)"
proof (induction es)
  case (Cons e es)
  show ?case
  proof (cases "fst e = k")
    case True
    then have "filter (\<lambda>e. fst e \<noteq> k) es = es" using Cons.prems(1) by (intro filter_True) (auto simp: image_iff)
    then show ?thesis using True Cons.prems by (cases e) (simp add: cached_bytes_def)
  next
    case False
    then show ?thesis using Cons by (cases e) (auto simp: cached_bytes_def)
  qed
qed simp

lemma filter_absent: "k \<notin> fst ` set es \<Longrightarrow> filter (\<lambda>e. fst e \<noteq> k) es = es"
  by (intro filter_True) (auto simp: image_iff)

lemma cache_drop_facts:
  assumes "distinct (map fst (pc_entries c))" "pc_json_bytes c = cached_bytes (pc_entries c)"
  shows "pc_entries (cache_drop k c) = filter (\<lambda>e. fst e \<noteq> k) (pc_entries c)"
    "pc_json_bytes (cache_drop k c) = cached_bytes (pc_entries (cache_drop k c))" "pc_lru (cache_drop k c) = pc_lru c"
proof -
  have "map_of (pc_entries c) k = None \<Longrightarrow> filter (\<lambda>e. fst e \<noteq> k) (pc_entries c) = pc_entries c"
    by (rule filter_absent) (simp add: map_of_eq_None_iff)
  then show "pc_entries (cache_drop k c) = filter (\<lambda>e. fst e \<noteq> k) (pc_entries c)"
    "pc_json_bytes (cache_drop k c) = cached_bytes (pc_entries (cache_drop k c))" "pc_lru (cache_drop k c) = pc_lru c"
    using assms cached_bytes_delete [OF assms(1)] by (auto simp: cache_drop_def delete_filter split: option.split)
qed

lemma distinct_map_filter_fst: "distinct (map fst es) \<Longrightarrow> distinct (map fst (filter P es))"
  by (rule distinct_map_filter)

lemma cache_remove_consistent:
  assumes "cache_consistent c"
  shows "cache_consistent (cache_remove k c)" "pc_entries (cache_remove k c) = filter (\<lambda>e. fst e \<noteq> k) (pc_entries c)"
    "pc_lru (cache_remove k c) = filter (\<lambda>i. i \<noteq> k) (pc_lru c)"
  using assms cache_drop_facts [of c k] by (auto simp: cache_consistent_def cache_remove_def distinct_map_filter)

text \<open>Eviction takes the least recently used sessions until the new entry fits or nothing is left.\<close>

lemma evict_for_spec:
  assumes "cache_consistent (c\<lparr>pc_lru := lru\<rparr>)"
  shows "\<exists>n. pc_lru (evict_for need lru c) = drop n lru \<and>
    pc_entries (evict_for need lru c) = filter (\<lambda>e. fst e \<in> set (drop n lru)) (pc_entries c) \<and>
    cache_consistent (evict_for need lru c) \<and>
    (pc_entries (evict_for need lru c) = [] \<or>
     length (pc_entries (evict_for need lru c)) < PROJECTION_CACHE_SESSIONS \<and>
     sat_add (pc_json_bytes (evict_for need lru c)) need \<le> PROJECTION_CACHE_JSON_BYTES)"
  using assms
proof (induction lru arbitrary: c)
  case Nil
  then have "pc_entries c = []" by (simp add: cache_consistent_def)
  then show ?case using Nil by (simp add: evict_for.simps)
next
  case (Cons k lru)
  let ?full = "pc_entries c \<noteq> [] \<and> (length (pc_entries c) \<ge> PROJECTION_CACHE_SESSIONS \<or>
      sat_add (pc_json_bytes c) need > PROJECTION_CACHE_JSON_BYTES)"
  have c: "distinct (map fst (pc_entries c))" "distinct (k # lru)" "set (k # lru) = fst ` set (pc_entries c)"
    "pc_json_bytes c = cached_bytes (pc_entries c)" using Cons.prems by (simp_all add: cache_consistent_def)
  show ?case
  proof (cases ?full)
    case True
    note d = cache_drop_facts [OF c(1,4), of k]
    have con: "cache_consistent ((cache_drop k c)\<lparr>pc_lru := lru\<rparr>)"
      using c d by (auto simp: cache_consistent_def distinct_map_filter)
    have e: "evict_for need (k # lru) c = evict_for need lru (cache_drop k c)"
      using True by (subst evict_for.simps) simp
    obtain n where n: "pc_lru (evict_for need lru (cache_drop k c)) = drop n lru"
      "pc_entries (evict_for need lru (cache_drop k c)) = filter (\<lambda>e. fst e \<in> set (drop n lru)) (pc_entries (cache_drop k c))"
      "cache_consistent (evict_for need lru (cache_drop k c))"
      "pc_entries (evict_for need lru (cache_drop k c)) = [] \<or>
        length (pc_entries (evict_for need lru (cache_drop k c))) < PROJECTION_CACHE_SESSIONS \<and>
        sat_add (pc_json_bytes (evict_for need lru (cache_drop k c))) need \<le> PROJECTION_CACHE_JSON_BYTES"
      using Cons.IH [OF con] by blast
    have "filter (\<lambda>e. fst e \<in> set (drop n lru)) (pc_entries (cache_drop k c)) = filter (\<lambda>e. fst e \<in> set (drop n lru)) (pc_entries c)"
      using c(2) set_drop_subset [of n lru] unfolding d(1) filter_filter by (intro filter_cong) auto
    then show ?thesis unfolding e using n by (intro exI [of _ "Suc n"]) simp
  next
    case False
    have f: "filter (\<lambda>e. fst e \<in> set (k # lru)) (pc_entries c) = pc_entries c"
      using c(3) by (intro filter_True) auto
    have "evict_for need (k # lru) c = c\<lparr>pc_lru := k # lru\<rparr>" using False by (subst evict_for.simps) auto
    then show ?thesis using Cons.prems False f by (intro exI [of _ 0]) auto
  qed
qed

lemma cached_bytes_update: "k \<notin> fst ` set es \<Longrightarrow> AList.update k p es = es @ [(k, p)]"
  by (induction es) auto

lemma cache_insert_spec:
  assumes "cache_consistent c" "cp_json_bytes p < 2 ^ 64"
  shows "cache_consistent (cache_insert sid p c) \<and> cache_bounded (cache_insert sid p c) \<and>
    map_of (pc_entries (cache_insert sid p c)) sid = Some p \<and>
    (\<exists>n. pc_lru (cache_insert sid p c) = drop n (filter (\<lambda>i. i \<noteq> sid) (pc_lru c)) @ [sid] \<and>
       (\<forall>k. k \<noteq> sid \<longrightarrow> map_of (pc_entries (cache_insert sid p c)) k =
          (if k \<in> set (drop n (filter (\<lambda>i. i \<noteq> sid) (pc_lru c))) then map_of (pc_entries c) k else None)))"
proof -
  define c1 where "c1 = cache_remove sid c"
  note r = cache_remove_consistent [OF assms(1), of sid, folded c1_def]
  define c2 where "c2 = evict_for (cp_json_bytes p) (pc_lru c1) c1"
  have "cache_consistent (c1\<lparr>pc_lru := pc_lru c1\<rparr>)" using r(1) by simp
  from evict_for_spec [OF this, of "cp_json_bytes p", folded c2_def] obtain n where
    n: "pc_lru c2 = drop n (pc_lru c1)" "pc_entries c2 = filter (\<lambda>e. fst e \<in> set (drop n (pc_lru c1))) (pc_entries c1)"
      "cache_consistent c2" "pc_entries c2 = [] \<or> length (pc_entries c2) < PROJECTION_CACHE_SESSIONS \<and>
        sat_add (pc_json_bytes c2) (cp_json_bytes p) \<le> PROJECTION_CACHE_JSON_BYTES" by blast
  have new: "sid \<notin> fst ` set (pc_entries c2)" "sid \<notin> set (pc_lru c2)" using n(1,2) r(2,3) by (auto dest: in_set_dropD)
  have j: "sat_add (pc_json_bytes c2) (cp_json_bytes p) = pc_json_bytes c2 + cp_json_bytes p"
  proof (cases "pc_entries c2 = []")
    case True
    then have "pc_json_bytes c2 = 0" using n(3) by (simp add: cache_consistent_def cached_bytes_def)
    then show ?thesis using assms(2) by (simp add: sat_add_def)
  next
    case False
    then show ?thesis using n(4) by (auto simp: sat_add_def PROJECTION_CACHE_JSON_BYTES_def)
  qed
  have i: "cache_insert sid p c = c2\<lparr>pc_json_bytes := pc_json_bytes c2 + cp_json_bytes p,
      pc_entries := pc_entries c2 @ [(sid, p)], pc_lru := pc_lru c2 @ [sid]\<rparr>"
    using cached_bytes_update [OF new(1)] j by (simp add: cache_insert_def c1_def [symmetric] c2_def [symmetric])
  have "cache_consistent (cache_insert sid p c)"
    using n(3) new unfolding i by (auto simp: cache_consistent_def cached_bytes_def)
  moreover have "cache_bounded (cache_insert sid p c)"
    using n(4) unfolding i cache_bounded_def by (auto simp: j PROJECTION_CACHE_SESSIONS_def)
  moreover have "map_of (pc_entries (cache_insert sid p c)) sid = Some p"
    using new(1) unfolding i by (simp add: map_add_Some_iff map_of_eq_None_iff)
  moreover have "map_of (pc_entries (cache_insert sid p c)) k =
      (if k \<in> set (drop n (filter (\<lambda>i. i \<noteq> sid) (pc_lru c))) then map_of (pc_entries c) k else None)" if "k \<noteq> sid" for k
  proof -
    have f: "map_of (filter (\<lambda>e. P (fst e)) es) k = (if P k then map_of es k else None)" for P and es :: "(u128 \<times> cached_projection) list"
      by (induction es) auto
    have "pc_entries c1 = filter (\<lambda>e. (\<lambda>x. x \<noteq> sid) (fst e)) (pc_entries c)" using r(2) by simp
    then have "map_of (pc_entries c1) k = map_of (pc_entries c) k" using f [of "\<lambda>x. x \<noteq> sid"] that by simp
    then show ?thesis using that f [of "\<lambda>x. x \<in> set (drop n (pc_lru c1))" "pc_entries c1"] n(2) r(3)
      unfolding i by (simp add: map_add_def split: option.split)
  qed
  moreover have "pc_lru (cache_insert sid p c) = drop n (filter (\<lambda>i. i \<noteq> sid) (pc_lru c)) @ [sid]"
    unfolding i using n(1) r(3) by simp
  ultimately show ?thesis by blast
qed

datatype cache_op = CacheGet u128 merkle_root | CacheInsert u128 cached_projection | CacheRemove u128

fun cache_apply :: "cache_op \<Rightarrow> projection_cache \<Rightarrow> projection_cache" where
  "cache_apply (CacheGet sid root) c = snd (cache_get sid root c)"
| "cache_apply (CacheInsert sid p) c = cache_insert sid p c"
| "cache_apply (CacheRemove sid) c = cache_remove sid c"

fun op_ok :: "cache_op \<Rightarrow> bool" where
  "op_ok (CacheInsert sid p) = (cp_json_bytes p < 2 ^ 64)"
| "op_ok _ = True"

lemma cache_apply_ok:
  assumes "cache_consistent c" "cache_bounded c" "op_ok op"
  shows "cache_consistent (cache_apply op c) \<and> cache_bounded (cache_apply op c)"
proof (cases op)
  case (CacheGet sid root)
  have "sid \<in> fst ` set (pc_entries c)" if "map_of (pc_entries c) sid = Some p" for p
    using that by (force dest: map_of_SomeD)
  then show ?thesis using assms CacheGet
    by (auto simp: cache_get_def cache_touch_def cache_consistent_def cache_bounded_def split: option.split)
next
  case (CacheInsert sid p)
  then show ?thesis using cache_insert_spec assms by simp
next
  case (CacheRemove sid)
  note r = cache_remove_consistent [OF assms(1), of sid]
  define n where "n = length (filter (\<lambda>e. fst e \<noteq> sid) (pc_entries c))"
  have "n \<le> length (pc_entries c)" unfolding n_def by (rule length_filter_le)
  moreover have "pc_json_bytes (cache_remove sid c) \<le> pc_json_bytes c"
    by (auto simp: cache_remove_def cache_drop_def split: option.split)
  ultimately have "cache_bounded (cache_remove sid c)"
    using assms(2) unfolding cache_bounded_def r(2) n_def [symmetric] by linarith
  then show ?thesis using CacheRemove r(1) by simp
qed

text \<open>After any sequence of lookups, insertions and removals the cache holds at most 64 sessions and at most
  256 MiB of JSON, unless a single larger projection is all it holds; its recency list and byte count
  describe exactly its entries; and a further insertion can be read back, evicts only from the least
  recently used end, and leaves every other entry as it was.\<close>

theorem projection_cache_lru:
  assumes "list_all op_ok ops" "cp_json_bytes p < 2 ^ 64"
  defines "c \<equiv> fold cache_apply ops cache_default"
  shows "cache_bounded c \<and> cache_consistent c \<and> fst (cache_get sid (cp_root p) (cache_insert sid p c)) = Some p \<and>
    (\<exists>n. pc_lru (cache_insert sid p c) = drop n (filter (\<lambda>i. i \<noteq> sid) (pc_lru c)) @ [sid] \<and>
       (\<forall>k. k \<noteq> sid \<longrightarrow> map_of (pc_entries (cache_insert sid p c)) k =
          (if k \<in> set (drop n (filter (\<lambda>i. i \<noteq> sid) (pc_lru c))) then map_of (pc_entries c) k else None)))"
proof -
  have "cache_consistent (fold cache_apply ops c') \<and> cache_bounded (fold cache_apply ops c')"
    if "cache_consistent c'" "cache_bounded c'" for c'
    using assms(1) that by (induction ops arbitrary: c') (simp_all add: cache_apply_ok)
  moreover have "cache_consistent cache_default" "cache_bounded cache_default"
    by (simp_all add: cache_default_def cache_consistent_def cache_bounded_def cached_bytes_def)
  ultimately have c: "cache_consistent c" "cache_bounded c" unfolding c_def by blast+
  note i = cache_insert_spec [OF c(1) assms(2), of sid]
  then have "fst (cache_get sid (cp_root p) (cache_insert sid p c)) = Some p" by (simp add: cache_get_def)
  then show ?thesis using c i by blast
qed

theorem projection_cache_lru_witness:
  "length (pc_entries (fold cache_apply [CacheInsert 1 \<lparr>cp_root = [], cp_count = 0, cp_chunks = [], cp_json_bytes = 5\<rparr>, CacheRemove 2] cache_default)) \<le> 64"
  using projection_cache_lru [of "[CacheInsert 1 \<lparr>cp_root = [], cp_count = 0, cp_chunks = [], cp_json_bytes = 5\<rparr>, CacheRemove 2]"
      "\<lparr>cp_root = [], cp_count = 0, cp_chunks = [], cp_json_bytes = 5\<rparr>"]
  by (simp add: cache_bounded_def PROJECTION_CACHE_SESSIONS_def)

end
