(* ===== verification/Replay.thy ===== *)
theory Replay
  imports Store
begin

text \<open>
  Opening and replaying the write-ahead log (\<open>crates/core/src/wal.rs\<close>, the reader side, and
  \<open>ContentStore::with_wal\<close>), and the sequences of store operations a receiver performs.
  Device reads are taken to succeed; the bytes read are the argument.  The theorems state
  what a restart finds after a clean stop and after a crash that keeps any prefix of the
  log not shorter than what was last forced to disk.
\<close>

section \<open>Replay\<close>

definition parse_seed :: "bytes \<Rightarrow> (block_id list \<times> merkle_root) option" where
  "parse_seed p =
     (if 4 \<le> length p then
        (let count = unat (rd32 (take 4 p)) in
         if count * 32 < 2 ^ 64 \<and> count * 32 + 36 < 2 ^ 64 \<and> count * 32 + 36 = length p then
           Some (map (\<lambda>i. take 32 (drop (4 + i * 32) p)) [0..<count],
                 take 32 (drop (4 + count * 32) p))
         else None)
      else None)"

fun apply_record :: "hash \<Rightarrow> wal_record \<Rightarrow> store \<Rightarrow> store" where
  "apply_record H (sid, v, p) s =
     (if v = VAR_INSERT then
        (case from_canonical p of Ok b \<Rightarrow> snd (store_insert H sid b s) | _ \<Rightarrow> s)
      else if v = VAR_REFERENCE then
        (if length p = 32 then snd (reference H sid p s) else s)
      else if v = VAR_SEED then
        (case parse_seed p of Some (ids, root) \<Rightarrow> seed_session sid ids root s | None \<Rightarrow> s)
      else if v = VAR_CONTENT then
        (case from_canonical p of Ok b \<Rightarrow> snd (store_content H sid b s) | _ \<Rightarrow> s)
      else s)"

function replay :: "hash \<Rightarrow> bytes \<Rightarrow> nat \<Rightarrow> store \<Rightarrow> (nat \<times> store, io_error) outcome" where
  "replay H r pos s =
     (if length r < HEADER then Ok (pos, s)
      else
        let sid = rd128 (take 16 r);
            v = r ! 16;
            len = unat (rd32 (take 4 (drop 17 r)))
        in if MAX_RECORD_BYTES < len then Err (InvalidData, ''WAL record length exceeds safety limit'')
           else if length (drop HEADER r) < len then Ok (pos, s)
           else replay H (drop (HEADER + len) r) (pos + HEADER + len)
                  (apply_record H (sid, v, take len (drop HEADER r)) s))"
  by pat_completeness auto
termination
  by (relation "measure (\<lambda>(H, r, pos, s). length r)") (auto simp: HEADER_def)

declare replay.simps [simp del]

text \<open>\<open>locked\<close>: another process holds the file lock.  Opening truncates a torn tail.\<close>

definition wal_open ::
    "hash \<Rightarrow> bool \<Rightarrow> bytes \<Rightarrow> (nat \<times> io_error) option list \<Rightarrow> store \<Rightarrow> (wal \<times> store, io_error) outcome" where
  "wal_open H locked file ios s =
     (if locked then Err (OtherIo, ''would block'')
      else obind (replay H file 0 s) (\<lambda>(valid_len, s').
        let file' = (if valid_len < length file then take valid_len file else file)
        in Ok (\<lparr>wlog = file', wflushed = length file', wsynced = length file', wio = ios\<rparr>, s')))"

definition with_wal ::
    "hash \<Rightarrow> bool \<Rightarrow> bytes \<Rightarrow> (nat \<times> io_error) option list \<Rightarrow> (store, io_error) outcome" where
  "with_wal H locked file ios =
     obind (wal_open H locked file ios store_new) (\<lambda>(w, s). Ok (set_wal w s))"

section \<open>Operation sequences\<close>

datatype store_op =
    OpInsert u128 block "bytes option"
  | OpReference u128 block_id
  | OpSeed u128 "block_id list" merkle_root
  | OpContent u128 block
  | OpFlush bool

fun exec_op :: "hash \<Rightarrow> store_op \<Rightarrow> store \<Rightarrow> store" where
  "exec_op H (OpInsert sid b c) s = snd (insert_with_canonical H sid b (block_id H b) c s)"
| "exec_op H (OpReference sid i) s = snd (reference H sid i s)"
| "exec_op H (OpSeed sid ids root) s = seed_session sid ids root s"
| "exec_op H (OpContent sid b) s = snd (store_content H sid b s)"
| "exec_op H (OpFlush sync) s = fst (flush_wal sync s)"

definition run_ops :: "hash \<Rightarrow> store_op list \<Rightarrow> store \<Rightarrow> store" where
  "run_ops H ops s = fold (exec_op H) ops s"

text \<open>What the Rust types and the documented contract of \<open>insert_with_canonical\<close> give.\<close>

fun wf_op :: "store_op \<Rightarrow> bool" where
  "wf_op (OpInsert sid b c) \<longleftrightarrow> (case c of None \<Rightarrow> True | Some x \<Rightarrow> x = canonical_bytes b)"
| "wf_op (OpReference sid i) \<longleftrightarrow> length i = 32"
| "wf_op (OpSeed sid ids root) \<longleftrightarrow> (\<forall>i \<in> set ids. length i = 32) \<and> length root = 32"
| "wf_op (OpContent sid b) \<longleftrightarrow> True"
| "wf_op (OpFlush sync) \<longleftrightarrow> True"

section \<open>Replay on the abstract log\<close>

fun c_apply :: "hash \<Rightarrow> wal_record \<Rightarrow> core \<Rightarrow> core" where
  "c_apply H (sid, v, p) c =
     (if v = VAR_INSERT then
        (case from_canonical p of Ok b \<Rightarrow> c_push H sid (block_id H b) (c_put b (block_id H b) c) | _ \<Rightarrow> c)
      else if v = VAR_REFERENCE then
        (if length p = 32 \<and> fst c p \<noteq> None then c_push H sid p c else c)
      else if v = VAR_SEED then
        (case parse_seed p of Some (ids, root) \<Rightarrow> c_seed sid ids root c | None \<Rightarrow> c)
      else if v = VAR_CONTENT then
        (case from_canonical p of Ok b \<Rightarrow> c_put b (block_id H b) c | _ \<Rightarrow> c)
      else c)"

lemma core_apply_record: "core (apply_record H r s) = c_apply H r (core s)"
  by (cases r) (auto simp: store_insert_def insert_with_id_def store_content_def core_simps
      split: outcome.splits option.splits)

declare apply_record.simps [simp del]

lemma core_fold_apply: "core (fold (apply_record H) rs s) = fold (c_apply H) rs (core s)"
  by (induction rs arbitrary: s) (simp_all add: core_apply_record)

lemma c_apply_insert:
  assumes "wf_record (sid, VAR_INSERT, canonical_bytes b)"
  shows "c_apply H (sid, VAR_INSERT, canonical_bytes b) c = c_push H sid (block_id H b) (c_put b (block_id H b) c)"
proof -
  have "from_canonical (canonical_bytes b) = Ok b"
    using assms by (auto simp: from_canonical_iff MAX_BLOCK_PAYLOAD_BYTES_def MAX_RECORD_BYTES_def)
  then show ?thesis by simp
qed

lemma c_apply_content:
  assumes "wf_record (sid, VAR_CONTENT, canonical_bytes b)"
  shows "c_apply H (sid, VAR_CONTENT, canonical_bytes b) c = c_put b (block_id H b) c"
proof -
  have "from_canonical (canonical_bytes b) = Ok b"
    using assms by (auto simp: from_canonical_iff MAX_BLOCK_PAYLOAD_BYTES_def MAX_RECORD_BYTES_def)
  then show ?thesis by (simp add: var_defs)
qed

lemma chunk_concat:
  "\<forall>i \<in> set ids. length i = n \<Longrightarrow> k < length ids \<Longrightarrow> take n (drop (k * n) (concat ids @ rest)) = ids ! k"
proof (induction ids arbitrary: k)
  case (Cons i ids)
  then show ?case by (cases k) auto
qed simp

lemma parse_seed_payload:
  assumes ids: "\<forall>i \<in> set ids. length i = 32" and root: "length root = 32" and n: "length ids < 2 ^ 32"
  shows "parse_seed (seed_payload ids root) = Some (ids, root)"
proof -
  define p where "p = seed_payload ids root"
  have c: "unat (rd32 (take 4 p)) = length ids" and l: "length p = length ids * 32 + 36"
    and d: "drop 4 p = concat ids @ root"
    using assms by (simp_all add: p_def seed_payload_def length_concat_ids unat_of_nat)
  have ch: "map (\<lambda>i. take 32 (drop (4 + i * 32) p)) [0..<length ids] = ids"
  proof (rule nth_equalityI)
    fix k assume "k < length (map (\<lambda>i. take 32 (drop (4 + i * 32) p)) [0..<length ids])"
    then have k: "k < length ids" by simp
    have "drop (4 + k * 32) p = drop (k * 32) (drop 4 p)" by (simp add: add.commute)
    then show "map (\<lambda>i. take 32 (drop (4 + i * 32) p)) [0..<length ids] ! k = ids ! k"
      using k chunk_concat [OF ids k] by (simp add: d)
  qed simp
  have "drop (4 + length ids * 32) p = drop (length ids * 32) (drop 4 p)" by (simp add: add.commute)
  also have "\<dots> = root" using length_concat_ids [OF ids] by (simp add: d)
  finally have r: "drop (4 + length ids * 32) p = root" .
  show ?thesis
    unfolding p_def [symmetric] parse_seed_def Let_def c using n l ch r root by simp
qed

section \<open>Torn tails\<close>

lemma replay_record:
  assumes "wf_record rec"
  shows "replay H (encode_record rec @ rest) pos s =
    replay H rest (pos + length (encode_record rec)) (apply_record H rec s)"
proof (cases rec)
  case (fields sid v p)
  have l: "unat (word_of_nat (length p) :: u32) = length p"
    using assms by (simp add: fields MAX_RECORD_BYTES_def unat_of_nat)
  have nm: "\<not> MAX_RECORD_BYTES < length p" using assms by (simp add: fields)
  define r where "r = le128 sid @ v # le32 (word_of_nat (length p)) @ p @ rest"
  have r: "rd128 (take 16 r) = sid" "r ! 16 = v" "rd32 (take 4 (drop 17 r)) = word_of_nat (length p)"
      "drop HEADER r = p @ rest" "length r = HEADER + length p + length rest"
    by (simp_all add: r_def HEADER_def nth_append)
  have d: "drop (HEADER + length p) r = rest"
    by (subst add.commute) (simp add: drop_drop [symmetric] r(4) del: drop_drop)
  have "replay H r pos s = replay H rest (pos + (HEADER + length p)) (apply_record H rec s)"
    by (subst replay.simps) (simp add: r d l nm Let_def fields add.assoc)
  then show ?thesis by (simp add: fields r_def HEADER_def)
qed

lemma replay_short:
  assumes "wf_record rec" "k < length (encode_record rec)"
  shows "replay H (take k (encode_record rec)) pos s = Ok (pos, s)"
proof (cases rec)
  case (fields sid v p)
  have l: "unat (word_of_nat (length p) :: u32) = length p"
    using assms(1) by (simp add: fields MAX_RECORD_BYTES_def unat_of_nat)
  define r where "r = take k (encode_record rec)"
  have lr: "length r = k" using assms(2) by (simp add: r_def)
  show ?thesis
  proof (cases "k < HEADER")
    case True
    then show ?thesis unfolding r_def [symmetric] by (subst replay.simps) (simp add: lr)
  next
    case False
    have "r = le128 sid @ v # le32 (word_of_nat (length p)) @ take (k - HEADER) p"
      using False by (simp add: r_def fields HEADER_def take_Cons')
    then have rd: "rd32 (take 4 (drop 17 r)) = word_of_nat (length p)" by simp
    have "length (drop HEADER r) < length p" "\<not> MAX_RECORD_BYTES < length p"
      using False assms by (auto simp: fields lr HEADER_def)
    then show ?thesis
      using False unfolding r_def [symmetric]
      by (subst replay.simps) (simp add: lr Let_def rd l)
  qed
qed

text \<open>Any prefix of a log replays to a prefix of its records, as long as the bytes allow.\<close>

lemma replay_prefix:
  assumes "list_all wf_record recs"
  shows "\<exists>j \<le> length recs.
    replay H (take k (concat (map encode_record recs))) pos s =
      Ok (pos + length (concat (map encode_record (take j recs))), fold (apply_record H) (take j recs) s) \<and>
    length (concat (map encode_record (take j recs))) \<le> k \<and>
    (j < length recs \<longrightarrow> k < length (concat (map encode_record (take (Suc j) recs))))"
  using assms
proof (induction recs arbitrary: k pos s)
  case Nil
  show ?case by (simp add: replay.simps)
next
  case (Cons rec recs)
  then have wf: "wf_record rec" "list_all wf_record recs" by simp_all
  define n where "n = length (encode_record rec)"
  show ?case
  proof (cases "k < n")
    case True
    then show ?thesis
      using replay_short [OF wf(1), of k] by (intro exI [of _ 0]) (simp add: n_def)
  next
    case False
    obtain j where j: "j \<le> length recs"
      "replay H (take (k - n) (concat (map encode_record recs))) (pos + n) (apply_record H rec s) =
        Ok (pos + n + length (concat (map encode_record (take j recs))),
            fold (apply_record H) (take j recs) (apply_record H rec s))"
      "length (concat (map encode_record (take j recs))) \<le> k - n"
      "j < length recs \<longrightarrow> k - n < length (concat (map encode_record (take (Suc j) recs)))"
      using Cons.IH [OF wf(2), of "k - n" "pos + n" "apply_record H rec s"] by blast
    have "take k (concat (map encode_record (rec # recs))) =
        encode_record rec @ take (k - n) (concat (map encode_record recs))"
      using False by (simp add: n_def)
    then have "replay H (take k (concat (map encode_record (rec # recs)))) pos s =
        Ok (pos + n + length (concat (map encode_record (take j recs))),
            fold (apply_record H) (take j recs) (apply_record H rec s))"
      using replay_record [OF wf(1)] j(2) by (simp add: n_def)
    then show ?thesis
      using j(1,3,4) False by (intro exI [of _ "Suc j"]) (auto simp: n_def)
  qed
qed

section \<open>Operations and the records they log\<close>

text \<open>One record or none per operation; with no failure latched, the record replays to the
  operation's effect.\<close>

definition logs :: "hash \<Rightarrow> store \<Rightarrow> store \<Rightarrow> wal_record list \<Rightarrow> bool" where
  "logs H s s' rs \<longleftrightarrow>
     length rs \<le> 1 \<and> list_all wf_record rs \<and> core s' = fold (c_apply H) rs (core s) \<and>
     (\<exists>w w'. st_wal s = Some w \<and> st_wal s' = Some w' \<and> wlog w' = wlog w @ concat (map encode_record rs))"

definition has_wal :: "store \<Rightarrow> bool" where
  "has_wal s \<longleftrightarrow> st_wal s \<noteq> None"

lemma wal_field_simps [simp]:
  "st_wal (latch_wal_error e s) = st_wal s" "st_wal_error (latch_wal_error e s) \<noteq> None"
  "st_wal (count_session b s) = st_wal s" "st_wal_error (count_session b s) = st_wal_error s"
  "st_wal_error (record_wal_result r s) = None \<longleftrightarrow> st_wal_error s = None \<and> (\<forall>e. r \<noteq> Err e)"
  "st_wal (record_wal_result r s) = st_wal s"
  by (cases r; auto simp: latch_wal_error_def count_session_def)+

lemma put_block_wal: "put_block b i s = (n, s') \<Longrightarrow> st_wal s' = st_wal s \<and> st_wal_error s' = st_wal_error s"
  by (auto simp: put_block_def Let_def)

lemma push_log_wal: "push_log H sid i s = (n, s') \<Longrightarrow> st_wal s' = st_wal s \<and> st_wal_error s' = st_wal_error s"
  by (auto simp: push_log_def Let_def split: option.splits)

lemma write_seq_not_Panic: "write_seq w bs = (w', r) \<Longrightarrow> r \<noteq> Panic"
  by (induction bs arbitrary: w)
    (auto simp: write_seq.simps write_all_def split: prod.splits outcome.splits option.splits)

lemma appends_not_Panic:
  "append_insert sid c w = (w', r) \<Longrightarrow> r \<noteq> Panic" "append_content sid c w = (w', r) \<Longrightarrow> r \<noteq> Panic"
  "append_reference sid i w = (w', r) \<Longrightarrow> r \<noteq> Panic" "append_seed sid ids root w = (w', r) \<Longrightarrow> r \<noteq> Panic"
  by (auto simp: append_insert_def append_content_def append_reference_def append_seed_def record_len_def
      dest: write_seq_not_Panic split: outcome.splits if_splits)

lemma shadow_logs:
  assumes "has_wal s" "st_wal_error (shadow f s) = None"
    and "\<And>w w' r. f w = (w', r) \<Longrightarrow> r \<noteq> Panic"
    and "\<And>w w' u. f w = (w', Ok u) \<Longrightarrow> wf_record rec \<and> wlog w' = wlog w @ encode_record rec"
  shows "\<exists>w w'. st_wal s = Some w \<and> st_wal (shadow f s) = Some w' \<and>
    wf_record rec \<and> wlog w' = wlog w @ encode_record rec"
proof -
  obtain w where w: "st_wal s = Some w" using assms(1) by (auto simp: has_wal_def)
  obtain w' r where f: "f w = (w', r)" by fastforce
  with assms(2,3) w obtain u where "r = Ok u"
    by (cases r) (auto simp: shadow_def)
  with f w assms(4) show ?thesis by (auto simp: shadow_def)
qed

lemma wal_flush_log: "wal_flush sync w = (w', r) \<Longrightarrow> wlog w' = wlog w"
  by (auto simp: wal_flush_def Let_def split: prod.splits option.splits if_splits dest!: next_io_log)

lemma flush_wal_core:
  "core (fst (flush_wal sync s)) = core s \<and>
   (st_wal s = Some w \<longrightarrow> (\<exists>w'. st_wal (fst (flush_wal sync s)) = Some w' \<and> wlog w' = wlog w))"
proof (cases "st_wal_error s = None \<and> st_wal s \<noteq> None")
  case True
  then obtain v where v: "st_wal s = Some v" "st_wal_error s = None" by auto
  obtain v' r where f: "wal_flush sync v = (v', r)" by fastforce
  have "core (s\<lparr>st_wal := Some v'\<rparr>) = core s" by (simp add: core_def)
  then show ?thesis
    using v f wal_flush_log [OF f] by (cases r) (auto simp: flush_wal_def core_simps)
next
  case False
  then show ?thesis by (auto simp: flush_wal_def split: option.split)
qed

lemma exec_op_logs:
  assumes "hash32 H" "wf_op op" "has_wal s" "st_wal_error (exec_op H op s) = None"
  shows "\<exists>rs. logs H s (exec_op H op s) rs"
proof (cases op)
  case (OpInsert sid b c)
  obtain newly s1 where p: "put_block b (block_id H b) s = (newly, s1)" by fastforce
  obtain n s2 where q: "push_log H sid (block_id H b) s1 = (n, s2)" by fastforce
  define s3 where "s3 = count_session n s2"
  define f where "f = (if newly then append_insert sid (canonical_bytes b)
      else append_reference sid (block_id H b))"
  define rec where "rec = (if newly then (sid, VAR_INSERT, canonical_bytes b)
      else (sid, VAR_REFERENCE, block_id H b))"
  have e: "exec_op H op s = shadow f s3"
    using assms(2) by (auto simp: OpInsert insert_with_canonical_def p q s3_def f_def split: option.splits)
  have w3: "st_wal s3 = st_wal s" using put_block_wal [OF p] push_log_wal [OF q] by (simp add: s3_def)
  have "has_wal s3" using assms(3) w3 by (simp add: has_wal_def)
  moreover have "st_wal_error (shadow f s3) = None" using assms(4) e by simp
  ultimately have sh: "\<exists>w w'. st_wal s3 = Some w \<and> st_wal (shadow f s3) = Some w' \<and>
      wf_record rec \<and> wlog w' = wlog w @ encode_record rec"
    by (rule shadow_logs)
      (use append_insert_Ok append_reference_Ok appends_not_Panic assms(1) in
        \<open>auto simp: f_def rec_def simp del: encode_record.simps wf_record.simps split: if_splits\<close>)
  have "core (exec_op H op s) = c_push H sid (block_id H b) (c_put b (block_id H b) (core s))"
    by (simp add: OpInsert core_simps)
  also have "\<dots> = c_apply H rec (core s)"
    using sh put_block_core [OF p] assms(1) c_apply_insert [of sid b H "core s"]
    by (auto simp: rec_def c_put_def var_defs split: if_splits)
  finally show ?thesis
    using sh w3 e by (intro exI [of _ "[rec]"]) (auto simp: logs_def)
next
  case (OpReference sid i)
  show ?thesis
  proof (cases "st_blocks s i = None")
    case True
    then show ?thesis
      using assms(3) by (intro exI [of _ "[]"]) (auto simp: OpReference reference_def logs_def has_wal_def)
  next
    case False
    obtain n s1 where q: "push_log H sid i s = (n, s1)" by fastforce
    define s2 where "s2 = s1\<lparr>st_stats := (st_stats s1)\<lparr>blocks_deduped := blocks_deduped (st_stats s1) + 1\<rparr>\<rparr>"
    have e: "exec_op H op s = shadow (append_reference sid i) s2"
      using False by (auto simp: OpReference reference_def q s2_def Let_def)
    have w2: "st_wal s2 = st_wal s" using push_log_wal [OF q] by (simp add: s2_def)
    have "\<exists>w w'. st_wal s2 = Some w \<and> st_wal (shadow (append_reference sid i) s2) = Some w' \<and>
        wf_record (sid, VAR_REFERENCE, i) \<and> wlog w' = wlog w @ encode_record (sid, VAR_REFERENCE, i)"
      by (rule shadow_logs) (use assms w2 e append_reference_Ok appends_not_Panic in
          \<open>auto simp: OpReference has_wal_def simp del: encode_record.simps wf_record.simps\<close>)
    moreover have "core (exec_op H op s) = c_apply H (sid, VAR_REFERENCE, i) (core s)"
      using False assms(2) by (simp add: OpReference core_simps) (simp add: core_def var_defs)
    ultimately show ?thesis
      using w2 e by (intro exI [of _ "[(sid, VAR_REFERENCE, i)]"]) (auto simp: logs_def)
  qed
next
  case (OpSeed sid ids root)
  define s2 where "s2 = count_session (st_sessions s sid = None)
      (s\<lparr>st_sessions := (st_sessions s)(sid \<mapsto> \<lparr>sl_ids = ids, sl_root = root\<rparr>)\<rparr>)"
  have e: "exec_op H op s = shadow (append_seed sid ids root) s2"
    by (simp add: OpSeed seed_session_def s2_def Let_def)
  have w2: "st_wal s2 = st_wal s" by (simp add: s2_def)
  have "\<exists>w w'. st_wal s2 = Some w \<and> st_wal (shadow (append_seed sid ids root) s2) = Some w' \<and>
      (wf_record (sid, VAR_SEED, seed_payload ids root)) \<and>
      wlog w' = wlog w @ encode_record (sid, VAR_SEED, seed_payload ids root)"
    by (rule shadow_logs) (use assms w2 e append_seed_Ok appends_not_Panic in
        \<open>auto simp: OpSeed has_wal_def simp del: encode_record.simps wf_record.simps\<close>)
  moreover have "core (exec_op H op s) = c_apply H (sid, VAR_SEED, seed_payload ids root) (core s)"
  proof -
    have "length ids < 2 ^ 32"
      using calculation assms(2) length_concat_ids [of ids 32]
      by (auto simp: OpSeed seed_payload_def MAX_RECORD_BYTES_def)
    then show ?thesis
      using assms(2) parse_seed_payload [of ids root] by (simp add: OpSeed core_simps var_defs)
  qed
  ultimately show ?thesis
    using w2 e by (intro exI [of _ "[(sid, VAR_SEED, seed_payload ids root)]"]) (auto simp: logs_def)
next
  case (OpContent sid b)
  obtain newly s1 where p: "put_block b (block_id H b) s = (newly, s1)" by fastforce
  have w1: "st_wal s1 = st_wal s" using put_block_wal [OF p] by simp
  show ?thesis
  proof (cases newly)
    case True
    have e: "exec_op H op s = shadow (append_content sid (canonical_bytes b)) s1"
      using True by (simp add: OpContent store_content_def store_content_with_id_def p)
    have "\<exists>w w'. st_wal s1 = Some w \<and> st_wal (shadow (append_content sid (canonical_bytes b)) s1) = Some w' \<and>
        wf_record (sid, VAR_CONTENT, canonical_bytes b) \<and>
        wlog w' = wlog w @ encode_record (sid, VAR_CONTENT, canonical_bytes b)"
      by (rule shadow_logs) (use assms w1 e append_content_Ok appends_not_Panic in
          \<open>auto simp: has_wal_def simp del: encode_record.simps wf_record.simps\<close>)
    moreover from this have "core (exec_op H op s) = c_apply H (sid, VAR_CONTENT, canonical_bytes b) (core s)"
      using c_apply_content [of sid b H "core s"] by (auto simp: OpContent store_content_def core_simps)
    ultimately show ?thesis
      using w1 e by (intro exI [of _ "[(sid, VAR_CONTENT, canonical_bytes b)]"]) (auto simp: logs_def)
  next
    case False
    then have "exec_op H op s = s1" "core s1 = core s"
      using put_block_core [OF p] by (auto simp: OpContent store_content_def store_content_with_id_def p c_put_def)
    then show ?thesis
      using w1 assms(3) by (intro exI [of _ "[]"]) (auto simp: logs_def has_wal_def)
  qed
next
  case (OpFlush sync)
  show ?thesis
    using flush_wal_core [of sync s] assms(3)
    by (intro exI [of _ "[]"]) (auto simp: logs_def OpFlush has_wal_def)
qed

section \<open>Runs\<close>

lemma latched [simp]:
  "st_wal_error s = Some e \<Longrightarrow> st_wal_error (latch_wal_error e' s) = Some e"
  "st_wal_error s = Some e \<Longrightarrow> st_wal_error (record_wal_result r s) = Some e"
  "st_wal_error s = Some e \<Longrightarrow> st_wal_error (shadow f s) = Some e"
proof -
  show r: "st_wal_error (record_wal_result r s) = Some e" if "st_wal_error s = Some e" for r s
    using that by (cases r) (simp_all add: latch_wal_error_def)
  show "st_wal_error (shadow f s) = Some e" if "st_wal_error s = Some e"
    using that by (auto simp: shadow_def r split: option.split prod.split)
qed (simp add: latch_wal_error_def)

lemma put_push_latched:
  "put_block b i s = (n, s1) \<Longrightarrow> st_wal_error s = Some e \<Longrightarrow> st_wal_error s1 = Some e"
  "push_log H sid i s = (n, s1) \<Longrightarrow> st_wal_error s = Some e \<Longrightarrow> st_wal_error s1 = Some e"
  by (auto dest: put_block_wal push_log_wal)

lemma exec_op_latched: "st_wal_error s = Some e \<Longrightarrow> st_wal_error (exec_op H op s) = Some e"
  by (cases op) (auto simp: insert_with_canonical_def reference_def seed_session_def store_content_def
      store_content_with_id_def flush_wal_def Let_def
      dest!: put_push_latched split: prod.split)

lemma run_ops_Cons [simp]: "run_ops H (op # ops) s = run_ops H ops (exec_op H op s)"
  and run_ops_Nil [simp]: "run_ops H [] s = s"
  and run_ops_append [simp]: "run_ops H (ops1 @ ops2) s = run_ops H ops2 (run_ops H ops1 s)"
  by (simp_all add: run_ops_def)

lemma run_ops_latched: "st_wal_error s = Some e \<Longrightarrow> st_wal_error (run_ops H ops s) = Some e"
  by (induction ops arbitrary: s) (simp_all add: exec_op_latched)

lemma logs_has_wal: "logs H s s' rs \<Longrightarrow> has_wal s'"
  by (auto simp: logs_def has_wal_def)

text \<open>A run with no failure latched: its records, and each prefix of them as a prefix of the run.\<close>

definition run_logs :: "hash \<Rightarrow> store_op list \<Rightarrow> store \<Rightarrow> wal_record list \<Rightarrow> bool" where
  "run_logs H ops s rs \<longleftrightarrow>
     list_all wf_record rs \<and> core (run_ops H ops s) = fold (c_apply H) rs (core s) \<and>
     (\<exists>w w'. st_wal s = Some w \<and> st_wal (run_ops H ops s) = Some w' \<and>
        wlog w' = wlog w @ concat (map encode_record rs)) \<and>
     (\<forall>j \<le> length rs. \<exists>m \<le> length ops.
        core (run_ops H (take m ops) s) = fold (c_apply H) (take j rs) (core s))"

lemma run_logs_prefix:
  "run_logs H ops s rs \<Longrightarrow> j \<le> length rs \<Longrightarrow>
    \<exists>m \<le> length ops. core (run_ops H (take m ops) s) = fold (c_apply H) (take j rs) (core s)"
  by (simp add: run_logs_def)

lemma run_ops_logs:
  assumes "hash32 H" "list_all wf_op ops" "has_wal s" "st_wal_error (run_ops H ops s) = None"
  shows "\<exists>rs. run_logs H ops s rs"
  using assms(2-4)
proof (induction ops arbitrary: s)
  case Nil
  then show ?case by (intro exI [of _ "[]"]) (auto simp: run_logs_def has_wal_def)
next
  case (Cons op ops)
  define s1 where "s1 = exec_op H op s"
  have "st_wal_error s1 = None"
    using Cons.prems(3) run_ops_latched [of s1 _ H ops] by (cases "st_wal_error s1") (auto simp: s1_def)
  then obtain r1 where r1: "logs H s s1 r1"
    using exec_op_logs [OF assms(1), of op s] Cons.prems by (auto simp: s1_def)
  obtain rs where rs: "run_logs H ops s1 rs"
    using Cons.IH [of s1] Cons.prems logs_has_wal [OF r1] by (auto simp: s1_def)
  have "\<exists>m \<le> length (op # ops). core (run_ops H (take m (op # ops)) s) =
      fold (c_apply H) (take j (r1 @ rs)) (core s)" if "j \<le> length (r1 @ rs)" for j
  proof (cases "j < length r1")
    case True
    then have "j = 0" using r1 by (auto simp: logs_def)
    then show ?thesis by (intro exI [of _ 0]) simp
  next
    case False
    have "j - length r1 \<le> length rs" using that by simp
    then obtain m where "m \<le> length ops"
      "core (run_ops H (take m ops) s1) = fold (c_apply H) (take (j - length r1) rs) (core s1)"
      using run_logs_prefix [OF rs] by blast
    then show ?thesis
      using False r1 by (intro exI [of _ "Suc m"]) (auto simp: logs_def s1_def [symmetric])
  qed
  moreover have "core (run_ops H (op # ops) s) = fold (c_apply H) (r1 @ rs) (core s)"
      "list_all wf_record (r1 @ rs)"
    using r1 rs by (simp_all add: run_logs_def logs_def s1_def [symmetric])
  moreover have "\<exists>w w'. st_wal s = Some w \<and> st_wal (run_ops H (op # ops) s) = Some w' \<and>
        wlog w' = wlog w @ concat (map encode_record (r1 @ rs))"
    using r1 rs by (auto simp: run_logs_def logs_def s1_def [symmetric])
  ultimately show ?case unfolding run_logs_def by blast
qed

section \<open>Restart\<close>

lemma replay_truncate:
  "replay H r pos s = Ok (n, s1) \<Longrightarrow>
    pos \<le> n \<and> n \<le> pos + length r \<and> replay H (take (n - pos) r) pos s = Ok (n, s1)"
proof (induction H r pos s rule: replay.induct)
  case (1 H r pos s)
  define len where "len = unat (rd32 (take 4 (drop 17 r)))"
  show ?case
  proof (cases "length r < HEADER \<or> length (drop HEADER r) < len")
    case True
    then have "n = pos" "s1 = s"
      using "1.prems" by (subst (asm) replay.simps; auto simp: Let_def len_def split: if_splits)+
    then show ?thesis by (simp add: replay.simps)
  next
    case False
    define rec where "rec = (rd128 (take 16 r), r ! 16, take len (drop HEADER r))"
    have nm: "\<not> MAX_RECORD_BYTES < len"
      using "1.prems" False by (subst (asm) replay.simps) (auto simp: Let_def len_def split: if_splits)
    have step: "replay H r pos s = replay H (drop (HEADER + len) r) (pos + HEADER + len) (apply_record H rec s)"
      using False nm by (subst replay.simps) (simp add: Let_def len_def rec_def)
    have IH: "pos + HEADER + len \<le> n \<and> n \<le> pos + HEADER + len + length (drop (HEADER + len) r) \<and>
        replay H (take (n - (pos + HEADER + len)) (drop (HEADER + len) r)) (pos + HEADER + len)
          (apply_record H rec s) = Ok (n, s1)"
      using "1.IH" [OF _ refl refl len_def] "1.prems" False nm step
      by (simp add: rec_def)
    define t where "t = take (n - pos) r"
    have t: "take 16 t = take 16 r" "t ! 16 = r ! 16" "take 4 (drop 17 t) = take 4 (drop 17 r)"
        "take len (drop HEADER t) = take len (drop HEADER r)" "\<not> length t < HEADER"
        "\<not> length (drop HEADER t) < len"
        "drop (HEADER + len) t = take (n - (pos + HEADER + len)) (drop (HEADER + len) r)"
      using IH False by (auto simp: t_def HEADER_def drop_take min_def add.assoc)
    have "replay H t pos s = replay H (drop (HEADER + len) t) (pos + HEADER + len) (apply_record H rec s)"
      using t nm by (subst replay.simps) (simp add: Let_def rec_def len_def [symmetric])
    then show ?thesis using IH t(7) False by (auto simp: t_def)
  qed
qed

lemma replay_append:
  "replay H r pos s = Ok (pos + length r, s1) \<Longrightarrow> replay H (r @ x) pos s = replay H x (pos + length r) s1"
proof (induction H r pos s rule: replay.induct)
  case (1 H r pos s)
  define len where "len = unat (rd32 (take 4 (drop 17 r)))"
  show ?case
  proof (cases "length r < HEADER \<or> length (drop HEADER r) < len")
    case True
    then have "r = []" "s1 = s"
      using "1.prems" by (subst (asm) replay.simps; auto simp: Let_def len_def split: if_splits)+
    then show ?thesis by simp
  next
    case False
    define rec where "rec = (rd128 (take 16 r), r ! 16, take len (drop HEADER r))"
    have nm: "\<not> MAX_RECORD_BYTES < len"
      using "1.prems" False by (subst (asm) replay.simps) (auto simp: Let_def len_def split: if_splits)
    have step: "replay H r pos s = replay H (drop (HEADER + len) r) (pos + HEADER + len) (apply_record H rec s)"
      using False nm by (subst replay.simps) (simp add: Let_def len_def rec_def)
    define t where "t = r @ x"
    have t: "take 16 t = take 16 r" "t ! 16 = r ! 16" "take 4 (drop 17 t) = take 4 (drop 17 r)"
        "take len (drop HEADER t) = take len (drop HEADER r)" "\<not> length t < HEADER"
        "\<not> length (drop HEADER t) < len" "drop (HEADER + len) t = drop (HEADER + len) r @ x"
      using False by (auto simp: t_def HEADER_def nth_append)
    have "replay H t pos s = replay H (drop (HEADER + len) t) (pos + HEADER + len) (apply_record H rec s)"
      using t nm by (subst replay.simps) (simp add: Let_def rec_def len_def [symmetric])
    also have "\<dots> = replay H x (pos + length r) s1"
      using "1.IH" [OF _ refl refl len_def] "1.prems" False nm step
      by (simp add: rec_def t(7))
    finally show ?thesis by (simp add: t_def)
  qed
qed

text \<open>The log on hand replays completely, to the contents on hand.\<close>

definition sound_wal :: "hash \<Rightarrow> store \<Rightarrow> bool" where
  "sound_wal H s \<longleftrightarrow>
     (\<exists>w s'. st_wal s = Some w \<and> replay H (wlog w) 0 store_new = Ok (length (wlog w), s') \<and> core s' = core s)"

text \<open>A store with no log attached, as replay sees it.\<close>

definition bare :: "store \<Rightarrow> bool" where
  "bare s \<longleftrightarrow> st_wal s = None \<and> st_wal_error s = None"

lemma bare_ops [simp]:
  "bare s \<Longrightarrow> shadow f s = s"
  "bare (count_session u s) = bare s"
  "bare (s\<lparr>st_stats := x\<rparr>) = bare s" "bare (s\<lparr>st_sessions := y\<rparr>) = bare s"
  "put_block b i s = (n, s1) \<Longrightarrow> bare s \<Longrightarrow> bare s1"
  "push_log H sid i s = (n, s1) \<Longrightarrow> bare s \<Longrightarrow> bare s1"
  by (auto simp: bare_def shadow_def dest: put_block_wal push_log_wal)

lemma bare_insert: "bare s \<Longrightarrow> bare (snd (insert_with_canonical H sid b i c s))"
  by (cases "put_block b i s"; cases "push_log H sid i (snd (put_block b i s))")
    (simp add: insert_with_canonical_def Let_def)

lemma bare_reference: "bare s \<Longrightarrow> bare (snd (reference H sid i s))"
  by (cases "push_log H sid i s") (simp add: reference_def Let_def)

lemma bare_content: "bare s \<Longrightarrow> bare (snd (store_content_with_id sid b i s))"
  by (cases "put_block b i s") (simp add: store_content_with_id_def)

lemma bare_apply_record: "bare s \<Longrightarrow> bare (apply_record H r s)"
  by (cases r) (simp add: apply_record.simps store_insert_def insert_with_id_def store_content_def
      seed_session_def Let_def bare_insert bare_reference bare_content split: outcome.split option.split)

lemma replay_bare: "bare s \<Longrightarrow> replay H r pos s = Ok (n, s1) \<Longrightarrow> bare s1"
proof (induction H r pos s rule: replay.induct)
  case (1 H r pos s)
  show ?case
    using "1.prems"(2) [unfolded replay.simps [of H r pos s]] "1.prems"(1)
      "1.IH" [OF _ refl refl refl _ _ bare_apply_record [OF "1.prems"(1)]]
    by (auto simp: Let_def split: if_splits)
qed

lemma replay_no_wal: "replay H r pos store_new = Ok (n, s) \<Longrightarrow> st_wal s = None \<and> st_wal_error s = None"
  using replay_bare [of store_new] by (simp add: bare_def store_new_def)

lemma flush_synced:
  "flush_wal True s = (s2, Ok ()) \<Longrightarrow> st_wal s2 = Some w \<Longrightarrow> wsynced w = length (wlog w)"
  by (auto simp: flush_wal_def wal_flush_def Let_def split: option.splits prod.splits outcome.splits)

lemma with_wal_sound:
  assumes "with_wal H False file ios = Ok s"
  shows "sound_wal H s \<and> st_wal_error s = None \<and> (\<exists>w. st_wal s = Some w \<and> wsynced w = length (wlog w))"
proof -
  define wl where "wl = (\<lambda>n. \<lparr>wlog = take n file, wflushed = length (take n file),
      wsynced = length (take n file), wio = ios\<rparr>)"
  obtain n s1 where r: "replay H file 0 store_new = Ok (n, s1)" and s: "s = set_wal (wl n) s1"
  proof -
    obtain p where p: "replay H file 0 store_new = Ok p"
      using assms by (auto simp: with_wal_def wal_open_def obind_Ok_iff)
    then show thesis
      using assms that [of "fst p" "snd p"]
      by (cases p) (simp add: with_wal_def wal_open_def Let_def wl_def min_def split: if_splits)
  qed
  have w: "st_wal s1 = None \<and> st_wal_error s1 = None" using replay_no_wal [OF r] by simp
  then show ?thesis
    using replay_truncate [OF r] by (simp add: s sound_wal_def set_wal_def core_def wl_def min_def)
qed

text \<open>A run that stays free of failures, followed by a crash that keeps any prefix of the log
  not shorter than the log at the start of the run.\<close>

lemma restart_after_run:
  assumes "hash32 H" "list_all wf_op ops" "sound_wal H s" "st_wal_error (run_ops H ops s) = None"
    and "st_wal s = Some w" "st_wal (run_ops H ops s) = Some w'" "length (wlog w) \<le> k"
  shows "\<exists>m \<le> length ops. \<exists>n s'. replay H (take k (wlog w')) 0 store_new = Ok (n, s') \<and>
    core s' = core (run_ops H (take m ops) s) \<and> (length (wlog w') \<le> k \<longrightarrow> n = length (wlog w') \<and> core s' = core (run_ops H ops s))"
proof -
  obtain s0 where s0: "replay H (wlog w) 0 store_new = Ok (0 + length (wlog w), s0)" "core s0 = core s"
    using assms(3,5) by (auto simp: sound_wal_def)
  have "has_wal s" using assms(5) by (simp add: has_wal_def)
  then obtain rs where rs: "run_logs H ops s rs"
    using run_ops_logs [OF assms(1,2)] assms(4) by blast
  define t where "t = take (k - length (wlog w)) (concat (map encode_record rs))"
  have w': "wlog w' = wlog w @ concat (map encode_record rs)"
    using rs assms(5,6) by (auto simp: run_logs_def)
  then have tk: "take k (wlog w') = wlog w @ t" using assms(7) by (simp add: t_def)
  obtain j where j: "j \<le> length rs"
    "replay H t (length (wlog w)) s0 = Ok (length (wlog w) + length (concat (map encode_record (take j rs))),
        fold (apply_record H) (take j rs) s0)"
    "j < length rs \<longrightarrow> k - length (wlog w) < length (concat (map encode_record (take (Suc j) rs)))"
    using replay_prefix [of rs H "k - length (wlog w)" "length (wlog w)" s0] rs
    unfolding t_def run_logs_def by blast
  have full: "j = length rs" if "length (wlog w') \<le> k"
  proof (rule ccontr)
    assume "j \<noteq> length rs"
    then have "k - length (wlog w) < length (concat (map encode_record (take (Suc j) rs)))" using j by simp
    also have "\<dots> \<le> length (concat (map encode_record (take (Suc j) rs @ drop (Suc j) rs)))"
      unfolding map_append concat_append length_append by (rule le_add1)
    also have "\<dots> = length (concat (map encode_record rs))" by (simp only: append_take_drop_id)
    finally show False using that unfolding w' length_append by linarith
  qed
  have "core (fold (apply_record H) (take j rs) s0) = fold (c_apply H) (take j rs) (core s)"
    by (simp add: core_fold_apply s0(2))
  moreover obtain m where "m \<le> length ops" "core (run_ops H (take m ops) s) = fold (c_apply H) (take j rs) (core s)"
    using run_logs_prefix [OF rs j(1)] by blast
  moreover have "core (run_ops H ops s) = fold (c_apply H) rs (core s)" using rs by (simp add: run_logs_def)
  ultimately show ?thesis
    using replay_append [OF s0(1), of t] j(2) tk full w' by (intro exI [of _ m]) (auto simp: j(1))
qed

lemma run_sound_wal:
  assumes "hash32 H" "list_all wf_op ops" "sound_wal H s" "st_wal_error (run_ops H ops s) = None"
  shows "sound_wal H (run_ops H ops s)"
proof -
  obtain w where w: "st_wal s = Some w" using assms(3) by (auto simp: sound_wal_def)
  then have "has_wal s" by (simp add: has_wal_def)
  then obtain rs where "run_logs H ops s rs" using run_ops_logs [OF assms(1,2)] assms(4) by blast
  then obtain w' where w': "st_wal (run_ops H ops s) = Some w'" "length (wlog w) \<le> length (wlog w')"
    using w by (auto simp: run_logs_def)
  show ?thesis
    using restart_after_run [OF assms w w'] w'(1) by (auto simp: sound_wal_def)
qed

lemma with_wal_of_replay:
  assumes "replay H file 0 store_new = Ok (n, s1)"
  shows "\<exists>s. with_wal H False file ios = Ok s \<and> core s = core s1"
  using assms replay_no_wal [OF assms] by (auto simp: with_wal_def wal_open_def Let_def set_wal_def core_def)

section \<open>The invariant of runs\<close>

definition rooted :: "hash \<Rightarrow> core \<Rightarrow> bool" where
  "rooted H c \<longleftrightarrow> (\<forall>sid. c_root c sid = root_over H ROOT_ZERO (c_ids c sid))"

text \<open>A seed whose claimed root is the root of its manifest, as a shim sends it.\<close>

fun honest_seed :: "hash \<Rightarrow> store_op \<Rightarrow> bool" where
  "honest_seed H (OpSeed sid ids root) \<longleftrightarrow> root = root_over H ROOT_ZERO ids"
| "honest_seed H op \<longleftrightarrow> True"

lemma rooted_ops [simp, intro]:
  "rooted H c \<Longrightarrow> rooted H (c_put b i c)"
  "rooted H c \<Longrightarrow> rooted H (c_push H sid i c)"
  "rooted H c \<Longrightarrow> rooted H (c_seed sid ids (root_over H ROOT_ZERO ids) c)"
  "rooted H (Map.empty, Map.empty)"
  by (auto simp: rooted_def root_over_def c_root_def [of "(Map.empty, Map.empty)"]
      c_ids_def [of "(Map.empty, Map.empty)"])

lemma exec_op_rooted:
  "honest_seed H op \<Longrightarrow> addressed H (core s) \<and> rooted H (core s) \<Longrightarrow>
    addressed H (core (exec_op H op s)) \<and> rooted H (core (exec_op H op s))"
  using flush_wal_core by (cases op) (auto simp: core_simps store_content_def)

lemma run_ops_rooted:
  "\<forall>op \<in> set ops. honest_seed H op \<Longrightarrow> addressed H (core s) \<and> rooted H (core s) \<Longrightarrow>
    addressed H (core (run_ops H ops s)) \<and> rooted H (core (run_ops H ops s))"
proof (induction ops arbitrary: s)
  case (Cons op ops)
  then show ?case using exec_op_rooted [of H op s] by simp
qed simp

section \<open>A concrete run\<close>

text \<open>One block stored and forced to disk, then one reference to it.\<close>

definition demo_hash :: hash where
  "demo_hash bs = replicate 31 0 @ [word_of_nat (length bs)]"

definition demo_block :: block where
  "demo_block = \<lparr>kind = Message, seq = 1, payload = [7]\<rparr>"

definition demo_start :: store where
  "demo_start = set_wal \<lparr>wlog = [], wflushed = 0, wsynced = 0, wio = []\<rparr> store_new"

definition demo_ops :: "store_op list" where
  "demo_ops = [OpReference 1 (block_id demo_hash demo_block)]"

definition demo_flushed :: store where
  "demo_flushed = fst (flush_wal True (run_ops demo_hash [OpContent 1 demo_block] demo_start))"

lemma demo_hash32 [simp]: "hash32 demo_hash"
  by (simp add: hash32_def demo_hash_def)

lemma demo_start_ok: "with_wal demo_hash False [] [] = Ok demo_start"
  by (simp add: with_wal_def wal_open_def replay.simps demo_start_def Let_def)

lemma demo_flushed_facts:
  "map_option wsynced (st_wal demo_flushed) = Some 39 \<and>
   snd (flush_wal True (run_ops demo_hash [OpContent 1 demo_block] demo_start)) = Ok ()"
  by code_simp

lemma demo_run_facts:
  "map_option (length \<circ> wlog) (st_wal (run_ops demo_hash demo_ops demo_flushed)) = Some 92 \<and>
   st_wal_error (run_ops demo_hash demo_ops demo_flushed) = None"
  by code_simp

section \<open>Properties\<close>

text \<open>C3: Durability across a crash.  A store opened on any log file runs some operations
  and a successful \<open>flush_wal(true)\<close>, then more operations, with no failure latched.  If a
  crash then keeps at least what was forced to disk and an arbitrary part of the rest, reopening
  succeeds and finds the contents and session logs at some point after the flush: nothing
  flushed is lost, nothing is half applied, and the order of operations is kept.\<close>

theorem crash_recovery:
  assumes "hash32 H" "with_wal H False file ios = Ok s0"
    and "list_all wf_op ops1" "list_all wf_op ops2"
    and "flush_wal True (run_ops H ops1 s0) = (s2, Ok ())"
    and "st_wal_error (run_ops H ops2 s2) = None"
    and "st_wal s2 = Some w2" "st_wal (run_ops H ops2 s2) = Some w3"
    and "wsynced w2 \<le> k"
  shows "\<exists>m \<le> length ops2. \<exists>s. with_wal H False (take k (wlog w3)) ios' = Ok s \<and>
    core s = core (run_ops H (take m ops2) s2)"
proof -
  have s2: "s2 = run_ops H (ops1 @ [OpFlush True]) s0" using assms(5) by (simp add: run_ops_def)
  have "sound_wal H s0" using with_wal_sound [OF assms(2)] by simp
  moreover have "st_wal_error s2 = None"
    using assms(6) run_ops_latched [of s2 _ H ops2] by (cases "st_wal_error s2") auto
  ultimately have "sound_wal H s2"
    unfolding s2 using assms(1,3) by (intro run_sound_wal) auto
  moreover have "length (wlog w2) \<le> k" using flush_synced [OF assms(5,7)] assms(9) by simp
  ultimately obtain m n s' where "m \<le> length ops2" "replay H (take k (wlog w3)) 0 store_new = Ok (n, s')"
      "core s' = core (run_ops H (take m ops2) s2)"
    using restart_after_run [OF assms(1,4) _ assms(6-8)] by blast
  then show ?thesis using with_wal_of_replay by metis
qed

theorem crash_recovery_witness:
  "\<exists>w2 w3. st_wal demo_flushed = Some w2 \<and> st_wal (run_ops demo_hash demo_ops demo_flushed) = Some w3 \<and>
     wsynced w2 = 39 \<and> length (wlog w3) = 92 \<and>
     (\<exists>m \<le> 1. \<exists>s. with_wal demo_hash False (take 80 (wlog w3)) [] = Ok s \<and>
        core s = core (run_ops demo_hash (take m demo_ops) demo_flushed))"
proof -
  obtain w2 where w2: "st_wal demo_flushed = Some w2" "wsynced w2 = 39"
    using demo_flushed_facts by auto
  obtain w3 where w3: "st_wal (run_ops demo_hash demo_ops demo_flushed) = Some w3" "length (wlog w3) = 92"
    using demo_run_facts by auto
  have "flush_wal True (run_ops demo_hash [OpContent 1 demo_block] demo_start) = (demo_flushed, Ok ())"
    using demo_flushed_facts by (simp add: demo_flushed_def prod_eq_iff)
  from crash_recovery [OF demo_hash32 demo_start_ok _ _ this _ w2(1) w3(1), of 80 "[]"]
  have "\<exists>m \<le> length demo_ops. \<exists>s. with_wal demo_hash False (take 80 (wlog w3)) [] = Ok s \<and>
      core s = core (run_ops demo_hash (take m demo_ops) demo_flushed)"
    using w2(2) demo_run_facts by (simp add: demo_ops_def)
  then show ?thesis using w2 w3 by (auto simp: demo_ops_def)
qed

text \<open>C18: A clean restart: reopening the whole log of a failure-free run gives exactly the
  contents and session logs of the run.\<close>

theorem clean_restart:
  assumes "hash32 H" "with_wal H False file ios = Ok s0" "list_all wf_op ops"
    and "st_wal_error (run_ops H ops s0) = None" "st_wal (run_ops H ops s0) = Some w"
  shows "\<exists>s. with_wal H False (wlog w) ios' = Ok s \<and> core s = core (run_ops H ops s0)"
proof -
  have "sound_wal H (run_ops H ops s0)"
    using assms with_wal_sound [OF assms(2)] by (intro run_sound_wal) auto
  then show ?thesis using assms(5) with_wal_of_replay by (fastforce simp: sound_wal_def)
qed

theorem clean_restart_witness:
  "\<exists>w s. st_wal (run_ops demo_hash [OpContent 1 demo_block] demo_start) = Some w \<and>
     with_wal demo_hash False (wlog w) [] = Ok s \<and>
     core s = core (run_ops demo_hash [OpContent 1 demo_block] demo_start)"
proof -
  have f: "st_wal (run_ops demo_hash [OpContent 1 demo_block] demo_start) \<noteq> None \<and>
      st_wal_error (run_ops demo_hash [OpContent 1 demo_block] demo_start) = None"
    by code_simp
  then obtain w where w: "st_wal (run_ops demo_hash [OpContent 1 demo_block] demo_start) = Some w" by auto
  with clean_restart [OF demo_hash32 demo_start_ok _ _ w, of "[]"] f show ?thesis by auto
qed

text \<open>C25: A failed log write is never forgotten: once latched, the first failure survives every
  later operation and every later \<open>flush_wal\<close> reports it.\<close>

theorem wal_failure_latched:
  assumes "st_wal_error s = Some e"
  shows "st_wal_error (run_ops H ops s) = Some e \<and>
    flush_wal sync (run_ops H ops s) = (run_ops H ops s, Err e)"
  using run_ops_latched [OF assms] by (simp add: flush_wal_def)

theorem wal_failure_latched_witness:
  "st_wal_error (latch_wal_error (OtherIo, ''full'') demo_start) = Some (OtherIo, ''full'') \<and>
   snd (flush_wal False (run_ops demo_hash demo_ops (latch_wal_error (OtherIo, ''full'') demo_start))) =
     Err (OtherIo, ''full'')"
proof -
  have "st_wal_error (latch_wal_error (OtherIo, ''full'') demo_start) = Some (OtherIo, ''full'')" by code_simp
  with wal_failure_latched [OF this, of demo_hash demo_ops False] show ?thesis by simp
qed

text \<open>The store's invariant.  Along any run from an empty store whose seeds carry the root of
  the ids they seed, every stored block sits under its own content address, and every session's
  root is the Merkle root of exactly the ids in its log.\<close>

theorem run_ops_invariant:
  assumes "\<forall>op \<in> set ops. honest_seed H op"
  shows "addressed H (core (run_ops H ops store_new)) \<and>
    session_root (run_ops H ops store_new) sid = root_over H ROOT_ZERO (session_ids (run_ops H ops store_new) sid)"
proof -
  have "addressed H (core (run_ops H ops store_new)) \<and> rooted H (core (run_ops H ops store_new))"
    using assms by (intro run_ops_rooted) simp_all
  then show ?thesis by (simp add: core_queries rooted_def)
qed

theorem run_ops_invariant_witness:
  "session_root (run_ops demo_hash (OpContent 1 demo_block # demo_ops) store_new) 1 =
     append_root demo_hash ROOT_ZERO (block_id demo_hash demo_block)"
proof -
  have "session_ids (run_ops demo_hash (OpContent 1 demo_block # demo_ops) store_new) 1 =
      [block_id demo_hash demo_block]"
    by code_simp
  then show ?thesis
    using run_ops_invariant [of "OpContent 1 demo_block # demo_ops" demo_hash 1]
    by (simp add: demo_ops_def root_over_def)
qed

end
