(* ===== verification/Sidecar.thy ===== *)
theory Sidecar
  imports Projection Gapless Replay
begin

text \<open>
  The sidecar's HTTP server (\<open>crates/sidecar/src/lib.rs\<close>): the frame endpoint, the chat endpoint that
  applies an APPEND, rebuilds the message list and forwards an ordinary request, and the readiness
  probe.  Each request is one step on the receiver and the projection cache.  The HTTP library's header
  values and the upstream gateway are parameters; a handler that panics gives no response.
\<close>

section \<open>HTTP\<close>

type_synonym headers = "(string \<times> bytes) list"

datatype message =
    Literal string
  | OfSidecar sidecar_error
  | OfFrame frame_error
  | OfReceiver receiver_error
  | OfIo io_error
  | OfUpstream string

datatype body = JsonError message | JsonStatus string | Raw bytes

record response =
  http_status :: nat
  http_headers :: headers
  http_body :: body

record outbound =
  ob_url :: string
  ob_headers :: headers
  ob_length :: nat
  ob_chunks :: "bytes list"

text \<open>\<open>HeaderValue::to_str\<close>, \<open>HeaderValue::from_str\<close>, and the gateway's answer or transport error.\<close>

record http =
  hx_to_str :: "bytes \<Rightarrow> string option"
  hx_from_str :: "string \<Rightarrow> bytes option"
  hx_send :: "outbound \<Rightarrow> string + response"

definition ACK_ROOT_HEADER :: string where "ACK_ROOT_HEADER = ''x-dlr-ack-root''"
definition CURRENT_ROOT_HEADER :: string where "CURRENT_ROOT_HEADER = ''x-dlr-current-root''"
definition SIDECAR_TOKEN_HEADER :: string where "SIDECAR_TOKEN_HEADER = ''x-dlr-sidecar-token''"
definition FRAME_CONTENT_TYPE :: string where "FRAME_CONTENT_TYPE = ''application/vnd.dlr.frame+binary; version=1''"

definition error_response :: "nat \<Rightarrow> message \<Rightarrow> response" where
  "error_response st m = \<lparr>http_status = st, http_headers = [(''content-type'', ascii ''application/json'')], http_body = JsonError m\<rparr>"

text \<open>\<open>HeaderMap::insert\<close> replaces every value of the name.\<close>

definition headers_insert :: "string \<Rightarrow> bytes \<Rightarrow> headers \<Rightarrow> headers" where
  "headers_insert name v hs = filter (\<lambda>h. fst h \<noteq> name) hs @ [(name, v)]"

definition insert_root_header :: "http \<Rightarrow> string \<Rightarrow> merkle_root \<Rightarrow> response \<Rightarrow> response" where
  "insert_root_header X name root r =
     (case hx_from_str X (root_hex root) of
        Some v \<Rightarrow> r\<lparr>http_headers := headers_insert name v (http_headers r)\<rparr>
      | None \<Rightarrow> r)"

fun receiver_error_response :: "http \<Rightarrow> receiver_error \<Rightarrow> response" where
  "receiver_error_response X (BaseRootMismatch sid client current) =
     insert_root_header X CURRENT_ROOT_HEADER current (error_response 409 (OfReceiver (BaseRootMismatch sid client current)))"
| "receiver_error_response X (ColdStartInProgress sid) = error_response 409 (OfReceiver (ColdStartInProgress sid))"
| "receiver_error_response X RMissingRef = error_response 409 (OfReceiver RMissingRef)"
| "receiver_error_response X e = error_response 400 (OfReceiver e)"

definition forwarded_request_headers :: "string list" where
  "forwarded_request_headers =
     [''authorization'', ''openai-organization'', ''openai-project'', ''x-subconscious-code-session-id'',
      ''x-subconscious-client'', ''x-request-id'', ''x-trace-id'', ''traceparent'']"

definition is_hop_by_hop_response_header :: "string \<Rightarrow> bool" where
  "is_hop_by_hop_response_header name \<longleftrightarrow>
     name \<in> set [''connection'', ''keep-alive'', ''proxy-authenticate'', ''proxy-authorization'', ''te'', ''trailer'',
       ''transfer-encoding'', ''upgrade'', ''content-length'', ACK_ROOT_HEADER, CURRENT_ROOT_HEADER]"

definition proxy_response :: "http \<Rightarrow> response \<Rightarrow> ack_frame \<Rightarrow> response" where
  "proxy_response X upstream ack =
     insert_root_header X ACK_ROOT_HEADER (ack_root ack)
       (upstream\<lparr>http_headers := filter (\<lambda>h. \<not> is_hop_by_hop_response_header (fst h)) (http_headers upstream)\<rparr>)"

section \<open>State\<close>

record sidecar =
  sc_receiver :: receiver
  sc_upstream_url :: string
  sc_ingress_token :: "bytes option"
  sc_sync_wal :: bool
  sc_projections :: projection_cache

text \<open>\<open>SidecarState::new\<close>, once the HTTP client could be built\<close>

definition sidecar_new :: "receiver \<Rightarrow> string \<Rightarrow> bytes option \<Rightarrow> bool \<Rightarrow> sidecar" where
  "sidecar_new r url token sync =
     \<lparr>sc_receiver = r, sc_upstream_url = rev (dropWhile (\<lambda>c. c = CHR ''/'') (rev url)), sc_ingress_token = token,
      sc_sync_wal = sync, sc_projections = cache_default\<rparr>"

definition authorized :: "http \<Rightarrow> sidecar \<Rightarrow> headers \<Rightarrow> bool" where
  "authorized X S hs =
     (case sc_ingress_token S of
        None \<Rightarrow> True
      | Some expected \<Rightarrow>
          (case Option.bind (map_of hs SIDECAR_TOKEN_HEADER) (hx_to_str X) of
             None \<Rightarrow> False
           | Some actual \<Rightarrow> constant_time_eq (ascii actual) expected))"

definition put_receiver :: "receiver \<Rightarrow> sidecar \<Rightarrow> sidecar" where
  "put_receiver r S = S\<lparr>sc_receiver := r\<rparr>"

text \<open>\<open>state.receiver.store().flush_wal(..)\<close>\<close>

definition sidecar_flush :: "bool \<Rightarrow> sidecar \<Rightarrow> (unit, io_error) outcome \<times> sidecar" where
  "sidecar_flush sync S =
     (case flush_wal sync (rc_store (sc_receiver S)) of
        (st, res) \<Rightarrow> (res, put_receiver ((sc_receiver S)\<lparr>rc_store := st\<rparr>) S))"

section \<open>Endpoints\<close>

definition readyz :: "sidecar \<Rightarrow> response option \<times> sidecar" where
  "readyz S =
     (case sidecar_flush False S of
        (Ok u, S') \<Rightarrow> (Some \<lparr>http_status = 200, http_headers = [(''content-type'', ascii ''application/json'')], http_body = JsonStatus ''ready''\<rparr>, S')
      | (Err e, S') \<Rightarrow> (Some \<lparr>http_status = 503, http_headers = [(''content-type'', ascii ''application/json'')], http_body = JsonStatus ''not_ready''\<rparr>, S')
      | (Panic, S') \<Rightarrow> (None, S'))"

definition frame_reply :: "frame option \<Rightarrow> response" where
  "frame_reply f =
     (case f of
        Some g \<Rightarrow> \<lparr>http_status = 200, http_headers = [(''content-type'', ascii FRAME_CONTENT_TYPE)], http_body = Raw (encode_frame g)\<rparr>
      | None \<Rightarrow> \<lparr>http_status = 204, http_headers = [], http_body = Raw []\<rparr>)"

definition sidecar_handle_frame :: "http \<Rightarrow> hash \<Rightarrow> zstd \<Rightarrow> headers \<Rightarrow> bytes \<Rightarrow> sidecar \<Rightarrow> response option \<times> sidecar" where
  "sidecar_handle_frame X H z hs body S =
     (if \<not> authorized X S hs then (Some (error_response 401 (Literal ''invalid sidecar token'')), S)
      else case decode_frame_bytes body of
        Err e \<Rightarrow> (Some (error_response 400 (OfFrame e)), S)
      | Panic \<Rightarrow> (None, S)
      | Ok f \<Rightarrow>
          (let S1 = S\<lparr>sc_projections := cache_remove (frame_session_id f) (sc_projections S)\<rparr>
           in case handle_frame H z f (sc_receiver S1) of
             (Err e, r) \<Rightarrow> (Some (receiver_error_response X e), put_receiver r S1)
           | (Panic, r) \<Rightarrow> (None, put_receiver r S1)
           | (Ok reply, r) \<Rightarrow>
               (case sidecar_flush (sc_sync_wal S) (put_receiver r S1) of
                  (Err e, S2) \<Rightarrow> (Some (error_response 500 (OfIo e)), S2)
                | (Panic, S2) \<Rightarrow> (None, S2)
                | (Ok u, S2) \<Rightarrow> (Some (frame_reply reply), S2))))"

subsection \<open>Chat requests\<close>

definition validate_message_object :: "'j serde \<Rightarrow> (string \<rightharpoonup> 'j) \<Rightarrow> nat \<Rightarrow> (unit, sidecar_error) outcome" where
  "validate_message_object J obj i =
     (if Option.bind (obj ''role'') (sj_as_str J) = None then Err (InvalidMessage i) else Ok ())"

definition validate_request_value :: "'j serde \<Rightarrow> 'j \<Rightarrow> (unit, sidecar_error) outcome" where
  "validate_request_value J v =
     (case sj_as_object J v of
        None \<Rightarrow> Err RequestNotObject
      | Some obj \<Rightarrow> if obj ''messages'' \<noteq> None then Err MessagesInMetadata else Ok ())"

definition validate_payload :: "'j serde \<Rightarrow> nat \<Rightarrow> bytes \<Rightarrow> (unit, sidecar_error) outcome" where
  "validate_payload J i pl =
     (case sj_from_slice J pl of
        None \<Rightarrow> Err MetadataError
      | Some v \<Rightarrow>
          (case sj_as_object J v of
             None \<Rightarrow> Err (InvalidMessage i)
           | Some obj \<Rightarrow> validate_message_object J obj i))"

fun validate_blocks ::
  "'j serde \<Rightarrow> hash \<Rightarrow> zstd \<Rightarrow> receiver \<Rightarrow> (block_id \<rightharpoonup> block) \<Rightarrow> nat \<Rightarrow> frame_block list \<Rightarrow> (unit, sidecar_error) outcome" where
  "validate_blocks J H z r inl i [] = Ok ()"
| "validate_blocks J H z r inl i (Inline w # fbs) =
     obind (omap_err (FrameError \<circ> FromCompress) (decompress_pure z (rc_compressor r) (payload w))) (\<lambda>canon.
     obind (omap_err (FrameError \<circ> FromCanonical) (from_canonical_owned H canon)) (\<lambda>(b, bid).
     obind (validate_payload J i (payload b)) (\<lambda>_.
       validate_blocks J H z r (inl(bid \<mapsto> b)) (i + 1) fbs)))"
| "validate_blocks J H z r inl i (Ref bid # fbs) =
     (case (case store_get (rc_store r) bid of Some b \<Rightarrow> Some b | None \<Rightarrow> inl bid) of
        None \<Rightarrow> Err (SidecarReceiver RMissingRef)
      | Some b \<Rightarrow> obind (validate_payload J i (payload b)) (\<lambda>_. validate_blocks J H z r inl (i + 1) fbs))"

definition validate_chat_append :: "'j serde \<Rightarrow> hash \<Rightarrow> zstd \<Rightarrow> receiver \<Rightarrow> append_frame \<Rightarrow> (unit, sidecar_error) outcome" where
  "validate_chat_append J H z r fr = validate_blocks J H z r Map.empty 0 (af_blocks fr)"

definition reconstruct_request_body ::
  "'j serde \<Rightarrow> receiver \<Rightarrow> u128 \<Rightarrow> 'j \<Rightarrow> merkle_root \<Rightarrow> cached_projection option
   \<Rightarrow> (bytes list \<times> nat \<times> cached_projection, sidecar_error) outcome" where
  "reconstruct_request_body J r sid request root cached =
     obind (validate_request_value J request) (\<lambda>_.
       let json = sj_to_vec J request
       in if json = [] \<or> last json \<noteq> of_char CHR ''}'' then Err RequestNotObject
          else
            let prefix = butlast json @ ascii '',\"messages\":[''
            in obind (extend_or_reconstruct_projection J r sid root cached) (\<lambda>p.
                 Ok (prefix # cp_chunks p @ [ascii '']}''],
                     sat_add (sat_add (length prefix) (cp_json_bytes p)) 2, p)))"

definition forward_headers :: "headers \<Rightarrow> headers" where
  "forward_headers hs =
     List.map_filter (\<lambda>name. map_option (Pair name) (map_of hs name)) forwarded_request_headers"

definition chat_request :: "sidecar \<Rightarrow> headers \<Rightarrow> bytes list \<Rightarrow> nat \<Rightarrow> outbound" where
  "chat_request S hs chunks len =
     \<lparr>ob_url = sc_upstream_url S @ ''/v1/chat/completions'',
      ob_headers = (''content-type'', ascii ''application/json'') # forward_headers hs, ob_length = len, ob_chunks = chunks\<rparr>"

text \<open>The part of \<open>chat_completions\<close> after the APPEND was accepted.\<close>

definition chat_accepted ::
  "http \<Rightarrow> 'j serde \<Rightarrow> headers \<Rightarrow> 'j \<Rightarrow> u128 \<Rightarrow> cached_projection option \<Rightarrow> ack_frame \<Rightarrow> sidecar
   \<Rightarrow> response option \<times> outbound option \<times> sidecar" where
  "chat_accepted X J hs request sid cached ack S =
     (case sidecar_flush (sc_sync_wal S) S of
        (Err e, S1) \<Rightarrow> (Some (error_response 500 (OfIo e)), None, S1)
      | (Panic, S1) \<Rightarrow> (None, None, S1)
      | (Ok u, S1) \<Rightarrow>
          (case reconstruct_request_body J (sc_receiver S1) sid request (ack_root ack) cached of
             Err e \<Rightarrow> (Some (error_response 400 (OfSidecar e)), None, S1)
           | Panic \<Rightarrow> (None, None, S1)
           | Ok (chunks, len, p) \<Rightarrow>
               (let S2 = S1\<lparr>sc_projections := cache_insert sid p (sc_projections S1)\<rparr>;
                    out = chat_request S2 hs chunks len
                in case hx_send X out of
                     Inl e \<Rightarrow> (Some (insert_root_header X ACK_ROOT_HEADER (ack_root ack) (error_response 502 (OfUpstream e))), Some out, S2)
                   | Inr upstream \<Rightarrow> (Some (proxy_response X upstream ack), Some out, S2))))"

definition chat_append ::
  "http \<Rightarrow> 'j serde \<Rightarrow> hash \<Rightarrow> zstd \<Rightarrow> headers \<Rightarrow> 'j \<Rightarrow> append_frame \<Rightarrow> sidecar \<Rightarrow> response option \<times> outbound option \<times> sidecar" where
  "chat_append X J H z hs request fr S =
     (case validate_chat_append J H z (sc_receiver S) fr of
        Err e \<Rightarrow> (Some (error_response 400 (OfSidecar e)), None, S)
      | Panic \<Rightarrow> (None, None, S)
      | Ok u \<Rightarrow>
          (case cache_get (af_session_id fr) (af_base_root fr) (sc_projections S) of
             (cached, c) \<Rightarrow>
               (let S1 = S\<lparr>sc_projections := c\<rparr>
                in case handle_append H z fr (sc_receiver S1) of
                  (Err e, r) \<Rightarrow> (Some (receiver_error_response X e), None, put_receiver r S1)
                | (Panic, r) \<Rightarrow> (None, None, put_receiver r S1)
                | (Ok ack, r) \<Rightarrow> chat_accepted X J hs request (af_session_id fr) cached ack (put_receiver r S1))))"

definition chat_completions ::
  "http \<Rightarrow> 'j serde \<Rightarrow> hash \<Rightarrow> zstd \<Rightarrow> headers \<Rightarrow> bytes \<Rightarrow> sidecar \<Rightarrow> response option \<times> outbound option \<times> sidecar" where
  "chat_completions X J H z hs body S =
     (if \<not> authorized X S hs then (Some (error_response 401 (Literal ''invalid sidecar token'')), None, S)
      else case envelope_decode J body of
        Err e \<Rightarrow> (Some (error_response 400 (OfSidecar e)), None, S)
      | Panic \<Rightarrow> (None, None, S)
      | Ok env \<Rightarrow>
          (case validate_request_value J (ce_request env) of
             Err e \<Rightarrow> (Some (error_response 400 (OfSidecar e)), None, S)
           | Panic \<Rightarrow> (None, None, S)
           | Ok u \<Rightarrow>
               (case decode_frame_bytes (ce_frame env) of
                  Err e \<Rightarrow> (Some (error_response 400 (OfFrame e)), None, S)
                | Panic \<Rightarrow> (None, None, S)
                | Ok (Append fr) \<Rightarrow> chat_append X J H z hs (ce_request env) fr S
                | Ok f \<Rightarrow> (Some (error_response 400 (Literal ''chat endpoint requires APPEND'')), None, S))))"

end
