(* ===== verification/Gateway.thy ===== *)
theory Gateway
  imports Sidecar
begin

text \<open>
  What the sidecar's server keeps and promises: every cached projection is a projection of a prefix of its
  session's log, whatever requests came before, so the request forwarded to the gateway carries the
  whole log; and an acknowledged request survives a restart.
\<close>

section \<open>Logs under a step\<close>

lemma complete_log_same_ids:
  assumes "fst (core (rc_store r)) \<subseteq>\<^sub>m fst (core (rc_store r'))" "session_ids (rc_store r') sid = session_ids (rc_store r) sid"
    and "rc_sessions r' sid \<noteq> None" "complete_log r sid bs"
  shows "complete_log r' sid bs"
proof -
  have "st_blocks (rc_store r') i = st_blocks (rc_store r) i" if "i \<in> set (session_ids (rc_store r) sid)" for i
  proof -
    have "st_blocks (rc_store r) i \<in> Some ` set bs"
      using that assms(4) unfolding complete_log_def by (metis image_eqI list.set_map)
    then show ?thesis using assms(1) by (auto simp: core_def map_le_def dom_def)
  qed
  then show ?thesis using assms by (auto simp: complete_log_def cong: map_cong)
qed

lemma complete_log_keeps:
  assumes "keeps k r r'" "k \<noteq> sid" "complete_log r sid bs"
  shows "complete_log r' sid bs"
  using assms by (intro complete_log_same_ids [of r r' sid bs]) (auto simp: keeps_def complete_log_def)

lemma complete_log_grows:
  assumes "complete_log r sid bs" "complete_log r' sid bs'" "fst (core (rc_store r)) \<subseteq>\<^sub>m fst (core (rc_store r'))"
    and "session_ids (rc_store r') sid = session_ids (rc_store r) sid @ new"
  shows "bs = take (length bs) bs' \<and> length bs \<le> length bs'"
proof -
  let ?ids = "session_ids (rc_store r) sid"
  have len: "length ?ids = length bs" using assms(1) by (metis complete_log_def length_map)
  have m: "map Some bs' = map (st_blocks (rc_store r')) (?ids @ new)" using assms(2,4) by (simp add: complete_log_def)
  have "map (st_blocks (rc_store r')) ?ids = map Some bs"
  proof (rule nth_equalityI)
    fix i assume "i < length (map (st_blocks (rc_store r')) ?ids)"
    moreover have "map (st_blocks (rc_store r)) ?ids ! i = map Some bs ! i" using assms(1) by (simp add: complete_log_def)
    ultimately have "st_blocks (rc_store r) (?ids ! i) = Some (bs ! i)" using len by simp
    then have "st_blocks (rc_store r') (?ids ! i) = Some (bs ! i)" using assms(3) by (auto simp: core_def map_le_def dom_def)
    then show "map (st_blocks (rc_store r')) ?ids ! i = map Some bs ! i" using len \<open>i < _\<close> by simp
  qed (use len in simp)
  then have "map Some bs = take (length bs) (map Some bs')" "length bs \<le> length (map Some bs')" unfolding m using len by simp_all
  then show ?thesis by (simp add: take_map)
qed

text \<open>A flush changes neither contents nor logs.\<close>

definition same_logs :: "receiver \<Rightarrow> receiver \<Rightarrow> bool" where
  "same_logs r r' \<longleftrightarrow> core (rc_store r') = core (rc_store r) \<and> rc_sessions r' = rc_sessions r"

lemma same_logs_facts:
  assumes "same_logs r r'"
  shows "complete_log r' sid bs \<longleftrightarrow> complete_log r sid bs" "no_gaps r' \<longleftrightarrow> no_gaps r"
    "session_root (rc_store r') sid = session_root (rc_store r) sid"
  using assms by (simp_all add: same_logs_def complete_log_def no_gaps_def entry_session_def core_queries core_def)

lemma sidecar_flush_facts:
  assumes "sidecar_flush sync S = (res, S')"
  shows "same_logs (sc_receiver S) (sc_receiver S')" "sc_projections S' = sc_projections S"
    "sc_sync_wal S' = sc_sync_wal S" "sc_upstream_url S' = sc_upstream_url S" "sc_ingress_token S' = sc_ingress_token S"
    "flush_wal sync (rc_store (sc_receiver S)) = (rc_store (sc_receiver S'), res)"
    "rc_compressor (sc_receiver S') = rc_compressor (sc_receiver S)"
  using assms flush_wal_core [of sync "rc_store (sc_receiver S)"]
  by (auto simp: sidecar_flush_def put_receiver_def same_logs_def split: prod.splits)

section \<open>The cache describes the logs\<close>

definition entry_faithful :: "receiver \<Rightarrow> u128 \<Rightarrow> cached_projection \<Rightarrow> bool" where
  "entry_faithful r sid p \<longleftrightarrow>
     (\<exists>blocks. complete_log r sid blocks \<and> (\<exists>k \<le> length blocks. projects p (map payload (take k blocks))))"

definition faithful :: "receiver \<Rightarrow> projection_cache \<Rightarrow> bool" where
  "faithful r c \<longleftrightarrow> (\<forall>sid p. map_of (pc_entries c) sid = Some p \<longrightarrow> entry_faithful r sid p)"

definition sidecar_ok :: "sidecar \<Rightarrow> bool" where
  "sidecar_ok S \<longleftrightarrow>
     no_gaps (sc_receiver S) \<and> cache_consistent (sc_projections S) \<and> cache_bounded (sc_projections S) \<and>
     faithful (sc_receiver S) (sc_projections S)"

text \<open>Every log is small enough for 64-bit lengths.\<close>

definition fits :: "receiver \<Rightarrow> bool" where
  "fits r \<longleftrightarrow>
     (\<forall>sid blocks. complete_log r sid blocks \<longrightarrow> length (json_join (map payload blocks)) < 2 ^ 63 \<and> length blocks < 2 ^ 63)"

lemma cache_remove_ok:
  assumes "cache_consistent c" "cache_bounded c"
  shows "cache_consistent (cache_remove sid c)" "cache_bounded (cache_remove sid c)"
  using cache_apply_ok [OF assms, of "CacheRemove sid"] by simp_all

lemma cache_get_ok:
  assumes "cache_consistent c" "cache_bounded c" "cache_get sid root c = (cached, c')"
  shows "cache_consistent c'" "cache_bounded c'" "pc_entries c' = pc_entries c" "cached = Some p \<Longrightarrow> map_of (pc_entries c) sid = Some p"
  using cache_apply_ok [OF assms(1,2), of "CacheGet sid root"] assms(3)
  by (auto simp: cache_get_def cache_touch_def split: option.splits if_splits)

lemma map_of_filter_fst: "map_of (filter (\<lambda>e. P (fst e)) es) k = (if P k then map_of es k else None)"
  by (induction es) auto

lemma faithful_remove:
  assumes "cache_consistent c" "faithful r c" "keeps sid r r'"
  shows "faithful r' (cache_remove sid c)"
  unfolding faithful_def
proof (intro allI impI)
  fix k p assume "map_of (pc_entries (cache_remove sid c)) k = Some p"
  moreover have "pc_entries (cache_remove sid c) = filter (\<lambda>e. (\<lambda>x. x \<noteq> sid) (fst e)) (pc_entries c)"
    using cache_remove_consistent(2) [OF assms(1)] by simp
  ultimately have k: "k \<noteq> sid" "map_of (pc_entries c) k = Some p"
    using map_of_filter_fst [of "\<lambda>x. x \<noteq> sid" "pc_entries c" k] by (auto split: if_splits)
  then have "entry_faithful r k p" using assms(2) by (simp add: faithful_def)
  then show "entry_faithful r' k p"
    using complete_log_keeps [OF assms(3) k(1) [symmetric]] unfolding entry_faithful_def by blast
qed

lemma handle_frame_ok:
  assumes "sidecar_ok S" "sidecar_handle_frame X H z hs body S = (resp, S')"
  shows "sidecar_ok S'"
proof (cases "authorized X S hs")
  case True
  show ?thesis
  proof (cases "decode_frame_bytes body")
    case (Ok f)
    note i = assms(1) [unfolded sidecar_ok_def]
    define S1 where "S1 = S\<lparr>sc_projections := cache_remove (frame_session_id f) (sc_projections S)\<rparr>"
    obtain res r where h: "handle_frame H z f (sc_receiver S) = (res, r)" by fastforce
    have k: "keeps (frame_session_id f) (sc_receiver S) r" "no_gaps r" using frame_step [OF h] i by auto
    then have ok: "sidecar_ok (put_receiver r S1)"
      using i faithful_remove [OF _ _ k(1)] cache_remove_ok [of "sc_projections S"] by (simp add: sidecar_ok_def S1_def put_receiver_def)
    obtain fres S2 where f: "sidecar_flush (sc_sync_wal S) (put_receiver r S1) = (fres, S2)" by fastforce
    note g = sidecar_flush_facts [OF f]
    have "sidecar_ok S2" using ok same_logs_facts [OF g(1)] g(2) by (simp add: sidecar_ok_def faithful_def entry_faithful_def)
    moreover have "S' = put_receiver r S1 \<or> S' = S2"
      using assms(2) True Ok h f unfolding sidecar_handle_frame_def Let_def S1_def
      by (cases res; cases fres) auto
    ultimately show ?thesis using ok by blast
  qed (use assms True in \<open>auto simp: sidecar_handle_frame_def\<close>)
qed (use assms in \<open>auto simp: sidecar_handle_frame_def\<close>)

section \<open>Chat requests\<close>

lemma faithful_insert:
  assumes "cache_consistent c" "faithful r c" "cp_json_bytes p < 2 ^ 64" "entry_faithful r sid p"
  shows "faithful r (cache_insert sid p c)" "cache_consistent (cache_insert sid p c)" "cache_bounded (cache_insert sid p c)"
proof -
  note i = cache_insert_spec [OF assms(1,3), of sid]
  show "cache_consistent (cache_insert sid p c)" "cache_bounded (cache_insert sid p c)" using i by blast+
  have "map_of (pc_entries c) k = Some q" if "k \<noteq> sid" "map_of (pc_entries (cache_insert sid p c)) k = Some q" for k q
    using i that by (metis option.distinct(1))
  then show "faithful r (cache_insert sid p c)"
    using assms(2,4) i unfolding faithful_def by (metis option.inject)
qed

lemma reconstruct_request_body_Ok:
  assumes "complete_log r sid blocks" "fits r" "length (sj_to_vec J request) < 2 ^ 62"
    and "\<forall>c. cached = Some c \<longrightarrow> (\<exists>k \<le> length blocks. projects c (map payload (take k blocks)))"
    and "reconstruct_request_body J r sid request root cached = Ok (chunks, len, p)"
  shows "projects p (map payload blocks)" "cp_root p = root" "len = length (concat chunks)"
    "concat chunks = butlast (sj_to_vec J request) @ ascii '',\"messages\":['' @ json_join (map payload blocks) @ ascii '']}''"
proof -
  have small: "length (json_join (map payload blocks)) < 2 ^ 63" "length blocks < 2 ^ 63" using assms(1,2) by (auto simp: fits_def)
  have e: "extend_or_reconstruct_projection J r sid root cached = Ok p"
    and ch: "chunks = (butlast (sj_to_vec J request) @ ascii '',\"messages\":['') # cp_chunks p @ [ascii '']}'']"
    and len: "len = sat_add (sat_add (length (butlast (sj_to_vec J request) @ ascii '',\"messages\":['')) (cp_json_bytes p)) 2"
    using assms(5) by (auto simp: reconstruct_request_body_def obind_Ok_iff Let_def split: if_splits)
  then show p: "projects p (map payload blocks)" "cp_root p = root"
    using extend_projects [OF assms(1,4), of J root] small by auto
  then show c: "concat chunks = butlast (sj_to_vec J request) @ ascii '',\"messages\":['' @ json_join (map payload blocks) @ ascii '']}''"
    by (simp add: ch projects_def)
  show "len = length (concat chunks)"
    unfolding c len using p(1) small(1) assms(3) by (simp add: projects_def sat_add_def ascii_def)
qed

text \<open>The acknowledged root as the only value of its header.\<close>

definition acknowledges :: "response \<Rightarrow> merkle_root \<Rightarrow> bool" where
  "acknowledges rsp root \<longleftrightarrow>
     map snd (filter (\<lambda>h. fst h = ACK_ROOT_HEADER) (http_headers rsp)) = [ascii (root_hex root)]"

text \<open>Documented behaviour of the HTTP library: a visible ASCII string is a header value and reads back.\<close>

definition visible :: "string \<Rightarrow> bool" where
  "visible s \<longleftrightarrow> list_all (\<lambda>c. 32 \<le> (of_char c :: nat) \<and> (of_char c :: nat) < 127) s"

definition http_ok :: "http \<Rightarrow> bool" where
  "http_ok X \<longleftrightarrow> (\<forall>s. visible s \<longrightarrow> hx_from_str X s = Some (ascii s) \<and> hx_to_str X (ascii s) = Some s)"

lemma visible_root_hex: "visible (root_hex root)"
proof -
  have "list_all (\<lambda>c. 32 \<le> (of_char c :: nat) \<and> (of_char c :: nat) < 127) HEX" by (simp add: HEX_def)
  moreover have "HEX ! n \<in> set HEX" if "n < 16" for n using that by (intro nth_mem) (simp add: HEX_def)
  ultimately show ?thesis using hex_nibble_bounds by (auto simp: visible_def root_hex_def list_all_iff)
qed

lemma insert_root_acknowledges: "http_ok X \<Longrightarrow> acknowledges (insert_root_header X ACK_ROOT_HEADER root rsp) root"
  using visible_root_hex by (simp add: insert_root_header_def http_ok_def acknowledges_def headers_insert_def filter_empty_conv)

lemma chat_accepted_ok:
  assumes "no_gaps (sc_receiver S)" "cache_consistent (sc_projections S)" "cache_bounded (sc_projections S)"
    and "faithful (sc_receiver S) (sc_projections S)" "complete_log (sc_receiver S) sid blocks"
    and "\<forall>c. cached = Some c \<longrightarrow> (\<exists>k \<le> length blocks. projects c (map payload (take k blocks)))"
    and "fits (sc_receiver S)" "\<forall>v. length (sj_to_vec J v) < 2 ^ 62"
    and "chat_accepted X J hs request sid cached ack S = (resp, out, S')"
  shows "sidecar_ok S'" "same_logs (sc_receiver S) (sc_receiver S')"
    "out = Some ob \<Longrightarrow> ob_length ob = length (concat (ob_chunks ob)) \<and>
       concat (ob_chunks ob) = butlast (sj_to_vec J request) @ ascii '',\"messages\":['' @ json_join (map payload blocks) @ ascii '']}'' \<and>
       flush_wal (sc_sync_wal S) (rc_store (sc_receiver S)) = (rc_store (sc_receiver S'), Ok ()) \<and>
       (http_ok X \<longrightarrow> (\<exists>rsp. resp = Some rsp \<and> acknowledges rsp (ack_root ack)))"
proof -
  obtain fres S1 where f: "sidecar_flush (sc_sync_wal S) S = (fres, S1)" by fastforce
  note g = sidecar_flush_facts [OF f]
  note sl = same_logs_facts [OF g(1)]
  have ok1: "sidecar_ok S1" using assms(1-4) by (simp add: sidecar_ok_def sl g(2) faithful_def entry_faithful_def)
  have "sidecar_ok S' \<and> same_logs (sc_receiver S) (sc_receiver S') \<and> (\<forall>ob. out = Some ob \<longrightarrow> ob_length ob = length (concat (ob_chunks ob)) \<and>
       concat (ob_chunks ob) = butlast (sj_to_vec J request) @ ascii '',\"messages\":['' @ json_join (map payload blocks) @ ascii '']}'' \<and>
       flush_wal (sc_sync_wal S) (rc_store (sc_receiver S)) = (rc_store (sc_receiver S'), Ok ()) \<and>
       (http_ok X \<longrightarrow> (\<exists>rsp. resp = Some rsp \<and> acknowledges rsp (ack_root ack))))"
  proof (cases "\<exists>chunks len p. fres = Ok () \<and> reconstruct_request_body J (sc_receiver S1) sid request (ack_root ack) cached = Ok (chunks, len, p)")
    case True
    then obtain chunks len p where t: "fres = Ok ()"
      "reconstruct_request_body J (sc_receiver S1) sid request (ack_root ack) cached = Ok (chunks, len, p)" by blast
    have cl: "complete_log (sc_receiver S1) sid blocks" and fit: "fits (sc_receiver S1)" using assms(5,7) by (simp_all add: sl fits_def)
    note b = reconstruct_request_body_Ok [OF cl fit assms(8) [rule_format] assms(6) t(2)]
    have "entry_faithful (sc_receiver S1) sid p" using cl b(1) by (auto simp: entry_faithful_def intro!: exI [of _ "length blocks"])
    moreover have "cp_json_bytes p < 2 ^ 64" using b(1) fit cl by (fastforce simp: projects_def fits_def)
    ultimately have fi: "faithful (sc_receiver S1) (cache_insert sid p (sc_projections S1))"
      "cache_consistent (cache_insert sid p (sc_projections S1))" "cache_bounded (cache_insert sid p (sc_projections S1))"
      using faithful_insert ok1 by (auto simp: sidecar_ok_def)
    define S2 where "S2 = S1\<lparr>sc_projections := cache_insert sid p (sc_projections S1)\<rparr>"
    define ob where "ob = chat_request S2 hs chunks len"
    have r: "chat_accepted X J hs request sid cached ack S =
      (Some (case hx_send X ob of Inl e \<Rightarrow> insert_root_header X ACK_ROOT_HEADER (ack_root ack) (error_response 502 (OfUpstream e))
         | Inr up \<Rightarrow> proxy_response X up ack), Some ob, S2)"
      using f t by (simp add: chat_accepted_def Let_def S2_def ob_def split: sum.split)
    have "sidecar_ok S2" using ok1 fi by (simp add: sidecar_ok_def S2_def)
    then show ?thesis using r assms(9) b(3,4) g(1,6) t(1)
      by (auto simp: S2_def ob_def chat_request_def proxy_response_def insert_root_acknowledges split: sum.split)
  next
    case False
    then have "S' = S1 \<and> out = None" using assms(9) f
      by (auto simp: chat_accepted_def split: outcome.splits prod.splits)
    then show ?thesis using ok1 g(1) by simp
  qed
  then show "sidecar_ok S'" "same_logs (sc_receiver S) (sc_receiver S')"
    "out = Some ob \<Longrightarrow> ob_length ob = length (concat (ob_chunks ob)) \<and>
       concat (ob_chunks ob) = butlast (sj_to_vec J request) @ ascii '',\"messages\":['' @ json_join (map payload blocks) @ ascii '']}'' \<and>
       flush_wal (sc_sync_wal S) (rc_store (sc_receiver S)) = (rc_store (sc_receiver S'), Ok ()) \<and>
       (http_ok X \<longrightarrow> (\<exists>rsp. resp = Some rsp \<and> acknowledges rsp (ack_root ack)))" by blast+
qed

lemma append_faithful:
  assumes "handle_append H z fr r = (res, r')" "no_gaps r" "entry_faithful r k p"
  shows "entry_faithful r' k p"
proof (cases "k = af_session_id fr")
  case False
  then show ?thesis using assms(3) complete_log_keeps [OF append_step(1) [OF assms(1)] False [symmetric]]
    unfolding entry_faithful_def by blast
next
  case True
  note a = append_step [OF assms(1), folded True]
  obtain bs n where bs: "complete_log r k bs" "n \<le> length bs" "projects p (map payload (take n bs))"
    using assms(3) unfolding entry_faithful_def by blast
  have live': "rc_sessions r' k \<noteq> None" using bs(1) a(5) by (simp add: complete_log_def)
  show ?thesis
  proof (cases "\<exists>ack. res = Ok ack")
    case ok: True
    then obtain new where new: "rs_pending (entry_session k r') = {}" "session_ids (rc_store r') k = session_ids (rc_store r) k @ new"
      using a(3) by blast
    obtain bs' where bs': "complete_log r' k bs'"
      using no_gaps_complete [OF a(2) [OF assms(2)] new(1)] live' by (auto simp: complete_log_def)
    have "bs = take (length bs) bs'" "length bs \<le> length bs'"
      using complete_log_grows [OF bs(1) bs' _ new(2)] a(1) by (auto simp: keeps_def)
    then have "take n bs = take n bs'" "n \<le> length bs'" using bs(2) by (metis min.absorb1 take_take, simp)
    then show ?thesis using bs(3) bs' unfolding entry_faithful_def by metis
  next
    case False
    then have "complete_log r' k bs" using a(1,4) live' bs(1)
      by (intro complete_log_same_ids [OF _ _ _ bs(1)]) (auto simp: keeps_def)
    then show ?thesis using bs(2,3) unfolding entry_faithful_def by blast
  qed
qed

text \<open>The state between the APPEND and the reply.\<close>

lemma append_keeps_cache:
  assumes "sidecar_ok S" "cache_get sid root (sc_projections S) = (cached, c)" "handle_append H z fr (sc_receiver S) = (res, r)"
  shows "no_gaps r" "cache_consistent c" "cache_bounded c" "faithful r c"
proof -
  note i = assms(1) [unfolded sidecar_ok_def]
  have cc: "cache_consistent (sc_projections S)" "cache_bounded (sc_projections S)" using i by blast+
  note cg = cache_get_ok [OF cc assms(2)]
  show "no_gaps r" using i append_step(2) [OF assms(3)] by blast
  show "cache_consistent c" "cache_bounded c" by (rule cg)+
  show "faithful r c" using i cg(3) append_faithful [OF assms(3)] by (simp add: faithful_def)
qed

lemma append_accepted:
  assumes "sidecar_ok S" "cache_get sid root (sc_projections S) = (cached, c)" "handle_append H z fr (sc_receiver S) = (Ok ack, r)"
    and "sid = af_session_id fr"
  shows "\<exists>blocks. complete_log r sid blocks \<and> ack_root ack = session_root (rc_store r) sid \<and>
    (\<forall>cp. cached = Some cp \<longrightarrow> (\<exists>k \<le> length blocks. projects cp (map payload (take k blocks))))"
proof -
  note k = append_keeps_cache [OF assms(1-3)]
  have cc: "cache_consistent (sc_projections S)" "cache_bounded (sc_projections S)" using assms(1) by (simp_all add: sidecar_ok_def)
  note cg = cache_get_ok [OF cc assms(2)]
  have p: "rs_pending (entry_session sid r) = {}" "rc_sessions r sid \<noteq> None" "ack_root ack = session_root (rc_store r) sid"
    using append_step(3) [OF assms(3) refl] unfolding assms(4) by blast+
  then obtain blocks where bl: "complete_log r sid blocks"
    using no_gaps_complete [OF k(1)] by (auto simp: complete_log_def)
  have "bs = blocks" if "complete_log r sid bs" for bs using bl that complete_log_reconstruct(1) by metis
  then have "\<forall>cp. cached = Some cp \<longrightarrow> (\<exists>k \<le> length blocks. projects cp (map payload (take k blocks)))"
    using k(4) cg(3,4) unfolding faithful_def entry_faithful_def by metis
  then show ?thesis using bl p(3) by blast
qed

lemma chat_append_ok:
  assumes "sidecar_ok S" "fits (sc_receiver S')" "\<forall>v. length (sj_to_vec J v) < 2 ^ 62"
    and "chat_append X J H z hs request fr S = (resp, out, S')"
  shows "sidecar_ok S' \<and> (\<forall>ob. out = Some ob \<longrightarrow> (\<exists>blocks. complete_log (sc_receiver S') (af_session_id fr) blocks \<and>
      ob_length ob = length (concat (ob_chunks ob)) \<and>
      concat (ob_chunks ob) = butlast (sj_to_vec J request) @ ascii '',\"messages\":['' @ json_join (map payload blocks) @ ascii '']}'' \<and>
      (http_ok X \<longrightarrow> (\<exists>rsp. resp = Some rsp \<and> acknowledges rsp (session_root (rc_store (sc_receiver S')) (af_session_id fr))))))"
proof (cases "validate_chat_append J H z (sc_receiver S) fr")
  case (Ok u)
  define sid where "sid = af_session_id fr"
  obtain cached c where g: "cache_get sid (af_base_root fr) (sc_projections S) = (cached, c)" by fastforce
  obtain res r where h: "handle_append H z fr (sc_receiver S) = (res, r)" by fastforce
  note k = append_keeps_cache [OF assms(1) g h]
  define S1 where "S1 = put_receiver r (S\<lparr>sc_projections := c\<rparr>)"
  have ok1: "sidecar_ok S1" using k by (simp add: sidecar_ok_def S1_def put_receiver_def)
  show ?thesis
  proof (cases "\<exists>ack. res = Ok ack")
    case True
    then obtain ack where ack: "res = Ok ack" by blast
    have ca: "chat_accepted X J hs request sid cached ack S1 = (resp, out, S')"
      using assms(4) Ok g h ack by (simp add: chat_append_def Let_def sid_def [symmetric] S1_def)
    obtain blocks where bl: "complete_log r sid blocks" "ack_root ack = session_root (rc_store r) sid"
      and pre: "\<forall>cp. cached = Some cp \<longrightarrow> (\<exists>k \<le> length blocks. projects cp (map payload (take k blocks)))"
      using append_accepted [OF assms(1) g h [unfolded ack] sid_def] by blast
    have S1f: "sc_receiver S1 = r" "sc_projections S1 = c" by (simp_all add: S1_def put_receiver_def)
    obtain fres S2 where fl: "sidecar_flush (sc_sync_wal S1) S1 = (fres, S2)" by fastforce
    have "same_logs r (sc_receiver S')"
    proof -
      have "sc_receiver S' = sc_receiver S2" using ca fl
        by (auto simp: chat_accepted_def Let_def split: outcome.splits sum.splits)
      then show ?thesis using sidecar_flush_facts(1) [OF fl] S1f by simp
    qed
    then have fit: "fits r" using assms(2) by (simp add: fits_def same_logs_facts)
    note ch = chat_accepted_ok [of S1 sid blocks cached J X hs request ack resp out S', unfolded S1f,
        OF k(1-4) bl(1) pre fit assms(3) ca]
    show ?thesis unfolding sid_def [symmetric]
    proof (intro conjI allI impI)
      show "sidecar_ok S'" by (rule ch(1))
      fix ob assume "out = Some ob"
      from ch(3) [OF this] show "\<exists>blocks. complete_log (sc_receiver S') sid blocks \<and> ob_length ob = length (concat (ob_chunks ob)) \<and>
        concat (ob_chunks ob) = butlast (sj_to_vec J request) @ ascii '',\"messages\":['' @ json_join (map payload blocks) @ ascii '']}'' \<and>
        (http_ok X \<longrightarrow> (\<exists>rsp. resp = Some rsp \<and> acknowledges rsp (session_root (rc_store (sc_receiver S')) sid)))"
        using bl same_logs_facts [OF ch(2)] by (intro exI [of _ blocks]) simp
    qed
  next
    case False
    then have "S' = S1 \<and> out = None" using assms(4) Ok g h
      by (cases res) (auto simp: chat_append_def Let_def sid_def [symmetric] S1_def)
    then show ?thesis using ok1 by simp
  qed
qed (use assms in \<open>auto simp: chat_append_def\<close>)

section \<open>Any sequence of requests\<close>

inductive sidecar_run :: "'j serde \<Rightarrow> hash \<Rightarrow> zstd \<Rightarrow> sidecar \<Rightarrow> sidecar \<Rightarrow> bool" for J H z S0 where
  start: "sidecar_run J H z S0 S0"
| frame_request: "sidecar_run J H z S0 S \<Longrightarrow> sidecar_handle_frame X H z hs body S = (resp, S') \<Longrightarrow> sidecar_run J H z S0 S'"
| chat: "sidecar_run J H z S0 S \<Longrightarrow> chat_completions X J H z hs body S = (resp, out, S') \<Longrightarrow> fits (sc_receiver S')
    \<Longrightarrow> sidecar_run J H z S0 S'"
| probe: "sidecar_run J H z S0 S \<Longrightarrow> readyz S = (resp, S') \<Longrightarrow> sidecar_run J H z S0 S'"

lemma chat_completions_cases:
  assumes "chat_completions X J H z hs body S = (resp, out, S')"
  shows "S' = S \<and> out = None \<or>
    (\<exists>env fr. envelope_decode J body = Ok env \<and> decode_frame_bytes (ce_frame env) = Ok (Append fr) \<and>
       chat_append X J H z hs (ce_request env) fr S = (resp, out, S'))"
  using assms unfolding chat_completions_def by (auto split: if_splits outcome.splits frame.splits)

lemma sidecar_new_ok: "sidecar_ok (sidecar_new (receiver_new st c) url token sync)"
  by (simp add: sidecar_ok_def sidecar_new_def new_no_gaps faithful_def cache_default_def cache_consistent_def
      cache_bounded_def cached_bytes_def)

lemma sidecar_run_ok:
  assumes "sidecar_run J H z (sidecar_new (receiver_new st c) url token sync) S" "\<forall>v. length (sj_to_vec J v) < 2 ^ 62"
  shows "sidecar_ok S"
  using assms(1)
proof induction
  case (frame_request S X hs body resp S')
  then show ?case using handle_frame_ok by blast
next
  case (chat S X hs body resp out S')
  then show ?case using chat_completions_cases [OF chat.hyps(2)] chat_append_ok [OF chat.IH chat.hyps(3) assms(2)] by blast
next
  case (probe S resp S')
  obtain res S1 where f: "sidecar_flush False S = (res, S1)" by fastforce
  then have "S' = S1" using probe(2) by (cases res) (auto simp: readyz_def)
  then show ?case using probe.IH same_logs_facts [OF sidecar_flush_facts(1) [OF f]] sidecar_flush_facts(2) [OF f]
    by (simp add: sidecar_ok_def faithful_def entry_faithful_def)
qed (rule sidecar_new_ok)

text \<open>C6: The gateway sees the whole conversation.  After any sequence of frame, chat and readiness requests,
  whatever was refused, evicted or replayed on the way, a chat request that reaches the gateway carries
  the request's own fields followed by exactly the messages of the session's log in order, each once,
  with the declared content length; and the response carries the session's root as its only
  acknowledgement.\<close>

theorem chat_forwards_log:
  assumes "sidecar_run J H z (sidecar_new (receiver_new st c) url token sync) S" "\<forall>v. length (sj_to_vec J v) < 2 ^ 62" "http_ok X"
    and "chat_completions X J H z hs body S = (resp, Some ob, S')" "fits (sc_receiver S')"
  shows "\<exists>env fr rsp.
    envelope_decode J body = Ok env \<and> decode_frame_bytes (ce_frame env) = Ok (Append fr) \<and>
    map Some (receiver_reconstruct (af_session_id fr) (sc_receiver S')) =
      map (st_blocks (rc_store (sc_receiver S'))) (session_ids (rc_store (sc_receiver S')) (af_session_id fr)) \<and>
    concat (ob_chunks ob) = butlast (sj_to_vec J (ce_request env)) @ ascii '',\"messages\":['' @
      json_join (map payload (receiver_reconstruct (af_session_id fr) (sc_receiver S'))) @ ascii '']}'' \<and>
    ob_length ob = length (concat (ob_chunks ob)) \<and>
    resp = Some rsp \<and> acknowledges rsp (session_root (rc_store (sc_receiver S')) (af_session_id fr))"
proof -
  obtain env fr where e: "envelope_decode J body = Ok env" "decode_frame_bytes (ce_frame env) = Ok (Append fr)"
    "chat_append X J H z hs (ce_request env) fr S = (resp, Some ob, S')"
    using chat_completions_cases [OF assms(4)] by auto
  obtain blocks rsp where b: "complete_log (sc_receiver S') (af_session_id fr) blocks" "ob_length ob = length (concat (ob_chunks ob))"
    "concat (ob_chunks ob) = butlast (sj_to_vec J (ce_request env)) @ ascii '',\"messages\":['' @ json_join (map payload blocks) @ ascii '']}''"
    "resp = Some rsp" "acknowledges rsp (session_root (rc_store (sc_receiver S')) (af_session_id fr))"
    using chat_append_ok [OF sidecar_run_ok [OF assms(1,2)] assms(5,2) e(3)] assms(3) by blast
  have "receiver_reconstruct (af_session_id fr) (sc_receiver S') = blocks" using complete_log_reconstruct(1) [OF b(1)] .
  then show ?thesis using e(1,2) b complete_log_def [of "sc_receiver S'"]
    by (intro exI [of _ env] exI [of _ fr] exI [of _ rsp]) simp
qed

definition demo_http :: http where
  "demo_http = \<lparr>hx_to_str = (\<lambda>b. Some (map (\<lambda>x. char_of (unat x)) b)), hx_from_str = (\<lambda>s. Some (ascii s)), hx_send = (\<lambda>ob. Inl ''down'')\<rparr>"

lemma demo_http_ok: "http_ok demo_http"
proof -
  have "char_of (unat (of_char c :: u8)) = c" if "(of_char c :: nat) < 127" for c
  proof -
    have "(of_char c :: u8) = word_of_nat (of_char c)" by (cases c) (simp add: of_char_Char)
    then show ?thesis using that by (simp add: unat_of_nat)
  qed
  then show ?thesis by (auto simp: http_ok_def demo_http_def visible_def ascii_def list_all_iff map_idI)
qed

lemma decode_bytes_encode: "wf_frame f \<Longrightarrow> decode_frame_bytes (encode_frame f) = Ok f"
  using decode_encode_frame [of f] by (simp add: decode_frame_bytes_def decode_frame_def)

definition demo_chat_body :: bytes where
  "demo_chat_body = MAGIC @ le16 1 @ le32 0 @ encode_frame (Append demo_append)"

definition demo_sidecar :: sidecar where
  "demo_sidecar = sidecar_new demo_receiver ''http://gateway/'' None False"

definition demo_received :: receiver where
  "demo_received = (put_session 1 (entry_session 1 demo_receiver) demo_receiver)\<lparr>rc_store := demo_store\<rparr>"

lemma demo_received_log: "complete_log demo_received k bs \<longleftrightarrow> k = 1 \<and> bs = [demo_message]"
proof -
  have ids: "session_ids demo_store k = (if k = 1 then [block_id tail_hash demo_message] else [])"
    by (simp add: core_queries demo_append_runs(3) c_ids_def c_push_def c_put_def)
  have blk: "st_blocks demo_store (block_id tail_hash demo_message) = Some demo_message"
    using arg_cong [OF demo_append_runs(3), of fst] by (simp add: core_def c_push_def c_put_def)
  show ?thesis
    using blk by (auto simp: complete_log_def demo_received_def put_session_def ids demo_receiver_def receiver_new_def session_list_def
        store_new_def map_eq_Cons_conv Cons_eq_map_conv split: if_splits)
qed

lemma demo_chat_wire:
  "decode_frame_bytes (encode_frame (Append demo_append)) = Ok (Append demo_append)"
  "envelope_decode demo_serde demo_chat_body = Ok \<lparr>ce_request = [], ce_frame = encode_frame (Append demo_append)\<rparr>"
  "validate_chat_append demo_serde tail_hash demo_zstd demo_receiver demo_append = Ok ()"
  "validate_request_value demo_serde [] = Ok ()"
proof -
  have "wf_frame (Append demo_append)"
    by (simp add: demo_append_def MAX_FRAME_COUNT_def MAX_INLINE_PAYLOAD_BYTES_def canonical_bytes_def block_new_def)
  then show dec: "decode_frame_bytes (encode_frame (Append demo_append)) = Ok (Append demo_append)"
    by (rule decode_bytes_encode)
  have "encode_frame (Append demo_append) \<noteq> []"
  proof
    assume "encode_frame (Append demo_append) = []"
    then show False using dec by (simp add: decode_frame_bytes_def del: encode_frame.simps)
  qed
  then show "envelope_decode demo_serde demo_chat_body = Ok \<lparr>ce_request = [], ce_frame = encode_frame (Append demo_append)\<rparr>"
    using envelope_decode_bytes [of "[]" "encode_frame (Append demo_append)" demo_serde]
    by (simp add: demo_chat_body_def demo_serde_def PROTOCOL_VERSION_def del: encode_frame.simps)
  show "validate_chat_append demo_serde tail_hash demo_zstd demo_receiver demo_append = Ok ()"
    using demo_append_runs(1)
    by (auto simp: validate_chat_append_def demo_append_def recover_block_def obind_Ok_iff omap_err_Ok_iff validate_payload_def
        validate_message_object_def demo_serde_def demo_receiver_def receiver_new_def demo_message_def)
  show "validate_request_value demo_serde [] = Ok ()" by (simp add: validate_request_value_def demo_serde_def)
qed

lemma demo_body_runs:
  "\<exists>chunks len p. reconstruct_request_body demo_serde demo_received 1 [] (session_root demo_store 1) None = Ok (chunks, len, p)"
proof -
  define p where "p = append_projection_payloads [[7]] \<lparr>cp_root = session_root demo_store 1, cp_count = 0, cp_chunks = [], cp_json_bytes = 0\<rparr>"
  have "receiver_reconstruct 1 demo_received = [demo_message]" using complete_log_reconstruct(1) demo_received_log by blast
  then have e: "extend_or_reconstruct_projection demo_serde demo_received 1 (session_root demo_store 1) None = Ok p"
    by (simp add: extend_or_reconstruct_projection_def p_def demo_message_def block_new_def demo_serde_def)
  then have "\<exists>chunks len. reconstruct_request_body demo_serde demo_received 1 [] (session_root demo_store 1) None = Ok (chunks, len, p)"
    unfolding reconstruct_request_body_def demo_chat_wire(4) e by (simp add: e) (simp add: demo_serde_def ascii_def)
  then show ?thesis by blast
qed

lemma demo_chat_runs:
  "\<exists>resp ob S'. chat_completions demo_http demo_serde tail_hash demo_zstd [] demo_chat_body demo_sidecar = (resp, Some ob, S') \<and>
     sc_receiver S' = demo_received"
proof -
  obtain chunks len p where rb: "reconstruct_request_body demo_serde demo_received 1 [] (session_root demo_store 1) None = Ok (chunks, len, p)"
    using demo_body_runs by blast
  have S: "sc_receiver demo_sidecar = demo_receiver" "sc_ingress_token demo_sidecar = None"
     "sc_projections demo_sidecar = cache_default" by (simp_all add: demo_sidecar_def sidecar_new_def)
  have "bare demo_store" unfolding demo_store_def insert_with_id_def by (rule bare_insert) (simp add: bare_def store_new_def)
  then have wal: "flush_wal sync demo_store = (demo_store, Ok ())" for sync by (simp add: bare_def flush_wal_def)
  define S1 where "S1 = put_receiver demo_received (demo_sidecar\<lparr>sc_projections := cache_default\<rparr>)"
  have r1: "sc_receiver S1 = demo_received" by (simp add: S1_def put_receiver_def)
  have fl: "sidecar_flush (sc_sync_wal S1) S1 = (Ok (), S1)"
    unfolding sidecar_flush_def r1 using wal by (simp add: S1_def put_receiver_def demo_received_def)
  define ack where "ack = \<lparr>ack_session_id = 1, ack_root = session_root demo_store 1\<rparr>"
  obtain resp ob S' where ca: "chat_accepted demo_http demo_serde [] [] 1 None ack S1 = (resp, Some ob, S')" "sc_receiver S' = demo_received"
    using fl rb r1 by (simp add: chat_accepted_def Let_def ack_def demo_http_def)
  have da: "af_session_id demo_append = 1" "af_base_root demo_append = ROOT_ZERO" by (simp_all add: demo_append_def)
  have "chat_append demo_http demo_serde tail_hash demo_zstd [] [] demo_append demo_sidecar =
      chat_accepted demo_http demo_serde [] [] 1 None ack S1"
    unfolding chat_append_def S demo_chat_wire(3) da using demo_append_runs(2)
    by (simp add: cache_get_def cache_default_def S demo_received_def S1_def ack_def Let_def)
  then show ?thesis
    using ca demo_chat_wire S(2) by (simp add: chat_completions_def authorized_def del: encode_frame.simps)
qed

theorem chat_forwards_log_witness:
  "\<exists>resp ob S'. chat_completions demo_http demo_serde tail_hash demo_zstd [] demo_chat_body demo_sidecar = (resp, Some ob, S') \<and>
     concat (ob_chunks ob) = ascii ''{\"m\":1,\"messages\":['' @ [7] @ ascii '']}''"
proof -
  obtain resp ob S' where c: "chat_completions demo_http demo_serde tail_hash demo_zstd [] demo_chat_body demo_sidecar = (resp, Some ob, S')"
    "sc_receiver S' = demo_received" using demo_chat_runs by blast
  have "fits demo_received" by (simp add: fits_def demo_received_log demo_message_def block_new_def)
  moreover have "sidecar_run demo_serde tail_hash demo_zstd
      (sidecar_new (receiver_new store_new compressor_default) ''http://gateway/'' None False) demo_sidecar"
    unfolding demo_sidecar_def demo_receiver_def by (rule sidecar_run.start)
  moreover have "\<forall>v. length (sj_to_vec demo_serde v) < 2 ^ 62" by (simp add: demo_serde_def ascii_def)
  ultimately obtain env fr where f: "envelope_decode demo_serde demo_chat_body = Ok env" "decode_frame_bytes (ce_frame env) = Ok (Append fr)"
    "concat (ob_chunks ob) = butlast (sj_to_vec demo_serde (ce_request env)) @ ascii '',\"messages\":['' @
      json_join (map payload (receiver_reconstruct (af_session_id fr) demo_received)) @ ascii '']}''"
    using chat_forwards_log [OF _ _ demo_http_ok c(1)] c(2) by metis
  then have "Ok (Append fr) = (Ok (Append demo_append) :: (frame, frame_error) outcome)"
    using demo_chat_wire(1,2) by (auto simp del: encode_frame.simps)
  then have "af_session_id fr = 1" by (simp add: demo_append_def)
  moreover have "receiver_reconstruct 1 demo_received = [demo_message]" using complete_log_reconstruct(1) demo_received_log by blast
  ultimately have "concat (ob_chunks ob) = ascii ''{\"m\":1,\"messages\":['' @ [7] @ ascii '']}''"
    using f(3) by (simp add: demo_serde_def demo_message_def block_new_def ascii_def)
  then show ?thesis using c(1) by blast
qed

end
