(* ===== verification/Durable.thy ===== *)
theory Durable
  imports Gateway
begin

text \<open>
  From the sidecar's response to the disk: every request acts on the store by a sequence of logged
  operations, so the crash-recovery results for the store apply to the server, and what a chat response
  acknowledges is what a restart finds.
\<close>

section \<open>Identifiers that were decoded\<close>

fun ids_ok :: "frame \<Rightarrow> bool" where
  "ids_ok (Append a) \<longleftrightarrow> list_all (\<lambda>fb. case fb of Ref i \<Rightarrow> length i = 32 | Inline b \<Rightarrow> True) (af_blocks a)"
| "ids_ok (Resync r) \<longleftrightarrow> length (rf_client_root r) = 32 \<and> list_all (\<lambda>i. length i = 32) (rf_manifest r)"
| "ids_ok f \<longleftrightarrow> True"

lemma take_n_all: "take_n f n r = Ok (xs, r') \<Longrightarrow> (\<And>r x r'. f r = Ok (x, r') \<Longrightarrow> P x) \<Longrightarrow> list_all P xs"
  by (induction n arbitrary: r xs) (auto simp: obind_Ok_iff)

lemma take_block_id_length: "take_block_id r = Ok (i, r') \<Longrightarrow> length i = 32"
  by (auto simp: take_block_id_def split: if_splits)

lemma decode_ref_length: "decode_frame_block body r = Ok (Ref i, r') \<Longrightarrow> length i = 32"
  by (auto simp: decode_frame_block_def decode_ref_def decode_inline_def slice_of_def obind_Ok_iff Let_def split: if_splits option.splits)

lemma decoded_ids_ok: "decode_frame_bytes b = Ok f \<Longrightarrow> ids_ok f"
proof -
  assume "decode_frame_bytes b = Ok f"
  then obtain tag body where d: "decode_body tag body = Ok f" by (auto simp: decode_frame_bytes_def obind_Ok_iff split: if_splits)
  have blk: "case x of Ref i \<Rightarrow> length i = 32 | Inline b \<Rightarrow> True" if "decode_frame_block body r = Ok (x, r')" for x r r'
    using that decode_ref_length by (cases x) auto
  show ?thesis using d
    by (auto simp: decode_body_def take_root_def obind_Ok_iff split: if_splits
        intro: take_n_all [OF _ blk] take_n_all [OF _ take_block_id_length] dest: take_block_id_length)
qed

section \<open>Requests as logged operations\<close>

definition logged :: "hash \<Rightarrow> store \<Rightarrow> store \<Rightarrow> bool" where
  "logged H s s' \<longleftrightarrow> (\<exists>ops. list_all wf_op ops \<and> s' = run_ops H ops s)"

lemma logged_refl [simp, intro]: "logged H s s"
  unfolding logged_def by (rule exI [of _ "[]"]) simp

lemma logged_trans: "logged H s s1 \<Longrightarrow> logged H s1 s2 \<Longrightarrow> logged H s s2"
  unfolding logged_def
proof clarify
  fix ops1 ops2 assume "list_all wf_op ops1" "list_all wf_op ops2"
  then show "\<exists>ops. list_all wf_op ops \<and> run_ops H ops2 (run_ops H ops1 s) = run_ops H ops s"
    by (intro exI [of _ "ops1 @ ops2"]) simp
qed

lemma logged_op: "wf_op op \<Longrightarrow> logged H s (exec_op H op s)"
  unfolding logged_def by (rule exI [of _ "[op]"]) simp

lemma apply_resolved_logged:
  assumes "\<forall>it \<in> set rs. case it of RInline i b \<Rightarrow> i = block_id H b | RRef i \<Rightarrow> length i = 32"
  shows "logged H st (snd (apply_resolved H sid rs st))"
  using assms
proof (induction rs arbitrary: st)
  case (Cons it rs)
  show ?case
  proof (cases it)
    case (RInline i b)
    then have "logged H st (snd (insert_with_id H sid b i st))"
      using logged_op [of "OpInsert sid b None" H st] Cons.prems by (simp add: insert_with_id_def)
    then show ?thesis using Cons RInline logged_trans by simp
  next
    case (RRef i)
    obtain res st1 where r: "reference H sid i st = (res, st1)" by fastforce
    have l: "logged H st st1" using logged_op [of "OpReference sid i" H st] Cons.prems RRef r by simp
    have "logged H st1 (snd (apply_resolved H sid rs st1))" using Cons by simp
    then show ?thesis using l logged_trans [OF l] RRef r by (cases res) auto
  qed
qed simp

lemma resolved_ok:
  assumes "otraverse (resolve_block H z c) fbs = Ok rs"
    and "list_all (\<lambda>fb. case fb of Ref i \<Rightarrow> length i = 32 | Inline b \<Rightarrow> True) fbs"
  shows "\<forall>it \<in> set rs. case it of RInline i b \<Rightarrow> i = block_id H b | RRef i \<Rightarrow> length i = 32"
proof -
  have "case it of RInline i b \<Rightarrow> i = block_id H b | RRef i \<Rightarrow> length i = 32"
    if "resolve_block H z c fb = Ok it" "case fb of Ref i \<Rightarrow> length i = 32 | Inline b \<Rightarrow> True" for fb it
    using that by (cases fb) (auto simp: recover_block_def obind_Ok_iff from_canonical_owned_iff)
  moreover have "\<exists>fb \<in> set fbs. resolve_block H z c fb = Ok it" if "it \<in> set rs" for it
    using that assms(1) unfolding otraverse_Ok_iff
    by (auto simp: list_all2_conv_all_nth in_set_conv_nth) (metis nth_mem)
  ultimately show ?thesis using assms(2) unfolding list_all_iff by blast
qed

lemma handle_append_logged:
  assumes "handle_append H z fr r = (res, r')" "ids_ok (Append fr)"
  shows "logged H (rc_store r) (rc_store r')"
proof (cases "otraverse (resolve_block H z (rc_compressor r)) (af_blocks fr)")
  case (Ok rs)
  have "logged H (rc_store r) (snd (apply_resolved H (af_session_id fr) rs (rc_store r)))"
    using resolved_ok [OF Ok] assms(2) by (intro apply_resolved_logged) simp
  then show ?thesis using assms(1) Ok by (auto simp: handle_append_def Let_def split: if_splits prod.splits)
qed (use assms(1) in \<open>auto simp: handle_append_def\<close>)

lemma store_contents_logged:
  "\<forall>(b, i) \<in> set rec. i = block_id H b \<Longrightarrow> logged H st (store_contents sid rec st)"
proof (induction rec arbitrary: st)
  case (Cons p rec)
  obtain b i where p: "p = (b, i)" by force
  then have "logged H st (snd (store_content_with_id sid b i st))"
    using logged_op [of "OpContent sid b" H st] Cons.prems by (simp add: store_content_def)
  then show ?case using Cons p logged_trans by simp
qed simp

lemma handle_bulk_logged:
  assumes "handle_bulk H z fr r = (res, r')"
  shows "logged H (rc_store r) (rc_store r')"
  using assms
proof (cases rule: handle_bulk_cases)
  case (decoded d recs recovered)
  have "i = block_id H b" if "recover_block H z (rc_compressor r) x = Ok (b, i)" for x b i
    using that by (auto simp: recover_block_def obind_Ok_iff from_canonical_owned_iff)
  then have "\<forall>(b, i) \<in> set recovered. i = block_id H b"
    using decoded(1) unfolding otraverse_Ok_iff by (fastforce simp: list_all2_conv_all_nth in_set_conv_nth)
  then show ?thesis using store_contents_logged unfolding decoded(2)
    by (auto simp: finish_generation_def Let_def put_decoder_def split: option.splits)
qed (simp add: put_decoder_def)

lemma handle_frame_logged:
  assumes "handle_frame H z f r = (res, r')" "ids_ok f"
  shows "logged H (rc_store r) (rc_store r')"
proof (cases f)
  case (Append a)
  then obtain res' where "handle_append H z a r = (res', r')" using assms(1) by (auto simp: handle_frame_def split: prod.splits)
  then show ?thesis using handle_append_logged Append assms(2) by blast
next
  case (Resync q)
  then obtain m where "handle_resync q r = (m, r')" using assms(1) by (auto simp: handle_frame_def split: prod.splits if_splits)
  then have "rc_store r' = exec_op H (OpSeed (rf_session_id q) (rf_manifest q) (rf_client_root q)) (rc_store r)"
    by (auto simp: handle_resync_def Let_def)
  then show ?thesis using logged_op [of "OpSeed (rf_session_id q) (rf_manifest q) (rf_client_root q)"] assms(2) Resync
    by (simp add: list_all_iff)
next
  case (Bulk b)
  then obtain res' where "handle_bulk H z b r = (res', r')" using assms(1) by (auto simp: handle_frame_def split: prod.splits)
  then show ?thesis by (rule handle_bulk_logged)
qed (use assms(1) in \<open>auto simp: handle_frame_def\<close>)

lemma sidecar_flush_logged:
  assumes "sidecar_flush sync S = (res, S')"
  shows "logged H (rc_store (sc_receiver S)) (rc_store (sc_receiver S'))"
  using logged_op [of "OpFlush sync" H "rc_store (sc_receiver S)"] sidecar_flush_facts(6) [OF assms] by simp

text \<open>The store and the setting of the server.\<close>

definition server_logged :: "hash \<Rightarrow> sidecar \<Rightarrow> sidecar \<Rightarrow> bool" where
  "server_logged H S S' \<longleftrightarrow> logged H (rc_store (sc_receiver S)) (rc_store (sc_receiver S')) \<and> sc_sync_wal S' = sc_sync_wal S"

lemma server_logged_trans: "server_logged H S S1 \<Longrightarrow> server_logged H S1 S2 \<Longrightarrow> server_logged H S S2"
  using logged_trans unfolding server_logged_def by metis

lemma flush_server_logged: "sidecar_flush sync S = (res, S') \<Longrightarrow> server_logged H S S'"
  using sidecar_flush_logged sidecar_flush_facts(3) unfolding server_logged_def by blast

lemma put_receiver_logged:
  "logged H (rc_store (sc_receiver S)) (rc_store r) \<Longrightarrow> server_logged H S (put_receiver r (S\<lparr>sc_projections := c\<rparr>))"
  by (simp add: server_logged_def put_receiver_def)

lemma frame_request_logged:
  assumes "sidecar_handle_frame X H z hs body S = (resp, S')"
  shows "server_logged H S S'"
proof (cases "authorized X S hs")
  case True
  show ?thesis
  proof (cases "decode_frame_bytes body")
    case (Ok f)
    define S1 where "S1 = S\<lparr>sc_projections := cache_remove (frame_session_id f) (sc_projections S)\<rparr>"
    obtain res r where h: "handle_frame H z f (sc_receiver S) = (res, r)" by fastforce
    have l: "server_logged H S (put_receiver r S1)"
      unfolding S1_def by (rule put_receiver_logged [OF handle_frame_logged [OF h decoded_ids_ok [OF Ok]]])
    obtain fres S2 where f: "sidecar_flush (sc_sync_wal S) (put_receiver r S1) = (fres, S2)" by fastforce
    have "S' = put_receiver r S1 \<or> S' = S2"
      using assms True Ok h f unfolding sidecar_handle_frame_def Let_def S1_def by (cases res; cases fres) auto
    then show ?thesis using l server_logged_trans [OF l flush_server_logged [OF f]] by blast
  qed (use assms True in \<open>auto simp: sidecar_handle_frame_def server_logged_def\<close>)
qed (use assms in \<open>auto simp: sidecar_handle_frame_def server_logged_def\<close>)

lemma chat_accepted_store:
  assumes "chat_accepted X J hs request sid cached ack S = (resp, out, S')" "sidecar_flush (sc_sync_wal S) S = (fres, S1)"
  shows "sc_receiver S' = sc_receiver S1 \<and> sc_sync_wal S' = sc_sync_wal S1 \<and> (out \<noteq> None \<longrightarrow> fres = Ok ())"
  using assms by (auto simp: chat_accepted_def Let_def split: outcome.splits sum.splits)

text \<open>A chat request that was forwarded ends with a successful flush.\<close>

lemma chat_append_logged:
  assumes "chat_append X J H z hs request fr S = (resp, out, S')" "ids_ok (Append fr)"
  shows "server_logged H S S' \<and> (out \<noteq> None \<longrightarrow> (\<exists>s. logged H (rc_store (sc_receiver S)) s \<and>
      flush_wal (sc_sync_wal S) s = (rc_store (sc_receiver S'), Ok ())))"
proof (cases "validate_chat_append J H z (sc_receiver S) fr")
  case (Ok u)
  obtain cached c where g: "cache_get (af_session_id fr) (af_base_root fr) (sc_projections S) = (cached, c)" by fastforce
  obtain res r where h: "handle_append H z fr (sc_receiver S) = (res, r)" by fastforce
  define S1 where "S1 = put_receiver r (S\<lparr>sc_projections := c\<rparr>)"
  have l1: "server_logged H S S1" unfolding S1_def by (rule put_receiver_logged [OF handle_append_logged [OF h assms(2)]])
  show ?thesis
  proof (cases "\<exists>ack. res = Ok ack")
    case True
    then obtain ack where ack: "res = Ok ack" by blast
    have ca: "chat_accepted X J hs request (af_session_id fr) cached ack S1 = (resp, out, S')"
      using assms(1) Ok g h ack by (simp add: chat_append_def Let_def S1_def)
    obtain fres S2 where f: "sidecar_flush (sc_sync_wal S1) S1 = (fres, S2)" by fastforce
    note st = chat_accepted_store [OF ca f]
    have s: "sc_sync_wal S1 = sc_sync_wal S" using l1 by (simp add: server_logged_def)
    have "server_logged H S S'" using server_logged_trans [OF l1 flush_server_logged [OF f]] st by (simp add: server_logged_def)
    moreover have "\<exists>s. logged H (rc_store (sc_receiver S)) s \<and> flush_wal (sc_sync_wal S) s = (rc_store (sc_receiver S'), Ok ())"
      if "out \<noteq> None" using that l1 st sidecar_flush_facts(6) [OF f] s by (auto simp: server_logged_def)
    ultimately show ?thesis by blast
  next
    case False
    then have "S' = S1 \<and> out = None" using assms(1) Ok g h by (cases res) (auto simp: chat_append_def Let_def S1_def)
    then show ?thesis using l1 by simp
  qed
qed (use assms(1) in \<open>auto simp: chat_append_def server_logged_def\<close>)

lemma chat_logged:
  assumes "chat_completions X J H z hs body S = (resp, out, S')"
  shows "server_logged H S S'"
  using chat_completions_cases [OF assms] chat_append_logged decoded_ids_ok by (fastforce simp: server_logged_def)

lemma readyz_logged: "readyz S = (resp, S') \<Longrightarrow> server_logged H S S'"
  using flush_server_logged [of False S] by (cases "sidecar_flush False S") (auto simp: readyz_def split: outcome.splits)

lemma sidecar_run_logged: "sidecar_run J H z S0 S \<Longrightarrow> server_logged H S0 S"
proof (induction rule: sidecar_run.induct)
  case start
  then show ?case by (simp add: server_logged_def)
qed (blast intro: server_logged_trans frame_request_logged chat_logged readyz_logged)+

section \<open>An acknowledged request survives\<close>

lemma flush_ok_healthy: "flush_wal sync s = (s', Ok ()) \<Longrightarrow> st_wal_error s' = None"
  by (auto simp: flush_wal_def split: option.splits prod.splits outcome.splits)

lemma recovered_reconstruct:
  assumes "core s = core (rc_store r)" "rc_sessions r sid \<noteq> None \<or> session_ids (rc_store r) sid = []"
  shows "receiver_reconstruct sid (receiver_new s c) = receiver_reconstruct sid r"
  using assms
  by (auto simp: receiver_reconstruct_def receiver_new_def session_list_def reconstruct_def collect_blocks_def core_def session_ids_def
      List.map_filter_simps split: option.splits)

text \<open>C7: An acknowledgement is a promise the disk keeps.  For a server started from a log file with
  synchronous flushing, after any sequence of requests: once a chat request was forwarded, a crash that
  keeps the synchronised part of the file and a restart give a store whose session root is the root the
  response acknowledged, and the restarted receiver reconstructs the same conversation.\<close>

theorem acked_chat_durable:
  assumes "hash32 H" "with_wal H False file ios = Ok s0"
    and "sidecar_run J H z (sidecar_new (receiver_new s0 c) url token True) S"
    and "\<forall>v. length (sj_to_vec J v) < 2 ^ 62" "http_ok X"
    and "chat_completions X J H z hs body S = (resp, Some ob, S')" "fits (sc_receiver S')"
  shows "\<exists>w env fr rsp. envelope_decode J body = Ok env \<and> decode_frame_bytes (ce_frame env) = Ok (Append fr) \<and>
    st_wal (rc_store (sc_receiver S')) = Some w \<and> resp = Some rsp \<and>
    (\<forall>k ios'. wsynced w \<le> k \<longrightarrow>
      (\<exists>s. with_wal H False (take k (wlog w)) ios' = Ok s \<and> acknowledges rsp (session_root s (af_session_id fr)) \<and>
         receiver_reconstruct (af_session_id fr) (receiver_new s c) = receiver_reconstruct (af_session_id fr) (sc_receiver S')))"
proof -
  obtain env fr where e: "decode_frame_bytes (ce_frame env) = Ok (Append fr)"
    "chat_append X J H z hs (ce_request env) fr S = (resp, Some ob, S')" "envelope_decode J body = Ok env"
    using chat_completions_cases [OF assms(6)] by auto
  obtain blocks rsp where b: "complete_log (sc_receiver S') (af_session_id fr) blocks"
    "resp = Some rsp" "acknowledges rsp (session_root (rc_store (sc_receiver S')) (af_session_id fr))"
    using chat_append_ok [OF sidecar_run_ok [OF assms(3,4)] assms(7,4) e(2)] assms(5) by blast
  define st where "st = rc_store (sc_receiver S')"
  have run: "server_logged H (sidecar_new (receiver_new s0 c) url token True) S" by (rule sidecar_run_logged [OF assms(3)])
  obtain s where s: "logged H (rc_store (sc_receiver S)) s" "flush_wal True s = (st, Ok ())"
    using chat_append_logged [OF e(2) decoded_ids_ok [OF e(1)]] run by (auto simp: server_logged_def sidecar_new_def st_def)
  have "logged H s0 s"
    using run s(1) logged_trans by (auto simp: server_logged_def sidecar_new_def receiver_new_def)
  moreover have "logged H s st" using logged_op [of "OpFlush True" H s] s(2) by simp
  ultimately obtain ops where ops: "list_all wf_op ops" "st = run_ops H ops s0"
    using logged_trans unfolding logged_def by metis
  have "sound_wal H st"
    unfolding ops(2)
    by (rule run_sound_wal [OF assms(1) ops(1)]) (use with_wal_sound [OF assms(2)] flush_ok_healthy [OF s(2)] ops(2) in auto)
  then obtain w s' where w: "st_wal st = Some w" "replay H (wlog w) 0 store_new = Ok (length (wlog w), s')" "core s' = core st"
    by (auto simp: sound_wal_def)
  have same: "receiver_reconstruct (af_session_id fr) (receiver_new s1 c) = receiver_reconstruct (af_session_id fr) (sc_receiver S')"
    "session_root s1 (af_session_id fr) = session_root st (af_session_id fr)" if "core s1 = core st" for s1
    using that recovered_reconstruct b(1) by (simp_all add: st_def complete_log_def core_queries)
  have "\<exists>s. with_wal H False (take k (wlog w)) ios' = Ok s \<and> acknowledges rsp (session_root s (af_session_id fr)) \<and>
      receiver_reconstruct (af_session_id fr) (receiver_new s c) = receiver_reconstruct (af_session_id fr) (sc_receiver S')"
    if "wsynced w \<le> k" for k ios'
  proof -
    have "take k (wlog w) = wlog w" using flush_synced [OF s(2) w(1)] that by simp
    then obtain s1 where s1: "with_wal H False (take k (wlog w)) ios' = Ok s1" "core s1 = core st"
      using with_wal_of_replay [OF w(2)] w(3) by metis
    then show ?thesis using same [OF s1(2)] b(3) by (intro exI [of _ s1]) (simp add: st_def)
  qed
  then show ?thesis using w(1) b(2) e(1,3) unfolding st_def by blast
qed

definition empty_append :: append_frame where
  "empty_append = \<lparr>af_session_id = 1, af_base_root = ROOT_ZERO, af_blocks = []\<rparr>"

definition empty_chat_body :: bytes where
  "empty_chat_body = MAGIC @ le16 1 @ le32 0 @ encode_frame (Append empty_append)"

definition durable_sidecar :: sidecar where
  "durable_sidecar = sidecar_new (receiver_new demo_start compressor_default) ''http://gateway'' None True"

lemma empty_chat_wire:
  "decode_frame_bytes (encode_frame (Append empty_append)) = Ok (Append empty_append)"
  "envelope_decode demo_serde empty_chat_body = Ok \<lparr>ce_request = [], ce_frame = encode_frame (Append empty_append)\<rparr>"
proof -
  show "decode_frame_bytes (encode_frame (Append empty_append)) = Ok (Append empty_append)"
    by (rule decode_bytes_encode) (simp add: empty_append_def)
  have "encode_frame (Append empty_append) \<noteq> []" by (simp add: empty_append_def put_u32_le_def ROOT_ZERO_def)
  then show "envelope_decode demo_serde empty_chat_body = Ok \<lparr>ce_request = [], ce_frame = encode_frame (Append empty_append)\<rparr>"
    using envelope_decode_bytes [of "[]" "encode_frame (Append empty_append)" demo_serde]
    by (simp add: empty_chat_body_def demo_serde_def PROTOCOL_VERSION_def del: encode_frame.simps)
qed

lemma empty_chat_runs:
  "\<exists>resp ob S'. chat_completions demo_http demo_serde tail_hash demo_zstd [] empty_chat_body durable_sidecar = (resp, Some ob, S') \<and>
     fits (sc_receiver S')"
proof -
  define r where "r = receiver_new demo_start compressor_default"
  have r0: "rc_store r = demo_start" "rc_sessions r = Map.empty" "st_sessions demo_start = Map.empty"
    by (auto simp: r_def receiver_new_def session_list_def demo_start_def set_wal_def store_new_def)
  define r1 where "r1 = put_session 1 fresh_session r"
  have ha: "handle_append tail_hash demo_zstd empty_append r = (Ok \<lparr>ack_session_id = 1, ack_root = ROOT_ZERO\<rparr>, r1)"
    using r0 by (simp add: handle_append_def empty_append_def Let_def entry_session_def r1_def fresh_session_def session_root_def
        put_session_def)
  obtain st where fl: "flush_wal True demo_start = (st, Ok ())" "core st = core demo_start"
    using flush_wal_core [of True demo_start] by (simp add: demo_start_def set_wal_def flush_wal_def store_new_def wal_flush_def next_io_def)
  define r2 where "r2 = r1\<lparr>rc_store := st\<rparr>"
  have log: "complete_log r2 k bs \<longleftrightarrow> k = 1 \<and> bs = []" for k bs
    using fl(2) r0 by (auto simp: complete_log_def r2_def r1_def put_session_def core_def session_ids_def split: if_splits)
  have "receiver_reconstruct 1 r2 = []" using complete_log_reconstruct(1) log by blast
  then obtain p where ex: "extend_or_reconstruct_projection demo_serde r2 1 ROOT_ZERO None = Ok p"
    by (simp add: extend_or_reconstruct_projection_def)
  then obtain chunks len where rb: "reconstruct_request_body demo_serde r2 1 [] ROOT_ZERO None = Ok (chunks, len, p)"
    unfolding reconstruct_request_body_def demo_chat_wire(4) by simp (simp add: demo_serde_def ascii_def)
  have S: "sc_receiver durable_sidecar = r" "sc_ingress_token durable_sidecar = None" "sc_sync_wal durable_sidecar = True"
     "sc_projections durable_sidecar = cache_default" by (simp_all add: durable_sidecar_def sidecar_new_def r_def)
  define S1 where "S1 = put_receiver r1 (durable_sidecar\<lparr>sc_projections := cache_default\<rparr>)"
  have sf: "sidecar_flush (sc_sync_wal S1) S1 = (Ok (), put_receiver r2 S1)"
    using fl(1) r0(1) S by (simp add: sidecar_flush_def S1_def put_receiver_def r1_def r2_def)
  obtain resp ob S' where ca: "chat_accepted demo_http demo_serde [] [] 1 None \<lparr>ack_session_id = 1, ack_root = ROOT_ZERO\<rparr> S1 = (resp, Some ob, S')"
    "sc_receiver S' = r2"
    using sf rb that by (simp add: chat_accepted_def Let_def demo_http_def put_receiver_def)
  have "chat_append demo_http demo_serde tail_hash demo_zstd [] [] empty_append durable_sidecar = (resp, Some ob, S')"
    using ha ca(1) S by (simp add: chat_append_def validate_chat_append_def empty_append_def cache_get_def cache_default_def S1_def Let_def)
  then have "chat_completions demo_http demo_serde tail_hash demo_zstd [] empty_chat_body durable_sidecar = (resp, Some ob, S')"
    using empty_chat_wire demo_chat_wire(4) S(2) by (simp add: chat_completions_def authorized_def del: encode_frame.simps)
  moreover have "fits (sc_receiver S')" by (simp add: ca(2) fits_def log)
  ultimately show ?thesis by blast
qed

theorem acked_chat_durable_witness:
  "\<exists>resp ob S' w s. chat_completions demo_http demo_serde tail_hash demo_zstd [] empty_chat_body durable_sidecar = (resp, Some ob, S') \<and>
     st_wal (rc_store (sc_receiver S')) = Some w \<and> with_wal tail_hash False (take (wsynced w) (wlog w)) [] = Ok s"
proof -
  obtain resp ob S' where c: "chat_completions demo_http demo_serde tail_hash demo_zstd [] empty_chat_body durable_sidecar = (resp, Some ob, S')"
    "fits (sc_receiver S')" using empty_chat_runs by blast
  have w: "with_wal tail_hash False [] [] = Ok demo_start" by (simp add: with_wal_def wal_open_def replay.simps demo_start_def Let_def)
  have run: "sidecar_run demo_serde tail_hash demo_zstd (sidecar_new (receiver_new demo_start compressor_default) ''http://gateway'' None True) durable_sidecar"
    unfolding durable_sidecar_def by (rule sidecar_run.start)
  have "\<forall>v. length (sj_to_vec demo_serde v) < 2 ^ 62" by (simp add: demo_serde_def ascii_def)
  from acked_chat_durable [OF hash32_tail_hash w run this demo_http_ok c] c(1) show ?thesis by (metis order_refl)
qed

end
