(* ===== verification/ChatClient.thy ===== *)
theory ChatClient
  imports Durable
begin

text \<open>
  The client of the sidecar (\<open>crates/sidecar/src/lib.rs\<close>): a chat session that turns new messages into one
  APPEND inside an envelope, applies acknowledgements, and resynchronises.  The HTTP exchange is a
  parameter that maps a request body and the state of the world to a response and a new state.
\<close>

section \<open>Sessions\<close>

record prepared =
  pr_body :: bytes
  pr_expected_root :: merkle_root
  pr_request_json_bytes :: nat
  pr_new_messages_json_bytes :: nat

record chat_session =
  cs_shim :: session_shim
  cs_host :: host
  cs_next_seq :: u64
  cs_pending_root :: "merkle_root option"

definition session_id_from_key :: "hash \<Rightarrow> bytes \<Rightarrow> u128" where
  "session_id_from_key H key = rd128 (take 16 (H key))"

definition chat_session_new :: "hash \<Rightarrow> bytes \<Rightarrow> chat_session" where
  "chat_session_new H key =
     (case session_shim_new (session_id_from_key H key) store_new compressor_default of
        (s, h) \<Rightarrow> \<lparr>cs_shim = s, cs_host = h, cs_next_seq = 1, cs_pending_root = None\<rparr>)"

definition message_kind :: "'j serde \<Rightarrow> (string \<rightharpoonup> 'j) \<Rightarrow> block_kind" where
  "message_kind J obj =
     (case Option.bind (obj ''role'') (sj_as_str J) of
        None \<Rightarrow> Message
      | Some role \<Rightarrow>
          if role = ''system'' \<or> role = ''developer'' then System
          else if role = ''tool'' then ToolResult
          else if role = ''assistant'' \<and> obj ''tool_calls'' \<noteq> None then ToolCall
          else Message)"

fun serialize_messages :: "'j serde \<Rightarrow> nat \<Rightarrow> 'j list \<Rightarrow> ((block_kind \<times> bytes) list, sidecar_error) outcome" where
  "serialize_messages J i [] = Ok []"
| "serialize_messages J i (v # vs) =
     (case sj_as_object J v of
        None \<Rightarrow> Err (InvalidMessage i)
      | Some obj \<Rightarrow>
          obind (validate_message_object J obj i) (\<lambda>_.
          obind (serialize_messages J (i + 1) vs) (\<lambda>rest. Ok ((message_kind J obj, sj_to_vec J v) # rest))))"

text \<open>The bound on the envelope, checked before the session is touched.\<close>

fun worst_case_fold :: "nat \<Rightarrow> (block_kind \<times> bytes) list \<Rightarrow> nat option" where
  "worst_case_fold n [] = Some n"
| "worst_case_fold n ((k, p) # ps) =
     (case Option.bind (checked_add n 39) (\<lambda>m. checked_add m (length p)) of
        None \<Rightarrow> None | Some m \<Rightarrow> worst_case_fold m ps)"

definition worst_case_size :: "nat \<Rightarrow> (block_kind \<times> bytes) list \<Rightarrow> nat option" where
  "worst_case_size md ps =
     Option.bind (Option.bind (checked_add 10 md) (\<lambda>n. checked_add n 53)) (\<lambda>n. worst_case_fold n ps)"

fun number_blocks :: "u64 \<Rightarrow> (block_kind \<times> bytes) list \<Rightarrow> block list \<times> u64" where
  "number_blocks n [] = ([], n)"
| "number_blocks n ((k, p) # ps) =
     (case number_blocks (sat_add64 n 1) ps of (bs, n') \<Rightarrow> (block_new k n p # bs, n'))"

text \<open>The part of \<open>prepare_ref\<close> that changes the session.\<close>

definition prepare_commit ::
  "externals \<Rightarrow> nat \<Rightarrow> bytes \<Rightarrow> (block_kind \<times> bytes) list \<Rightarrow> chat_session \<Rightarrow> (prepared, sidecar_error) outcome \<times> chat_session" where
  "prepare_commit X request_len metadata serialized s =
     (case number_blocks (cs_next_seq s) serialized of (blocks, n) \<Rightarrow>
       (case ingest_turn X blocks (cs_shim s, cs_host s) of (fr, sh, h) \<Rightarrow>
         (let s1 = s\<lparr>cs_shim := sh, cs_host := h, cs_next_seq := n\<rparr>
          in case encode_parts metadata (encode_frame (Append fr)) of
               Err e \<Rightarrow> (Err e, s1)
             | Panic \<Rightarrow> (Panic, s1)
             | Ok body \<Rightarrow>
                 (Ok \<lparr>pr_body = body, pr_expected_root = ss_root sh, pr_request_json_bytes = request_len,
                      pr_new_messages_json_bytes = sum_list (map (length \<circ> snd) serialized)\<rparr>,
                  s1\<lparr>cs_pending_root := Some (ss_root sh)\<rparr>))))"

definition prepare_ref ::
  "'j serde \<Rightarrow> externals \<Rightarrow> 'j list \<Rightarrow> 'j \<Rightarrow> chat_session \<Rightarrow> (prepared, sidecar_error) outcome \<times> chat_session" where
  "prepare_ref J X new_messages request s =
     (if cs_pending_root s \<noteq> None then (Err RequestInFlight, s)
      else case obind (validate_request_value J request) (\<lambda>_. serialize_messages J 0 new_messages) of
        Err e \<Rightarrow> (Err e, s)
      | Panic \<Rightarrow> (Panic, s)
      | Ok serialized \<Rightarrow>
          (let metadata = metadata_bytes J request
           in if length metadata > MAX_METADATA_BYTES then (Err (EnvelopeError ''metadata exceeds 2 MiB''), s)
              else case worst_case_size (length metadata) serialized of
                None \<Rightarrow> (Err (EnvelopeError ''length overflow''), s)
              | Some worst \<Rightarrow>
                  if worst > MAX_REQUEST_BYTES then (Err (EnvelopeError ''request exceeds 64 MiB''), s)
                  else prepare_commit X (length (sj_to_vec J request)) metadata serialized s))"

definition chat_apply_ack :: "hash \<Rightarrow> merkle_root \<Rightarrow> chat_session \<Rightarrow> bool \<times> chat_session" where
  "chat_apply_ack H root s =
     (case apply_ack H root (cs_shim s) of
        (applied, sh) \<Rightarrow>
          (applied, s\<lparr>cs_shim := sh,
             cs_pending_root := (if applied \<and> cs_pending_root s = Some root then None else cs_pending_root s)\<rparr>))"

definition chat_resync_frame :: "chat_session \<Rightarrow> bytes" where
  "chat_resync_frame s = encode_frame (Resync (session_resync_frame (cs_shim s)))"

definition chat_bulk_frames_for ::
  "externals \<Rightarrow> block_id list \<Rightarrow> u32 \<Rightarrow> chat_session \<Rightarrow> (bytes list, sidecar_error) outcome" where
  "chat_bulk_frames_for X missing pct s =
     obind (omap_err (FrameError \<circ> FromShim) (bulk_frames_for X missing pct (cs_shim s) (h_store (cs_host s))))
       (\<lambda>fs. Ok (map (\<lambda>f. encode_frame (Bulk f)) fs))"

section \<open>The network client\<close>

text \<open>Applying the acknowledgement header of a response.\<close>

definition receive_chat :: "http \<Rightarrow> hash \<Rightarrow> prepared \<Rightarrow> response \<Rightarrow> chat_session \<Rightarrow> (response, sidecar_error) outcome \<times> chat_session" where
  "receive_chat N H pr rsp s =
     (case map_of (http_headers rsp) ACK_ROOT_HEADER of
        None \<Rightarrow> (Ok rsp, s)
      | Some v \<Rightarrow>
          (case Option.bind (hx_to_str N v) parse_root_hex of
             None \<Rightarrow> (Err InvalidAckHeader, s)
           | Some root \<Rightarrow>
               if root \<noteq> pr_expected_root pr then (Err UnexpectedAckRoot, s)
               else case chat_apply_ack H root s of
                 (applied, s1) \<Rightarrow> if applied then (Ok rsp, s1) else (Err UnexpectedAckRoot, s1)))"

definition send_chat ::
  "http \<Rightarrow> hash \<Rightarrow> (bytes \<Rightarrow> 'w \<Rightarrow> response option \<times> 'w) \<Rightarrow> prepared \<Rightarrow> chat_session \<Rightarrow> 'w
   \<Rightarrow> (response, sidecar_error) outcome \<times> chat_session \<times> 'w" where
  "send_chat N H post pr s w =
     (case post (pr_body pr) w of
        (None, w') \<Rightarrow> (Err UpstreamError, s, w')
      | (Some rsp, w') \<Rightarrow> (case receive_chat N H pr rsp s of (res, s1) \<Rightarrow> (res, s1, w')))"

definition response_bytes :: "response \<Rightarrow> bytes" where
  "response_bytes rsp = (case http_body rsp of Raw b \<Rightarrow> b | _ \<Rightarrow> [])"

definition exchange_frame ::
  "(bytes \<Rightarrow> 'w \<Rightarrow> response option \<times> 'w) \<Rightarrow> bytes \<Rightarrow> 'w \<Rightarrow> (frame option, sidecar_error) outcome \<times> 'w" where
  "exchange_frame post body w =
     (case post body w of
        (None, w') \<Rightarrow> (Err UpstreamError, w')
      | (Some rsp, w') \<Rightarrow>
          (if http_status rsp = 204 then Ok None
           else if http_status rsp < 200 \<or> http_status rsp \<ge> 300 then Err (HttpStatus (http_status rsp))
           else obind (omap_err (FrameError \<circ> FromFrame) (decode_frame_bytes (response_bytes rsp))) (\<lambda>f. Ok (Some f)), w'))"

definition apply_protocol_ack :: "hash \<Rightarrow> ack_frame \<Rightarrow> chat_session \<Rightarrow> (unit, sidecar_error) outcome \<times> chat_session" where
  "apply_protocol_ack H ack s =
     (if ack_session_id ack \<noteq> ss_session_id (cs_shim s) then (Err UnexpectedAckRoot, s)
      else case chat_apply_ack H (ack_root ack) s of
        (applied, s1) \<Rightarrow> if applied then (Ok (), s1) else (Err UnexpectedAckRoot, s1))"

fun send_bulk ::
  "(bytes \<Rightarrow> 'w \<Rightarrow> response option \<times> 'w) \<Rightarrow> bytes list \<Rightarrow> ack_frame option \<Rightarrow> 'w \<Rightarrow> (ack_frame option, sidecar_error) outcome \<times> 'w" where
  "send_bulk post [] completion w = (Ok completion, w)"
| "send_bulk post (f # fs) completion w =
     (case exchange_frame post f w of
        (Err e, w') \<Rightarrow> (Err e, w')
      | (Panic, w') \<Rightarrow> (Panic, w')
      | (Ok reply, w') \<Rightarrow> send_bulk post fs (case reply of Some (Ack a) \<Rightarrow> Some a | _ \<Rightarrow> completion) w')"

definition synchronize_missing ::
  "externals \<Rightarrow> (bytes \<Rightarrow> 'w \<Rightarrow> response option \<times> 'w) \<Rightarrow> u32 \<Rightarrow> block_id list \<Rightarrow> chat_session \<Rightarrow> 'w
   \<Rightarrow> (unit, sidecar_error) outcome \<times> chat_session \<times> 'w" where
  "synchronize_missing X post pct missing s w =
     (case chat_bulk_frames_for X missing pct s of
        Err e \<Rightarrow> (Err e, s, w)
      | Panic \<Rightarrow> (Panic, s, w)
      | Ok frames \<Rightarrow>
          (case send_bulk post frames None w of
             (Err e, w') \<Rightarrow> (Err e, s, w')
           | (Panic, w') \<Rightarrow> (Panic, s, w')
           | (Ok None, w') \<Rightarrow> (Err UnexpectedFrame, s, w')
           | (Ok (Some ack), w') \<Rightarrow> (case apply_protocol_ack (x_hash X) ack s of (res, s1) \<Rightarrow> (res, s1, w'))))"

definition synchronize ::
  "externals \<Rightarrow> (bytes \<Rightarrow> 'w \<Rightarrow> response option \<times> 'w) \<Rightarrow> u32 \<Rightarrow> chat_session \<Rightarrow> 'w
   \<Rightarrow> (unit, sidecar_error) outcome \<times> chat_session \<times> 'w" where
  "synchronize X post pct s w =
     (case exchange_frame post (chat_resync_frame s) w of
        (Err e, w') \<Rightarrow> (Err e, s, w')
      | (Panic, w') \<Rightarrow> (Panic, s, w')
      | (Ok (Some (Ack ack)), w') \<Rightarrow> (case apply_protocol_ack (x_hash X) ack s of (res, s1) \<Rightarrow> (res, s1, w'))
      | (Ok (Some (Missing m)), w') \<Rightarrow>
          if mf_session_id m = ss_session_id (cs_shim s) then synchronize_missing X post pct (mf_missing m) s w'
          else (Err UnexpectedFrame, s, w')
      | (Ok _, w') \<Rightarrow> (Err UnexpectedFrame, s, w'))"

section \<open>Preparing a request\<close>

lemma worst_case_fold_Some: "worst_case_fold n ps = Some m \<Longrightarrow> m = n + sum_list (map (\<lambda>(k, p). 39 + length p) ps)"
  by (induction n ps rule: worst_case_fold.induct) (auto simp: checked_add_def split: option.splits if_splits bind_splits)

lemma worst_case_size_Some: "worst_case_size md ps = Some m \<Longrightarrow> m = 63 + md + sum_list (map (\<lambda>(k, p). 39 + length p) ps)"
  by (auto simp: worst_case_size_def checked_add_def Option.bind_eq_Some_conv dest!: worst_case_fold_Some split: if_splits)

lemma number_blocks_payloads: "number_blocks n ps = (bs, n') \<Longrightarrow> map payload bs = map snd ps"
  by (induction n ps arbitrary: bs rule: number_blocks.induct) (auto simp: block_new_def split: prod.splits)

lemma wire_payload_length: "length (wire_payload X s b) \<le> length (payload b) + 18"
proof (cases "compress_pure (x_zstd X) (ss_append_compressor s) (canonical_bytes b)")
  case (Ok y)
  then show ?thesis using compress_pure_Ok [OF Ok] by (auto simp: wire_payload_def)
qed (simp_all add: wire_payload_def)

lemma sent_block_size:
  assumes "hash32 (x_hash X)" "sent_block X s c b fb"
  shows "length (encode_frame_block [] fb) \<le> 39 + length (payload b)"
  using assms(2) wire_payload_length [of X s b] assms(1) by (auto simp: sent_block_def put_u32_le_def)

lemma sent_blocks_size:
  assumes "hash32 (x_hash X)" "sent_blocks X s c bs fbs"
  shows "length (concat (map (encode_frame_block []) fbs)) \<le> sum_list (map (\<lambda>b. 39 + length (payload b)) bs)"
  using assms(2)
proof (induction bs arbitrary: fbs c)
  case Nil
  then show ?case by (cases fbs) auto
next
  case (Cons b bs)
  then obtain fb fbs' where fbs: "fbs = fb # fbs'" by (cases fbs) auto
  then have "sent_block X s c b fb" "sent_blocks X s (c_ingest (x_hash X) (ss_session_id s) [b] c) bs fbs'" using Cons.prems by simp_all
  then show ?case using Cons.IH sent_block_size [OF assms(1)] unfolding fbs by (simp add: add_mono)
qed

lemma append_frame_size:
  assumes "hash32 (x_hash X)" "length (ss_base_root s) = 32" "ingest_turn X bs (s, h) = (fr, s', h')"
  shows "length (encode_frame (Append fr)) \<le> 53 + sum_list (map (\<lambda>b. 39 + length (payload b)) bs)"
  using sent_blocks_size [OF assms(1) ingest_turn_facts(3) [OF assms(3)]] assms(2) ingest_turn_facts(5) [OF assms(3)]
  by (simp add: foldl_encode_blocks put_u32_le_def put_u128_def Let_def)

text \<open>The checks before the commit bound what the commit writes.\<close>

lemma prepare_commit_Ok:
  assumes "hash32 (x_hash X)" "length (ss_base_root (cs_shim s)) = 32"
    and "length md \<le> MAX_METADATA_BYTES" "worst_case_size (length md) ps = Some worst" "worst \<le> MAX_REQUEST_BYTES"
    and "number_blocks (cs_next_seq s) ps = (bs, n)" "ingest_turn X bs (cs_shim s, cs_host s) = (fr, sh, h)"
  shows "prepare_commit X len md ps s =
    (Ok \<lparr>pr_body = MAGIC @ le16 PROTOCOL_VERSION @ le32 (word_of_nat (length md)) @ md @ encode_frame (Append fr),
         pr_expected_root = ss_root sh, pr_request_json_bytes = len,
         pr_new_messages_json_bytes = sum_list (map (length \<circ> snd) ps)\<rparr>,
     s\<lparr>cs_shim := sh, cs_host := h, cs_next_seq := n, cs_pending_root := Some (ss_root sh)\<rparr>)" (is ?commit)
    and "10 + length md + length (encode_frame (Append fr)) \<le> MAX_REQUEST_BYTES" (is ?fits)
    and "63 + sum_list (map (\<lambda>b. 39 + length (payload b)) bs) \<le> MAX_REQUEST_BYTES" (is ?small)
proof -
  have e: "sum_list (map (\<lambda>b. 39 + length (payload b)) bs) = sum_list (map (\<lambda>(k, p). 39 + length p) ps)"
  proof -
    have "map (\<lambda>b. 39 + length (payload b)) bs = map (\<lambda>p. 39 + length p) (map payload bs)" by simp
    also have "\<dots> = map (\<lambda>(k, p). 39 + length p) ps" unfolding number_blocks_payloads [OF assms(6)] by (simp add: split_beta)
    finally show ?thesis by simp
  qed
  then show fits: ?fits
    using append_frame_size [OF assms(1,2,7)] worst_case_size_Some [OF assms(4)] assms(5) by simp
  show ?small using e worst_case_size_Some [OF assms(4)] assms(5) by simp
  have "encode_parts md (encode_frame (Append fr)) = Ok (MAGIC @ le16 PROTOCOL_VERSION @ le32 (word_of_nat (length md)) @ md @ encode_frame (Append fr))"
    using assms(3) fits unfolding encode_parts_Ok by blast
  then show ?commit using assms(6,7) by (simp add: prepare_commit_def Let_def del: encode_frame.simps)
qed

lemma serialize_messages_Ok:
  assumes "serialize_messages J i vs = Ok ps"
  shows "map snd ps = map (sj_to_vec J) vs \<and>
    (\<forall>v \<in> set vs. \<exists>obj. sj_as_object J v = Some obj \<and> Option.bind (obj ''role'') (sj_as_str J) \<noteq> None)"
  using assms by (induction J i vs arbitrary: ps rule: serialize_messages.induct)
    (auto simp: obind_Ok_iff validate_message_object_def split: option.splits if_splits)

lemma validation_not_Panic: "validate_request_value J v \<noteq> Panic" "serialize_messages J i vs \<noteq> Panic"
proof -
  show "validate_request_value J v \<noteq> Panic" by (simp add: validate_request_value_def split: option.split)
  show "serialize_messages J i vs \<noteq> Panic"
    by (induction J i vs rule: serialize_messages.induct)
      (auto simp: obind_Panic_iff validate_message_object_def split: option.splits)
qed

text \<open>A prepared request, or the session as it was.\<close>

lemma prepare_ref_cases:
  assumes "hash32 (x_hash X)" "length (ss_base_root (cs_shim s)) = 32" "prepare_ref J X msgs request s = (res, s')"
  obtains (refused) e where "res = Err e" "s' = s"
  | (ready) ps bs n fr sh h where "cs_pending_root s = None" "validate_request_value J request = Ok ()"
      "serialize_messages J 0 msgs = Ok ps" "length (metadata_bytes J request) \<le> MAX_METADATA_BYTES"
      "10 + length (metadata_bytes J request) + length (encode_frame (Append fr)) \<le> MAX_REQUEST_BYTES"
      "number_blocks (cs_next_seq s) ps = (bs, n)" "ingest_turn X bs (cs_shim s, cs_host s) = (fr, sh, h)"
      "63 + sum_list (map (\<lambda>b. 39 + length (payload b)) bs) \<le> MAX_REQUEST_BYTES"
      "res = Ok \<lparr>pr_body = MAGIC @ le16 PROTOCOL_VERSION @ le32 (word_of_nat (length (metadata_bytes J request))) @
             metadata_bytes J request @ encode_frame (Append fr),
         pr_expected_root = ss_root sh, pr_request_json_bytes = length (sj_to_vec J request),
         pr_new_messages_json_bytes = sum_list (map length (map (sj_to_vec J) msgs))\<rparr>"
      "s' = s\<lparr>cs_shim := sh, cs_host := h, cs_next_seq := n, cs_pending_root := Some (ss_root sh)\<rparr>"
proof (cases "\<exists>e. res = Err e \<and> s' = s")
  case False
  let ?md = "metadata_bytes J request"
  have none: "cs_pending_root s = None" using False assms(3) by (auto simp: prepare_ref_def split: if_splits)
  obtain ps where v: "validate_request_value J request = Ok ()" "serialize_messages J 0 msgs = Ok ps"
    using False assms(3) none validation_not_Panic [of J]
    by (cases "obind (validate_request_value J request) (\<lambda>_. serialize_messages J 0 msgs)")
      (auto simp: prepare_ref_def obind_Ok_iff obind_Panic_iff)
  have md: "length ?md \<le> MAX_METADATA_BYTES"
    using False assms(3) none v by (auto simp: prepare_ref_def Let_def split: if_splits)
  obtain worst where w: "worst_case_size (length ?md) ps = Some worst" "worst \<le> MAX_REQUEST_BYTES"
    using False assms(3) none v md by (auto simp: prepare_ref_def Let_def split: if_splits option.splits)
  obtain bs n where nb: "number_blocks (cs_next_seq s) ps = (bs, n)" by fastforce
  obtain fr sh h where it: "ingest_turn X bs (cs_shim s, cs_host s) = (fr, sh, h)" by (metis prod_cases3)
  note c = prepare_commit_Ok [OF assms(1,2) md w nb it]
  have p: "prepare_commit X (length (sj_to_vec J request)) ?md ps s = (res, s')"
    using assms(3) none v md w by (simp add: prepare_ref_def Let_def)
  have sm: "sum_list (map (length \<circ> snd) ps) = sum_list (map length (map (sj_to_vec J) msgs))"
    using serialize_messages_Ok [OF v(2)] by (simp flip: map_map)
  show ?thesis
    by (rule ready [OF none v md c(2) nb it c(3)]) (use p in \<open>simp_all add: c(1) sm del: encode_frame.simps\<close>)
qed (use refused in blast)

text \<open>A request that cannot be prepared leaves the session as it was: the size check made before the shim
  is touched really bounds the envelope, so the encoder that runs after it never refuses.  A prepared
  request fits the server's limit and is the only one in flight.\<close>

theorem prepare_atomic:
  assumes "hash32 (x_hash X)" "length (ss_base_root (cs_shim s)) = 32"
    and "prepare_ref J X msgs request s = (res, s')"
  shows "res \<noteq> Panic \<and> ((\<exists>e. res = Err e) \<longrightarrow> s' = s) \<and>
    (\<forall>p. res = Ok p \<longrightarrow> length (pr_body p) \<le> MAX_REQUEST_BYTES \<and> pr_expected_root p = ss_root (cs_shim s') \<and>
       prepare_ref J X msgs' request' s' = (Err RequestInFlight, s'))"
  using assms
proof (cases rule: prepare_ref_cases)
  case (ready ps bs n fr sh h)
  then show ?thesis by (simp add: prepare_ref_def del: encode_frame.simps)
qed simp

theorem prepare_atomic_witness:
  "fst (prepare_ref demo_serde demo_externals [] [] (chat_session_new step_hash [])) \<noteq> Panic"
  using prepare_atomic [of demo_externals "chat_session_new step_hash []" demo_serde "[]" "[]"
      "fst (prepare_ref demo_serde demo_externals [] [] (chat_session_new step_hash []))"
      "snd (prepare_ref demo_serde demo_externals [] [] (chat_session_new step_hash []))"]
    demo_works(2)
  by (simp add: demo_externals_def chat_session_new_def session_shim_new_def session_with_filter_def)

section \<open>A turn of a conversation\<close>

text \<open>The documented behaviour of \<open>serde_json\<close> the two ends rely on whatever the value: what it writes is
  finite, and an object ends with its closing brace.\<close>

definition serde_writes :: "'j serde \<Rightarrow> bool" where
  "serde_writes J \<longleftrightarrow> (\<forall>v. length (sj_to_vec J v) < 2 ^ 62) \<and>
     (\<forall>v obj. sj_as_object J v = Some obj \<longrightarrow> sj_to_vec J v \<noteq> [] \<and> last (sj_to_vec J v) = of_char CHR ''}'')"

text \<open>
  What they rely on of the values of one turn, since not every value is read back: \<open>serde_json\<close> refuses
  nesting deeper than 128 levels, and a number may come back changed in its last digit.  A message is
  read as some object with a role, by the parser and by the validating reader; the request is read as
  some object without messages.
\<close>

definition message_read :: "'j serde \<Rightarrow> 'j \<Rightarrow> bool" where
  "message_read J v \<longleftrightarrow> sj_has_role J (sj_to_vec J v) \<and>
     (\<exists>v' obj. sj_from_slice J (sj_to_vec J v) = Some v' \<and> sj_as_object J v' = Some obj \<and> Option.bind (obj ''role'') (sj_as_str J) \<noteq> None)"

definition request_read :: "'j serde \<Rightarrow> 'j \<Rightarrow> 'j \<Rightarrow> bool" where
  "request_read J v v' \<longleftrightarrow> sj_metadata_from_slice J (metadata_bytes J v) = Some v' \<and>
     (\<exists>obj. sj_as_object J v' = Some obj \<and> obj ''messages'' = None)"

definition message_ok :: "'j serde \<Rightarrow> bytes \<Rightarrow> bool" where
  "message_ok J p \<longleftrightarrow> (\<forall>i. validate_payload J i p = Ok ()) \<and> sj_has_role J p"

lemma read_ok: "message_read J v \<Longrightarrow> message_ok J (sj_to_vec J v)"
  by (auto simp: message_ok_def message_read_def validate_payload_def validate_message_object_def)

lemma validate_sent_blocks:
  assumes "zstd_works (x_zstd X) (c_dict (ss_append_compressor s))" "\<forall>b \<in> set bs. length (payload b) + 18 \<le> MAX_INLINE_PAYLOAD_BYTES"
    and "c_dict (rc_compressor r) = c_dict (ss_append_compressor s)" "sent_blocks X s c bs fbs"
    and "\<forall>i. fst c i \<noteq> None \<longrightarrow> store_get (rc_store r) i \<noteq> None \<or> inl i \<noteq> None"
    and "\<forall>b \<in> set bs. message_ok J (payload b)" "\<forall>i b. store_get (rc_store r) i = Some b \<or> inl i = Some b \<longrightarrow> message_ok J (payload b)"
  shows "validate_blocks J (x_hash X) (x_zstd X) r inl n fbs = Ok ()"
  using assms(2,4-7)
proof (induction bs arbitrary: fbs c inl n)
  case Nil
  then show ?case by (cases fbs) auto
next
  case (Cons b bs)
  obtain fb fbs' where fbs: "fbs = fb # fbs'" using Cons.prems(2) by (cases fbs) auto
  define i where "i = block_id (x_hash X) b"
  define c' where "c' = c_ingest (x_hash X) (ss_session_id s) [b] c"
  have sb: "sent_block X s c b fb" "sent_blocks X s c' bs fbs'" using Cons.prems(2) fbs by (simp_all add: c'_def)
  have c': "j = i \<or> fst c j \<noteq> None" if "fst c' j \<noteq> None" for j
    using that by (auto simp: c'_def c_ingest_def i_def fst_c_put split: if_splits)
  have small: "length (payload b) + 18 \<le> MAX_INLINE_PAYLOAD_BYTES" using Cons.prems(1) by simp
  from sb(1) consider (ref) "fb = Ref i" "fst c i \<noteq> None" | (inl) "fb = Inline \<lparr>kind = kind b, seq = seq b, payload = wire_payload X s b\<rparr>"
    unfolding sent_block_def i_def by blast
  then show ?case
  proof cases
    case ref
    then obtain y where y: "(case store_get (rc_store r) i of Some b \<Rightarrow> Some b | None \<Rightarrow> inl i) = Some y"
      using Cons.prems(3) by (cases "store_get (rc_store r) i") auto
    then have "message_ok J (payload y)" using Cons.prems(5) by (auto split: option.splits)
    moreover have "\<forall>j. fst c' j \<noteq> None \<longrightarrow> store_get (rc_store r) j \<noteq> None \<or> inl j \<noteq> None"
      using Cons.prems(3) c' ref(2) by metis
    then have "validate_blocks J (x_hash X) (x_zstd X) r inl (n + 1) fbs' = Ok ()"
      by (intro Cons.IH [OF _ sb(2)]) (use Cons.prems in simp_all)
    ultimately show ?thesis using y by (simp add: fbs ref(1) message_ok_def)
  next
    case inl
    have "recover_block (x_hash X) (x_zstd X) (rc_compressor r) (wire_payload X s b) = Ok (b, i)"
      unfolding i_def using assms(1,3) small
      by (intro recover_block_compressed [OF _ _ wire_payload_works(1) [OF assms(1) small]])
        (simp_all add: zstd_works_def MAX_BLOCK_PAYLOAD_BYTES_def MAX_INLINE_PAYLOAD_BYTES_def)
    then obtain canon where d: "decompress_pure (x_zstd X) (rc_compressor r) (wire_payload X s b) = Ok canon"
      "from_canonical_owned (x_hash X) canon = Ok (b, i)" by (auto simp: recover_block_def obind_Ok_iff)
    have "\<forall>j. fst c' j \<noteq> None \<longrightarrow> store_get (rc_store r) j \<noteq> None \<or> (inl(i \<mapsto> b)) j \<noteq> None"
      using Cons.prems(3) c' by (metis fun_upd_apply option.distinct(1))
    then have "validate_blocks J (x_hash X) (x_zstd X) r (inl(i \<mapsto> b)) (n + 1) fbs' = Ok ()"
      by (intro Cons.IH [OF _ sb(2)]) (use Cons.prems in \<open>auto split: if_splits\<close>)
    then show ?thesis using d Cons.prems(4) by (simp add: fbs inl message_ok_def)
  qed
qed

text \<open>Client and server agree on the log, and nothing is in flight.\<close>

definition chat_in_sync :: "externals \<Rightarrow> chat_session \<Rightarrow> sidecar \<Rightarrow> bool" where
  "chat_in_sync X s S \<longleftrightarrow> cs_pending_root s = None \<and> in_sync X (cs_shim s) (cs_host s) (sc_receiver S)"

text \<open>Every stored content is a chat message.\<close>

definition only_messages :: "'j serde \<Rightarrow> receiver \<Rightarrow> bool" where
  "only_messages J r \<longleftrightarrow> (\<forall>b \<in> ran (st_blocks (rc_store r)). message_ok J (payload b))"

lemma worst_case_turn_ok:
  assumes "63 + sum_list (map (\<lambda>b. 39 + length (payload b)) bs) \<le> MAX_REQUEST_BYTES"
  shows "turn_ok bs"
proof -
  have "39 * length bs \<le> sum_list (map (\<lambda>b. 39 + length (payload b)) bs)" by (induction bs) simp_all
  moreover have "length (payload b) \<le> sum_list (map (\<lambda>b. 39 + length (payload b)) bs)" if "b \<in> set bs" for b
    using that by (induction bs) auto
  ultimately show ?thesis using assms
    by (fastforce simp: turn_ok_def MAX_REQUEST_BYTES_def MAX_FRAME_COUNT_def MAX_INLINE_PAYLOAD_BYTES_def)
qed

text \<open>The server accepts what an agreeing client prepared.\<close>

lemma prepared_append_accepted:
  assumes "zstd_works (x_zstd X) (c_dict (ss_append_compressor s))" "hash32 (x_hash X)" "in_sync X s h r" "turn_ok bs" "ingest_turn X bs (s, h) = (fr, s1, h1)"
    and "\<forall>b \<in> set bs. message_ok J (payload b)" "only_messages J r"
  shows "\<exists>ack r'. handle_append (x_hash X) (x_zstd X) fr r = (Ok ack, r') \<and> ack_root ack = ss_root s1 \<and>
      in_sync X (snd (apply_ack (x_hash X) (ack_root ack) s1)) h1 r' \<and>
      ss_ids s1 = ss_ids s @ map (block_id (x_hash X)) bs \<and>
      ran (fst (core (rc_store r'))) \<subseteq> ran (fst (core (rc_store r))) \<union> set bs"
    and "validate_chat_append J (x_hash X) (x_zstd X) r fr = Ok ()"
    and "decode_frame_bytes (encode_frame (Append fr)) = Ok (Append fr)"
proof -
  have small: "\<forall>b \<in> set bs. length (payload b) + 18 \<le> MAX_INLINE_PAYLOAD_BYTES" using assms(4) by (simp add: turn_ok_def)
  note f = ingest_turn_facts [OF assms(5)]
  have sy: "session_ok (x_hash X) (core (h_store h)) s" "ss_base_root s = ss_root s"
    "c_dict (rc_compressor r) = c_dict (ss_append_compressor s)"
    "\<forall>i. fst (core (h_store h)) i \<noteq> None \<longrightarrow> fst (core (rc_store r)) i \<noteq> None"
    using assms(3) unfolding in_sync_def by blast+
  have "length (ss_root s) = 32" using sy(1) assms(2) by (simp add: session_ok_def)
  then have wf: "wf_frame (Append fr)"
    using sent_blocks_wf [OF assms(1,2) small f(3)] assms(4) sy(2) by (simp add: f(5) turn_ok_def)
  then show "decode_frame_bytes (encode_frame (Append fr)) = Ok (Append fr)" by (rule decode_bytes_encode)
  show "validate_chat_append J (x_hash X) (x_zstd X) r fr = Ok ()"
    unfolding validate_chat_append_def
  proof (rule validate_sent_blocks [OF assms(1) small sy(3) f(3) _ assms(6)])
    show "\<forall>i. fst (core (h_store h)) i \<noteq> None \<longrightarrow> store_get (rc_store r) i \<noteq> None \<or> Map.empty i \<noteq> None"
      using sy(4) by (simp add: core_queries)
    show "\<forall>i b. store_get (rc_store r) i = Some b \<or> Map.empty i = Some b \<longrightarrow> message_ok J (payload b)"
      using assms(7) by (auto simp: only_messages_def store_get_def ran_def)
  qed
  from exchange_in_sync [OF assms(1-4)] obtain s' h' r' where e: "exchange X bs (s, h, r) = Some (s', h', r')" "in_sync X s' h' r'"
    "ss_session_id s' = ss_session_id s" "ss_ids s' = ss_ids s @ map (block_id (x_hash X)) bs"
    "ran (fst (core (rc_store r'))) \<subseteq> ran (fst (core (rc_store r))) \<union> set bs" "rc_sessions r' (ss_session_id s) \<noteq> None"
    "c_dict (ss_append_compressor s') = c_dict (ss_append_compressor s)" .
  obtain res r1 where h: "handle_append (x_hash X) (x_zstd X) fr r = (res, r1)" by fastforce
  have "\<exists>ack. res = Ok ack" using e(1) h by (cases res) (auto simp: exchange_def assms(5) deliver_wf [OF wf] handle_frame_def)
  then obtain ack where ack: "res = Ok ack" by blast
  then have s': "s' = snd (apply_ack (x_hash X) (ack_root ack) s1)" "h' = h1" "r' = r1"
    using e(1) h by (auto simp: exchange_def assms(5) deliver_wf [OF wf] handle_frame_def)
  have "ss_root s' = ss_root s1" by (simp add: s'(1) apply_ack_def split: option.split)
  moreover have "session_root (rc_store r1) (ss_session_id s) = ss_root s'"
    using e(2,3) s'(3) by (simp add: in_sync_def core_queries)
  moreover have "ack_root ack = session_root (rc_store r1) (ss_session_id s)" using append_step(3) [OF h ack] f(4) by simp
  ultimately have ar: "ack_root ack = ss_root s1" by (simp only:)
  have "ss_ids s1 = ss_ids s @ map (block_id (x_hash X)) bs" by (simp add: f(1))
  then show "\<exists>ack r'. handle_append (x_hash X) (x_zstd X) fr r = (Ok ack, r') \<and> ack_root ack = ss_root s1 \<and>
      in_sync X (snd (apply_ack (x_hash X) (ack_root ack) s1)) h1 r' \<and>
      ss_ids s1 = ss_ids s @ map (block_id (x_hash X)) bs \<and>
      ran (fst (core (rc_store r'))) \<subseteq> ran (fst (core (rc_store r))) \<union> set bs"
    using h [unfolded ack] ar e(2,5) unfolding s' by blast
qed

lemma in_sync_same_logs:
  "same_logs r r' \<Longrightarrow> rc_compressor r' = rc_compressor r \<Longrightarrow> in_sync X s h r \<Longrightarrow> in_sync X s h r'"
  by (simp add: in_sync_def same_logs_def entry_session_def)

text \<open>A store without a write-ahead log stays without one, and its flush succeeds.\<close>

lemma append_bare:
  assumes "handle_append H z fr r = (res, r')" "bare (rc_store r)"
  shows "bare (rc_store r')"
proof -
  have b: "bare (snd (apply_resolved H sid rs st))" if "bare st" for sid rs st
    using that
  proof (induction H sid rs st rule: apply_resolved.induct)
    case (3 H sid i rs st)
    then show ?case using bare_reference [of st H sid i] by (auto split: prod.splits outcome.splits)
  qed (simp_all add: insert_with_id_def bare_insert)
  have "bare st'" if "apply_resolved H sid rs (rc_store r) = (res', st')" for sid rs res' st'
    using b [OF assms(2), of sid rs] that by simp
  then show ?thesis using assms by (auto simp: handle_append_def Let_def split: outcome.splits prod.splits if_splits)
qed

lemma server_takes_prepared:
  assumes "zstd_works (x_zstd X) (c_dict (ss_append_compressor s))" "hash32 (x_hash X)" "serde_writes J" "in_sync X s h (sc_receiver S)" "turn_ok bs"
    and "ingest_turn X bs (s, h) = (fr, s1, h1)" "\<forall>b \<in> set bs. message_ok J (payload b)" "only_messages J (sc_receiver S)"
    and "sidecar_ok S" "fits (sc_receiver S')" "validate_request_value J request = Ok ()"
    and "chat_append N J (x_hash X) (x_zstd X) hs request fr S = (resp, out, S')"
  shows "\<not> bare (rc_store (sc_receiver S)) \<and> (\<exists>e. resp = Some (error_response 500 (OfIo e))) \<or>
    (out \<noteq> None \<and> in_sync X (snd (apply_ack (x_hash X) (ss_root s1) s1)) h1 (sc_receiver S') \<and> only_messages J (sc_receiver S') \<and>
     ran (st_blocks (rc_store (sc_receiver S'))) \<subseteq> ran (st_blocks (rc_store (sc_receiver S))) \<union> set bs \<and>
     fst (core (rc_store (sc_receiver S))) \<subseteq>\<^sub>m fst (core (rc_store (sc_receiver S'))))"
proof -
  note pa = prepared_append_accepted [OF assms(1,2,4-8)]
  obtain ack r where h: "handle_append (x_hash X) (x_zstd X) fr (sc_receiver S) = (Ok ack, r)" "ack_root ack = ss_root s1"
    "in_sync X (snd (apply_ack (x_hash X) (ss_root s1) s1)) h1 r"
    "ran (fst (core (rc_store r))) \<subseteq> ran (fst (core (rc_store (sc_receiver S)))) \<union> set bs" using pa(1) by metis
  obtain cached c where g: "cache_get (af_session_id fr) (af_base_root fr) (sc_projections S) = (cached, c)" by fastforce
  obtain blocks where bl: "complete_log r (af_session_id fr) blocks"
    "\<forall>cp. cached = Some cp \<longrightarrow> (\<exists>k \<le> length blocks. projects cp (map payload (take k blocks)))"
    using append_accepted [OF assms(9) g h(1) refl] by blast
  define S1 where "S1 = put_receiver r (S\<lparr>sc_projections := c\<rparr>)"
  have ca: "chat_accepted N J hs request (af_session_id fr) cached ack S1 = (resp, out, S')"
    using assms(12) pa(2) g h(1) by (simp add: chat_append_def Let_def S1_def)
  obtain fres S2 where f: "sidecar_flush (sc_sync_wal S1) S1 = (fres, S2)" by fastforce
  note ff = sidecar_flush_facts [OF f] and st = chat_accepted_store [OF ca f]
  have r1: "sc_receiver S1 = r" by (simp add: S1_def put_receiver_def)
  have cS: "core (rc_store (sc_receiver S')) = core (rc_store r)" using st ff(1) r1 by (simp add: same_logs_def)
  have ran: "ran (st_blocks (rc_store (sc_receiver S'))) \<subseteq> ran (st_blocks (rc_store (sc_receiver S))) \<union> set bs"
    using h(4) cS by (simp add: core_def)
  then have om: "only_messages J (sc_receiver S')" using assms(7,8) by (auto simp: only_messages_def)
  have cl: "complete_log (sc_receiver S2) (af_session_id fr) blocks" using bl(1) same_logs_facts(1) [OF ff(1)] r1 by simp
  have fit: "fits (sc_receiver S2)" using assms(10) st by simp
  show ?thesis
  proof (cases fres)
    case (Err e)
    have "flush_wal b st = (st, Ok ())" if "bare st" for b st using that by (simp add: bare_def flush_wal_def)
    then have "\<not> bare (rc_store r)" using ff(6) r1 Err by auto
    then have "\<not> bare (rc_store (sc_receiver S))" using append_bare [OF h(1)] by blast
    then show ?thesis using Err ca f by (cases e) (auto simp: chat_accepted_def)
  next
    case Panic
    then show ?thesis using ff(6) by (auto simp: flush_wal_def wal_flush_def Let_def split: option.splits prod.splits outcome.splits if_splits)
  next
    case (Ok u)
    have "message_ok J (payload b)" if "b \<in> set blocks" for b
    proof -
      have "Some b \<in> st_blocks (rc_store (sc_receiver S2)) ` set (session_ids (rc_store (sc_receiver S2)) (af_session_id fr))"
        using cl that unfolding complete_log_def by (metis image_eqI list.set_map)
      then have "b \<in> ran (st_blocks (rc_store (sc_receiver S2)))" by (auto simp: ran_def)
      then show ?thesis using om st by (simp add: only_messages_def)
    qed
    then obtain p where p: "extend_or_reconstruct_projection J (sc_receiver S2) (af_session_id fr) (ack_root ack) cached = Ok p"
      using extend_projects [OF cl bl(2), of J "ack_root ack"] fit cl by (fastforce simp: message_ok_def fits_def)
    obtain obj where "sj_as_object J request = Some obj" using assms(11) by (auto simp: validate_request_value_def split: option.splits)
    then have "sj_to_vec J request \<noteq> []" "last (sj_to_vec J request) = of_char CHR ''}''" using assms(3) by (auto simp: serde_writes_def)
    then have "\<exists>chunks len. reconstruct_request_body J (sc_receiver S2) (af_session_id fr) request (ack_root ack) cached = Ok (chunks, len, p)"
      using p assms(11) by (simp add: reconstruct_request_body_def Let_def)
    then have "out \<noteq> None" using ca f Ok by (auto simp: chat_accepted_def Let_def split: sum.splits)
    moreover have "in_sync X (snd (apply_ack (x_hash X) (ss_root s1) s1)) h1 (sc_receiver S')"
      using in_sync_same_logs [OF ff(1) ff(7)] h(3) st r1 by simp
    moreover have "fst (core (rc_store (sc_receiver S))) \<subseteq>\<^sub>m fst (core (rc_store (sc_receiver S')))"
      using append_step(1) [OF h(1)] by (simp add: keeps_def cS)
    ultimately show ?thesis using om ran by blast
  qed
qed

text \<open>The blocks of the new messages.\<close>

definition turn_blocks :: "'j serde \<Rightarrow> 'j list \<Rightarrow> chat_session \<Rightarrow> block list" where
  "turn_blocks J msgs s =
     (case serialize_messages J 0 msgs of Ok ps \<Rightarrow> fst (number_blocks (cs_next_seq s) ps) | _ \<Rightarrow> [])"

lemma acknowledged_header: "acknowledges rsp root \<Longrightarrow> map_of (http_headers rsp) ACK_ROOT_HEADER = Some (ascii (root_hex root))"
proof -
  have "map snd (filter (\<lambda>h. fst h = k) hs) = [v] \<Longrightarrow> map_of hs k = Some v" for hs :: headers and k v
    by (induction hs) (auto split: if_splits)
  then show "acknowledges rsp root \<Longrightarrow> map_of (http_headers rsp) ACK_ROOT_HEADER = Some (ascii (root_hex root))"
    by (simp add: acknowledges_def)
qed

lemma receive_ack:
  assumes "http_ok N" "acknowledges rsp (ss_root sh)" "length (ss_root sh) = 32" "pr_expected_root pr = ss_root sh"
    and "cs_shim s = sh" "cs_pending_root s = Some (ss_root sh)"
  shows "receive_chat N H pr rsp s = (Ok rsp, s\<lparr>cs_shim := snd (apply_ack H (ss_root sh) sh), cs_pending_root := None\<rparr>)"
proof -
  have "length (root_hex (ss_root sh)) = 2 * length (ss_root sh)"
    by (induction "ss_root sh") (simp_all add: root_hex_def length_concat comp_def sum_list_triv)
  then have "parse_root_hex (root_hex (ss_root sh)) = Some (ss_root sh)" using assms(3) by (simp add: parse_root_hex_def parse_pairs_hex)
  moreover have "hx_to_str N (ascii (root_hex (ss_root sh))) = Some (root_hex (ss_root sh))"
    using assms(1) visible_root_hex by (simp add: http_ok_def)
  ultimately show ?thesis using acknowledged_header [OF assms(2)] assms(4-6)
    by (simp add: receive_chat_def chat_apply_ack_def apply_ack_def)
qed

text \<open>Without collisions the log holds the old messages and then the new ones.\<close>

lemma log_extended:
  assumes "complete_log r' sid blocks" "session_ids (rc_store r') sid = session_ids (rc_store r) sid @ map (block_id H) bs"
    and "map (st_blocks (rc_store r)) (session_ids (rc_store r) sid) = map Some old"
    and "fst (core (rc_store r)) \<subseteq>\<^sub>m fst (core (rc_store r'))" "addressed H (core (rc_store r'))"
    and "ran (st_blocks (rc_store r')) \<subseteq> ran (st_blocks (rc_store r)) \<union> set bs"
    and "inj_on (block_id H) (ran (st_blocks (rc_store r)) \<union> set bs)"
  shows "blocks = old @ bs"
proof -
  have all: "map Some blocks = map (st_blocks (rc_store r')) (session_ids (rc_store r) sid) @ map (st_blocks (rc_store r')) (map (block_id H) bs)"
    using assms(1,2) by (simp add: complete_log_def)
  have "st_blocks (rc_store r') i = st_blocks (rc_store r) i" if "i \<in> set (session_ids (rc_store r) sid)" for i
  proof -
    have "st_blocks (rc_store r) i \<in> Some ` set old" using that assms(3) by (metis image_eqI list.set_map)
    then show ?thesis using assms(4) by (auto simp: core_def map_le_def dom_def)
  qed
  then have o: "map (st_blocks (rc_store r')) (session_ids (rc_store r) sid) = map Some old" using assms(3) by (simp cong: map_cong)
  have "st_blocks (rc_store r') (block_id H b) = Some b" if "b \<in> set bs" for b
  proof -
    have "st_blocks (rc_store r') (block_id H b) \<in> Some ` set blocks" using that all
      by (metis (no_types, lifting) UnCI image_eqI list.set_map set_append)
    then obtain y where y: "st_blocks (rc_store r') (block_id H b) = Some y" by blast
    then have "block_id H y = block_id H b" "y \<in> ran (st_blocks (rc_store r')) "
      using assms(5) by (auto simp: addressed_def core_def ran_def)
    then show ?thesis using y assms(6,7) that by (metis UnCI inj_onD subsetD)
  qed
  then have "map (st_blocks (rc_store r')) (map (block_id H) bs) = map Some bs" by simp
  then have "map Some blocks = map Some (old @ bs)" using all o by (simp only: map_append)
  then show ?thesis by (simp only: inj_map_eq_map [OF inj_Some])
qed

text \<open>What a turn changes, seen from an agreeing server.\<close>

lemma turn_effect:
  assumes "hash32 (x_hash X)" "in_sync X s h r" "ingest_turn X bs (s, h) = (fr, sh, h1)"
  shows "length (ss_root sh) = 32" "rs_pending (entry_session (ss_session_id s) r) = {}"
    "in_sync X (snd (apply_ack (x_hash X) (ss_root sh) sh)) h1 r' \<Longrightarrow> session_root (rc_store r') (ss_session_id s) = ss_root sh"
    "in_sync X (snd (apply_ack (x_hash X) (ss_root sh) sh)) h1 r' \<Longrightarrow>
       session_ids (rc_store r') (ss_session_id s) = session_ids (rc_store r) (ss_session_id s) @ map (block_id (x_hash X)) bs"
proof -
  note f = ingest_turn_facts(1) [OF assms(3)]
  have sy: "session_ok (x_hash X) (core (h_store h)) s" "c_ids (core (rc_store r)) (ss_session_id s) = ss_ids s"
    "rs_pending (entry_session (ss_session_id s) r) = {}" using assms(2) unfolding in_sync_def by blast+
  have a: "snd (apply_ack (x_hash X) (ss_root sh) sh) = sh\<lparr>ss_base_root := ss_root sh, ss_base_len := length (ss_ids sh)\<rparr>"
    by (simp add: apply_ack_def)
  have "session_ok (x_hash X) (core (h_store h1)) sh" by (rule ingest_turn_ok [OF sy(1) assms(3)])
  then show "length (ss_root sh) = 32" using assms(1) by (simp add: session_ok_def)
  show "rs_pending (entry_session (ss_session_id s) r) = {}" by (rule sy(3))
  show "session_root (rc_store r') (ss_session_id s) = ss_root sh"
    if "in_sync X (snd (apply_ack (x_hash X) (ss_root sh) sh)) h1 r'" using that unfolding a by (simp add: in_sync_def core_queries f)
  show "session_ids (rc_store r') (ss_session_id s) = session_ids (rc_store r) (ss_session_id s) @ map (block_id (x_hash X)) bs"
    if "in_sync X (snd (apply_ack (x_hash X) (ss_root sh) sh)) h1 r'"
    using that unfolding a by (simp add: in_sync_def core_queries f sy(2))
qed

lemma envelope_of_prepared:
  assumes "request_read J request request'" "length (metadata_bytes J request) \<le> MAX_METADATA_BYTES" "decode_frame_bytes frame = Ok f"
  shows "envelope_decode J (MAGIC @ le16 PROTOCOL_VERSION @ le32 (word_of_nat (length (metadata_bytes J request))) @
    metadata_bytes J request @ frame) = Ok \<lparr>ce_request = request', ce_frame = frame\<rparr>"
proof -
  have "frame \<noteq> []" using assms(3) by (auto simp: decode_frame_bytes_def)
  then show ?thesis using envelope_decode_bytes [OF assms(2), of frame J] assms(1)
    by (simp add: request_read_def)
qed

text \<open>A prepared request as the server sees it.\<close>

lemma prepared_reaches_append:
  assumes "zstd_works (x_zstd X) (c_dict (ss_append_compressor (cs_shim s)))" "hash32 (x_hash X)" "request_read J request request'" "\<forall>v \<in> set msgs. message_read J v"
    and "chat_in_sync X s S" "only_messages J (sc_receiver S)" "prepare_ref J X msgs request s = (Ok pr, s1)"
  obtains fr sh h n where
    "ingest_turn X (turn_blocks J msgs s) (cs_shim s, cs_host s) = (fr, sh, h)"
    "s1 = s\<lparr>cs_shim := sh, cs_host := h, cs_next_seq := n, cs_pending_root := Some (ss_root sh)\<rparr>"
    "pr_expected_root pr = ss_root sh" "map payload (turn_blocks J msgs s) = map (sj_to_vec J) msgs"
    "turn_ok (turn_blocks J msgs s)" "\<forall>b \<in> set (turn_blocks J msgs s). message_ok J (payload b)"
    "\<And>N hs. authorized N S hs \<Longrightarrow> chat_completions N J (x_hash X) (x_zstd X) hs (pr_body pr) S =
       chat_append N J (x_hash X) (x_zstd X) hs request' fr S"
proof -
  have sy: "in_sync X (cs_shim s) (cs_host s) (sc_receiver S)" using assms(5) by (simp add: chat_in_sync_def)
  then have base: "length (ss_base_root (cs_shim s)) = 32" using assms(2) by (simp add: in_sync_def session_ok_def)
  have rq: "validate_request_value J request' = Ok ()" using assms(3) by (auto simp: request_read_def validate_request_value_def)
  show thesis
    using assms(2) base assms(7)
  proof (cases rule: prepare_ref_cases)
    case (ready ps bs n fr sh h)
    have pl: "map payload bs = map (sj_to_vec J) msgs"
      using number_blocks_payloads [OF ready(6)] serialize_messages_Ok [OF ready(3)] by simp
    have tb: "turn_blocks J msgs s = bs" by (simp add: turn_blocks_def ready(3,6))
    have mo: "\<forall>b \<in> set bs. message_ok J (payload b)"
    proof
      fix b assume "b \<in> set bs"
      then have "payload b \<in> set (map payload bs)" by simp
      then obtain v where "v \<in> set msgs" "payload b = sj_to_vec J v" unfolding pl by auto
      then show "message_ok J (payload b)" using assms(4) read_ok by metis
    qed
    have tok: "turn_ok bs" by (rule worst_case_turn_ok [OF ready(8)])
    have dec: "decode_frame_bytes (encode_frame (Append fr)) = Ok (Append fr)"
      by (rule prepared_append_accepted(3) [OF assms(1,2) sy tok ready(7) mo assms(6)])
    have env: "envelope_decode J (pr_body pr) = Ok \<lparr>ce_request = request', ce_frame = encode_frame (Append fr)\<rparr>"
      and ex: "pr_expected_root pr = ss_root sh"
      using ready(9) envelope_of_prepared [OF assms(3) ready(4) dec] by (simp_all del: encode_frame.simps)
    show thesis
    proof (rule that [unfolded tb, OF ready(7,10) ex pl tok mo])
      show "chat_completions N J (x_hash X) (x_zstd X) hs (pr_body pr) S = chat_append N J (x_hash X) (x_zstd X) hs request' fr S"
        if "authorized N S hs" for N hs using that env rq dec by (simp add: chat_completions_def del: encode_frame.simps)
    qed
  qed simp
qed

text \<open>C5: A conversation goes through.  A client that agrees with the server prepares a request with new
  messages, all of which the server's JSON reader accepts (it refuses, for instance, values nested
  deeper than 128 levels).  The server, in any state reached by requests and holding only chat
  messages, forwards the request as it read it with the conversation so far followed by the new messages,
  byte for byte, and the client accepts the acknowledgement in its response, after which both agree
  again and nothing is in flight.  The only other answer is 500, from a server with a write-ahead log
  that cannot be flushed.  Assumed besides: zstd works with the dictionary in use, digests have
  32 bytes and do not collide on the blocks stored and sent, and the request is authorized.\<close>

theorem chat_turn_delivered:
  assumes "zstd_works (x_zstd X) (c_dict (ss_append_compressor (cs_shim s)))" "hash32 (x_hash X)" "serde_writes J" "http_ok N"
    and "request_read J request request'" "\<forall>v \<in> set msgs. message_read J v"
    and "sidecar_run J (x_hash X) (x_zstd X) (sidecar_new (receiver_new st c) url token sync) S"
    and "chat_in_sync X s S" "only_messages J (sc_receiver S)" "authorized N S hs"
    and "prepare_ref J X msgs request s = (Ok pr, s1)"
    and "chat_completions N J (x_hash X) (x_zstd X) hs (pr_body pr) S = (resp, out, S')" "fits (sc_receiver S')"
    and "inj_on (block_id (x_hash X)) (ran (st_blocks (rc_store (sc_receiver S))) \<union> set (turn_blocks J msgs s))"
  shows "\<not> bare (rc_store (sc_receiver S)) \<and> (\<exists>e. resp = Some (error_response 500 (OfIo e))) \<or>
    (\<exists>rsp ob s2. resp = Some rsp \<and> out = Some ob \<and>
       concat (ob_chunks ob) = butlast (sj_to_vec J request') @ ascii '',\"messages\":['' @
         json_join (map payload (reconstruct (rc_store (sc_receiver S)) (ss_session_id (cs_shim s))) @ map (sj_to_vec J) msgs) @ ascii '']}'' \<and>
       receive_chat N (x_hash X) pr rsp s1 = (Ok rsp, s2) \<and> chat_in_sync X s2 S' \<and> only_messages J (sc_receiver S'))"
proof -
  have bound: "\<forall>v. length (sj_to_vec J v) < 2 ^ 62" using assms(3) by (simp add: serde_writes_def)
  have ok: "sidecar_ok S" by (rule sidecar_run_ok [OF assms(7) bound])
  have sy: "in_sync X (cs_shim s) (cs_host s) (sc_receiver S)" using assms(8) by (simp add: chat_in_sync_def)
  define bs where "bs = turn_blocks J msgs s"
  define sid where "sid = ss_session_id (cs_shim s)"
  obtain fr sh h n where it: "ingest_turn X bs (cs_shim s, cs_host s) = (fr, sh, h)"
    and s1: "s1 = s\<lparr>cs_shim := sh, cs_host := h, cs_next_seq := n, cs_pending_root := Some (ss_root sh)\<rparr>"
    and exp: "pr_expected_root pr = ss_root sh" and pl: "map payload bs = map (sj_to_vec J) msgs"
    and tok: "turn_ok bs" and mo: "\<forall>b \<in> set bs. message_ok J (payload b)"
    and ca: "chat_append N J (x_hash X) (x_zstd X) hs request' fr S = (resp, out, S')"
    using prepared_reaches_append [OF assms(1,2,5,6,8,9,11)] assms(10,12) unfolding bs_def by metis
  have rq: "validate_request_value J request' = Ok ()" using assms(5) by (auto simp: request_read_def validate_request_value_def)
  show ?thesis
    using server_takes_prepared [OF assms(1-3) sy tok it mo assms(9) ok assms(13) rq ca]
  proof
    assume t: "out \<noteq> None \<and> in_sync X (snd (apply_ack (x_hash X) (ss_root sh) sh)) h (sc_receiver S') \<and> only_messages J (sc_receiver S') \<and>
      ran (st_blocks (rc_store (sc_receiver S'))) \<subseteq> ran (st_blocks (rc_store (sc_receiver S))) \<union> set bs \<and>
      fst (core (rc_store (sc_receiver S))) \<subseteq>\<^sub>m fst (core (rc_store (sc_receiver S')))"
    then obtain ob where ob: "out = Some ob" by blast
    obtain blocks rsp where b: "complete_log (sc_receiver S') sid blocks" "resp = Some rsp"
      "concat (ob_chunks ob) = butlast (sj_to_vec J request') @ ascii '',\"messages\":['' @ json_join (map payload blocks) @ ascii '']}''"
      "acknowledges rsp (session_root (rc_store (sc_receiver S')) sid)"
      using chat_append_ok [OF ok assms(13) bound ca] ob assms(4) ingest_turn_facts(4) [OF it] unfolding sid_def by metis
    note e = turn_effect [OF assms(2) sy it, folded sid_def] and e' = t [THEN conjunct2, THEN conjunct1]
    have rs: "session_root (rc_store (sc_receiver S')) sid = ss_root sh" and
      ids: "session_ids (rc_store (sc_receiver S')) sid = session_ids (rc_store (sc_receiver S)) sid @ map (block_id (x_hash X)) bs"
      using e(3,4) [OF e'] by blast+
    have rl: "length (ss_root sh) = 32" using e(1) .
    obtain old where old: "map (st_blocks (rc_store (sc_receiver S))) (session_ids (rc_store (sc_receiver S)) sid) = map Some old"
      using no_gaps_complete [of "sc_receiver S" sid] ok e(2) by (auto simp: sidecar_ok_def)
    have "blocks = old @ bs"
      using log_extended [OF b(1) ids old] t assms(14) e' by (simp add: in_sync_def flip: bs_def)
    moreover have "reconstruct (rc_store (sc_receiver S)) sid = old"
      using map_filter_complete [OF old] by (auto simp: reconstruct_def collect_blocks_def session_ids_def split: option.splits)
    ultimately have "concat (ob_chunks ob) = butlast (sj_to_vec J request') @ ascii '',\"messages\":['' @
        json_join (map payload (reconstruct (rc_store (sc_receiver S)) sid) @ map (sj_to_vec J) msgs) @ ascii '']}''"
      using b(3) pl by simp
    moreover have "receive_chat N (x_hash X) pr rsp s1 = (Ok rsp, s1\<lparr>cs_shim := snd (apply_ack (x_hash X) (ss_root sh) sh), cs_pending_root := None\<rparr>)"
      by (rule receive_ack) (use assms(4) b(4) rs rl exp s1 in simp_all)
    moreover have "chat_in_sync X (s1\<lparr>cs_shim := snd (apply_ack (x_hash X) (ss_root sh) sh), cs_pending_root := None\<rparr>) S'"
      using e' s1 by (simp add: chat_in_sync_def)
    ultimately show ?thesis using b(2) ob t unfolding sid_def by blast
  qed blast
qed

subsection \<open>A first turn\<close>

text \<open>A JSON of five values: two messages, their roles and a request.\<close>

datatype mini_json = JUser | JAssistant | JUserRole | JAssistantRole | JRequest

fun mini_text :: "mini_json \<Rightarrow> bytes" where
  "mini_text JUser = ascii ''{\"role\":\"user\"}''"
| "mini_text JAssistant = ascii ''{\"role\":\"assistant\"}''"
| "mini_text JUserRole = ascii ''\"user\"''"
| "mini_text JAssistantRole = ascii ''\"assistant\"''"
| "mini_text JRequest = ascii ''{\"model\":\"m\"}''"

fun mini_object :: "mini_json \<Rightarrow> (string \<rightharpoonup> mini_json) option" where
  "mini_object JUser = Some [''role'' \<mapsto> JUserRole]"
| "mini_object JAssistant = Some [''role'' \<mapsto> JAssistantRole]"
| "mini_object JRequest = Some [''model'' \<mapsto> JUserRole]"
| "mini_object v = None"

fun mini_string :: "mini_json \<Rightarrow> string option" where
  "mini_string JUserRole = Some ''user''"
| "mini_string JAssistantRole = Some ''assistant''"
| "mini_string v = None"

definition mini_parse :: "(mini_json \<Rightarrow> bytes) \<Rightarrow> bytes \<Rightarrow> mini_json option" where
  "mini_parse f b = List.find (\<lambda>v. f v = b) [JUser, JAssistant, JUserRole, JAssistantRole, JRequest]"

definition mini_serde :: "mini_json serde" where
  "mini_serde =
     \<lparr>sj_to_vec = mini_text, sj_from_slice = mini_parse mini_text,
      sj_metadata_from_slice = mini_parse (\<lambda>v. ascii ''{\"request\":'' @ mini_text v @ ascii ''}''),
      sj_as_object = mini_object, sj_as_str = mini_string,
      sj_has_role = (\<lambda>b. b \<in> mini_text ` {JUser, JAssistant})\<rparr>"

lemma mini_serde_writes: "serde_writes mini_serde"
proof -
  have "length (mini_text v) < 2 ^ 62" for v by (cases v) (simp_all add: ascii_def)
  moreover have "mini_text v \<noteq> [] \<and> last (mini_text v) = of_char CHR ''}''" if "mini_object v = Some obj" for v obj
    using that by (cases v) (simp_all add: ascii_def)
  ultimately show ?thesis by (simp add: serde_writes_def mini_serde_def)
qed

lemma mini_serde_reads: "message_read mini_serde JUser" "request_read mini_serde JRequest JRequest"
proof -
  have "mini_parse mini_text (mini_text JUser) = Some JUser" by (simp add: mini_parse_def)
  moreover have "mini_parse (\<lambda>v. ascii ''{\"request\":'' @ mini_text v @ ascii ''}'') (metadata_bytes mini_serde JRequest) = Some JRequest"
    by (simp add: mini_parse_def metadata_bytes_def mini_serde_def ascii_def)
  ultimately show "message_read mini_serde JUser" "request_read mini_serde JRequest JRequest"
    by (simp_all add: message_read_def request_read_def mini_serde_def)
qed

definition first_client :: chat_session where
  "first_client = chat_session_new step_hash []"

definition first_server :: sidecar where
  "first_server = sidecar_new (receiver_new store_new compressor_default) ''http://gateway'' None False"

lemma first_in_sync: "chat_in_sync demo_externals first_client first_server"
  using fresh_in_sync [of store_new store_new demo_externals "session_id_from_key step_hash []" compressor_default]
  by (simp add: chat_in_sync_def first_client_def first_server_def chat_session_new_def sidecar_new_def split_beta)

text \<open>The logs a chat request leaves are those of its APPEND.\<close>

lemma chat_append_logs:
  assumes "chat_append N J H z hs request fr S = (resp, out, S')" "validate_chat_append J H z (sc_receiver S) fr = Ok ()"
    and "handle_append H z fr (sc_receiver S) = (Ok ack, r)"
  shows "same_logs r (sc_receiver S')"
proof -
  obtain cached c where g: "cache_get (af_session_id fr) (af_base_root fr) (sc_projections S) = (cached, c)" by fastforce
  define S1 where "S1 = put_receiver r (S\<lparr>sc_projections := c\<rparr>)"
  have ca: "chat_accepted N J hs request (af_session_id fr) cached ack S1 = (resp, out, S')"
    using assms g by (simp add: chat_append_def Let_def S1_def)
  obtain fres S2 where f: "sidecar_flush (sc_sync_wal S1) S1 = (fres, S2)" by fastforce
  show ?thesis using chat_accepted_store [OF ca f] sidecar_flush_facts(1) [OF f] by (simp add: S1_def put_receiver_def)
qed

lemma single_log_fits:
  assumes "ran (st_blocks (rc_store r)) \<subseteq> {b}" "\<forall>k. length (session_ids (rc_store r) k) \<le> 1" "length (payload b) < 2 ^ 62"
  shows "fits r"
  unfolding fits_def
proof (intro allI impI)
  fix k bs assume c: "complete_log r k bs"
  have "length bs = length (session_ids (rc_store r) k)" using c by (metis complete_log_def length_map)
  then have "length bs \<le> 1" using assms(2) by simp
  moreover have "x = b" if "x \<in> set bs" for x
  proof -
    have "Some x \<in> st_blocks (rc_store r) ` set (session_ids (rc_store r) k)"
      using c that unfolding complete_log_def by (metis image_eqI list.set_map)
    then obtain i where "st_blocks (rc_store r) i = Some x" by auto
    then show ?thesis using assms(1) by (blast dest: ranI)
  qed
  ultimately have "bs = [] \<or> bs = [b]" by (cases bs) auto
  then show "length (json_join (map payload bs)) < 2 ^ 63 \<and> length bs < 2 ^ 63" using assms(3) by auto
qed

lemma first_prepared:
  "\<exists>pr s1. prepare_ref mini_serde demo_externals [JUser] JRequest first_client = (Ok pr, s1)"
proof -
  have b: "length (ss_base_root (cs_shim first_client)) = 32"
    by (simp add: first_client_def chat_session_new_def session_shim_new_def session_with_filter_def)
  let ?ps = "[(Message, ascii ''{\"role\":\"user\"}'')]"
  let ?md = "metadata_bytes mini_serde JRequest"
  have md: "length ?md = 25" by (simp add: metadata_bytes_def mini_serde_def ascii_def)
  have w: "worst_case_size (length ?md) ?ps = Some 142" by (simp add: md worst_case_size_def checked_add_def ascii_def)
  have v: "validate_request_value mini_serde JRequest = Ok ()" "serialize_messages mini_serde 0 [JUser] = Ok ?ps"
    by (simp_all add: mini_serde_def validate_request_value_def validate_message_object_def message_kind_def)
  obtain bs n where nb: "number_blocks (cs_next_seq first_client) ?ps = (bs, n)" by fastforce
  obtain fr sh h where it: "ingest_turn demo_externals bs (cs_shim first_client, cs_host first_client) = (fr, sh, h)" by (metis prod_cases3)
  have "\<exists>pr s1. prepare_commit demo_externals (length (sj_to_vec mini_serde JRequest)) ?md ?ps first_client = (Ok pr, s1)"
    using prepare_commit_Ok(1) [OF _ b _ w _ nb it] demo_works(2)
    by (simp add: md MAX_METADATA_BYTES_def MAX_REQUEST_BYTES_def demo_externals_def)
  moreover have "cs_pending_root first_client = None" by (simp add: first_client_def chat_session_new_def session_shim_new_def)
  ultimately show ?thesis using v w md by (simp add: prepare_ref_def MAX_METADATA_BYTES_def MAX_REQUEST_BYTES_def Let_def)
qed

lemma first_fits:
  assumes "prepare_ref mini_serde demo_externals [JUser] JRequest first_client = (Ok pr, s1)"
    and "chat_completions demo_http mini_serde step_hash demo_zstd [] (pr_body pr) first_server = (resp, out, S')"
  shows "fits (sc_receiver S')"
proof -
  let ?X = demo_externals and ?r = "sc_receiver first_server"
  have x: "zstd_works (x_zstd ?X) (c_dict (ss_append_compressor (cs_shim first_client)))" "hash32 (x_hash ?X)" "x_hash ?X = step_hash" "x_zstd ?X = demo_zstd"
    using demo_works by (simp_all add: demo_externals_def)
  have st: "st_blocks (rc_store ?r) = Map.empty" "\<And>k. session_ids (rc_store ?r) k = []"
    by (simp_all add: first_server_def sidecar_new_def receiver_new_def store_new_def session_ids_def)
  have om: "only_messages mini_serde ?r" by (simp add: only_messages_def st)
  have sy: "in_sync ?X (cs_shim first_client) (cs_host first_client) ?r" using first_in_sync by (simp add: chat_in_sync_def)
  have mr: "\<forall>v \<in> set [JUser]. message_read mini_serde v" using mini_serde_reads(1) by simp
  define bs where "bs = turn_blocks mini_serde [JUser] first_client"
  obtain fr sh h where it: "ingest_turn ?X bs (cs_shim first_client, cs_host first_client) = (fr, sh, h)"
    and pl: "map payload bs = map (sj_to_vec mini_serde) [JUser]" and tok: "turn_ok bs"
    and mo: "\<forall>b \<in> set bs. message_ok mini_serde (payload b)"
    and ca: "\<And>N hs. authorized N first_server hs \<Longrightarrow> chat_completions N mini_serde (x_hash ?X) (x_zstd ?X) hs (pr_body pr) first_server =
       chat_append N mini_serde (x_hash ?X) (x_zstd ?X) hs JRequest fr first_server"
    using prepared_reaches_append [OF x(1,2) mini_serde_reads(2) mr first_in_sync om assms(1)] unfolding bs_def by metis
  obtain b where b: "bs = [b]" "payload b = ascii ''{\"role\":\"user\"}''" using pl by (auto simp: mini_serde_def)
  note pa = prepared_append_accepted [OF x(1,2) sy tok it mo om]
  obtain ack r where h: "handle_append (x_hash ?X) (x_zstd ?X) fr ?r = (Ok ack, r)" "ss_ids sh = ss_ids (cs_shim first_client) @ map (block_id (x_hash ?X)) bs"
    "in_sync ?X (snd (apply_ack (x_hash ?X) (ss_root sh) sh)) h r"
    "ran (fst (core (rc_store r))) \<subseteq> ran (fst (core (rc_store ?r))) \<union> set bs" using pa(1) by metis
  have "chat_append demo_http mini_serde (x_hash ?X) (x_zstd ?X) [] JRequest fr first_server = (resp, out, S')"
    using ca [of demo_http "[]"] assms(2) x(3,4) by (simp add: authorized_def first_server_def sidecar_new_def)
  then have sl: "same_logs r (sc_receiver S')" by (rule chat_append_logs [OF _ pa(2) h(1)])
  have "session_ids (rc_store r) (ss_session_id (cs_shim first_client)) = map (block_id (x_hash ?X)) bs"
    using turn_effect(4) [OF x(2) sy it h(3)] st by simp
  moreover have "session_ids (rc_store r) k = []" if "k \<noteq> ss_session_id (cs_shim first_client)" for k
    using append_step(1) [OF h(1)] that st ingest_turn_facts(4) [OF it] by (simp add: keeps_def)
  ultimately have "length (session_ids (rc_store r) k) \<le> 1" for k
    using b(1) by (cases "k = ss_session_id (cs_shim first_client)") simp_all
  moreover have "ran (st_blocks (rc_store r)) \<subseteq> {b}" using h(4) b(1) st by (simp add: core_def)
  ultimately show ?thesis using sl b(2)
    by (intro single_log_fits [of _ b]) (simp_all add: same_logs_def core_queries core_def ascii_def c_ids_def)
qed

theorem chat_turn_delivered_witness:
  "\<exists>pr s1 rsp ob S' s2. prepare_ref mini_serde demo_externals [JUser] JRequest first_client = (Ok pr, s1) \<and>
     chat_completions demo_http mini_serde step_hash demo_zstd [] (pr_body pr) first_server = (Some rsp, Some ob, S') \<and>
     concat (ob_chunks ob) = ascii ''{\"model\":\"m\",\"messages\":[{\"role\":\"user\"}]}'' \<and>
     receive_chat demo_http step_hash pr rsp s1 = (Ok rsp, s2) \<and> chat_in_sync demo_externals s2 S'"
proof -
  obtain pr s1 where p: "prepare_ref mini_serde demo_externals [JUser] JRequest first_client = (Ok pr, s1)" using first_prepared by blast
  obtain resp out S' where c: "chat_completions demo_http mini_serde step_hash demo_zstd [] (pr_body pr) first_server = (resp, out, S')"
    by (metis prod_cases3)
  have x: "zstd_works (x_zstd demo_externals) (c_dict (ss_append_compressor (cs_shim first_client)))" "hash32 (x_hash demo_externals)"
    "x_hash demo_externals = step_hash" "x_zstd demo_externals = demo_zstd"
    using demo_works by (simp_all add: demo_externals_def)
  have run: "sidecar_run mini_serde (x_hash demo_externals) (x_zstd demo_externals)
      (sidecar_new (receiver_new store_new compressor_default) ''http://gateway'' None False) first_server"
    unfolding first_server_def by (rule sidecar_run.start)
  have st: "st_blocks (rc_store (sc_receiver first_server)) = Map.empty" "bare (rc_store (sc_receiver first_server))"
    "reconstruct (rc_store (sc_receiver first_server)) k = []" for k
    by (simp_all add: first_server_def sidecar_new_def receiver_new_def store_new_def bare_def reconstruct_def collect_blocks_def)
  have om: "only_messages mini_serde (sc_receiver first_server)" by (simp add: only_messages_def st)
  have au: "authorized demo_http first_server []" by (simp add: authorized_def first_server_def sidecar_new_def)
  have "\<exists>b. turn_blocks mini_serde [JUser] first_client = [b]"
    by (simp add: turn_blocks_def mini_serde_def validate_message_object_def)
  then have "inj_on (block_id (x_hash demo_externals)) (ran (st_blocks (rc_store (sc_receiver first_server))) \<union> set (turn_blocks mini_serde [JUser] first_client))"
    by (auto simp: st)
  moreover have "\<forall>v \<in> set [JUser]. message_read mini_serde v" using mini_serde_reads(1) by simp
  ultimately obtain rsp ob s2 where "resp = Some rsp" "out = Some ob"
    "concat (ob_chunks ob) = butlast (mini_text JRequest) @ ascii '',\"messages\":['' @ json_join [mini_text JUser] @ ascii '']}''"
    "receive_chat demo_http step_hash pr rsp s1 = (Ok rsp, s2)" "chat_in_sync demo_externals s2 S'"
    using chat_turn_delivered [OF x(1,2) mini_serde_writes demo_http_ok mini_serde_reads(2) _ run first_in_sync om au p
        c [folded x(3,4)] first_fits [OF p c]] st(2,3) x(3)
    by (auto simp: mini_serde_def)
  moreover have "butlast (mini_text JRequest) @ ascii '',\"messages\":['' @ json_join [mini_text JUser] @ ascii '']}'' =
      ascii ''{\"model\":\"m\",\"messages\":[{\"role\":\"user\"}]}''"
    by (simp add: ascii_def)
  ultimately show ?thesis using p c by (intro exI conjI) simp_all
qed

end
