(* ===== verification/Mmr.thy ===== *)
theory Mmr
  imports Blocks
begin

text \<open>
  The Merkle mountain range (\<open>crates/core/src/mmr.rs\<close>): perfect binary trees over an append-only arena
  of nodes, merged on append when two neighbours have the same height, with inclusion proofs.
  The specification of an arena index is \<open>subtree\<close>: the perfect tree over a list of block ids.
\<close>

section \<open>Operations\<close>

definition parent_h :: "hash \<Rightarrow> bytes \<Rightarrow> bytes \<Rightarrow> bytes" where
  "parent_h H l r = H ([0x4D] @ l @ r)"

definition leaf_h :: "hash \<Rightarrow> block_id \<Rightarrow> bytes" where
  "leaf_h H i = H ([0x4C] @ i)"

record mmr_node =
  mn_hash :: bytes
  mn_left :: "nat option"
  mn_right :: "nat option"

record mmr_tree =
  mt_root :: nat
  mt_height :: nat
  mt_base :: nat

record mmr =
  mm_trees :: "mmr_tree list"
  mm_leaves :: nat
  mm_arena :: "mmr_node list"

definition tree_leaf_count :: "mmr_tree \<Rightarrow> nat" where
  "tree_leaf_count t = 2 ^ mt_height t"

definition in_leaf_range :: "mmr_tree \<Rightarrow> nat \<Rightarrow> bool" where
  "in_leaf_range t i \<longleftrightarrow> mt_base t \<le> i \<and> i < mt_base t + tree_leaf_count t"

definition mmr_new :: mmr where
  "mmr_new = \<lparr>mm_trees = [], mm_leaves = 0, mm_arena = []\<rparr>"

definition mmr_leaf_count :: "mmr \<Rightarrow> nat" where "mmr_leaf_count m = mm_leaves m"
definition mmr_is_empty :: "mmr \<Rightarrow> bool" where "mmr_is_empty m \<longleftrightarrow> mm_leaves m = 0"

text \<open>The \<open>while\<close> loop of \<open>append\<close>.\<close>

function merge_loop :: "hash \<Rightarrow> mmr_tree list \<Rightarrow> mmr_tree \<Rightarrow> mmr_node list \<Rightarrow> mmr_tree list \<times> mmr_tree \<times> mmr_node list" where
  "merge_loop H trees t ar =
     (if trees \<noteq> [] \<and> mt_height (last trees) = mt_height t then
        let prev = last trees;
            root_hash = parent_h H (mn_hash (ar ! mt_root prev)) (mn_hash (ar ! mt_root t));
            ar' = ar @ [\<lparr>mn_hash = root_hash, mn_left = Some (mt_root prev), mn_right = Some (mt_root t)\<rparr>]
        in merge_loop H (butlast trees)
             \<lparr>mt_root = length ar, mt_height = mt_height prev + 1, mt_base = mt_base prev\<rparr> ar'
      else (trees, t, ar))"
  by pat_completeness auto
termination
  by (relation "measure (\<lambda>(H, trees, t, ar). length trees)") auto

declare merge_loop.simps [simp del]

definition mmr_append :: "hash \<Rightarrow> block_id \<Rightarrow> mmr \<Rightarrow> mmr" where
  "mmr_append H i m =
     (let ar = mm_arena m @ [\<lparr>mn_hash = leaf_h H i, mn_left = None, mn_right = None\<rparr>];
          t = \<lparr>mt_root = length (mm_arena m), mt_height = 0, mt_base = mm_leaves m\<rparr>
      in case merge_loop H (mm_trees m) t ar of
           (trees, t', ar') \<Rightarrow> \<lparr>mm_trees = trees @ [t'], mm_leaves = mm_leaves m + 1, mm_arena = ar'\<rparr>)"

definition mmr_peaks :: "mmr \<Rightarrow> bytes list" where
  "mmr_peaks m = map (\<lambda>t. mn_hash (mm_arena m ! mt_root t)) (mm_trees m)"

definition mmr_root :: "hash \<Rightarrow> mmr \<Rightarrow> bytes" where
  "mmr_root H m =
     (case mm_trees m of
        [] \<Rightarrow> replicate 32 0
      | t # ts \<Rightarrow>
          foldl (\<lambda>acc t. parent_h H acc (mn_hash (mm_arena m ! mt_root t))) (mn_hash (mm_arena m ! mt_root t)) ts)"

text \<open>The walk from a peak down to a leaf; a missing child is a failed \<open>expect\<close>.\<close>

fun proof_steps :: "mmr_node list \<Rightarrow> nat \<Rightarrow> nat \<Rightarrow> nat \<Rightarrow> ((nat \<times> bool) list, string) outcome" where
  "proof_steps ar 0 node leaf = Ok []"
| "proof_steps ar (Suc h) node leaf =
     obind (index_of ar node) (\<lambda>n.
       case (mn_left n, mn_right n) of
         (Some l, Some r) \<Rightarrow>
           if leaf < 2 ^ h
           then obind (proof_steps ar h l leaf) (\<lambda>s. Ok ((r, False) # s))
           else obind (proof_steps ar h r (leaf - 2 ^ h)) (\<lambda>s. Ok ((l, True) # s))
       | _ \<Rightarrow> Panic)"

definition inclusion_proof :: "nat \<Rightarrow> mmr \<Rightarrow> ((bytes \<times> bool) list, string) outcome" where
  "inclusion_proof i m =
     (case List.find (\<lambda>t. in_leaf_range t i) (mm_trees m) of
        None \<Rightarrow> Ok []
      | Some t \<Rightarrow>
          obind (proof_steps (mm_arena m) (mt_height t) (mt_root t) (i - mt_base t)) (\<lambda>steps.
            otraverse (\<lambda>(idx, sl). obind (index_of (mm_arena m) idx) (\<lambda>n. Ok (mn_hash n, sl))) (rev steps)))"

definition peak_from_proof :: "hash \<Rightarrow> block_id \<Rightarrow> (bytes \<times> bool) list \<Rightarrow> bytes" where
  "peak_from_proof H i pth =
     foldl (\<lambda>acc (sib, sl). if sl then parent_h H sib acc else parent_h H acc sib) (leaf_h H i) pth"

definition verify_inclusion :: "hash \<Rightarrow> nat \<Rightarrow> block_id \<Rightarrow> mmr \<Rightarrow> (bool, string) outcome" where
  "verify_inclusion H i leaf_id m =
     (case List.find (\<lambda>t. in_leaf_range t i) (mm_trees m) of
        None \<Rightarrow> Ok False
      | Some t \<Rightarrow>
          obind (inclusion_proof i m) (\<lambda>pth.
            obind (index_of (mm_arena m) (mt_root t)) (\<lambda>n.
              Ok (peak_from_proof H leaf_id pth = mn_hash n))))"

section \<open>Perfect trees in the arena\<close>

fun subtree :: "hash \<Rightarrow> mmr_node list \<Rightarrow> nat \<Rightarrow> nat \<Rightarrow> block_id list \<Rightarrow> bool" where
  "subtree H ar 0 k ids \<longleftrightarrow>
     k < length ar \<and> (\<exists>i. ids = [i] \<and> mn_hash (ar ! k) = leaf_h H i)"
| "subtree H ar (Suc h) k ids \<longleftrightarrow>
     k < length ar \<and>
     (\<exists>l r a b. ids = a @ b \<and> mn_left (ar ! k) = Some l \<and> mn_right (ar ! k) = Some r \<and>
       mn_hash (ar ! k) = parent_h H (mn_hash (ar ! l)) (mn_hash (ar ! r)) \<and>
       subtree H ar h l a \<and> subtree H ar h r b)"

lemma subtree_bound: "subtree H ar h k ids \<Longrightarrow> k < length ar"
  by (cases h) auto

lemma subtree_length: "subtree H ar h k ids \<Longrightarrow> length ids = 2 ^ h"
  by (induction h arbitrary: k ids) fastforce+

lemma subtree_extend: "subtree H ar h k ids \<Longrightarrow> subtree H (ar @ x) h k ids"
proof (induction h arbitrary: k ids)
  case (Suc h)
  then obtain l r a b where s: "k < length ar" "ids = a @ b" "mn_left (ar ! k) = Some l" "mn_right (ar ! k) = Some r"
    "mn_hash (ar ! k) = parent_h H (mn_hash (ar ! l)) (mn_hash (ar ! r))" "subtree H ar h l a" "subtree H ar h r b"
    by auto
  have "l < length ar" "r < length ar" using s(6,7) subtree_bound by blast+
  then show ?case using s Suc.IH by (simp add: nth_append) blast
qed (auto simp: nth_append)

lemma proof_steps_subtree:
  assumes "subtree H ar h k ids" "leaf < 2 ^ h"
  shows "\<exists>steps. proof_steps ar h k leaf = Ok steps \<and> length steps = h \<and> (\<forall>s \<in> set steps. fst s < length ar) \<and>
    peak_from_proof H (ids ! leaf) (map (\<lambda>(idx, sl). (mn_hash (ar ! idx), sl)) (rev steps)) = mn_hash (ar ! k)"
  using assms
proof (induction h arbitrary: k ids leaf)
  case 0
  then show ?case by (auto simp: peak_from_proof_def)
next
  case (Suc h)
  then obtain l r a b where s: "k < length ar" "ids = a @ b" "mn_left (ar ! k) = Some l" "mn_right (ar ! k) = Some r"
    "mn_hash (ar ! k) = parent_h H (mn_hash (ar ! l)) (mn_hash (ar ! r))" "subtree H ar h l a" "subtree H ar h r b"
    by auto
  have len: "length a = 2 ^ h" using subtree_length [OF s(6)] .
  show ?case
  proof (cases "leaf < 2 ^ h")
    case True
    from Suc.IH [OF s(6) True] obtain steps where st: "proof_steps ar h l leaf = Ok steps" "length steps = h"
      "\<forall>s \<in> set steps. fst s < length ar"
      "peak_from_proof H (a ! leaf) (map (\<lambda>(idx, sl). (mn_hash (ar ! idx), sl)) (rev steps)) = mn_hash (ar ! l)"
      by blast
    have "ids ! leaf = a ! leaf" using True len by (simp add: s(2) nth_append)
    then show ?thesis using st s True subtree_bound [OF s(7)]
      by (intro exI [of _ "(r, False) # steps"]) (simp add: peak_from_proof_def)
  next
    case False
    then have "leaf - 2 ^ h < 2 ^ h" using Suc.prems(2) by simp
    from Suc.IH [OF s(7) this] obtain steps where st: "proof_steps ar h r (leaf - 2 ^ h) = Ok steps" "length steps = h"
      "\<forall>s \<in> set steps. fst s < length ar"
      "peak_from_proof H (b ! (leaf - 2 ^ h)) (map (\<lambda>(idx, sl). (mn_hash (ar ! idx), sl)) (rev steps)) = mn_hash (ar ! r)"
      by blast
    have "ids ! leaf = b ! (leaf - 2 ^ h)" using False len by (simp add: s(2) nth_append)
    then show ?thesis using st s False subtree_bound [OF s(6)]
      by (intro exI [of _ "(l, True) # steps"]) (simp add: peak_from_proof_def)
  qed
qed

section \<open>The mountain range invariant\<close>

fun forest :: "hash \<Rightarrow> mmr_node list \<Rightarrow> nat \<Rightarrow> mmr_tree list \<Rightarrow> block_id list \<Rightarrow> bool" where
  "forest H ar base [] ids \<longleftrightarrow> ids = []"
| "forest H ar base (t # ts) ids \<longleftrightarrow>
     mt_base t = base \<and>
     (\<exists>a b. ids = a @ b \<and> subtree H ar (mt_height t) (mt_root t) a \<and> forest H ar (base + length a) ts b)"

definition falling :: "mmr_tree list \<Rightarrow> bool" where
  "falling ts \<longleftrightarrow> sorted_wrt (>) (map mt_height ts)"

definition mmr_ok :: "hash \<Rightarrow> mmr \<Rightarrow> block_id list \<Rightarrow> bool" where
  "mmr_ok H m ids \<longleftrightarrow> forest H (mm_arena m) 0 (mm_trees m) ids \<and> mm_leaves m = length ids \<and> falling (mm_trees m)"

lemma forest_extend: "forest H ar base ts ids \<Longrightarrow> forest H (ar @ x) base ts ids"
  by (induction ts arbitrary: base ids) (auto intro: subtree_extend)

lemma forest_snoc:
  "forest H ar base (ts @ [t]) ids \<longleftrightarrow>
     (\<exists>a b. ids = a @ b \<and> forest H ar base ts a \<and> mt_base t = base + length a \<and> subtree H ar (mt_height t) (mt_root t) b)"
proof (induction ts arbitrary: base ids)
  case (Cons u ts)
  show ?case
  proof
    assume "forest H ar base ((u # ts) @ [t]) ids"
    then obtain a b c d where "mt_base u = base" "ids = a @ c @ d" "subtree H ar (mt_height u) (mt_root u) a"
      "forest H ar (base + length a) ts c" "mt_base t = base + length a + length c" "subtree H ar (mt_height t) (mt_root t) d"
      by (auto simp: Cons.IH)
    then show "\<exists>a b. ids = a @ b \<and> forest H ar base (u # ts) a \<and> mt_base t = base + length a \<and> subtree H ar (mt_height t) (mt_root t) b"
      by (intro exI [of _ "a @ c"] exI [of _ d]) auto
  next
    assume "\<exists>a b. ids = a @ b \<and> forest H ar base (u # ts) a \<and> mt_base t = base + length a \<and> subtree H ar (mt_height t) (mt_root t) b"
    then obtain a c d where "mt_base u = base" "ids = a @ c @ d" "subtree H ar (mt_height u) (mt_root u) a"
      "forest H ar (base + length a) ts c" "mt_base t = base + length a + length c" "subtree H ar (mt_height t) (mt_root t) d"
      by (auto simp: add.assoc)
    then show "forest H ar base ((u # ts) @ [t]) ids" by (simp add: Cons.IH) blast
  qed
qed simp

lemma falling_snoc: "falling (ts @ [t]) \<longleftrightarrow> falling ts \<and> (\<forall>u \<in> set ts. mt_height t < mt_height u)"
  by (auto simp: falling_def sorted_wrt_append)

lemma merge_loop_forest:
  assumes "forest H ar 0 trees a" "falling trees" "\<forall>u \<in> set trees. mt_height t \<le> mt_height u"
    and "mt_base t = length a" "subtree H ar (mt_height t) (mt_root t) b" "merge_loop H trees t ar = (trees', t', ar')"
  shows "forest H ar' 0 (trees' @ [t']) (a @ b) \<and> falling (trees' @ [t'])"
  using assms
proof (induction H trees t ar arbitrary: a b rule: merge_loop.induct)
  case (1 H trees t ar)
  show ?case
  proof (cases "trees \<noteq> [] \<and> mt_height (last trees) = mt_height t")
    case True
    define prev where "prev = last trees"
    define ts where "ts = butlast trees"
    have trees: "trees = ts @ [prev]" using True by (simp add: prev_def ts_def)
    define ar1 where "ar1 = ar @ [\<lparr>mn_hash = parent_h H (mn_hash (ar ! mt_root prev)) (mn_hash (ar ! mt_root t)),
      mn_left = Some (mt_root prev), mn_right = Some (mt_root t)\<rparr>]"
    define t1 where "t1 = \<lparr>mt_root = length ar, mt_height = mt_height prev + 1, mt_base = mt_base prev\<rparr>"
    have run: "merge_loop H ts t1 ar1 = (trees', t', ar')"
      using "1.prems"(6) True unfolding merge_loop.simps [of H trees] Let_def
      by (simp add: prev_def ts_def ar1_def t1_def)
    obtain c d where cd: "a = c @ d" "forest H ar 0 ts c" "mt_base prev = length c" "subtree H ar (mt_height prev) (mt_root prev) d"
      using "1.prems"(1) unfolding trees forest_snoc by auto
    have hp: "mt_height prev = mt_height t" using True by (simp add: prev_def)
    have bound: "mt_root prev < length ar" "mt_root t < length ar" using cd(4) "1.prems"(5) subtree_bound by blast+
    have "subtree H ar1 (mt_height t) (mt_root prev) d" "subtree H ar1 (mt_height t) (mt_root t) b"
      using cd(4) "1.prems"(5) hp subtree_extend unfolding ar1_def by metis+
    then have "subtree H ar1 (Suc (mt_height t)) (length ar) (d @ b)"
      using bound by (auto simp: ar1_def nth_append)
    then have sub: "subtree H ar1 (mt_height t1) (mt_root t1) (d @ b)" by (simp add: t1_def hp)
    have fall: "falling ts" "\<forall>u \<in> set ts. mt_height t1 \<le> mt_height u"
      using "1.prems"(2) unfolding trees falling_snoc by (auto simp: t1_def)
    have "forest H ar1 0 ts c" using cd(2) forest_extend by (simp add: ar1_def)
    moreover have "mt_base t1 = length c" by (simp add: t1_def cd(3))
    ultimately show ?thesis
      using "1.IH" [OF True refl refl, folded prev_def ts_def] fall sub run unfolding ar1_def t1_def
      by (simp add: cd(1))
  next
    case False
    then have e: "trees' = trees" "t' = t" "ar' = ar"
      using "1.prems"(6) unfolding merge_loop.simps [of H trees] by (simp_all split: if_splits)
    have "\<forall>u \<in> set trees. mt_height t < mt_height u"
    proof (cases "trees = []")
      case ne: False
      then have tr: "trees = butlast trees @ [last trees]" by simp
      have l: "mt_height t < mt_height (last trees)" using False ne "1.prems"(3) by (metis last_in_set le_neq_implies_less)
      have "\<forall>u \<in> set (butlast trees). mt_height (last trees) < mt_height u"
        using "1.prems"(2) tr falling_snoc by metis
      then show ?thesis using l tr by (metis Un_iff empty_iff insert_iff less_trans list.set(1) list.simps(15) set_append)
    qed simp
    then show ?thesis using "1.prems" unfolding e forest_snoc falling_snoc by auto
  qed
qed

lemma mmr_append_ok:
  assumes "mmr_ok H m ids"
  shows "mmr_ok H (mmr_append H i m) (ids @ [i])"
proof -
  define ar where "ar = mm_arena m @ [\<lparr>mn_hash = leaf_h H i, mn_left = None, mn_right = None\<rparr>]"
  define t where "t = \<lparr>mt_root = length (mm_arena m), mt_height = 0, mt_base = mm_leaves m\<rparr>"
  obtain trees' t' ar' where ml: "merge_loop H (mm_trees m) t ar = (trees', t', ar')" by (metis prod_cases3)
  have ok: "forest H (mm_arena m) 0 (mm_trees m) ids" "mm_leaves m = length ids" "falling (mm_trees m)"
    using assms by (simp_all add: mmr_ok_def)
  have "subtree H ar (mt_height t) (mt_root t) [i]" by (simp add: t_def ar_def)
  moreover have "forest H ar 0 (mm_trees m) ids" unfolding ar_def by (rule forest_extend [OF ok(1)])
  ultimately have "forest H ar' 0 (trees' @ [t']) (ids @ [i]) \<and> falling (trees' @ [t'])"
    by (intro merge_loop_forest [OF _ ok(3) _ _ _ ml]) (simp_all add: t_def ok(2))
  moreover have "mmr_append H i m = \<lparr>mm_trees = trees' @ [t'], mm_leaves = mm_leaves m + 1, mm_arena = ar'\<rparr>"
    using ml by (simp add: mmr_append_def ar_def t_def Let_def)
  ultimately show ?thesis by (simp add: mmr_ok_def ok(2))
qed

lemma mmr_run_ok: "mmr_ok H (fold (mmr_append H) ids mmr_new) ids"
proof (induction ids rule: rev_induct)
  case Nil
  show ?case by (simp add: mmr_ok_def mmr_new_def falling_def)
next
  case (snoc i ids)
  then show ?case using mmr_append_ok by simp
qed

section \<open>Inclusion\<close>

lemma forest_find:
  assumes "forest H ar base ts ids" "base \<le> i"
  shows "if i < base + length ids
    then \<exists>t a. List.find (\<lambda>t. in_leaf_range t i) ts = Some t \<and> subtree H ar (mt_height t) (mt_root t) a \<and>
      i - mt_base t < 2 ^ mt_height t \<and> ids ! (i - base) = a ! (i - mt_base t) \<and> 2 ^ mt_height t \<le> length ids
    else List.find (\<lambda>t. in_leaf_range t i) ts = None"
  using assms
proof (induction ts arbitrary: base ids)
  case (Cons t ts)
  then obtain a b where ab: "mt_base t = base" "ids = a @ b" "subtree H ar (mt_height t) (mt_root t) a" "forest H ar (base + length a) ts b"
    by auto
  have len: "length a = 2 ^ mt_height t" using subtree_length [OF ab(3)] .
  show ?case
  proof (cases "i < base + length a")
    case True
    then have "in_leaf_range t i" using Cons.prems(2) ab(1) len by (simp add: in_leaf_range_def tree_leaf_count_def)
    moreover have "i - base < length a" using True Cons.prems(2) by simp
    ultimately show ?thesis using True ab len by (auto simp: nth_append)
  next
    case False
    then have nr: "\<not> in_leaf_range t i" using ab(1) len by (simp add: in_leaf_range_def tree_leaf_count_def)
    have i: "base + length a \<le> i" using False by simp
    have "ids ! (i - base) = b ! (i - (base + length a))" using i by (auto simp: ab(2) nth_append diff_diff_left)
    then show ?thesis using Cons.IH [OF ab(4) i] nr by (auto simp: ab(2) split: if_splits)
  qed
qed simp

lemma otraverse_hashes:
  "\<forall>s \<in> set steps. fst s < length ar \<Longrightarrow>
    otraverse (\<lambda>(idx, sl). obind (index_of ar idx) (\<lambda>n. Ok (mn_hash n, sl))) steps =
    Ok (map (\<lambda>(idx, sl). (mn_hash (ar ! idx), sl)) steps)"
  by (induction steps) auto

lemma mmr_lookup:
  assumes "mmr_ok H m ids" "i < length ids"
  obtains t pth where "List.find (\<lambda>t. in_leaf_range t i) (mm_trees m) = Some t" "inclusion_proof i m = Ok pth"
    "mt_root t < length (mm_arena m)" "peak_from_proof H (ids ! i) pth = mn_hash (mm_arena m ! mt_root t)"
    "2 ^ length pth \<le> length ids"
proof -
  from forest_find [of H "mm_arena m" 0 "mm_trees m" ids i] assms obtain t a where
    t: "List.find (\<lambda>t. in_leaf_range t i) (mm_trees m) = Some t" "subtree H (mm_arena m) (mt_height t) (mt_root t) a"
    "i - mt_base t < 2 ^ mt_height t" "ids ! i = a ! (i - mt_base t)" "2 ^ mt_height t \<le> length ids"
    by (auto simp: mmr_ok_def)
  from proof_steps_subtree [OF t(2,3)] obtain steps where
    st: "proof_steps (mm_arena m) (mt_height t) (mt_root t) (i - mt_base t) = Ok steps" "length steps = mt_height t"
    "\<forall>s \<in> set steps. fst s < length (mm_arena m)"
    "peak_from_proof H (a ! (i - mt_base t)) (map (\<lambda>(idx, sl). (mn_hash (mm_arena m ! idx), sl)) (rev steps)) =
      mn_hash (mm_arena m ! mt_root t)"
    by blast
  have "inclusion_proof i m = Ok (map (\<lambda>(idx, sl). (mn_hash (mm_arena m ! idx), sl)) (rev steps))"
    using otraverse_hashes [of "rev steps" "mm_arena m"] st(3) by (simp add: inclusion_proof_def t(1) st(1))
  then show ?thesis using that [OF t(1)] st t subtree_bound [OF t(2)] by simp
qed

text \<open>The byte strings hashed when a proof is checked for a leaf.\<close>

fun path_inputs :: "hash \<Rightarrow> bytes \<Rightarrow> (bytes \<times> bool) list \<Rightarrow> bytes set" where
  "path_inputs H acc [] = {}"
| "path_inputs H acc ((sib, sl) # pth) =
     (let x = (if sl then [0x4D] @ sib @ acc else [0x4D] @ acc @ sib) in insert x (path_inputs H (H x) pth))"

definition proof_inputs :: "hash \<Rightarrow> block_id \<Rightarrow> (bytes \<times> bool) list \<Rightarrow> bytes set" where
  "proof_inputs H i pth = insert ([0x4C] @ i) (path_inputs H (leaf_h H i) pth)"

lemma path_injective:
  assumes "inj_on H (path_inputs H a pth \<union> path_inputs H b pth)"
    and "foldl (\<lambda>acc (sib, sl). if sl then parent_h H sib acc else parent_h H acc sib) a pth =
      foldl (\<lambda>acc (sib, sl). if sl then parent_h H sib acc else parent_h H acc sib) b pth"
  shows "a = b"
  using assms
proof (induction pth arbitrary: a b)
  case (Cons p pth)
  obtain sib sl where p: "p = (sib, sl)" by force
  define x where "x = (\<lambda>acc. if sl then [0x4D] @ sib @ acc else [0x4D] @ acc @ sib)"
  have i: "path_inputs H acc (p # pth) = insert (x acc) (path_inputs H (H (x acc)) pth)" for acc
    by (simp add: p x_def Let_def)
  have "(if sl then parent_h H sib acc else parent_h H acc sib) = H (x acc)" for acc
    by (simp add: parent_h_def x_def)
  then have f: "foldl (\<lambda>acc (sib, sl). if sl then parent_h H sib acc else parent_h H acc sib) (H (x a)) pth =
      foldl (\<lambda>acc (sib, sl). if sl then parent_h H sib acc else parent_h H acc sib) (H (x b)) pth"
    using Cons.prems(2) by (simp add: p)
  note inj = Cons.prems(1) [unfolded i]
  have "H (x a) = H (x b)" by (rule Cons.IH [OF inj_on_subset [OF inj] f]) auto
  then have "x a = x b" by (rule inj_onD [OF inj]) simp_all
  then show ?case by (auto simp: x_def split: if_splits)
qed simp

text \<open>C27: The mountain range proves exactly its own leaves: after any appends, the proof of leaf \<open>i\<close> exists
  and has at most log2 of the leaf count entries, and checking id \<open>x\<close> at position \<open>i\<close> succeeds if and only if
  \<open>x\<close> is the id appended there, as long as the hash has no collision among the inputs of the two checks;
  positions beyond the log never verify.  No call panics.\<close>

theorem mmr_inclusion_exact:
  assumes "m = fold (mmr_append H) ids mmr_new"
    and "\<And>pth. inclusion_proof i m = Ok pth \<Longrightarrow> inj_on H (proof_inputs H x pth \<union> proof_inputs H (ids ! i) pth)"
  shows "verify_inclusion H i x m = Ok (i < length ids \<and> x = ids ! i) \<and>
    (\<exists>pth. inclusion_proof i m = Ok pth \<and> (i < length ids \<longrightarrow> 2 ^ length pth \<le> length ids))"
proof (cases "i < length ids")
  case True
  have ok: "mmr_ok H m ids" using mmr_run_ok by (simp add: assms(1))
  obtain t pth where t: "List.find (\<lambda>t. in_leaf_range t i) (mm_trees m) = Some t" "inclusion_proof i m = Ok pth"
    "mt_root t < length (mm_arena m)" "peak_from_proof H (ids ! i) pth = mn_hash (mm_arena m ! mt_root t)"
    "2 ^ length pth \<le> length ids"
    using mmr_lookup [OF ok True] .
  have inj: "inj_on H (proof_inputs H x pth \<union> proof_inputs H (ids ! i) pth)" using assms(2) [OF t(2)] .
  have "peak_from_proof H x pth = peak_from_proof H (ids ! i) pth \<longleftrightarrow> x = ids ! i"
  proof
    assume "peak_from_proof H x pth = peak_from_proof H (ids ! i) pth"
    then have "leaf_h H x = leaf_h H (ids ! i)"
      unfolding peak_from_proof_def
      by (rule path_injective [rotated]) (rule inj_on_subset [OF inj], auto simp: proof_inputs_def)
    then have "[0x4C] @ x = [0x4C] @ ids ! i" unfolding leaf_h_def
      by (rule inj_onD [OF inj]) (simp_all add: proof_inputs_def)
    then show "x = ids ! i" by simp
  qed simp
  then show ?thesis using True t by (simp add: verify_inclusion_def)
next
  case False
  have ok: "mmr_ok H m ids" using mmr_run_ok by (simp add: assms(1))
  then have "List.find (\<lambda>t. in_leaf_range t i) (mm_trees m) = None"
    using forest_find [of H "mm_arena m" 0 "mm_trees m" ids i] False by (simp add: mmr_ok_def)
  then show ?thesis using False by (simp add: verify_inclusion_def inclusion_proof_def)
qed

theorem mmr_inclusion_exact_witness:
  "verify_inclusion (\<lambda>x. x) 1 [8] (fold (mmr_append (\<lambda>x. x)) [[7], [8], [9]] mmr_new) = Ok True \<and>
   verify_inclusion (\<lambda>x. x) 1 [9] (fold (mmr_append (\<lambda>x. x)) [[7], [8], [9]] mmr_new) = Ok False"
  using mmr_inclusion_exact [OF refl, of 1 "\<lambda>x. x" "[[7], [8], [9]]" "[8]"]
    mmr_inclusion_exact [OF refl, of 1 "\<lambda>x. x" "[[7], [8], [9]]" "[9]"]
  by simp

end
