(* ===== verification/Flow.thy ===== *)
theory Flow
  imports Prelude
begin

text \<open>
  The credit window (\<open>crates/transport/src/flow.rs\<close>).  The three mutators are written first as the
  operations they are when nothing interferes, then at the grain of their atomic accesses: any number
  of threads run the load and compare-exchange loops on the shared window in any interleaving, and a
  compare-exchange may also fail spuriously, as the weak variant allows.
\<close>

section \<open>Operations\<close>

record credit_flow =
  cf_available :: u64
  cf_capacity :: u64

definition flow_new :: "u64 \<Rightarrow> credit_flow" where
  "flow_new w = \<lparr>cf_available = w, cf_capacity = w\<rparr>"

definition grant :: "u64 \<Rightarrow> credit_flow \<Rightarrow> credit_flow" where
  "grant n f = f\<lparr>cf_available := min (sat_add64 (cf_available f) n) (cf_capacity f)\<rparr>"

definition flow_take :: "u64 \<Rightarrow> credit_flow \<Rightarrow> u64 \<times> credit_flow" where
  "flow_take n f =
     (let a = cf_available f in
      if a = 0 then (0, f) else let give = min n a in (give, f\<lparr>cf_available := a - give\<rparr>))"

definition reaim :: "u64 \<Rightarrow> credit_flow \<Rightarrow> credit_flow" where
  "reaim new_bdp f =
     (let old = cf_capacity f; f1 = f\<lparr>cf_capacity := new_bdp\<rparr>
      in if new_bdp > old then grant (new_bdp - old) f1 else f1)"

section \<open>Threads\<close>

text \<open>
  Where a thread is: outside, in the loop of \<open>take\<close> holding the value it read, between the two loads
  of \<open>grant\<close>, or in its loop.
\<close>

datatype flow_pc = Idle | Taking u64 u64 | GrantCap u64 | GrantAvail u64 u64 | Granting u64 u64 u64

text \<open>The shared window, the threads, and a history of the bytes handed out and of the bytes granted.\<close>

record flow_config =
  fc_flow :: credit_flow
  fc_pc :: "nat \<Rightarrow> flow_pc"
  fc_taken :: nat
  fc_granted :: nat

definition goto :: "nat \<Rightarrow> flow_pc \<Rightarrow> flow_config \<Rightarrow> flow_config" where
  "goto t p c = c\<lparr>fc_pc := (fc_pc c)(t := p)\<rparr>"

inductive flow_step :: "flow_config \<Rightarrow> flow_config \<Rightarrow> bool" where
  take_load: "fc_pc c t = Idle \<Longrightarrow> flow_step c (goto t (Taking n (cf_available (fc_flow c))) c)"
| take_empty: "fc_pc c t = Taking n 0 \<Longrightarrow> flow_step c (goto t Idle c)"
| take_ok: "fc_pc c t = Taking n a \<Longrightarrow> a \<noteq> 0 \<Longrightarrow> cf_available (fc_flow c) = a \<Longrightarrow>
    flow_step c (goto t Idle (c\<lparr>fc_flow := (fc_flow c)\<lparr>cf_available := a - min n a\<rparr>,
      fc_taken := fc_taken c + unat (min n a)\<rparr>))"
| take_retry: "fc_pc c t = Taking n a \<Longrightarrow> a \<noteq> 0 \<Longrightarrow>
    flow_step c (goto t (Taking n (cf_available (fc_flow c))) c)"
| grant_start: "fc_pc c t = Idle \<Longrightarrow> flow_step c (goto t (GrantCap n) c)"
| grant_load_cap: "fc_pc c t = GrantCap n \<Longrightarrow> flow_step c (goto t (GrantAvail n (cf_capacity (fc_flow c))) c)"
| grant_load: "fc_pc c t = GrantAvail n k \<Longrightarrow> flow_step c (goto t (Granting n k (cf_available (fc_flow c))) c)"
| grant_ok: "fc_pc c t = Granting n k a \<Longrightarrow> cf_available (fc_flow c) = a \<Longrightarrow>
    flow_step c (goto t Idle (c\<lparr>fc_flow := (fc_flow c)\<lparr>cf_available := min (sat_add64 a n) k\<rparr>,
      fc_granted := fc_granted c + unat n\<rparr>))"
| grant_retry: "fc_pc c t = Granting n k a \<Longrightarrow>
    flow_step c (goto t (Granting n k (cf_available (fc_flow c))) c)"
| reaim_grow: "fc_pc c t = Idle \<Longrightarrow> cf_capacity (fc_flow c) < b \<Longrightarrow>
    flow_step c (goto t (GrantCap (b - cf_capacity (fc_flow c))) (c\<lparr>fc_flow := (fc_flow c)\<lparr>cf_capacity := b\<rparr>\<rparr>))"
| reaim_shrink: "fc_pc c t = Idle \<Longrightarrow> b \<le> cf_capacity (fc_flow c) \<Longrightarrow>
    flow_step c (c\<lparr>fc_flow := (fc_flow c)\<lparr>cf_capacity := b\<rparr>\<rparr>)"

inductive_cases flow_stepE: "flow_step c c'"

definition flow_init :: "u64 \<Rightarrow> flow_config" where
  "flow_init w = \<lparr>fc_flow = flow_new w, fc_pc = (\<lambda>t. Idle), fc_taken = 0, fc_granted = 0\<rparr>"

section \<open>Conservation of credit\<close>

definition flow_inv :: "u64 \<Rightarrow> flow_config \<Rightarrow> bool" where
  "flow_inv w c \<longleftrightarrow> unat (cf_available (fc_flow c)) + fc_taken c \<le> unat w + fc_granted c"

lemma sat_add64_le: "unat (sat_add64 a n) \<le> unat a + unat n"
  by (simp add: unat_sat_add64)

lemma flow_step_inv: "flow_step c c' \<Longrightarrow> flow_inv w c \<Longrightarrow> flow_inv w c'"
proof (induction rule: flow_step.induct)
  case (take_ok c t n a)
  have "unat (a - min n a) = unat a - unat (min n a)" "unat (min n a) \<le> unat a"
    by (simp_all add: unat_sub min.coboundedI2 word_le_nat_alt [symmetric])
  then show ?case using take_ok by (simp add: flow_inv_def goto_def)
next
  case (grant_ok c t n k a)
  have "unat (min (sat_add64 a n) k) \<le> unat a + unat n"
    using sat_add64_le [of a n] by (metis min.cobounded1 order_trans word_le_nat_alt)
  then show ?case using grant_ok by (simp add: flow_inv_def goto_def)
qed (simp_all add: flow_inv_def goto_def)

text \<open>C28: No interleaving oversells the window: in every state that threads can reach by any mix of
  \<open>take\<close>, \<open>grant\<close> and \<open>reaim\<close>, at the grain of single atomic accesses and with spurious
  failures, the bytes handed out plus the credit still available are at most the initial window
  plus the bytes granted.\<close>

theorem flow_never_oversells:
  assumes "flow_step\<^sup>*\<^sup>* (flow_init w) c"
  shows "unat (cf_available (fc_flow c)) + fc_taken c \<le> unat w + fc_granted c"
proof -
  have "flow_inv w c"
    using assms by (induction rule: rtranclp_induct) (simp add: flow_inv_def flow_init_def flow_new_def, blast intro: flow_step_inv)
  then show ?thesis by (simp add: flow_inv_def)
qed

text \<open>Three threads: one takes while another grants; the second compare-exchange of the first succeeds.\<close>

lemma flow_demo: "\<exists>c. flow_step\<^sup>*\<^sup>* (flow_init 10) c \<and> fc_taken c = 7 \<and> fc_granted c = 4"
proof -
  define c1 where "c1 = goto 0 (Taking 7 10) (flow_init 10)"
  define c2 where "c2 = goto 1 (GrantCap 4) c1"
  define c3 where "c3 = goto 1 (GrantAvail 4 10) c2"
  define c4 where "c4 = goto 0 Idle (c3\<lparr>fc_flow := (fc_flow c3)\<lparr>cf_available := 10 - min 7 10\<rparr>, fc_taken := fc_taken c3 + unat (min 7 10 :: u64)\<rparr>)"
  define c5 where "c5 = goto 1 (Granting 4 10 3) c4"
  define c6 where "c6 = goto 1 Idle (c5\<lparr>fc_flow := (fc_flow c5)\<lparr>cf_available := min (sat_add64 3 4) 10\<rparr>, fc_granted := fc_granted c5 + unat (4 :: u64)\<rparr>)"
  note defs = c1_def c2_def c3_def c4_def c5_def c6_def goto_def flow_init_def flow_new_def
  have "flow_step (flow_init 10) c1" using take_load [of "flow_init 10" 0 7] by (simp add: defs)
  moreover have "flow_step c1 c2" using grant_start [of c1 1 4] by (simp add: defs)
  moreover have "flow_step c2 c3" using grant_load_cap [of c2 1 4] by (simp add: defs)
  moreover have "flow_step c3 c4" unfolding c4_def by (rule take_ok) (simp_all add: defs)
  moreover have "flow_step c4 c5" using grant_load [of c4 1 4 10] by (simp add: defs)
  moreover have "flow_step c5 c6" unfolding c6_def by (rule grant_ok) (simp_all add: defs)
  ultimately have "flow_step\<^sup>*\<^sup>* (flow_init 10) c6" by (meson converse_rtranclp_into_rtranclp rtranclp.rtrancl_refl)
  moreover have "fc_taken c6 = 7" "fc_granted c6 = 4" by (simp_all add: defs)
  ultimately show ?thesis by blast
qed

theorem flow_never_oversells_witness:
  "\<exists>c. flow_step\<^sup>*\<^sup>* (flow_init 10) c \<and> fc_taken c = 7 \<and> unat (cf_available (fc_flow c)) + 7 \<le> unat (10 :: u64) + 4"
  using flow_demo flow_never_oversells by metis

text \<open>After the window was shrunk, the next grant recalls credit: available credit above the new
  capacity is cut to the capacity, whatever is granted, although shrinking is meant to honour
  credit already extended.\<close>

theorem grant_recalls_credit:
  assumes "cf_capacity f < cf_available f"
  shows "cf_available (grant n f) = cf_capacity f \<and> cf_available (grant n f) < cf_available f"
proof -
  have "cf_available f \<le> sat_add64 (cf_available f) n"
    using unsigned_less [of "cf_available f", where ?'a = nat] by (simp add: word_le_nat_alt unat_sat_add64)
  then have "cf_available (grant n f) = cf_capacity f" using assms by (auto simp: grant_def min_def)
  then show ?thesis using assms by simp
qed

theorem grant_recalls_credit_witness:
  "cf_available (reaim 100 (flow_new 1000)) = 1000 \<and> cf_available (grant 1 (reaim 100 (flow_new 1000))) = 100"
proof -
  have f: "reaim 100 (flow_new 1000) = \<lparr>cf_available = 1000, cf_capacity = 100\<rparr>" by (simp add: reaim_def flow_new_def)
  show ?thesis unfolding f using grant_recalls_credit [of "\<lparr>cf_available = 1000, cf_capacity = 100\<rparr>" 1] by simp
qed

end
