(* ===== verification/Incremental.thy ===== *)
theory Incremental
  imports Blocks "HOL-Library.AList" "HOL-Library.Multiset" "HOL-Library.Product_Lexorder"
begin

text \<open>
  The incremental pruner (\<open>crates/prune/src/incremental.rs\<close>): an ordered map from (score, sequence number)
  to ids, an index by id, and the total size of the survivors, kept within a budget of blocks or of
  bytes by evicting the lowest score.  The ordered map is a list of pairs with rising keys, the
  hash map an association list whose order nothing depends on.  The scorer is a field, as in the
  code.  The total is a \<open>usize\<close> that wraps, as the release profile has it.  The clock is a natural number:
  \<open>u64\<close> would overflow after \<open>2 ^ 64\<close> insertions.
\<close>

section \<open>Operations\<close>

datatype budget = Blocks nat | Tokens nat

record scored_block =
  sb_id :: block_id
  sb_score :: nat
  sb_seq :: nat
  sb_size :: nat

record pruner =
  pr_budget :: budget
  pr_ordered :: "((nat \<times> nat) \<times> block_id) list"
  pr_index :: "(block_id \<times> (nat \<times> nat \<times> nat)) list"
  pr_total :: nat
  pr_clock :: nat
  pr_scorer :: "nat \<Rightarrow> nat \<Rightarrow> nat"

text \<open>\<open>(seq << 20) | min(size, 2^20 - 1)\<close> on 64 bits\<close>

definition default_score :: "nat \<Rightarrow> nat \<Rightarrow> nat" where
  "default_score sq sz = (push_bit 20 sq mod 2 ^ 64) OR min sz (2 ^ 20 - 1)"

definition pruner_new_with :: "budget \<Rightarrow> (nat \<Rightarrow> nat \<Rightarrow> nat) \<Rightarrow> pruner" where
  "pruner_new_with b scorer =
     \<lparr>pr_budget = b, pr_ordered = [], pr_index = [], pr_total = 0, pr_clock = 0, pr_scorer = scorer\<rparr>"

definition pruner_new :: "nat \<Rightarrow> pruner" where
  "pruner_new b = pruner_new_with (Blocks b) default_score"

definition new_token_budget :: "nat \<Rightarrow> pruner" where
  "new_token_budget b = pruner_new_with (Tokens b) default_score"

text \<open>\<open>BTreeMap::insert\<close> and \<open>BTreeMap::remove\<close>\<close>

fun bt_insert :: "'k::linorder \<Rightarrow> 'v \<Rightarrow> ('k \<times> 'v) list \<Rightarrow> ('k \<times> 'v) list" where
  "bt_insert k v [] = [(k, v)]"
| "bt_insert k v ((k', v') # m) =
     (if k < k' then (k, v) # (k', v') # m
      else if k = k' then (k, v) # m
      else (k', v') # bt_insert k v m)"

definition bt_remove :: "'k \<Rightarrow> ('k \<times> 'v) list \<Rightarrow> ('k \<times> 'v) list" where
  "bt_remove k m = filter (\<lambda>e. fst e \<noteq> k) m"

definition over_budget :: "pruner \<Rightarrow> bool" where
  "over_budget p \<longleftrightarrow>
     (case pr_budget p of
        Blocks b \<Rightarrow> length (pr_ordered p) > b
      | Tokens b \<Rightarrow> pr_total p > b \<and> length (pr_ordered p) > 1)"

function evict_loop :: "pruner \<Rightarrow> block_id option \<Rightarrow> (block_id option \<times> pruner, string) outcome" where
  "evict_loop p evicted =
     (if \<not> over_budget p then Ok (evicted, p)
      else case pr_ordered p of
        [] \<Rightarrow> Panic
      | (k, ev_id) # rest \<Rightarrow>
          (case map_of (pr_index p) ev_id of
             None \<Rightarrow> Panic
           | Some (s, q, ev_size) \<Rightarrow>
               (let p' = p\<lparr>pr_ordered := rest, pr_index := AList.delete ev_id (pr_index p),
                            pr_total := usize_sub (pr_total p) ev_size\<rparr>;
                    evicted' = (if evicted = None then Some ev_id else evicted)
                in case pr_budget p of Blocks b \<Rightarrow> Ok (evicted', p') | Tokens b \<Rightarrow> evict_loop p' evicted')))"
  by pat_completeness auto
termination by (relation "measure (\<lambda>(p, e). length (pr_ordered p))") auto

declare evict_loop.simps [simp del]

definition remove_old :: "block_id \<Rightarrow> pruner \<Rightarrow> pruner" where
  "remove_old i p =
     (case map_of (pr_index p) i of
        None \<Rightarrow> p
      | Some (s, old_seq, old_size) \<Rightarrow>
          p\<lparr>pr_ordered := bt_remove (s, old_seq) (pr_ordered p), pr_total := usize_sub (pr_total p) old_size\<rparr>)"

definition add_new :: "block_id \<Rightarrow> nat \<Rightarrow> pruner \<Rightarrow> pruner" where
  "add_new i sz p =
     (let clock = pr_clock p + 1; s = pr_scorer p clock sz
      in p\<lparr>pr_clock := clock, pr_ordered := bt_insert (s, clock) i (pr_ordered p),
           pr_index := AList.update i (s, clock, sz) (pr_index p), pr_total := usize_add (pr_total p) sz\<rparr>)"

definition pruner_insert :: "block_id \<Rightarrow> nat \<Rightarrow> pruner \<Rightarrow> (block_id option \<times> pruner, string) outcome" where
  "pruner_insert i sz p = evict_loop (add_new i sz (remove_old i p)) None"

definition pruner_window :: "pruner \<Rightarrow> block_id list" where
  "pruner_window p = map snd (rev (pr_ordered p))"

definition window_ordered :: "pruner \<Rightarrow> block_id list" where
  "window_ordered p = map fst (sort_key snd (map (\<lambda>(i, s, q, z). (i, q)) (pr_index p)))"

definition pruner_len :: "pruner \<Rightarrow> nat" where "pruner_len p = length (pr_ordered p)"
definition pruner_is_empty :: "pruner \<Rightarrow> bool" where "pruner_is_empty p \<longleftrightarrow> pr_ordered p = []"
definition pruner_total_size :: "pruner \<Rightarrow> nat" where "pruner_total_size p = pr_total p"

section \<open>The survivors as one list\<close>

text \<open>
  The pruner stands for a list of scored blocks with rising (score, sequence number): the ordered map,
  the index and the total are three views of it.
\<close>

definition sb_key :: "scored_block \<Rightarrow> nat \<times> nat" where "sb_key e = (sb_score e, sb_seq e)"

definition sizes :: "scored_block list \<Rightarrow> nat" where "sizes es = sum_list (map sb_size es)"

text \<open>What the counter shows.\<close>

definition counted :: "scored_block list \<Rightarrow> nat" where "counted es = sizes es mod 2 ^ 64"

definition models :: "pruner \<Rightarrow> scored_block list \<Rightarrow> bool" where
  "models p es \<longleftrightarrow>
     pr_ordered p = map (\<lambda>e. (sb_key e, sb_id e)) es \<and>
     mset (pr_index p) = mset (map (\<lambda>e. (sb_id e, sb_score e, sb_seq e, sb_size e)) es) \<and>
     pr_total p = counted es \<and>
     sorted_wrt (<) (map sb_key es) \<and> distinct (map sb_id es) \<and> distinct (map sb_seq es) \<and>
     (\<forall>e \<in> set es. sb_seq e \<le> pr_clock p)"

fun trim :: "budget \<Rightarrow> scored_block list \<Rightarrow> scored_block list" where
  "trim (Blocks b) es = (if b < length es then tl es else es)"
| "trim (Tokens b) (e # e' # es) = (if b < counted (e # e' # es) then trim (Tokens b) (e' # es) else e # e' # es)"
| "trim (Tokens b) es = es"

definition spec_insert :: "budget \<Rightarrow> scored_block \<Rightarrow> scored_block list \<Rightarrow> scored_block list" where
  "spec_insert b e es = trim b (insort_key sb_key e (filter (\<lambda>x. sb_id x \<noteq> sb_id e) es))"

lemma models_new: "models (pruner_new_with b f) []"
  by (simp add: models_def pruner_new_with_def counted_def sizes_def)

lemma models_ids: "models p es \<Longrightarrow> mset (map fst (pr_index p)) = mset (map sb_id es)"
proof -
  assume "models p es"
  then have "image_mset fst (mset (pr_index p)) = image_mset fst (mset (map (\<lambda>e. (sb_id e, sb_score e, sb_seq e, sb_size e)) es))"
    by (simp add: models_def)
  then show ?thesis by (simp add: image_mset.compositionality comp_def)
qed

lemma models_distinct: "models p es \<Longrightarrow> distinct (map fst (pr_index p))"
  using models_ids [of p es] mset_eq_imp_distinct_iff by (fastforce simp: models_def simp del: mset_map)

lemma models_lookup:
  assumes "models p es"
  shows "map_of (pr_index p) i = Some (s, q, z) \<longleftrightarrow> \<lparr>sb_id = i, sb_score = s, sb_seq = q, sb_size = z\<rparr> \<in> set es"
proof -
  have "set (pr_index p) = set (map (\<lambda>e. (sb_id e, sb_score e, sb_seq e, sb_size e)) es)"
    using assms mset_eq_setD unfolding models_def by blast
  then have m: "map_of (pr_index p) i = Some (s, q, z) \<longleftrightarrow> (\<exists>e \<in> set es. (i, s, q, z) = (sb_id e, sb_score e, sb_seq e, sb_size e))"
    using models_distinct [OF assms] by (auto simp: image_iff)
  show ?thesis unfolding m
  proof
    assume "\<exists>e \<in> set es. (i, s, q, z) = (sb_id e, sb_score e, sb_seq e, sb_size e)"
    then obtain e where e: "e \<in> set es" "i = sb_id e" "s = sb_score e" "q = sb_seq e" "z = sb_size e" by auto
    then have "\<lparr>sb_id = i, sb_score = s, sb_seq = q, sb_size = z\<rparr> = e" by (intro scored_block.equality) simp_all
    then show "\<lparr>sb_id = i, sb_score = s, sb_seq = q, sb_size = z\<rparr> \<in> set es" using e(1) by simp
  qed (rule bexI, auto)
qed

lemma models_lookup_None: "models p es \<Longrightarrow> map_of (pr_index p) i = None \<longleftrightarrow> i \<notin> sb_id ` set es"
  using mset_eq_setD [OF models_ids, of p es] by (auto simp: map_of_eq_None_iff)

lemma bt_insert_map:
  "sb_key e \<notin> sb_key ` set es \<Longrightarrow>
   bt_insert (sb_key e) (sb_id e) (map (\<lambda>e. (sb_key e, sb_id e)) es) = map (\<lambda>e. (sb_key e, sb_id e)) (insort_key sb_key e es)"
  by (induction es) auto

lemma mset_AList_update:
  "distinct (map fst al) \<Longrightarrow> mset (AList.update k v al) = add_mset (k, v) (mset (filter (\<lambda>e. fst e \<noteq> k) al))"
proof (induction al)
  case (Cons a al)
  have "filter (\<lambda>e. fst e \<noteq> fst a) al = al" using Cons.prems by (intro filter_True) (auto simp: image_iff)
  then have "{#x \<in># mset al. fst x \<noteq> fst a#} = mset al" by (metis mset_filter)
  then show ?case using Cons by (cases a) auto
qed simp

lemma mset_filter_cong: "mset xs = mset ys \<Longrightarrow> mset (filter P xs) = mset (filter P ys)"
  by (metis mset_filter)

lemma sizes_filter: "i \<notin> sb_id ` set es \<Longrightarrow> filter (\<lambda>x. sb_id x \<noteq> i) es = es"
  by (auto simp: filter_id_conv)

lemma sizes_remove:
  "distinct (map sb_id es) \<Longrightarrow> e \<in> set es \<Longrightarrow> sizes es = sb_size e + sizes (filter (\<lambda>x. sb_id x \<noteq> sb_id e) es)"
proof (induction es)
  case (Cons a es)
  show ?case
  proof (cases "a = e")
    case True
    then show ?thesis using Cons.prems sizes_filter [of "sb_id e" es] by (simp add: sizes_def)
  next
    case False
    then have "sb_id a \<noteq> sb_id e" using Cons.prems by auto
    then show ?thesis using Cons False by (simp add: sizes_def)
  qed
qed simp

lemma bt_remove_map:
  "distinct (map sb_id es) \<Longrightarrow> distinct (map sb_seq es) \<Longrightarrow> e \<in> set es \<Longrightarrow>
   bt_remove (sb_key e) (map (\<lambda>e. (sb_key e, sb_id e)) es) = map (\<lambda>e. (sb_key e, sb_id e)) (filter (\<lambda>x. sb_id x \<noteq> sb_id e) es)"
proof -
  assume d: "distinct (map sb_id es)" "distinct (map sb_seq es)" "e \<in> set es"
  have "filter (\<lambda>x. sb_key x \<noteq> sb_key e) es = filter (\<lambda>x. sb_id x \<noteq> sb_id e) es"
  proof (rule filter_cong [OF refl])
    fix x assume "x \<in> set es"
    moreover have "inj_on sb_id (set es)" "inj_on sb_seq (set es)" using d by (simp_all add: distinct_map)
    ultimately show "sb_key x \<noteq> sb_key e \<longleftrightarrow> sb_id x \<noteq> sb_id e"
      using d(3) by (auto simp: sb_key_def dest: inj_onD)
  qed
  then show ?thesis by (simp add: bt_remove_def filter_map comp_def)
qed

lemma remove_old_models:
  assumes "models p es"
  shows "pr_ordered (remove_old i p) = map (\<lambda>e. (sb_key e, sb_id e)) (filter (\<lambda>x. sb_id x \<noteq> i) es)"
    "pr_total (remove_old i p) = counted (filter (\<lambda>x. sb_id x \<noteq> i) es)" "pr_index (remove_old i p) = pr_index p"
    "pr_clock (remove_old i p) = pr_clock p" "pr_scorer (remove_old i p) = pr_scorer p" "pr_budget (remove_old i p) = pr_budget p"
proof -
  have "pr_ordered (remove_old i p) = map (\<lambda>e. (sb_key e, sb_id e)) (filter (\<lambda>x. sb_id x \<noteq> i) es) \<and>
    pr_total (remove_old i p) = counted (filter (\<lambda>x. sb_id x \<noteq> i) es)"
  proof (cases "map_of (pr_index p) i")
    case None
    then have "filter (\<lambda>x. sb_id x \<noteq> i) es = es" using models_lookup_None [OF assms] sizes_filter by blast
    then show ?thesis using None assms by (simp add: remove_old_def models_def)
  next
    case (Some v)
    obtain s q z where v: "v = (s, q, z)" by (metis prod_cases3)
    define e where "e = \<lparr>sb_id = i, sb_score = s, sb_seq = q, sb_size = z\<rparr>"
    have e: "e \<in> set es" using models_lookup [OF assms] Some v by (simp add: e_def)
    have k: "sb_key e = (s, q)" "sb_id e = i" "sb_size e = z" by (simp_all add: e_def sb_key_def)
    have d: "distinct (map sb_id es)" "distinct (map sb_seq es)" and o: "pr_ordered p = map (\<lambda>e. (sb_key e, sb_id e)) es"
      "pr_total p = counted es" using assms by (simp_all add: models_def)
    have "usize_sub (counted es) z = counted (filter (\<lambda>x. sb_id x \<noteq> i) es)"
      using sizes_remove [OF d(1) e] k usize_sub_mod [of z "sizes es"] by (simp add: counted_def)
    then show ?thesis using Some v bt_remove_map [OF d e] o k by (simp add: remove_old_def)
  qed
  then show "pr_ordered (remove_old i p) = map (\<lambda>e. (sb_key e, sb_id e)) (filter (\<lambda>x. sb_id x \<noteq> i) es)"
    "pr_total (remove_old i p) = counted (filter (\<lambda>x. sb_id x \<noteq> i) es)" by simp_all
qed (simp_all add: remove_old_def split: option.split)

definition new_entry :: "block_id \<Rightarrow> nat \<Rightarrow> pruner \<Rightarrow> scored_block" where
  "new_entry i z p = \<lparr>sb_id = i, sb_score = pr_scorer p (pr_clock p + 1) z, sb_seq = pr_clock p + 1, sb_size = z\<rparr>"

lemma sizes_insort [simp]: "sizes (insort_key f e es) = sb_size e + sizes es"
  by (induction es) (auto simp: sizes_def)

lemma distinct_map_insort: "f e \<notin> f ` set es \<Longrightarrow> distinct (map f es) \<Longrightarrow> distinct (map f (insort_key g e es))"
  by (induction es) (auto simp: set_insort_key)

lemma add_new_models:
  assumes "models p es" "p1 = remove_old i p"
  shows "models (add_new i z p1) (insort_key sb_key (new_entry i z p) (filter (\<lambda>x. sb_id x \<noteq> i) es)) \<and>
    pr_budget (add_new i z p1) = pr_budget p \<and> pr_scorer (add_new i z p1) = pr_scorer p \<and>
    pr_clock (add_new i z p1) = pr_clock p + 1"
proof -
  let ?e = "new_entry i z p" and ?fs = "filter (\<lambda>x. sb_id x \<noteq> i) es"
  let ?row = "\<lambda>e. (sb_id e, sb_score e, sb_seq e, sb_size e)"
  have p1: "pr_ordered p1 = map (\<lambda>e. (sb_key e, sb_id e)) ?fs" "pr_total p1 = counted ?fs" "pr_index p1 = pr_index p"
    "pr_clock p1 = pr_clock p" "pr_scorer p1 = pr_scorer p" "pr_budget p1 = pr_budget p"
    unfolding assms(2) by (rule remove_old_models [OF assms(1)])+
  have m: "mset (pr_index p) = mset (map ?row es)" "sorted_wrt (<) (map sb_key es)" "distinct (map sb_id es)"
    "distinct (map sb_seq es)" "\<forall>e \<in> set es. sb_seq e \<le> pr_clock p" using assms(1) by (simp_all add: models_def)
  have fresh: "sb_seq ?e \<notin> sb_seq ` set es" "sb_key ?e \<notin> sb_key ` set ?fs"
    using m(5) by (auto simp: new_entry_def sb_key_def)
  have k: "sb_key ?e = (pr_scorer p (pr_clock p + 1) z, pr_clock p + 1)" "sb_id ?e = i" "sb_size ?e = z"
    by (simp_all add: new_entry_def sb_key_def)
  have o: "pr_ordered (add_new i z p1) = map (\<lambda>e. (sb_key e, sb_id e)) (insort_key sb_key ?e ?fs)"
    using bt_insert_map [OF fresh(2)] p1 k by (simp add: add_new_def Let_def)
  have "mset (filter (\<lambda>e. fst e \<noteq> i) (pr_index p)) = mset (filter (\<lambda>e. fst e \<noteq> i) (map ?row es))"
    using m(1) by (rule mset_filter_cong)
  then have x: "mset (pr_index (add_new i z p1)) = mset (map ?row (insort_key sb_key ?e ?fs))"
    using mset_AList_update [OF models_distinct [OF assms(1)], of i] p1
    by (simp add: add_new_def Let_def filter_map comp_def new_entry_def)
  have "distinct (map sb_key es)" using m(2) strict_sorted_iff by blast
  then have "distinct (map sb_key ?fs)" by (rule distinct_map_filter)
  then have "distinct (map sb_key (insort_key sb_key ?e ?fs))"
    by (rule distinct_map_insort [OF fresh(2)])
  moreover have "sorted (map sb_key ?fs)" using m(2) by (metis sorted_filter strict_sorted_iff)
  ultimately have st: "sorted_wrt (<) (map sb_key (insort_key sb_key ?e ?fs))"
    by (simp add: strict_sorted_iff sorted_insort_key)
  have "distinct (map sb_id ?fs)" "distinct (map sb_seq ?fs)" using m(3,4) by (simp_all add: distinct_map_filter)
  then have d: "distinct (map sb_id (insort_key sb_key ?e ?fs))" "distinct (map sb_seq (insort_key sb_key ?e ?fs))"
    using fresh(1) k(2) by (auto intro!: distinct_map_insort)
  have "pr_total (add_new i z p1) = counted (insort_key sb_key ?e ?fs)"
    using p1(2) k(3) usize_add_mod [of "sizes ?fs" z] by (simp add: add_new_def Let_def counted_def add.commute)
  then show ?thesis using o x st d p1 m(5)
    by (auto simp: models_def add_new_def Let_def set_insort_key new_entry_def k)
qed

lemma models_tail:
  assumes "models p (e # es)"
  shows "models (p\<lparr>pr_ordered := tl (pr_ordered p), pr_index := AList.delete (sb_id e) (pr_index p), pr_total := usize_sub (pr_total p) (sb_size e)\<rparr>) es"
proof -
  let ?row = "\<lambda>e. (sb_id e, sb_score e, sb_seq e, sb_size e)"
  have "mset (filter (\<lambda>x. fst x \<noteq> sb_id e) (pr_index p)) = mset (filter (\<lambda>x. fst x \<noteq> sb_id e) (map ?row (e # es)))"
    using assms by (intro mset_filter_cong) (simp add: models_def)
  moreover have "filter (\<lambda>x. fst x \<noteq> sb_id e) (map ?row es) = map ?row es"
    using assms by (intro filter_True) (auto simp: models_def image_iff)
  moreover have "AList.delete (sb_id e) (pr_index p) = filter (\<lambda>x. fst x \<noteq> sb_id e) (pr_index p)"
    by (auto simp: AList.delete_eq intro: filter_cong)
  ultimately have "mset (AList.delete (sb_id e) (pr_index p)) = mset (map ?row es)" by simp
  moreover have "usize_sub (pr_total p) (sb_size e) = counted es"
    using assms usize_sub_mod [of "sb_size e" "sizes (e # es)"] by (simp add: models_def counted_def sizes_def)
  ultimately show ?thesis using assms by (simp add: models_def)
qed

lemma evict_step:
  assumes "models p (e # es)" "over_budget p"
  defines "p' \<equiv> p\<lparr>pr_ordered := tl (pr_ordered p), pr_index := AList.delete (sb_id e) (pr_index p), pr_total := usize_sub (pr_total p) (sb_size e)\<rparr>"
  shows "evict_loop p ev = (case pr_budget p of
      Blocks b \<Rightarrow> Ok (if ev = None then Some (sb_id e) else ev, p')
    | Tokens b \<Rightarrow> evict_loop p' (if ev = None then Some (sb_id e) else ev))"
proof -
  have "map_of (pr_index p) (sb_id e) = Some (sb_score e, sb_seq e, sb_size e)"
    using models_lookup [OF assms(1)] by simp
  moreover have o: "pr_ordered p = (sb_key e, sb_id e) # map (\<lambda>e. (sb_key e, sb_id e)) es"
    using assms(1) by (simp add: models_def)
  ultimately show ?thesis using assms(2) unfolding p'_def evict_loop.simps [of p] o
    by (simp add: Let_def split: budget.split)
qed

lemma over_budget_models:
  "models p es \<Longrightarrow> over_budget p \<longleftrightarrow> (case pr_budget p of Blocks b \<Rightarrow> b < length es | Tokens b \<Rightarrow> b < counted es \<and> 1 < length es)"
  by (cases "pr_budget p") (simp_all add: over_budget_def models_def)

text \<open>The loop leaves what trimming leaves, and reports the first survivor it removed.\<close>

lemma evict_loop_models:
  assumes "models p es" "case pr_budget p of Blocks b \<Rightarrow> length es \<le> Suc b | Tokens b \<Rightarrow> True"
  shows "\<exists>p'. evict_loop p ev = Ok (if ev = None \<and> trim (pr_budget p) es \<noteq> es then Some (sb_id (hd es)) else ev, p') \<and>
    models p' (trim (pr_budget p) es) \<and> pr_budget p' = pr_budget p \<and> pr_clock p' = pr_clock p \<and> pr_scorer p' = pr_scorer p"
  using assms
proof (induction es arbitrary: p ev)
  case Nil
  then show ?case by (cases "pr_budget p") (simp_all add: over_budget_models evict_loop.simps)
next
  case (Cons e es)
  let ?p = "p\<lparr>pr_ordered := tl (pr_ordered p), pr_index := AList.delete (sb_id e) (pr_index p), pr_total := usize_sub (pr_total p) (sb_size e)\<rparr>"
  show ?case
  proof (cases "over_budget p")
    case False
    then have "trim (pr_budget p) (e # es) = e # es"
      using over_budget_models [OF Cons.prems(1)] by (cases "pr_budget p"; cases es) auto
    then show ?thesis using False Cons.prems(1) by (simp add: evict_loop.simps [of p])
  next
    case True
    note step = evict_step [OF Cons.prems(1) True, of ev] and m = models_tail [OF Cons.prems(1)]
    show ?thesis
    proof (cases "pr_budget p")
      case (Blocks b)
      then show ?thesis using step m True over_budget_models [OF Cons.prems(1)] by auto
    next
      case (Tokens b)
      then obtain e' es' where es: "es = e' # es'" using True over_budget_models [OF Cons.prems(1)] by (cases es) auto
      have t: "trim (Tokens b) (e # es) = trim (Tokens b) es" "trim (Tokens b) es \<noteq> e # es"
      proof -
        show "trim (Tokens b) (e # es) = trim (Tokens b) es"
          using True Tokens over_budget_models [OF Cons.prems(1)] es by simp
        have "length (trim bu xs) \<le> length xs" for bu xs by (induction bu xs rule: trim.induct) auto
        then show "trim (Tokens b) es \<noteq> e # es" by (metis impossible_Cons)
      qed
      obtain p' where "evict_loop ?p (if ev = None then Some (sb_id e) else ev) = Ok (if ev = None then Some (sb_id e) else ev, p')"
        "models p' (trim (Tokens b) es)" "pr_budget p' = pr_budget p" "pr_clock p' = pr_clock p" "pr_scorer p' = pr_scorer p"
        using Cons.IH [OF m, of "if ev = None then Some (sb_id e) else ev"] Tokens by auto
      then show ?thesis using step Tokens t by simp
    qed
  qed
qed

section \<open>Runs\<close>

fun insert_all :: "(block_id \<times> nat) list \<Rightarrow> pruner \<Rightarrow> (pruner, string) outcome" where
  "insert_all [] p = Ok p"
| "insert_all ((i, z) # xs) p = obind (pruner_insert i z p) (\<lambda>(ev, p'). insert_all xs p')"

text \<open>The same run on the list of survivors.\<close>

definition entry_at :: "(nat \<Rightarrow> nat \<Rightarrow> nat) \<Rightarrow> nat \<Rightarrow> block_id \<times> nat \<Rightarrow> scored_block" where
  "entry_at f c x = \<lparr>sb_id = fst x, sb_score = f c (snd x), sb_seq = c, sb_size = snd x\<rparr>"

fun spec_all :: "budget \<Rightarrow> (nat \<Rightarrow> nat \<Rightarrow> nat) \<Rightarrow> nat \<Rightarrow> (block_id \<times> nat) list \<Rightarrow> scored_block list \<Rightarrow> scored_block list" where
  "spec_all b f c [] es = es"
| "spec_all b f c (x # xs) es = spec_all b f (c + 1) xs (spec_insert b (entry_at f (c + 1) x) es)"

definition fits :: "budget \<Rightarrow> scored_block list \<Rightarrow> bool" where
  "fits b es \<longleftrightarrow> (case b of Blocks n \<Rightarrow> length es \<le> n | Tokens n \<Rightarrow> counted es \<le> n \<or> length es \<le> 1)"

lemma trim_fits: "(case b of Blocks n \<Rightarrow> length es \<le> Suc n | Tokens n \<Rightarrow> True) \<Longrightarrow> fits b (trim b es)"
  by (induction b es rule: trim.induct) (auto simp: fits_def)

lemma insort_filter_length: "fits b es \<Longrightarrow> case b of Blocks n \<Rightarrow> length (insort_key k e (filter P es)) \<le> Suc n | Tokens n \<Rightarrow> True"
  by (cases b) (auto simp: fits_def intro: order_trans [OF length_filter_le])

lemma pruner_insert_models:
  assumes "models p es" "fits (pr_budget p) es"
  obtains ev p' where "pruner_insert i z p = Ok (ev, p')" "models p' (spec_insert (pr_budget p) (new_entry i z p) es)"
    "fits (pr_budget p) (spec_insert (pr_budget p) (new_entry i z p) es)"
    "pr_budget p' = pr_budget p" "pr_clock p' = pr_clock p + 1" "pr_scorer p' = pr_scorer p"
proof -
  let ?is = "insort_key sb_key (new_entry i z p) (filter (\<lambda>x. sb_id x \<noteq> i) es)"
  define p1 where "p1 = remove_old i p"
  note a = add_new_models [OF assms(1) p1_def, of z]
  have len: "case pr_budget p of Blocks n \<Rightarrow> length ?is \<le> Suc n | Tokens n \<Rightarrow> True"
    using assms(2) by (rule insort_filter_length)
  have s: "spec_insert (pr_budget p) (new_entry i z p) es = trim (pr_budget p) ?is"
    by (simp add: spec_insert_def new_entry_def)
  obtain ev p' where "evict_loop (add_new i z p1) None = Ok (ev, p')" "models p' (trim (pr_budget p) ?is)"
    "pr_budget p' = pr_budget p" "pr_clock p' = pr_clock p + 1" "pr_scorer p' = pr_scorer p"
    using evict_loop_models [of "add_new i z p1" ?is None] a len by auto
  then show ?thesis using that [of ev p'] trim_fits [OF len] s by (simp add: pruner_insert_def p1_def)
qed

lemma insert_all_models:
  "models p es \<Longrightarrow> fits (pr_budget p) es \<Longrightarrow>
   \<exists>p'. insert_all xs p = Ok p' \<and> models p' (spec_all (pr_budget p) (pr_scorer p) (pr_clock p) xs es) \<and>
        fits (pr_budget p) (spec_all (pr_budget p) (pr_scorer p) (pr_clock p) xs es)"
proof (induction xs arbitrary: p es)
  case (Cons x xs)
  obtain ev p' where p': "pruner_insert (fst x) (snd x) p = Ok (ev, p')"
    "models p' (spec_insert (pr_budget p) (new_entry (fst x) (snd x) p) es)"
    "fits (pr_budget p) (spec_insert (pr_budget p) (new_entry (fst x) (snd x) p) es)"
    "pr_budget p' = pr_budget p" "pr_clock p' = pr_clock p + 1" "pr_scorer p' = pr_scorer p"
    using pruner_insert_models [OF Cons.prems] by metis
  have "new_entry (fst x) (snd x) p = entry_at (pr_scorer p) (pr_clock p + 1) x"
    by (simp add: new_entry_def entry_at_def)
  then show ?case using Cons.IH [OF p'(2)] p' by (cases x) simp
qed simp

lemma window_ordered_models: "models p es \<Longrightarrow> window_ordered p = map sb_id (sort_key sb_seq es)"
proof -
  assume m: "models p es"
  let ?row = "\<lambda>e. (sb_id e, sb_score e, sb_seq e, sb_size e)" and ?pr = "\<lambda>e. (sb_id e, sb_seq e)"
  let ?xs = "map (\<lambda>(i, s, q, z). (i, q)) (pr_index p)"
  have "image_mset (\<lambda>(i, s, q, z). (i, q)) (mset (pr_index p)) = image_mset (\<lambda>(i, s, q, z). (i, q)) (mset (map ?row es))"
    using m by (simp add: models_def)
  then have ms: "mset ?xs = mset (map ?pr (sort_key sb_seq es))"
    by (simp add: image_mset.compositionality comp_def)
  have "set ?xs = ?pr ` set es" using mset_eq_setD [OF ms] by simp
  moreover have "inj_on sb_seq (set es)" using m by (simp add: models_def distinct_map)
  ultimately have "inj_on snd (set ?xs)" by (auto simp: inj_on_def)
  then have "sort_key snd ?xs = map ?pr (sort_key sb_seq es)"
    using ms by (intro sort_key_inj_key_eq) (simp_all add: comp_def)
  then show ?thesis by (simp add: window_ordered_def comp_def)
qed

lemma window_models: "models p es \<Longrightarrow> pruner_window p = map sb_id (rev es)"
  by (simp add: pruner_window_def models_def rev_map comp_def)

lemma trim_subset: "set (trim b es) \<subseteq> set es"
proof (induction b es rule: trim.induct)
  case (1 b es)
  then show ?case by (cases es) auto
qed auto

lemma spec_all_sizes:
  "\<forall>e \<in> set es. map_of (rev ys) (sb_id e) = Some (sb_size e) \<Longrightarrow>
   \<forall>e \<in> set (spec_all b f c xs es). map_of (rev (ys @ xs)) (sb_id e) = Some (sb_size e)"
proof (induction xs arbitrary: ys es c)
  case (Cons x xs)
  have "\<forall>e \<in> set (spec_insert b (entry_at f (c + 1) x) es). map_of (rev (ys @ [x])) (sb_id e) = Some (sb_size e)"
    using Cons.prems trim_subset unfolding spec_insert_def
    by (cases x) (fastforce simp: set_insort_key entry_at_def)
  from Cons.IH [OF this, of "c + 1"] show ?case by simp
qed simp

text \<open>C30: Whatever the budget, the scorer and the sequence of insertions, with ids repeated or not, the pruner
  never panics and stays consistent: the survivors are distinct, both windows list the same ones, the counted total is the
  sum of the sizes they were last inserted with, modulo \<open>2 ^ 64\<close> as the counter wraps, and the budget
  holds of the survivors or of the counted total (a single survivor may exceed a budget of bytes).  The
  clock is taken not to wrap.\<close>

theorem pruner_invariant:
  "\<exists>p. insert_all xs (pruner_new_with b f) = Ok p \<and>
       distinct (window_ordered p) \<and> mset (pruner_window p) = mset (window_ordered p) \<and>
       pruner_len p = length (window_ordered p) \<and>
       pruner_total_size p = sum_list (map (\<lambda>i. the (map_of (rev xs) i)) (window_ordered p)) mod 2 ^ 64 \<and>
       (case b of Blocks n \<Rightarrow> pruner_len p \<le> n | Tokens n \<Rightarrow> pruner_total_size p \<le> n \<or> pruner_len p \<le> 1)"
proof -
  let ?es = "spec_all b f 0 xs []"
  obtain p where p: "insert_all xs (pruner_new_with b f) = Ok p" "models p ?es" "fits b ?es"
    using insert_all_models [OF models_new, of b f xs] by (cases b) (auto simp: fits_def pruner_new_with_def counted_def sizes_def)
  have sz: "the (map_of (rev xs) (sb_id e)) = sb_size e" if "e \<in> set ?es" for e
    using spec_all_sizes [of "[]" "[]" b f 0 xs] that by simp
  have w: "window_ordered p = map sb_id (sort_key sb_seq ?es)" by (rule window_ordered_models [OF p(2)])
  have "distinct (window_ordered p)"
    using p(2) by (simp add: w models_def distinct_map)
  moreover have "mset (pruner_window p) = mset (window_ordered p)" by (simp add: w window_models [OF p(2)])
  moreover have "pruner_len p = length ?es" "pruner_total_size p = counted ?es"
    using p(2) by (simp_all add: pruner_len_def pruner_total_size_def models_def)
  moreover have "sum_list (map (\<lambda>i. the (map_of (rev xs) i)) (window_ordered p)) = sizes ?es"
  proof -
    have "sum_list (map (\<lambda>i. the (map_of (rev xs) i)) (window_ordered p)) = sum_list (map sb_size (sort_key sb_seq ?es))"
      unfolding w list.map_comp using sz by (intro arg_cong [of _ _ sum_list] map_cong) simp_all
    also have "\<dots> = sum_list (map sb_size ?es)" by (simp flip: sum_mset_sum_list)
    finally show ?thesis by (simp add: sizes_def)
  qed
  ultimately show ?thesis using p(1,3) w by (intro exI [of _ p]) (auto simp: fits_def counted_def split: budget.splits)
qed

section \<open>The survivors are the best blocks of the log\<close>

lemma spec_all_append: "spec_all b f c (xs @ ys) es = spec_all b f (c + length xs) ys (spec_all b f c xs es)"
  by (induction xs arbitrary: c es) simp_all

text \<open>Every block of the log, scored as it was inserted.\<close>

definition scored :: "(nat \<Rightarrow> nat \<Rightarrow> nat) \<Rightarrow> (block_id \<times> nat) list \<Rightarrow> scored_block list" where
  "scored f xs = map (\<lambda>(c, x). entry_at f c x) (enumerate 1 xs)"

lemma scored_snoc: "scored f (xs @ [x]) = scored f xs @ [entry_at f (length xs + 1) x]"
  by (simp add: scored_def enumerate_append_eq)

lemma scored_ids [simp]: "map sb_id (scored f xs) = map fst xs" "length (scored f xs) = length xs"
  by (induction xs rule: rev_induct) (simp_all add: scored_snoc entry_at_def, simp_all add: scored_def)

lemma scored_seqs: "map sb_seq (scored f xs) = [1..<Suc (length xs)]"
  by (induction xs rule: rev_induct) (simp_all add: scored_snoc entry_at_def, simp_all add: scored_def)

lemma scored_sizes: "sizes (scored f xs) = sum_list (map snd xs)"
  by (induction xs rule: rev_induct) (simp_all add: scored_snoc entry_at_def sizes_def, simp add: scored_def)

lemma spec_insert_new: "sb_id e \<notin> sb_id ` set es \<Longrightarrow> spec_insert b e es = trim b (insort_key sb_key e es)"
  by (simp add: spec_insert_def sizes_filter)

lemma insort_append:
  "sorted (map k (ys @ zs)) \<Longrightarrow>
   insort_key k x (ys @ zs) = (if \<exists>y \<in> set ys. k x \<le> k y then insort_key k x ys @ zs else ys @ insort_key k x zs)"
  by (induction ys) auto

text \<open>Keeping the best \<open>n\<close> of a sorted list can be done one insertion at a time.\<close>

lemma best_insort:
  assumes "sorted (map sb_key S)" "sb_key e \<notin> sb_key ` set S"
  shows "trim (Blocks n) (insort_key sb_key e (drop (length S - n) S)) = drop (Suc (length S) - n) (insort_key sb_key e S)"
proof (cases "length S < n")
  case False
  define A T where "A = take (length S - n) S" and "T = drop (length S - n) S"
  have S: "S = A @ T" "length T = n" "length A = length S - n" using False by (simp_all add: A_def T_def)
  have i: "insort_key sb_key e S = (if \<exists>y \<in> set A. sb_key e \<le> sb_key y then insort_key sb_key e A @ T else A @ insort_key sb_key e T)"
    using insort_append [of sb_key A T e] assms(1) S(1) by simp
  have d: "Suc (length S) - n = Suc (length A)" using False S(3) by simp
  show ?thesis
  proof (cases "\<exists>y \<in> set A. sb_key e \<le> sb_key y")
    case True
    then have "\<forall>t \<in> set T. sb_key e \<le> sb_key t" using assms(1) S(1) by (fastforce simp: sorted_append)
    then have "insort_key sb_key e T = e # T" by (cases T) simp_all
    then show ?thesis using True i d S(2) by (simp add: T_def [symmetric])
  next
    case False
    then show ?thesis using i d S(2) by (simp add: T_def [symmetric] drop_Suc)
  qed
qed simp

lemma inj_key: "inj_on sb_seq A \<Longrightarrow> inj_on sb_key A"
  unfolding inj_on_def sb_key_def by simp

lemma spec_all_best:
  "distinct (map fst xs) \<Longrightarrow>
   spec_all (Blocks n) f 0 xs [] = drop (length xs - n) (sort_key sb_key (scored f xs))"
proof (induction xs rule: rev_induct)
  case (snoc x xs)
  let ?S = "sort_key sb_key (scored f xs)" and ?e = "entry_at f (length xs + 1) x"
  have fr: "sb_id ?e \<notin> sb_id ` set (drop (length xs - n) ?S)"
  proof
    assume "sb_id ?e \<in> sb_id ` set (drop (length xs - n) ?S)"
    then have "sb_id ?e \<in> sb_id ` set (scored f xs)" using set_drop_subset [of _ ?S] by auto
    also have "sb_id ` set (scored f xs) = set (map fst xs)" by (metis scored_ids(1) set_map)
    finally show False using snoc.prems by (auto simp: entry_at_def)
  qed
  have "sb_seq e \<noteq> length xs + 1" if "e \<in> set (scored f xs)" for e
  proof -
    have "sb_seq e \<in> set (map sb_seq (scored f xs))" using that by simp
    then show ?thesis unfolding scored_seqs by auto
  qed
  then have k: "sb_key ?e \<notin> sb_key ` set ?S" by (fastforce simp: sb_key_def entry_at_def)
  have "spec_all (Blocks n) f 0 (xs @ [x]) [] = trim (Blocks n) (insort_key sb_key ?e (drop (length xs - n) ?S))"
    using snoc fr by (simp add: spec_all_append spec_insert_new del: trim.simps)
  also have "\<dots> = drop (Suc (length xs) - n) (insort_key sb_key ?e ?S)"
    using best_insort [OF _ k, of n] by simp
  also have "insort_key sb_key ?e ?S = sort_key sb_key (scored f (xs @ [x]))"
    unfolding scored_snoc
  proof (rule sym, rule sort_key_inj_key_eq)
    show "mset (scored f xs @ [?e]) = mset (insort_key sb_key ?e ?S)" by simp
    have "distinct (map sb_seq (scored f xs @ [?e]))" using scored_seqs [of f "xs @ [x]"] scored_snoc [of f xs x] distinct_upt by metis
    then show "inj_on sb_key (set (scored f xs @ [?e]))" unfolding distinct_map by (blast intro: inj_key)
    show "sorted (map sb_key (insort_key sb_key ?e ?S))" by (simp add: sorted_insort_key)
  qed
  finally show ?case by simp
qed (simp add: scored_def)

text \<open>C31: With a budget of blocks and any scorer, the window over a log of distinct blocks is what a rescan of the
  whole log would choose: sort all blocks by score, the later one first among equals, and keep the
  best \<open>n\<close>.\<close>

theorem pruner_top_k:
  assumes "distinct (map fst xs)"
  shows "\<exists>p. insert_all xs (pruner_new_with (Blocks n) f) = Ok p \<and>
    pruner_window p = map sb_id (take n (rev (sort_key sb_key (scored f xs))))"
proof -
  obtain p where p: "insert_all xs (pruner_new_with (Blocks n) f) = Ok p" "models p (spec_all (Blocks n) f 0 xs [])"
    using insert_all_models [OF models_new, of "Blocks n" f xs] by (auto simp: fits_def pruner_new_with_def)
  have "rev (drop (length xs - n) (sort_key sb_key (scored f xs))) = take n (rev (sort_key sb_key (scored f xs)))"
    by (cases "n \<le> length xs") (simp_all add: rev_drop)
  then show ?thesis using p window_models [OF p(2)] by (simp add: spec_all_best [OF assms])
qed

theorem pruner_top_k_witness:
  "\<exists>p. insert_all [([1], 10), ([2], 50), ([3], 30)] (pruner_new_with (Blocks 2) (\<lambda>sq sz. sz)) = Ok p \<and> pruner_window p = [[2], [3]]"
  using pruner_top_k [of "[([1], 10), ([2], 50), ([3], 30)]" 2 "\<lambda>sq sz. sz"]
  by (simp add: scored_def entry_at_def sb_key_def)

section \<open>Byte budgets keep the most recent blocks\<close>

text \<open>While the sizes of the whole log stay below \<open>2 ^ 64\<close> the counter is the sum.\<close>

lemma counted_exact: "sizes es < 2 ^ 64 \<Longrightarrow> counted es = sizes es"
  by (simp add: counted_def)

lemma trim_snoc: "sizes (S @ [e]) < 2 ^ 64 \<Longrightarrow> trim (Tokens b) (trim (Tokens b) S @ [e]) = trim (Tokens b) (S @ [e])"
proof (induction "Tokens b" S rule: trim.induct)
  case (2 x y S)
  then have "sizes (x # y # S) < 2 ^ 64" "sizes (y # S @ [e]) < 2 ^ 64" by (simp_all add: sizes_def)
  then show ?case using 2 by (cases S) (auto simp: counted_exact sizes_def)
qed simp_all

lemma insort_last: "(\<And>x. x \<in> set xs \<Longrightarrow> k x < k e) \<Longrightarrow> insort_key k e xs = xs @ [e]"
  by (induction xs) (simp_all add: not_le [symmetric])

lemma spec_all_recent:
  assumes "distinct (map fst xs)" "\<And>c c' z z'. c < c' \<Longrightarrow> c' \<le> length xs \<Longrightarrow> f c z < f c' z'" "sum_list (map snd xs) < 2 ^ 64"
  shows "spec_all (Tokens b) f 0 xs [] = trim (Tokens b) (scored f xs)"
  using assms
proof (induction xs rule: rev_induct)
  case (snoc x xs)
  let ?S = "trim (Tokens b) (scored f xs)" and ?e = "entry_at f (length xs + 1) x"
  have "sb_id ?e \<notin> sb_id ` set (scored f xs)"
    using snoc.prems(1) scored_ids(1) [of f xs] set_map [of sb_id "scored f xs"] by (auto simp: entry_at_def)
  then have fr: "sb_id ?e \<notin> sb_id ` set ?S" using trim_subset by blast
  have "sb_key y < sb_key ?e" if "y \<in> set ?S" for y
  proof -
    have y: "y \<in> set (scored f xs)" using trim_subset that by blast
    then obtain c z where c: "sb_score y = f c z" "sb_seq y = c"
      by (auto simp: scored_def entry_at_def in_set_enumerate_eq)
    have "c \<in> set (map sb_seq (scored f xs))" using y c(2) by auto
    then have "c \<le> length xs" unfolding scored_seqs by auto
    then show ?thesis using snoc.prems(2) [of c "length xs + 1" z "snd x"] c by (simp add: sb_key_def entry_at_def less_prod_def)
  qed
  then have "insort_key sb_key ?e ?S = ?S @ [?e]" by (rule insort_last)
  moreover have "spec_all (Tokens b) f 0 xs [] = ?S" using snoc by simp
  moreover have "sizes (scored f xs @ [?e]) < 2 ^ 64"
    using snoc.prems(3) scored_sizes [of f "xs @ [x]"] by (simp add: scored_snoc)
  ultimately show ?case using fr by (simp add: spec_all_append spec_insert_new trim_snoc scored_snoc)
qed (simp add: scored_def)

lemma default_score_rising:
  assumes "c < c'" "c' < 2 ^ 44"
  shows "default_score c z < default_score c' z'"
proof -
  have d: "default_score c z = c * 2 ^ 20 + min z (2 ^ 20 - 1)" if "c < 2 ^ 44" for c z
  proof -
    have "c * 2 ^ 20 < 2 ^ 64" using that by simp
    moreover have "push_bit 20 c AND min z (2 ^ 20 - 1) = 0"
    proof (rule bit_eqI)
      fix n
      have "\<not> bit (min z (2 ^ 20 - 1)) n" if "20 \<le> n"
      proof -
        have "min z (2 ^ 20 - 1) = take_bit 20 (min z (2 ^ 20 - 1))" by (simp add: take_bit_nat_eq_self)
        then show ?thesis using that by (metis bit_take_bit_iff not_le)
      qed
      then show "bit (push_bit 20 c AND min z (2 ^ 20 - 1)) n \<longleftrightarrow> bit (0 :: nat) n"
        by (auto simp: bit_and_iff bit_push_bit_iff)
    qed
    ultimately show ?thesis unfolding default_score_def
      using disjunctive_add_eq_or [of "push_bit 20 c" "min z (2 ^ 20 - 1)"] by (simp add: push_bit_eq_mult mult.commute)
  qed
  have "c * 2 ^ 20 + min z (2 ^ 20 - 1) < (c + 1) * 2 ^ 20" by (simp add: min_def)
  also have "\<dots> \<le> c' * 2 ^ 20" using assms(1) by simp
  finally show ?thesis using d assms by (simp add: d)
qed

text \<open>The longest tail of a log whose sizes fit, or its last entry alone.\<close>

fun recent_fit :: "nat \<Rightarrow> (block_id \<times> nat) list \<Rightarrow> (block_id \<times> nat) list" where
  "recent_fit b (x # y # xs) = (if b < sum_list (map snd (x # y # xs)) then recent_fit b (y # xs) else x # y # xs)"
| "recent_fit b xs = xs"

lemma trim_recent:
  "map (\<lambda>e. (sb_id e, sb_size e)) es = xs \<Longrightarrow> sizes es < 2 ^ 64 \<Longrightarrow> map (\<lambda>e. (sb_id e, sb_size e)) (trim (Tokens b) es) = recent_fit b xs"
proof (induction b xs arbitrary: es rule: recent_fit.induct)
  case (1 b x y xs)
  then obtain e e' es' where "es = e # e' # es'" "x = (sb_id e, sb_size e)" "y = (sb_id e', sb_size e')"
    "xs = map (\<lambda>e. (sb_id e, sb_size e)) es'" by auto
  then show ?case using 1 by (simp add: counted_exact) (simp add: sizes_def comp_def)
qed auto

lemma pruner_recent:
  assumes "distinct (map fst xs)" "length xs < 2 ^ 44" "sum_list (map snd xs) < 2 ^ 64"
  shows "\<exists>p. insert_all xs (new_token_budget b) = Ok p \<and> window_ordered p = map fst (recent_fit b xs)"
proof -
  let ?es = "trim (Tokens b) (scored default_score xs)"
  obtain p where p: "insert_all xs (new_token_budget b) = Ok p" "models p (spec_all (Tokens b) default_score 0 xs [])"
    using insert_all_models [OF models_new, of "Tokens b" default_score xs]
    by (auto simp: fits_def pruner_new_with_def new_token_budget_def counted_def sizes_def)
  have es: "spec_all (Tokens b) default_score 0 xs [] = ?es"
    using assms(2) by (intro spec_all_recent [OF assms(1) _ assms(3)]) (simp add: default_score_rising)
  have "sorted (map sb_seq ?es)"
  proof -
    have "sorted (map sb_seq (trim bu S))" if "sorted (map sb_seq S)" for bu S
      using that by (induction bu S rule: trim.induct) (auto simp: map_tl sorted_tl)
    then show ?thesis by (simp add: scored_seqs del: upt_Suc)
  qed
  then have "window_ordered p = map sb_id ?es"
    using window_ordered_models [OF p(2)] by (simp add: es sort_key_id_if_sorted)
  also have "\<dots> = map fst (map (\<lambda>e. (sb_id e, sb_size e)) ?es)" by (simp add: comp_def)
  also have "map (\<lambda>e. (sb_id e, sb_size e)) (scored default_score xs) = xs"
    by (induction xs rule: rev_induct) (simp_all add: scored_snoc entry_at_def, simp add: scored_def)
  then have "map (\<lambda>e. (sb_id e, sb_size e)) ?es = recent_fit b xs" using assms(3) by (intro trim_recent) (simp_all add: scored_sizes)
  finally show ?thesis using p(1) by blast
qed

text \<open>With the default score and a budget of bytes, the window over a log of distinct blocks, in log order, is
  the longest tail of the log that fits the budget, or the last block alone when even that
  exceeds it, while the sizes sum to less than \<open>2 ^ 64\<close>.  (\<open>2 ^ 44\<close> insertions shift the sequence number out of the 64-bit score.)\<close>

theorem pruner_recent_window:
  assumes "distinct (map fst xs)" "length xs < 2 ^ 44" "sum_list (map snd xs) < 2 ^ 64"
  shows "\<exists>p. insert_all xs (new_token_budget b) = Ok p \<and> window_ordered p = map fst (recent_fit b xs)"
  using assms by (rule pruner_recent)

theorem pruner_recent_window_witness:
  "\<exists>p. insert_all [([1], 100), ([2], 100), ([3], 100), ([4], 100)] (new_token_budget 300) = Ok p \<and>
       window_ordered p = [[2], [3], [4]]"
  using pruner_recent_window [of "[([1], 100), ([2], 100), ([3], 100), ([4], 100)]" 300] by simp

end
