(* ===== verification/Prune.thy ===== *)
theory Prune
  imports Receiver Incremental
begin

text \<open>
  Pruning (\<open>crates/prune/src/lib.rs\<close>): the importance policy, the two job schedulers and the incremental
  scheduler.  A policy is a function from a session's log and a token budget to a window.  The
  \<open>f32\<close> score of a block is a parameter: a function of the log's length, the block's index and the
  block into a linear order (a score that is not a number does not occur).  The receiver the
  schedulers share with the wire is passed to each operation as it is at that moment.
\<close>

section \<open>The importance policy\<close>

record prune_window =
  pw_session :: u128
  pw_blocks :: "block list"
  pw_tokens :: nat

type_synonym prune_policy = "u128 \<Rightarrow> block list \<Rightarrow> nat \<Rightarrow> prune_window"

definition approx_tokens :: "block \<Rightarrow> nat" where
  "approx_tokens b = max (length (payload b) div 4) 1"

definition always_kept :: "block \<Rightarrow> bool" where
  "always_kept b \<longleftrightarrow> \<not> (kind b \<noteq> System \<and> kind b \<noteq> Summary)"

text \<open>Descending score, and among equal scores ascending index.\<close>

definition by_score :: "(nat \<Rightarrow> nat \<Rightarrow> block \<Rightarrow> 'f::linorder) \<Rightarrow> block list \<Rightarrow> nat list" where
  "by_score score log =
     (let n = length log; scored = map (\<lambda>(i, b). (i, score n i b)) (enumerate 0 log)
      in map fst (rev (sort_key (\<lambda>(i, s). (s, n - i)) scored)))"

fun fill_budget :: "block list \<Rightarrow> nat \<Rightarrow> nat list \<Rightarrow> nat list \<Rightarrow> nat \<Rightarrow> nat list \<times> nat" where
  "fill_budget log budget [] kept tokens = (kept, tokens)"
| "fill_budget log budget (idx # rest) kept tokens =
     (let t = approx_tokens (log ! idx) in
      if tokens + t > budget \<and> kept \<noteq> [] \<and> \<not> always_kept (log ! idx)
      then fill_budget log budget rest kept tokens
      else if tokens + t \<ge> budget then (kept @ [idx], tokens + t)
      else fill_budget log budget rest (kept @ [idx]) (tokens + t))"

definition importance_prune :: "(nat \<Rightarrow> nat \<Rightarrow> block \<Rightarrow> 'f::linorder) \<Rightarrow> prune_policy" where
  "importance_prune score sid log budget =
     (if length log = 0 then \<lparr>pw_session = sid, pw_blocks = [], pw_tokens = 0\<rparr>
      else
        let (kept, tokens) = fill_budget log budget (by_score score log) [] 0
        in \<lparr>pw_session = sid, pw_blocks = map (\<lambda>i. log ! i) (sort kept), pw_tokens = tokens\<rparr>)"

section \<open>Job schedulers\<close>

record prune_job =
  pj_session :: u128
  pj_budget :: nat

record prune_scheduler =
  ps_policy :: prune_policy
  ps_pending :: "prune_job list"

definition scheduler_new :: "prune_policy \<Rightarrow> prune_scheduler" where
  "scheduler_new policy = \<lparr>ps_policy = policy, ps_pending = []\<rparr>"

definition schedule :: "u128 \<Rightarrow> nat \<Rightarrow> prune_scheduler \<Rightarrow> prune_scheduler" where
  "schedule sid budget s = s\<lparr>ps_pending := ps_pending s @ [\<lparr>pj_session = sid, pj_budget = budget\<rparr>]\<rparr>"

definition run_job :: "prune_policy \<Rightarrow> receiver \<Rightarrow> u128 \<Rightarrow> nat \<Rightarrow> prune_window" where
  "run_job policy r sid budget = policy sid (receiver_reconstruct sid r) budget"

definition run_one :: "receiver \<Rightarrow> prune_scheduler \<Rightarrow> prune_window option \<times> prune_scheduler" where
  "run_one r s =
     (if ps_pending s = [] then (None, s)
      else let j = last (ps_pending s)
           in (Some (run_job (ps_policy s) r (pj_session j) (pj_budget j)), s\<lparr>ps_pending := butlast (ps_pending s)\<rparr>))"

definition run_all :: "receiver \<Rightarrow> prune_scheduler \<Rightarrow> prune_window list \<times> prune_scheduler" where
  "run_all r s =
     (map (\<lambda>j. run_job (ps_policy s) r (pj_session j) (pj_budget j)) (ps_pending s), s\<lparr>ps_pending := []\<rparr>)"

definition pending_count :: "prune_scheduler \<Rightarrow> nat" where
  "pending_count s = length (ps_pending s)"

record priority_job =
  qj_seq :: nat
  qj_session :: u128
  qj_budget :: nat

record priority_scheduler =
  qs_policy :: prune_policy
  qs_pending :: "priority_job list"
  qs_seq :: nat

definition priority_new :: "prune_policy \<Rightarrow> priority_scheduler" where
  "priority_new policy = \<lparr>qs_policy = policy, qs_pending = [], qs_seq = 0\<rparr>"

definition priority_schedule :: "u128 \<Rightarrow> nat \<Rightarrow> priority_scheduler \<Rightarrow> priority_scheduler" where
  "priority_schedule sid budget s =
     (let g = qs_seq s + 1
      in s\<lparr>qs_seq := g, qs_pending := \<lparr>qj_seq = g, qj_session = sid, qj_budget = budget\<rparr> # qs_pending s\<rparr>)"

text \<open>\<open>BinaryHeap::pop\<close>: a job with the highest sequence number leaves the heap.\<close>

fun heap_pop :: "priority_job list \<Rightarrow> (priority_job \<times> priority_job list) option" where
  "heap_pop [] = None"
| "heap_pop (j # js) =
     (case heap_pop js of
        None \<Rightarrow> Some (j, [])
      | Some (m, rest) \<Rightarrow> if qj_seq j < qj_seq m then Some (m, j # rest) else Some (j, m # rest))"

lemma heap_pop_None: "heap_pop js = None \<longleftrightarrow> js = []"
  by (cases js) (auto split: option.split)

lemma heap_pop_mset: "heap_pop js = Some (m, rest) \<Longrightarrow> mset js = add_mset m (mset rest)"
  by (induction js arbitrary: m rest) (auto simp: heap_pop_None split: option.splits if_splits)

function heap_drain :: "priority_job list \<Rightarrow> priority_job list" where
  "heap_drain js = (case heap_pop js of None \<Rightarrow> [] | Some (m, rest) \<Rightarrow> m # heap_drain rest)"
  by pat_completeness auto
termination
proof (relation "measure length")
  fix js and mr :: "priority_job \<times> priority_job list" and m rest
  assume "heap_pop js = Some mr" "(m, rest) = mr"
  then have "size (mset js) = Suc (size (mset rest))" using heap_pop_mset by fastforce
  then show "(rest, js) \<in> measure length" by simp
qed simp

declare heap_drain.simps [simp del]

definition priority_run_all :: "receiver \<Rightarrow> priority_scheduler \<Rightarrow> prune_window list \<times> priority_scheduler" where
  "priority_run_all r s =
     (map (\<lambda>j. run_job (qs_policy s) r (qj_session j) (qj_budget j)) (heap_drain (qs_pending s)), s\<lparr>qs_pending := []\<rparr>)"

definition priority_pending_count :: "priority_scheduler \<Rightarrow> nat" where
  "priority_pending_count s = length (qs_pending s)"

section \<open>The incremental scheduler\<close>

record incremental_scheduler =
  is_budget :: nat
  is_pruners :: "u128 \<rightharpoonup> pruner"

definition incremental_new :: "nat \<Rightarrow> incremental_scheduler" where
  "incremental_new budget = \<lparr>is_budget = budget, is_pruners = Map.empty\<rparr>"

definition stored_size :: "store \<Rightarrow> block_id \<Rightarrow> nat" where
  "stored_size st i = (case store_get st i of Some b \<Rightarrow> length (payload b) | None \<Rightarrow> 0)"

definition ingest_session :: "u128 \<Rightarrow> receiver \<Rightarrow> incremental_scheduler \<Rightarrow> (incremental_scheduler, string) outcome" where
  "ingest_session sid r s =
     (let st = rc_store r; ids = session_ids st sid
      in obind (insert_all (map (\<lambda>i. (i, stored_size st i)) ids) (new_token_budget (is_budget s))) (\<lambda>p.
           Ok (s\<lparr>is_pruners := (is_pruners s)(sid \<mapsto> p)\<rparr>)))"

definition prune_ingest_block ::
  "u128 \<Rightarrow> block_id \<Rightarrow> nat \<Rightarrow> incremental_scheduler \<Rightarrow> (incremental_scheduler, string) outcome" where
  "prune_ingest_block sid i sz s =
     (let p = (case is_pruners s sid of Some p \<Rightarrow> p | None \<Rightarrow> new_token_budget (is_budget s))
      in obind (pruner_insert i sz p) (\<lambda>(ev, p'). Ok (s\<lparr>is_pruners := (is_pruners s)(sid \<mapsto> p')\<rparr>)))"

definition incremental_window :: "u128 \<Rightarrow> receiver \<Rightarrow> incremental_scheduler \<Rightarrow> prune_window option" where
  "incremental_window sid r s =
     (case is_pruners s sid of
        None \<Rightarrow> None
      | Some p \<Rightarrow>
          let blocks = List.map_filter (store_get (rc_store r)) (window_ordered p)
          in Some \<lparr>pw_session = sid, pw_blocks = blocks, pw_tokens = sum_list (map approx_tokens blocks)\<rparr>)"

text \<open>The keys of a finite map of sessions.\<close>

definition session_count :: "incremental_scheduler \<Rightarrow> nat" where
  "session_count s = card (dom (is_pruners s))"

section \<open>What the importance policy keeps\<close>

lemma by_score_perm: "mset (by_score score log) = mset [0..<length log]"
proof -
  have "map fst (map (\<lambda>(i, b). (i, score (length log) i b)) es) = map fst es" for es
    by (induction es) auto
  then have "map fst (map (\<lambda>(i, b). (i, score (length log) i b)) (enumerate 0 log)) = [0..<length log]"
    by (simp only: map_fst_enumerate) simp
  then have "image_mset fst (mset (map (\<lambda>(i, b). (i, score (length log) i b)) (enumerate 0 log))) = mset [0..<length log]"
    by (metis mset_map)
  then show ?thesis by (simp add: by_score_def Let_def)
qed

lemma by_score_set: "set (by_score score log) = {..<length log}" "distinct (by_score score log)"
  using mset_eq_setD [OF by_score_perm, of score log] mset_eq_imp_distinct_iff [OF by_score_perm, of score log] by auto

definition tokens_of :: "block list \<Rightarrow> nat list \<Rightarrow> nat" where
  "tokens_of log is = sum_list (map (\<lambda>i. approx_tokens (log ! i)) is)"

lemma approx_tokens_pos: "0 < approx_tokens b"
  by (simp add: approx_tokens_def)

text \<open>The kept indices, from the state in the middle of the loop.\<close>

lemma fill_budget_spec:
  assumes "fill_budget log B is kept t = (kept', t')" "distinct (kept @ is)" "t = tokens_of log kept" "t \<le> B"
  shows "distinct kept' \<and> set kept \<subseteq> set kept' \<and> set kept' \<subseteq> set kept \<union> set is \<and> t' = tokens_of log kept' \<and>
    (kept \<noteq> [] \<or> is \<noteq> [] \<longrightarrow> kept' \<noteq> []) \<and>
    (\<forall>i \<in> set is - set kept'. B < t' + approx_tokens (log ! i)) \<and>
    (t' \<le> B \<or> (\<exists>i \<in> set kept'. (always_kept (log ! i) \<or> kept' = [i]) \<and> t' \<le> B + approx_tokens (log ! i)))"
  using assms
proof (induction "is" arbitrary: kept t)
  case (Cons i "is")
  let ?t = "approx_tokens (log ! i)"
  have tk: "tokens_of log (kept @ [i]) = t + ?t" using Cons.prems(3) by (simp add: tokens_of_def)
  consider (skip) "t + ?t > B" "kept \<noteq> []" "\<not> always_kept (log ! i)"
    | (stop) "\<not> (t + ?t > B \<and> kept \<noteq> [] \<and> \<not> always_kept (log ! i))" "B \<le> t + ?t"
    | (go) "t + ?t < B" by linarith
  then show ?case
  proof cases
    case skip
    then have f: "fill_budget log B is kept t = (kept', t')" using Cons.prems(1) by (simp add: Let_def)
    note ih = Cons.IH [OF f] Cons.prems
    have "tokens_of log kept \<le> t'"
    proof -
      have "t' = tokens_of log kept'" "set kept \<subseteq> set kept'" "distinct kept'" using ih by auto
      moreover have "distinct kept" using Cons.prems(2) by simp
      ultimately show ?thesis by (simp add: tokens_of_def sum_list_distinct_conv_sum_set sum_mono2)
    qed
    then have "B < t' + ?t" using skip(1) Cons.prems(3) by linarith
    then show ?thesis using ih skip(2) by auto
  next
    case stop
    then have k: "kept' = kept @ [i]" "t' = t + ?t" using Cons.prems(1) by (auto simp: Let_def split: if_splits)
    have "B < t' + approx_tokens (log ! j)" for j using stop(2) k(2) approx_tokens_pos [of "log ! j"] by linarith
    then show ?thesis using Cons.prems stop(1) k tk by auto
  next
    case go
    then have f: "fill_budget log B is (kept @ [i]) (t + ?t) = (kept', t')" using Cons.prems(1) by (simp add: Let_def)
    show ?thesis using Cons.IH [OF f] Cons.prems tk go by auto
  qed
qed auto

lemma nths_sort: "distinct is \<Longrightarrow> set is \<subseteq> {..<length xs} \<Longrightarrow> map (\<lambda>i. xs ! i) (sort is) = nths xs (set is)"
proof -
  assume d: "distinct is" "set is \<subseteq> {..<length xs}"
  have "sort is = filter (\<lambda>i. i \<in> set is) [0..<length xs]"
    by (rule sorted_distinct_set_unique) (use d in \<open>auto simp: sorted_filter [where f = id, simplified]\<close>)
  moreover have "zip xs [0..<length xs] = map (\<lambda>i. (xs ! i, i)) [0..<length xs]"
    by (rule nth_equalityI) simp_all
  ultimately show ?thesis by (simp add: nths_def filter_map comp_def)
qed

text \<open>What the importance policy returns for a log that is not empty: blocks of the log, in log order, at
  least one; the token count is their sum; it exceeds the budget by at most one block, and only when
  that block is a system or summary block or the only one kept; and no other block would still fit.\<close>

theorem importance_window:
  assumes "log \<noteq> []"
  shows "\<exists>I \<subseteq> {..<length log}. I \<noteq> {} \<and>
    pw_blocks (importance_prune score sid log B) = nths log I \<and>
    pw_tokens (importance_prune score sid log B) = (\<Sum>i\<in>I. approx_tokens (log ! i)) \<and>
    (pw_tokens (importance_prune score sid log B) \<le> B \<or>
     (\<exists>i \<in> I. (always_kept (log ! i) \<or> I = {i}) \<and> pw_tokens (importance_prune score sid log B) \<le> B + approx_tokens (log ! i))) \<and>
    (\<forall>i \<in> {..<length log} - I. B < pw_tokens (importance_prune score sid log B) + approx_tokens (log ! i))"
proof -
  obtain kept t where k: "fill_budget log B (by_score score log) [] 0 = (kept, t)" by (metis prod.exhaust)
  have "size (mset (by_score score log)) = length log" unfolding by_score_perm by simp
  then have "by_score score log \<noteq> []" using assms by auto
  then have f: "distinct kept" "set kept \<subseteq> {..<length log}" "t = tokens_of log kept" "kept \<noteq> []"
    "\<forall>i \<in> {..<length log} - set kept. B < t + approx_tokens (log ! i)"
    "t \<le> B \<or> (\<exists>i \<in> set kept. (always_kept (log ! i) \<or> kept = [i]) \<and> t \<le> B + approx_tokens (log ! i))"
    using fill_budget_spec [OF k] by_score_set [of score log] by (auto simp: tokens_of_def)
  have w: "pw_blocks (importance_prune score sid log B) = nths log (set kept)" "pw_tokens (importance_prune score sid log B) = t"
    using assms k nths_sort [OF f(1,2)] by (simp_all add: importance_prune_def)
  have "t = (\<Sum>i\<in>set kept. approx_tokens (log ! i))"
    using f(1,3) by (simp add: tokens_of_def sum_list_distinct_conv_sum_set)
  moreover have "t \<le> B \<or> (\<exists>i \<in> set kept. (always_kept (log ! i) \<or> set kept = {i}) \<and> t \<le> B + approx_tokens (log ! i))"
    using f(6) by fastforce
  moreover have "set kept \<noteq> {}" using f(4) by simp
  ultimately show ?thesis unfolding w using f(2,5) by blast
qed

theorem importance_window_witness:
  "pw_tokens (importance_prune (\<lambda>n i b. i) 7 [block_new Message 1 [1]] 0) = 1"
proof -
  let ?log = "[block_new Message 1 [1]]"
  obtain I where "I \<subseteq> {..<length ?log}" "I \<noteq> {}"
    "pw_tokens (importance_prune (\<lambda>n i b. i) 7 ?log 0) = (\<Sum>i\<in>I. approx_tokens (?log ! i))"
    using importance_window [of ?log "\<lambda>n i b. i" 7 0] by blast
  moreover from this have "I = {0}" by auto
  ultimately show ?thesis by (simp add: approx_tokens_def block_new_def)
qed

text \<open>System and summary blocks are not always retained: as soon as the first one fills the budget the loop
  ends, and a second one is dropped, whatever the scores.\<close>

theorem pinned_block_dropped:
  "length (pw_blocks (importance_prune score sid [block_new System 1 p, block_new System 2 q] 1)) = 1"
proof -
  let ?log = "[block_new System 1 p, block_new System 2 q]"
  obtain i "is" where b: "by_score score ?log = i # is"
    using by_score_set(1) [of score ?log] by (cases "by_score score ?log") auto
  have "1 \<le> approx_tokens (?log ! i)" using approx_tokens_pos [of "?log ! i"] by linarith
  then show ?thesis by (simp add: importance_prune_def b Let_def)
qed

section \<open>Every scheduled job runs once\<close>

text \<open>The contract both schedulers meet: jobs accumulate, and a drain turns each pending job into one window.\<close>

locale job_queue =
  fixes add :: "u128 \<Rightarrow> nat \<Rightarrow> 'q \<Rightarrow> 'q"
    and drain :: "receiver \<Rightarrow> 'q \<Rightarrow> prune_window list \<times> 'q"
    and pending :: "'q \<Rightarrow> (u128 \<times> nat) multiset"
    and policy :: "'q \<Rightarrow> prune_policy"
  assumes pending_add: "pending (add sid b q) = add_mset (sid, b) (pending q)"
    and policy_add: "policy (add sid b q) = policy q"
    and drain_windows: "mset (fst (drain r q)) = image_mset (\<lambda>(sid, b). run_job (policy q) r sid b) (pending q)"
    and drain_empties: "pending (snd (drain r q)) = {#}"
begin

lemma add_all:
  "pending (fold (\<lambda>(sid, b). add sid b) jobs q) = pending q + mset jobs \<and>
   policy (fold (\<lambda>(sid, b). add sid b) jobs q) = policy q"
  by (induction jobs arbitrary: q) (auto simp: pending_add policy_add)

lemma jobs_run_once:
  assumes "pending q = {#}"
  shows "mset (fst (drain r (fold (\<lambda>(sid, b). add sid b) jobs q))) = image_mset (\<lambda>(sid, b). run_job (policy q) r sid b) (mset jobs)"
  using assms add_all [of jobs q] by (simp add: drain_windows)

lemma second_drain_empty: "fst (drain r (snd (drain r' q))) = []"
  using drain_windows [of r "snd (drain r' q)"] by (simp add: drain_empties)

end

interpretation fifo: job_queue schedule run_all "\<lambda>s. image_mset (\<lambda>j. (pj_session j, pj_budget j)) (mset (ps_pending s))" ps_policy
  by unfold_locales (simp_all add: schedule_def run_all_def image_mset.compositionality comp_def)

lemma heap_drain_mset: "mset (heap_drain js) = mset js"
proof (induction js rule: heap_drain.induct)
  case (1 js)
  show ?case
  proof (cases "heap_pop js")
    case None
    then show ?thesis by (simp add: heap_drain.simps heap_pop_None)
  next
    case (Some mr)
    then show ?thesis using 1 heap_pop_mset [of js] by (cases mr) (simp add: heap_drain.simps [of js])
  qed
qed

interpretation heap: job_queue priority_schedule priority_run_all
  "\<lambda>s. image_mset (\<lambda>j. (qj_session j, qj_budget j)) (mset (qs_pending s))" qs_policy
  by unfold_locales (simp_all add: priority_schedule_def priority_run_all_def Let_def image_mset.compositionality comp_def
      heap_drain_mset)

text \<open>Under both schedulers every scheduled job is run exactly once, with its own budget and on the log as the
  receiver has it when the jobs run, and a second drain produces nothing.\<close>

theorem scheduled_jobs_run_once:
  "mset (fst (run_all r (fold (\<lambda>(sid, b). schedule sid b) jobs (scheduler_new policy))))
     = image_mset (\<lambda>(sid, b). policy sid (receiver_reconstruct sid r) b) (mset jobs) \<and>
   mset (fst (priority_run_all r (fold (\<lambda>(sid, b). priority_schedule sid b) jobs (priority_new policy))))
     = image_mset (\<lambda>(sid, b). policy sid (receiver_reconstruct sid r) b) (mset jobs) \<and>
   fst (run_all r' (snd (run_all r s))) = [] \<and> fst (priority_run_all r' (snd (priority_run_all r q))) = []"
  using fifo.jobs_run_once [of "scheduler_new policy" r jobs] heap.jobs_run_once [of "priority_new policy" r jobs]
    fifo.second_drain_empty [of r' r s] heap.second_drain_empty [of r' r q]
  by (simp add: scheduler_new_def priority_new_def run_job_def)

lemma heap_pop_descending: "sorted_wrt (>) (map qj_seq (j # js)) \<Longrightarrow> heap_pop (j # js) = Some (j, js)"
proof (induction js arbitrary: j)
  case (Cons k js)
  then have "heap_pop (k # js) = Some (k, js)" by simp
  then show ?case using Cons.prems by (simp del: heap_pop.simps add: heap_pop.simps(2) [of j])
qed simp

lemma heap_drain_descending: "sorted_wrt (>) (map qj_seq js) \<Longrightarrow> heap_drain js = js"
proof (induction js)
  case (Cons j js)
  then show ?case using heap_pop_descending [of j js] by (simp add: heap_drain.simps [of "j # js"])
qed (simp add: heap_drain.simps)

lemma priority_pending:
  assumes "s' = fold (\<lambda>(sid, b). priority_schedule sid b) jobs (priority_new policy)"
  shows "map (\<lambda>j. (qj_session j, qj_budget j)) (qs_pending s') = rev jobs \<and> qs_policy s' = policy \<and>
    map qj_seq (qs_pending s') = rev [1..<Suc (length jobs)] \<and> qs_seq s' = length jobs"
  using assms
proof (induction jobs arbitrary: s' rule: rev_induct)
  case (snoc x jobs)
  then show ?case by (cases x) (simp add: priority_schedule_def Let_def)
qed (simp add: priority_new_def)

text \<open>The order in which jobs run.  The priority scheduler runs the most recently scheduled job first;
  draining the plain scheduler keeps the order of scheduling; but running one job at a time takes the
  latest first, so the oldest waits until no newer job is pending.\<close>

theorem job_order:
  "fst (priority_run_all r (fold (\<lambda>(sid, b). priority_schedule sid b) jobs (priority_new policy)))
     = map (\<lambda>(sid, b). policy sid (receiver_reconstruct sid r) b) (rev jobs) \<and>
   fst (run_all r (fold (\<lambda>(sid, b). schedule sid b) jobs (scheduler_new policy)))
     = map (\<lambda>(sid, b). policy sid (receiver_reconstruct sid r) b) jobs \<and>
   run_one r (schedule sid' b' s) = (Some (ps_policy s sid' (receiver_reconstruct sid' r) b'), s)"
proof (intro conjI)
  define s' where "s' = fold (\<lambda>(sid, b). priority_schedule sid b) jobs (priority_new policy)"
  note pp = priority_pending [OF s'_def]
  have "sorted_wrt (>) (map qj_seq (qs_pending s'))"
    using pp by (simp add: sorted_wrt_rev sorted_wrt_upt del: upt_Suc)
  then have d: "heap_drain (qs_pending s') = qs_pending s'" by (rule heap_drain_descending)
  have "fst (priority_run_all r s') = map (\<lambda>(sid, b). run_job policy r sid b) (map (\<lambda>j. (qj_session j, qj_budget j)) (qs_pending s'))"
    using conjunct1 [OF conjunct2 [OF pp]] by (simp add: priority_run_all_def d comp_def)
  also have "\<dots> = map (\<lambda>(sid, b). policy sid (receiver_reconstruct sid r) b) (rev jobs)"
    using pp by (simp add: run_job_def)
  finally show "fst (priority_run_all r (fold (\<lambda>(sid, b). priority_schedule sid b) jobs (priority_new policy)))
     = map (\<lambda>(sid, b). policy sid (receiver_reconstruct sid r) b) (rev jobs)" unfolding s'_def .
next
  have "ps_policy (fold (\<lambda>(sid, b). schedule sid b) jobs s) = ps_policy s \<and>
      map (\<lambda>j. (pj_session j, pj_budget j)) (ps_pending (fold (\<lambda>(sid, b). schedule sid b) jobs s))
      = map (\<lambda>j. (pj_session j, pj_budget j)) (ps_pending s) @ jobs" for s
    by (induction jobs arbitrary: s) (auto simp: schedule_def)
  note st = this [of "scheduler_new policy"]
  let ?s = "fold (\<lambda>(sid, b). schedule sid b) jobs (scheduler_new policy)"
  have "fst (run_all r ?s) = map (\<lambda>(sid, b). run_job (ps_policy ?s) r sid b) (map (\<lambda>j. (pj_session j, pj_budget j)) (ps_pending ?s))"
    by (simp add: run_all_def comp_def)
  also have "\<dots> = map (\<lambda>(sid, b). policy sid (receiver_reconstruct sid r) b) jobs"
    using st by (simp add: scheduler_new_def run_job_def)
  finally show "fst (run_all r ?s) = map (\<lambda>(sid, b). policy sid (receiver_reconstruct sid r) b) jobs" .
qed (simp add: run_one_def schedule_def run_job_def Let_def)

section \<open>The incremental window\<close>

lemma insert_all_append: "insert_all (xs @ ys) p = obind (insert_all xs p) (insert_all ys)"
  by (induction xs p rule: insert_all.induct) (auto simp: case_prod_unfold)

fun ingest_blocks_at :: "u128 \<Rightarrow> (block_id \<times> nat) list \<Rightarrow> incremental_scheduler \<Rightarrow> (incremental_scheduler, string) outcome" where
  "ingest_blocks_at sid [] s = Ok s"
| "ingest_blocks_at sid ((i, z) # xs) s = obind (prune_ingest_block sid i z s) (ingest_blocks_at sid xs)"

lemma ingest_blocks_pruner:
  "is_pruners s sid = Some p \<Longrightarrow> insert_all xs p = Ok p' \<Longrightarrow>
   \<exists>s'. ingest_blocks_at sid xs s = Ok s' \<and> is_pruners s' sid = Some p'"
proof (induction xs arbitrary: s p)
  case (Cons x xs)
  obtain i z where x: "x = (i, z)" by (metis prod.exhaust)
  obtain ev p1 where p1: "pruner_insert i z p = Ok (ev, p1)" "insert_all xs p1 = Ok p'"
    using Cons.prems(2) by (auto simp: x obind_Ok_iff)
  then show ?case using Cons.IH [of "s\<lparr>is_pruners := (is_pruners s)(sid \<mapsto> p1)\<rparr>" p1] Cons.prems(1)
    by (simp add: x prune_ingest_block_def)
qed simp

text \<open>The longest tail of a log whose payloads fit, or the last block alone.\<close>

fun recent_blocks :: "nat \<Rightarrow> block list \<Rightarrow> block list" where
  "recent_blocks b (x # y # bs) =
     (if b < sum_list (map (\<lambda>x. length (payload x)) (x # y # bs)) then recent_blocks b (y # bs) else x # y # bs)"
| "recent_blocks b bs = bs"

lemma map_filter_all: "map g is = map Some bs \<Longrightarrow> List.map_filter g is = bs"
  by (induction "is" arbitrary: bs) (auto simp: List.map_filter_simps map_eq_Cons_conv Cons_eq_map_conv)

lemma recent_fit_blocks:
  "map (\<lambda>i. st i) ids = map Some bs \<Longrightarrow>
   List.map_filter st (map fst (recent_fit b (zip ids (map (\<lambda>x. length (payload x)) bs)))) = recent_blocks b bs"
proof (induction b bs arbitrary: ids rule: recent_blocks.induct)
  case (1 b x y bs)
  then obtain i j ids' where ids: "ids = i # j # ids'" "st i = Some x" "st j = Some y" "map st ids' = map Some bs" by (auto simp: map_eq_Cons_conv)
  have l: "length ids' = length bs" using ids(4) map_eq_imp_length_eq by blast
  show ?case using 1(1) [of "j # ids'"] ids l map_filter_all [OF ids(4)] by (simp add: List.map_filter_simps)
qed (auto simp: List.map_filter_simps map_eq_Cons_conv)

text \<open>C32: The incremental scheduler follows the log.  Ingest a session when it has the ids \<open>old\<close>, then feed it every
  block that is appended; when the receiver's log is \<open>old @ new\<close>, with distinct ids, all contents
  present and less than \<open>2 ^ 64\<close> bytes of payload (what the pruner's counter can hold), the window is the longest tail of the log the receiver reconstructs whose payload bytes fit
  the budget (or its last block), in log order, and the same as a fresh ingestion would give.\<close>

theorem incremental_window_exact:
  assumes "session_ids (rc_store r0) sid = old"
    and "session_ids (rc_store r) sid = old @ new" "rc_sessions r sid \<noteq> None"
    and "map (store_get (rc_store r)) (old @ new) = map Some blocks"
    and "map (store_get (rc_store r0)) old = map (store_get (rc_store r)) old"
    and "distinct (old @ new)" "length (old @ new) < 2 ^ 44"
    and "sum_list (map (\<lambda>x. length (payload x)) blocks) < 2 ^ 64"
  shows "\<exists>s s'. ingest_session sid r0 (incremental_new b) = Ok s \<and>
    ingest_blocks_at sid (map (\<lambda>i. (i, stored_size (rc_store r) i)) new) s = Ok s' \<and>
    receiver_reconstruct sid r = blocks \<and>
    incremental_window sid r s' = Some \<lparr>pw_session = sid, pw_blocks = recent_blocks b blocks,
      pw_tokens = sum_list (map approx_tokens (recent_blocks b blocks))\<rparr>"
proof -
  let ?sz = "\<lambda>i. (i, stored_size (rc_store r) i)"
  have o: "map (\<lambda>i. (i, stored_size (rc_store r0) i)) old = map ?sz old"
    using assms(5) by (simp add: stored_size_def)
  have "stored_size (rc_store r) ((old @ new) ! k) = length (payload (blocks ! k))" if "k < length (old @ new)" for k
  proof -
    have "store_get (rc_store r) ((old @ new) ! k) = Some (blocks ! k)"
      using that assms(4) map_eq_imp_length_eq [OF assms(4)] by (metis nth_map)
    then show ?thesis by (simp add: stored_size_def)
  qed
  then have z: "map ?sz (old @ new) = zip (old @ new) (map (\<lambda>x. length (payload x)) blocks)"
    using map_eq_imp_length_eq [OF assms(4)] by (intro nth_equalityI) (simp_all del: map_append)
  have total: "sum_list (map snd (map ?sz (old @ new))) < 2 ^ 64"
    unfolding z using assms(8) map_eq_imp_length_eq [OF assms(4)] by simp
  obtain p where p: "insert_all (map ?sz (old @ new)) (new_token_budget b) = Ok p"
    "window_ordered p = map fst (recent_fit b (map ?sz (old @ new)))"
    using pruner_recent [OF _ _ total, of b] assms(6,7) by (auto simp: comp_def)
  then obtain p0 where p0: "insert_all (map ?sz old) (new_token_budget b) = Ok p0" "insert_all (map ?sz new) p0 = Ok p"
    by (auto simp: insert_all_append obind_Ok_iff)
  define s where "s = (incremental_new b)\<lparr>is_pruners := (is_pruners (incremental_new b))(sid \<mapsto> p0)\<rparr>"
  have s: "ingest_session sid r0 (incremental_new b) = Ok s" "is_pruners s sid = Some p0"
    using assms(1) p0(1) by (simp_all add: ingest_session_def Let_def o s_def incremental_new_def)
  obtain s' where s': "ingest_blocks_at sid (map ?sz new) s = Ok s'" "is_pruners s' sid = Some p"
    using ingest_blocks_pruner [OF s(2) p0(2)] by blast
  have "incremental_window sid r s' = Some \<lparr>pw_session = sid, pw_blocks = recent_blocks b blocks,
      pw_tokens = sum_list (map approx_tokens (recent_blocks b blocks))\<rparr>"
    using recent_fit_blocks [OF assms(4), of b] by (simp only: incremental_window_def s'(2) p(2) z Let_def option.case)
  moreover have "store_get (rc_store r) = st_blocks (rc_store r)" by (rule ext) (simp add: store_get_def)
  then have "receiver_reconstruct sid r = blocks"
    using assms(2,3) map_filter_all [OF assms(4)]
    by (auto simp: receiver_reconstruct_def reconstruct_def collect_blocks_def session_ids_def split: option.splits)
  ultimately show ?thesis using s(1) s'(1) by blast
qed

definition demo_log_store :: "block_id list \<Rightarrow> store" where
  "demo_log_store ids = store_new\<lparr>st_blocks := (\<lambda>i. Some (block_new Message 1 (replicate 10 0))),
     st_sessions := [7 \<mapsto> \<lparr>sl_ids = ids, sl_root = ROOT_ZERO\<rparr>]\<rparr>"

theorem incremental_window_exact_witness:
  "\<exists>s s'. ingest_session 7 (receiver_new (demo_log_store [[1], [2]]) compressor_default) (incremental_new 25) = Ok s \<and>
    ingest_blocks_at 7 [([3], 10)] s = Ok s' \<and>
    map_option (\<lambda>w. length (pw_blocks w)) (incremental_window 7 (receiver_new (demo_log_store [[1], [2], [3]]) compressor_default) s') = Some 2"
proof -
  let ?r = "\<lambda>ids. receiver_new (demo_log_store ids) compressor_default"
  let ?b = "block_new Message 1 (replicate 10 0)"
  have st: "rc_store (?r ids) = demo_log_store ids" "store_get (demo_log_store ids) i = Some ?b"
    "session_ids (demo_log_store ids) 7 = ids" "rc_sessions (?r ids) 7 \<noteq> None" for ids i
    by (simp_all add: receiver_new_def demo_log_store_def store_get_def session_ids_def session_list_def)
  have "stored_size (demo_log_store ids) i = 10" for ids i by (simp add: stored_size_def st block_new_def)
  moreover have "recent_blocks 25 [?b, ?b, ?b] = [?b, ?b]" by (simp add: block_new_def)
  moreover have "length (payload ?b) = 10" by (simp add: block_new_def)
  ultimately obtain s s' where "ingest_session 7 (?r [[1], [2]]) (incremental_new 25) = Ok s"
    "ingest_blocks_at 7 [([3], 10)] s = Ok s'"
    "incremental_window 7 (?r [[1], [2], [3]]) s' = Some \<lparr>pw_session = 7, pw_blocks = [?b, ?b], pw_tokens = sum_list (map approx_tokens [?b, ?b])\<rparr>"
    using incremental_window_exact [of "?r [[1], [2]]" 7 "[[1], [2]]" "?r [[1], [2], [3]]" "[[3]]" "[?b, ?b, ?b]" 25]
    by (auto simp: st)
  then show ?thesis by fastforce
qed

end
