(* ===== verification/Rlnc.thy ===== *)
theory Rlnc
  imports Decoding
begin

text \<open>
  Random linear network coding (\<open>crates/coding/src/rlnc.rs\<close>): the encoder with its dense and sparse
  packets, the on-line decoder that keeps its rows in reduced form, and the decoder for sparse
  packets that calls the fountain's peeling decoder.  The dense draw repeats until a coefficient is
  nonzero, so it is a partial function; with at least one source it ends, because the generator
  flips bit 40 of its state after \<open>2 ^ 40\<close> steps.
\<close>

section \<open>Operations\<close>

datatype rlnc_error = RlncInsufficient nat nat | RlncSingular nat | RlncSizeMismatch nat nat

record coded_packet =
  coeffs :: bytes
  cp_payload :: bytes

text \<open>The generator: state and draws.\<close>

definition lcg_new :: "u64 \<Rightarrow> u64" where
  "lcg_new seed = 0x9E3779B97F4A7C15 * (seed XOR 0xD1B54A32D192ED03)"

definition lcg_next_u64 :: "u64 \<Rightarrow> u64" where
  "lcg_next_u64 g = g * 6364136223846793005 + 1442695040888963407"

text \<open>The byte drawn from a state that was just advanced\<close>

definition lcg_u8 :: "u64 \<Rightarrow> u8" where
  "lcg_u8 g = ucast (drop_bit 40 g)"

record rlnc_encoder =
  rn_k :: nat
  rn_symbol_size :: nat
  rn_source :: "bytes list"
  rn_rng :: u64

definition vec_resize :: "nat \<Rightarrow> bytes \<Rightarrow> bytes" where
  "vec_resize n s = take n s @ replicate (n - length s) 0"

definition rlnc_encoder_new :: "bytes list \<Rightarrow> nat \<Rightarrow> u64 \<Rightarrow> rlnc_encoder" where
  "rlnc_encoder_new source sz seed =
     \<lparr>rn_k = length source, rn_symbol_size = sz, rn_source = map (vec_resize sz) source, rn_rng = lcg_new seed\<rparr>"

definition rlnc_encoder_new_shared :: "bytes list \<Rightarrow> nat \<Rightarrow> u64 \<Rightarrow> rlnc_encoder" where
  "rlnc_encoder_new_shared source sz seed =
     \<lparr>rn_k = length source, rn_symbol_size = sz, rn_source = source, rn_rng = lcg_new seed\<rparr>"

text \<open>One pass over the coefficient vector\<close>

fun draw_row :: "nat \<Rightarrow> u64 \<Rightarrow> bytes \<times> u64" where
  "draw_row 0 g = ([], g)"
| "draw_row (Suc k) g =
     (let g' = lcg_next_u64 g; (cs, g'') = draw_row k g' in (lcg_u8 g' # cs, g''))"

partial_function (option) draw_dense :: "nat \<Rightarrow> u64 \<Rightarrow> (bytes \<times> u64) option" where
  "draw_dense k g =
     (case draw_row k g of
        (cs, g') \<Rightarrow> if list_ex (\<lambda>c. c \<noteq> 0) cs then Some (cs, g') else draw_dense k g')"

declare draw_dense.simps [code]

definition dense_payload :: "bytes list \<Rightarrow> nat \<Rightarrow> bytes \<Rightarrow> bytes" where
  "dense_payload source sz cs =
     fold (\<lambda>(i, c) pl. if c \<noteq> 0 then axpy pl c (source ! i) else pl) (enumerate 0 cs) (replicate sz 0)"

definition rlnc_code :: "rlnc_encoder \<Rightarrow> (coded_packet \<times> rlnc_encoder) option" where
  "rlnc_code e =
     (case draw_dense (rn_k e) (rn_rng e) of
        None \<Rightarrow> None
      | Some (cs, g) \<Rightarrow>
          Some (\<lparr>coeffs = cs, cp_payload = dense_payload (rn_source e) (rn_symbol_size e) cs\<rparr>, e\<lparr>rn_rng := g\<rparr>))"

fun code_batch :: "nat \<Rightarrow> rlnc_encoder \<Rightarrow> (coded_packet list \<times> rlnc_encoder) option" where
  "code_batch 0 e = Some ([], e)"
| "code_batch (Suc n) e =
     (case rlnc_code e of
        None \<Rightarrow> None
      | Some (p, e') \<Rightarrow>
          (case code_batch n e' of None \<Rightarrow> None | Some (ps, e'') \<Rightarrow> Some (p # ps, e'')))"

text \<open>The sparse draw: \<open>n\<close> is what is left of the guard of \<open>8 * k\<close> attempts.\<close>

fun sparse_draw :: "nat \<Rightarrow> nat \<Rightarrow> nat \<Rightarrow> nat list \<Rightarrow> bytes \<Rightarrow> u64 \<Rightarrow> nat list \<times> bytes \<times> u64" where
  "sparse_draw degree k 0 chosen cs g = (chosen, cs, g)"
| "sparse_draw degree k (Suc n) chosen cs g =
     (if length chosen < degree then
        let g' = lcg_next_u64 g; idx = unat (drop_bit 40 g') mod k
        in if cs ! idx = 0 then
             let g'' = lcg_next_u64 g'
             in sparse_draw degree k n (chosen @ [idx]) (cs[idx := lcg_u8 g'' OR 1]) g''
           else sparse_draw degree k n chosen cs g'
      else (chosen, cs, g))"

definition code_sparse :: "nat \<Rightarrow> rlnc_encoder \<Rightarrow> coded_packet \<times> rlnc_encoder" where
  "code_sparse degree e =
     (let k = rn_k e;
          (chosen, cs, g) = sparse_draw (min (max degree 1) k) k (8 * k) [] (replicate k 0) (rn_rng e)
      in (\<lparr>coeffs = cs,
           cp_payload = fold (\<lambda>i pl. axpy pl (cs ! i) (rn_source e ! i)) chosen (replicate (rn_symbol_size e) 0)\<rparr>,
          e\<lparr>rn_rng := g\<rparr>))"

text \<open>The row of a packet; copying slices of another length panics.\<close>

definition packet_row :: "coded_packet \<Rightarrow> bytes" where
  "packet_row p = coeffs p @ cp_payload p"

definition sparse_row :: "nat \<Rightarrow> nat \<Rightarrow> coded_packet \<Rightarrow> (bytes, rlnc_error) outcome" where
  "sparse_row k s p =
     (if length (coeffs p) \<noteq> k \<or> length (cp_payload p) \<noteq> s then Panic else Ok (packet_row p))"

fun sparse_error :: "nat \<Rightarrow> fountain_error \<Rightarrow> rlnc_error" where
  "sparse_error k (Underdetermined have need) = RlncInsufficient have need"
| "sparse_error k _ = RlncSingular k"

definition sparse_decode :: "coded_packet list \<Rightarrow> nat \<Rightarrow> nat \<Rightarrow> (bytes list, rlnc_error) outcome" where
  "sparse_decode packets k s =
     obind (otraverse (sparse_row k s) (filter (\<lambda>p. list_ex (\<lambda>c. c \<noteq> 0) (coeffs p)) packets))
       (\<lambda>rows. omap_err (sparse_error k) (peel_decode rows k s))"

text \<open>The decoder.  Both vectors grow together, so that \<open>pivots[i]\<close> is read beside row \<open>i\<close>.\<close>

record rlnc_decoder =
  rd_k :: nat
  rd_symbol_size :: nat
  rd_rows :: "bytes list"
  rd_pivots :: "nat list"

definition rlnc_decoder_new :: "nat \<Rightarrow> nat \<Rightarrow> rlnc_decoder" where
  "rlnc_decoder_new k sz = \<lparr>rd_k = k, rd_symbol_size = sz, rd_rows = [], rd_pivots = []\<rparr>"

definition rlnc_rank :: "rlnc_decoder \<Rightarrow> nat" where
  "rlnc_rank d = length (rd_rows d)"

definition reduce_by :: "bytes \<times> nat \<Rightarrow> bytes \<Rightarrow> bytes" where
  "reduce_by ep row = (case ep of (e, piv) \<Rightarrow> if row ! piv \<noteq> 0 then axpy row (row ! piv) e else row)"

definition first_nonzero_pos :: "bytes \<Rightarrow> nat option" where
  "first_nonzero_pos row = List.find (\<lambda>j. row ! j \<noteq> 0) [0..<length row]"

definition insert_pivot :: "rlnc_decoder \<Rightarrow> bytes \<Rightarrow> nat \<Rightarrow> rlnc_decoder" where
  "insert_pivot d row0 piv =
     (let row = scal_inplace row0 (gf_inv (row0 ! piv))
      in d\<lparr>rd_rows := map (\<lambda>e. reduce_by (row, piv) e) (rd_rows d) @ [row],
           rd_pivots := rd_pivots d @ [piv]\<rparr>)"

definition rlnc_add :: "coded_packet \<Rightarrow> rlnc_decoder \<Rightarrow> (bool, rlnc_error) outcome \<times> rlnc_decoder" where
  "rlnc_add p d =
     (if length (coeffs p) \<noteq> rd_k d then (Err (RlncSizeMismatch (rd_k d) (length (coeffs p))), d)
      else if length (cp_payload p) \<noteq> rd_symbol_size d then
        (Err (RlncSizeMismatch (rd_symbol_size d) (length (cp_payload p))), d)
      else
        let row = fold reduce_by (zip (rd_rows d) (rd_pivots d)) (packet_row p)
        in case first_nonzero_pos (take (rd_k d) row) of
             Some piv \<Rightarrow> (Ok True, insert_pivot d row piv)
           | None \<Rightarrow> (Ok False, d))"

definition rlnc_decode :: "rlnc_decoder \<Rightarrow> (bytes list, rlnc_error) outcome" where
  "rlnc_decode d =
     (if length (rd_rows d) < rd_k d then Err (RlncInsufficient (length (rd_rows d)) (rd_k d))
      else
        let (out, seen) = fold (\<lambda>(r, piv) (out, seen). (out[piv := drop (rd_k d) r], seen[piv := True]))
              (zip (rd_rows d) (rd_pivots d))
              (replicate (rd_k d) (replicate (rd_symbol_size d) 0), replicate (rd_k d) False)
        in if False \<in> set seen then Err (RlncSingular (length (rd_rows d))) else Ok out)"

section \<open>The dense draw ends\<close>

text \<open>\<open>2 ^ j\<close> steps of the generator are an affine map that adds an odd multiple of \<open>2 ^ j\<close> modulo
  \<open>2 ^ (j + 2)\<close>.\<close>

lemma lcg_steps:
  "\<exists>m q. \<forall>g. (lcg_next_u64 ^^ (2 ^ j)) g = g * (1 + 2 ^ (j + 2) * m) + 2 ^ j * (2 * q + 1)"
proof (induction j)
  case 0
  have "lcg_next_u64 g = g * (1 + 2 ^ 2 * 1591034055961698251) + (2 * 721347520444481703 + 1)" for g
    by (simp add: lcg_next_u64_def)
  then show ?case by (intro exI [of _ 1591034055961698251] exI [of _ 721347520444481703]) simp
next
  case (Suc j)
  then obtain m q where g: "\<And>g. (lcg_next_u64 ^^ (2 ^ j)) g = g * (1 + 2 ^ (j + 2) * m) + 2 ^ j * (2 * q + 1)"
    by blast
  define m' where "m' = m + 2 ^ (j + 1) * m * m"
  define q' where "q' = q + 2 ^ j * m * (2 * q + 1)"
  have "(lcg_next_u64 ^^ (2 ^ Suc j)) g = g * (1 + 2 ^ (Suc j + 2) * m') + 2 ^ Suc j * (2 * q' + 1)" for g
  proof -
    have "(lcg_next_u64 ^^ (2 ^ Suc j)) g = (lcg_next_u64 ^^ (2 ^ j)) ((lcg_next_u64 ^^ (2 ^ j)) g)"
      by (simp add: mult_2 funpow_add)
    then show ?thesis by (simp add: g m'_def q'_def algebra_simps power_add)
  qed
  then show ?case by blast
qed

lemma bit_add_odd_multiple:
  fixes g y :: u64
  assumes "odd (unat y)"
  shows "bit (g + 2 ^ 40 * y) 40 \<longleftrightarrow> \<not> bit g 40"
proof -
  have "unat (g + 2 ^ 40 * y) = (unat g + 2 ^ 40 * unat y) mod 2 ^ 64"
    by (simp add: unat_word_ariths mod_simps)
  then have "unat (g + 2 ^ 40 * y) div 2 ^ 40 = (unat g + 2 ^ 40 * unat y) div 2 ^ 40 mod 2 ^ 24"
    using mod_mult2_eq [of "unat g + 2 ^ 40 * unat y" "2 ^ 40" "2 ^ 24"] by simp
  then have "odd (unat (g + 2 ^ 40 * y) div 2 ^ 40) \<longleftrightarrow> even (unat g div 2 ^ 40)"
    using assms by (simp add: dvd_mod_iff)
  moreover have "bit w 40 \<longleftrightarrow> odd (unat w div 2 ^ 40)" for w :: u64
    using bit_unsigned_iff [of w 40, where ?'a = nat] by (simp add: bit_iff_odd [of "unat w"])
  ultimately show ?thesis by simp
qed

lemma lcg_bit_flips: "bit ((lcg_next_u64 ^^ (2 ^ 40)) g) 40 \<longleftrightarrow> \<not> bit g 40"
proof -
  obtain m q where e: "(lcg_next_u64 ^^ (2 ^ 40)) g = g * (1 + 2 ^ (40 + 2) * m) + 2 ^ 40 * (2 * q + 1)"
    using lcg_steps [of 40] by blast
  define y where "y = 2 * (2 * g * m + q) + 1"
  have "(lcg_next_u64 ^^ (2 ^ 40)) g = g + 2 ^ 40 * y"
    by (rule trans [OF e]) (simp add: y_def algebra_simps)
  moreover have "odd (unat y)"
    by (simp add: y_def unat_word_ariths dvd_mod_iff)
  ultimately show ?thesis using bit_add_odd_multiple [of y g] by metis
qed

lemma lcg_u8_zero: "lcg_u8 g = 0 \<Longrightarrow> \<not> bit g 40"
proof
  assume "lcg_u8 g = 0" "bit g 40"
  then have "\<not> bit (lcg_u8 g) 0" by simp
  then show False using \<open>bit g 40\<close> by (simp add: lcg_u8_def bit_ucast_iff bit_drop_bit_eq)
qed

lemma draw_row_state: "snd (draw_row k g) = (lcg_next_u64 ^^ k) g"
  by (induction k arbitrary: g) (simp_all add: Let_def case_prod_unfold funpow_swap1)

lemma draw_row_nth:
  "j < k \<Longrightarrow> fst (draw_row k g) ! j = lcg_u8 ((lcg_next_u64 ^^ Suc j) g)"
proof (induction k arbitrary: g j)
  case (Suc k)
  then show ?case by (cases j) (simp_all add: Let_def case_prod_unfold funpow_swap1)
qed simp

lemma draw_row_length: "length (fst (draw_row k g)) = k"
  by (induction k arbitrary: g) (simp_all add: Let_def case_prod_unfold)

text \<open>Within \<open>n\<close> steps a nonzero byte is drawn, so at most \<open>n\<close> passes are made.\<close>

lemma draw_dense_within:
  assumes "0 < k" "lcg_u8 ((lcg_next_u64 ^^ Suc n) g) \<noteq> 0"
  shows "\<exists>cs g'. draw_dense k g = Some (cs, g')"
  using assms(2)
proof (induction n arbitrary: g rule: less_induct)
  case (less n)
  obtain cs g' where r: "draw_row k g = (cs, g')" by fastforce
  show ?case
  proof (cases "list_ex (\<lambda>c. c \<noteq> 0) cs")
    case True
    then show ?thesis by (subst draw_dense.simps) (simp add: r)
  next
    case False
    have "k \<le> n"
    proof (rule ccontr)
      assume "\<not> k \<le> n"
      then have "cs ! n \<noteq> 0" "n < length cs"
        using less.prems draw_row_nth [of n k g] draw_row_length [of k g] r by auto
      then show False using False by (auto simp: list_ex_iff)
    qed
    then have "(lcg_next_u64 ^^ Suc (n - k)) g' = (lcg_next_u64 ^^ Suc n) g"
      using draw_row_state [of k g] r by (simp add: funpow_add [symmetric] flip: comp_apply [of "lcg_next_u64 ^^ _"])
    then have "\<exists>cs g''. draw_dense k g' = Some (cs, g'')"
      using less.IH [of "n - k" g'] less.prems assms(1) \<open>k \<le> n\<close> by simp
    then show ?thesis using False by (subst draw_dense.simps) (simp add: r)
  qed
qed

lemma draw_dense_ends:
  assumes "0 < k"
  shows "\<exists>cs g'. draw_dense k g = Some (cs, g')"
proof -
  have "\<exists>n. lcg_u8 ((lcg_next_u64 ^^ Suc n) g) \<noteq> 0"
  proof (rule ccontr)
    assume "\<nexists>n. lcg_u8 ((lcg_next_u64 ^^ Suc n) g) \<noteq> 0"
    then have z: "\<not> bit ((lcg_next_u64 ^^ Suc n) g) 40" for n using lcg_u8_zero by blast
    have "(lcg_next_u64 ^^ (2 ^ 40)) ((lcg_next_u64 ^^ Suc 0) g) = (lcg_next_u64 ^^ Suc (2 ^ 40)) g"
      by (simp only: funpow_Suc_right comp_apply funpow_0)
    then show False using lcg_bit_flips [of "(lcg_next_u64 ^^ Suc 0) g"] z [of 0] z [of "2 ^ 40"] by metis
  qed
  then show ?thesis using draw_dense_within [OF assms] by blast
qed

section \<open>The decoder keeps reduced rows\<close>

definition rlnc_wf :: "rlnc_decoder \<Rightarrow> bool" where
  "rlnc_wf d \<longleftrightarrow> reduced (rd_k d + rd_symbol_size d) (rd_rows d) (length (rd_rows d)) (rd_pivots d) (rd_k d)"

lemma rlnc_new_wf: "rlnc_wf (rlnc_decoder_new k s)"
  by (simp add: rlnc_wf_def rlnc_decoder_new_def reduced_def rows_len_def)

lemma reduce_by_nth:
  "length row = L \<Longrightarrow> length e = L \<Longrightarrow> j < L \<Longrightarrow> reduce_by (e, piv) row ! j = row ! j XOR gf_mul (row ! piv) (e ! j)"
  by (simp add: reduce_by_def axpy_eq axpy_spec_nth)

lemma reduce_by_length: "length (reduce_by ep row) = length row"
  by (simp add: reduce_by_def axpy_eq split: prod.splits)

lemma reduce_by_dot:
  "length row = L \<Longrightarrow> length e = L \<Longrightarrow> dot L (reduce_by (e, piv) row) w = dot L row w XOR gf_mul (row ! piv) (dot L e w)"
  by (simp add: reduce_by_def dot_axpy)

text \<open>Reducing a row by rows whose pivot columns are unit columns clears those columns and leaves
  every functional that vanishes on the rows.\<close>

lemma reduce_row:
  assumes "length row = L" "\<forall>e \<in> set es. length e = L" "length pivs = length es" "distinct pivs" "\<forall>j \<in> set pivs. j < L"
    and "\<forall>i < length es. \<forall>r < length es. es ! r ! (pivs ! i) = (if r = i then 1 else 0)"
  defines "row' \<equiv> fold reduce_by (zip es pivs) row"
  shows "length row' = L" "\<forall>j \<in> set pivs. row' ! j = 0"
    and "\<And>w. \<forall>e \<in> set es. dot L e w = 0 \<Longrightarrow> dot L row' w = dot L row w"
proof -
  have "length row' = L \<and> (\<forall>j \<in> set pivs. row' ! j = 0) \<and>
      (\<forall>j < L. (\<forall>e \<in> set es. e ! j = 0) \<longrightarrow> row' ! j = row ! j) \<and>
      (\<forall>w. (\<forall>e \<in> set es. dot L e w = 0) \<longrightarrow> dot L row' w = dot L row w)"
    using assms(2-6) unfolding row'_def
  proof (induction es arbitrary: pivs rule: rev_induct)
    case (snoc e es)
    obtain ps piv where p: "pivs = ps @ [piv]" "length ps = length es"
      using snoc.prems(2) by (cases pivs rule: rev_cases) auto
    define r where "r = fold reduce_by (zip es ps) row"
    have unit: "es ! i ! (ps ! l) = (if i = l then 1 else 0)" if "i < length es" "l < length es" for i l
      using snoc.prems(5) [rule_format, of l i] that p by (simp add: nth_append)
    have col: "es ! i ! piv = 0" if "i < length es" for i
      using snoc.prems(5) [rule_format, of "length es" i] that p by (simp add: nth_append)
    have e1: "e ! piv = 1" using snoc.prems(5) [rule_format, of "length es" "length es"] p by (simp add: nth_append)
    have e0: "e ! (ps ! l) = 0" if "l < length es" for l
      using snoc.prems(5) [rule_format, of l "length es"] that p by (simp add: nth_append)
    have IH: "length r = L" "\<forall>j \<in> set ps. r ! j = 0"
        "\<forall>j < L. (\<forall>e \<in> set es. e ! j = 0) \<longrightarrow> r ! j = row ! j"
        "\<forall>w. (\<forall>e \<in> set es. dot L e w = 0) \<longrightarrow> dot L r w = dot L row w"
      using snoc.IH [of ps] snoc.prems(1-4) p unit by (auto simp: r_def)
    have le: "length e = L" and lp: "piv < L" "\<forall>j \<in> set ps. j < L" using snoc.prems p by auto
    have r': "fold reduce_by (zip (es @ [e]) pivs) row = reduce_by (e, piv) r" by (simp add: p r_def)
    have n: "reduce_by (e, piv) r ! j = r ! j XOR gf_mul (r ! piv) (e ! j)" if "j < L" for j
      by (rule reduce_by_nth [OF IH(1) le that])
    have "\<forall>j \<in> set ps. e ! j = 0" using e0 p(2) by (auto simp: in_set_conv_nth)
    then have "\<forall>j \<in> set pivs. reduce_by (e, piv) r ! j = 0"
      using IH(2) n lp e1 by (auto simp: p(1) gf.mul_commute [of _ 1] gf.mul_one)
    then show ?case
      unfolding r' using IH n le by (auto simp: reduce_by_length reduce_by_dot)
  qed (use assms(1) in auto)
  then show "length row' = L" "\<forall>j \<in> set pivs. row' ! j = 0"
    "\<And>w. \<forall>e \<in> set es. dot L e w = 0 \<Longrightarrow> dot L row' w = dot L row w" by auto
qed

lemma first_nonzero_pos_Some:
  "first_nonzero_pos (take k row) = Some piv \<Longrightarrow> k \<le> length row \<Longrightarrow> piv < k \<and> row ! piv \<noteq> 0"
  by (auto simp: first_nonzero_pos_def find_Some_iff)

lemma first_nonzero_pos_None:
  "first_nonzero_pos (take k row) = None \<Longrightarrow> k \<le> length row \<Longrightarrow> j < k \<Longrightarrow> row ! j = 0"
  by (auto simp: first_nonzero_pos_def find_None_iff)

lemma insert_pivot_wf:
  assumes wf: "rlnc_wf d" and row: "length row = rd_k d + rd_symbol_size d" "\<forall>j \<in> set (rd_pivots d). row ! j = 0"
    and piv: "piv < rd_k d" "row ! piv \<noteq> 0"
  defines "d' \<equiv> insert_pivot d row piv" and "L \<equiv> rd_k d + rd_symbol_size d"
  shows "rlnc_wf d'" "rd_k d' = rd_k d" "rd_symbol_size d' = rd_symbol_size d"
    and "length (rd_rows d') = Suc (length (rd_rows d))"
    and "\<And>w. annihilates L w (rd_rows d') \<longleftrightarrow> annihilates L w (rd_rows d) \<and> dot L row w = 0"
proof -
  define prow where "prow = scal_inplace row (gf_inv (row ! piv))"
  define rows where "rows = map (reduce_by (prow, piv)) (rd_rows d)"
  note R = reducedD [OF wf [unfolded rlnc_wf_def], folded L_def]
  have d': "d' = d\<lparr>rd_rows := rows @ [prow], rd_pivots := rd_pivots d @ [piv]\<rparr>"
    by (simp add: d'_def insert_pivot_def rows_def prow_def Let_def)
  then show "rd_k d' = rd_k d" "rd_symbol_size d' = rd_symbol_size d"
      "length (rd_rows d') = Suc (length (rd_rows d))" by (simp_all add: rows_def)
  have len: "length (rd_rows d ! i) = L" if "i < length (rd_rows d)" for i
    using that R(1) by (auto simp: rows_len_def)
  have lr: "length row = L" and lp: "length prow = L" using row by (simp_all add: L_def prow_def scal_inplace_eq)
  have pL: "piv < L" using piv by (simp add: L_def)
  have p1: "prow ! piv = 1"
    using pL lr piv(2) gf.mul_inv [of "row ! piv"] gf.mul_commute by (simp add: prow_def scal_inplace_eq)
  have p0: "prow ! j = 0" if "j \<in> set (rd_pivots d)" for j
  proof -
    have "j < L" using R(5) that by (auto simp: L_def)
    then show ?thesis using row(2) that lr by (simp add: prow_def scal_inplace_eq)
  qed
  have new: "piv \<notin> set (rd_pivots d)" using row(2) piv(2) by auto
  have rn: "rows ! i ! j = rd_rows d ! i ! j XOR gf_mul (rd_rows d ! i ! piv) (prow ! j)"
    if "i < length (rd_rows d)" "j < L" for i j
    using reduce_by_nth [OF len [OF that(1)] lp that(2)] that(1) by (simp add: rows_def)
  define n where "n = length (rd_rows d)"
  have ln: "length rows = n" "length (rd_pivots d) = n" using R(3) by (simp_all add: rows_def n_def)
  have unit: "(rows @ [prow]) ! r ! ((rd_pivots d @ [piv]) ! i) = (if r = i then 1 else 0)"
    if "i < Suc n" "r < Suc n" for i r
  proof (cases "i = n")
    case True
    then show ?thesis
      using that rn [of r piv] pL p1 ln
      by (cases "r = n") (auto simp: nth_append n_def gf.mul_commute [of _ 1] gf.mul_one)
  next
    case False
    then have i: "i < n" "rd_pivots d ! i \<in> set (rd_pivots d)" using that ln by auto
    then have "rd_pivots d ! i < L" using R(5) by (auto simp: L_def)
    then show ?thesis
      using that i ln p0 [OF i(2)] rn [of r "rd_pivots d ! i"] R(6) [of i r]
      by (cases "r = n") (auto simp: nth_append n_def)
  qed
  have "rows_len L (rows @ [prow])"
    using len lp by (auto simp: rows_len_def rows_def reduce_by_length in_set_conv_nth)
  then show "rlnc_wf d'"
    using unit ln R(4,5) new piv(1)
    unfolding rlnc_wf_def d' reduced_def L_def [symmetric]
    by (auto simp: less_Suc_eq L_def)
  have "gf_inv (row ! piv) \<noteq> 0" using gf.mul_inv [of "row ! piv"] piv(2) by auto
  then have dp: "dot L prow w = 0 \<longleftrightarrow> dot L row w = 0" for w
    using dot_scal [OF lr] by (simp add: prow_def gf.mul_eq_0_iff)
  have "dot L (reduce_by (prow, piv) e) w = dot L e w XOR gf_mul (e ! piv) (dot L prow w)"
    if "e \<in> set (rd_rows d)" for e w
    using that R(1) lp by (intro reduce_by_dot) (auto simp: rows_len_def)
  then show "annihilates L w (rd_rows d') \<longleftrightarrow> annihilates L w (rd_rows d) \<and> dot L row w = 0" for w
    using dp [of w] by (cases "dot L prow w = 0") (auto simp: d' annihilates_def rows_def)
qed

text \<open>What \<open>add\<close> does with a packet of the right size.\<close>

definition packet_fits :: "rlnc_decoder \<Rightarrow> coded_packet \<Rightarrow> bool" where
  "packet_fits d p \<longleftrightarrow> length (coeffs p) = rd_k d \<and> length (cp_payload p) = rd_symbol_size d"

lemma dot_packet: "length (coeffs p) = k \<Longrightarrow> dot k (packet_row p) v = dot k (coeffs p) v"
  unfolding dot_def packet_row_def by (rule xsum_cong) (simp add: nth_append)

lemma rlnc_add_cases:
  assumes wf: "rlnc_wf d" and fits: "packet_fits d p"
  defines "L \<equiv> rd_k d + rd_symbol_size d"
  obtains (redundant) "rlnc_add p d = (Ok False, d)"
      "\<And>v. \<forall>e \<in> set (rd_rows d). dot (rd_k d) e v = 0 \<Longrightarrow> dot (rd_k d) (coeffs p) v = 0"
  | (innovative) d' where "rlnc_add p d = (Ok True, d')" "rlnc_wf d'"
      "rd_k d' = rd_k d" "rd_symbol_size d' = rd_symbol_size d" "length (rd_rows d') = Suc (length (rd_rows d))"
      "\<And>w. annihilates L w (rd_rows d') \<longleftrightarrow> annihilates L w (rd_rows d) \<and> dot L (packet_row p) w = 0"
      "\<exists>v. (\<forall>e \<in> set (rd_rows d). dot (rd_k d) e v = 0) \<and> dot (rd_k d) (coeffs p) v \<noteq> 0"
proof -
  note R = reducedD [OF wf [unfolded rlnc_wf_def], folded L_def]
  let ?k = "rd_k d"
  have kL: "?k \<le> L" by (simp add: L_def)
  define row where "row = fold reduce_by (zip (rd_rows d) (rd_pivots d)) (packet_row p)"
  have lr: "length (packet_row p) = L" using fits by (simp add: packet_fits_def packet_row_def L_def)
  have jL: "\<forall>j \<in> set (rd_pivots d). j < L" using R(5) by (auto simp: L_def)
  have unit: "\<forall>i < length (rd_rows d). \<forall>r < length (rd_rows d).
      rd_rows d ! r ! (rd_pivots d ! i) = (if r = i then 1 else 0)" using R(6) by simp
  note red = reduce_row [OF lr R(1) [unfolded rows_len_def] R(3,4) jL unit, folded row_def annihilates_def]
  have dk: "dot ?k row v = dot ?k (coeffs p) v" if "\<forall>e \<in> set (rd_rows d). dot ?k e v = 0" for v
    using red(3) [of "\<lambda>j. if j < ?k then v j else 0"] that fits
    by (simp add: annihilates_def dot_prefix [OF kL] dot_packet packet_fits_def)
  have add: "rlnc_add p d = (case first_nonzero_pos (take ?k row) of
      Some piv \<Rightarrow> (Ok True, insert_pivot d row piv) | None \<Rightarrow> (Ok False, d))"
    using fits by (simp add: rlnc_add_def packet_fits_def row_def [symmetric] Let_def)
  show thesis
  proof (cases "first_nonzero_pos (take ?k row)")
    case None
    then have "\<forall>j < ?k. row ! j = 0" using first_nonzero_pos_None red(1) kL by blast
    then have "dot ?k row v = 0" for v by (simp add: dot_def cong: xsum_cong)
    then show thesis using redundant dk add None by auto
  next
    case (Some piv)
    then have piv: "piv < ?k" "row ! piv \<noteq> 0" using first_nonzero_pos_Some red(1) kL by blast+
    note I = insert_pivot_wf [OF wf red(1) [unfolded L_def] red(2) piv, folded L_def]
    have new: "piv \<notin> set (rd_pivots d)" using red(2) piv(2) by auto
    define v where "v = (\<lambda>j. (if j = piv then 1 else 0) XOR
        xsum (\<lambda>i. if rd_pivots d ! i = j then rd_rows d ! i ! piv else 0) (length (rd_rows d)))"
    have v: "\<forall>e \<in> set (rd_rows d). dot ?k e v = 0"
      using deficient_kernel(2) [OF wf [unfolded rlnc_wf_def] piv(1) new] by (simp add: v_def all_set_conv_all_nth)
    have "gf_mul (row ! j) (v j) = (if j = piv then row ! j else 0)" if "j < ?k" for j
    proof (cases "j \<in> set (rd_pivots d)")
      case True
      then show ?thesis using red(2) piv(2) by auto
    next
      case False
      then have "xsum (\<lambda>i. if rd_pivots d ! i = j then rd_rows d ! i ! piv else 0) (length (rd_rows d)) =
          xsum (\<lambda>i. 0) (length (rd_rows d))"
        using R(3) by (intro xsum_cong) auto
      then show ?thesis by (simp add: v_def)
    qed
    then have "dot ?k row v = xsum (\<lambda>j. if j = piv then row ! j else 0) ?k"
      unfolding dot_def by (intro xsum_cong)
    then have "dot ?k (coeffs p) v \<noteq> 0" using dk [OF v] piv by (simp add: xsum_delta)
    then have ex: "\<exists>v. (\<forall>e \<in> set (rd_rows d). dot ?k e v = 0) \<and> dot ?k (coeffs p) v \<noteq> 0" using v by blast
    have ann: "annihilates L w (rd_rows (insert_pivot d row piv)) \<longleftrightarrow>
        annihilates L w (rd_rows d) \<and> dot L (packet_row p) w = 0" for w
      using I(5) red(3) by auto
    show thesis using innovative [OF _ I(1-4) ann ex] add Some by simp
  qed
qed

section \<open>Receiving\<close>

definition receive_packets :: "coded_packet list \<Rightarrow> rlnc_decoder \<Rightarrow> rlnc_decoder" where
  "receive_packets ps d = foldl (\<lambda>d p. snd (rlnc_add p d)) d ps"

text \<open>No other coefficient vector vanishes on everything received than zero.\<close>

definition packets_determine :: "nat \<Rightarrow> coded_packet list \<Rightarrow> bool" where
  "packets_determine k ps \<longleftrightarrow>
     (\<forall>v. (\<forall>p \<in> set ps. dot k (coeffs p) v = 0) \<longrightarrow> (\<forall>j < k. v j = 0))"

text \<open>A packet that is a combination of the sources\<close>

definition combination_of :: "bytes list \<Rightarrow> nat \<Rightarrow> coded_packet \<Rightarrow> bool" where
  "combination_of source s p \<longleftrightarrow>
     length (coeffs p) = length source \<and> length (cp_payload p) = s \<and>
     row_holds (length source) s (\<lambda>j. source ! j) (packet_row p)"

lemma receive_packets_inv:
  assumes "\<forall>p \<in> set ps. length (coeffs p) = k \<and> length (cp_payload p) = s"
  defines "d \<equiv> receive_packets ps (rlnc_decoder_new k s)"
  shows "rlnc_wf d \<and> rd_k d = k \<and> rd_symbol_size d = s \<and>
    (\<forall>w. (\<forall>p \<in> set ps. dot (k + s) (packet_row p) w = 0) \<longrightarrow> annihilates (k + s) w (rd_rows d)) \<and>
    (\<forall>v. (\<forall>e \<in> set (rd_rows d). dot k e v = 0) \<longleftrightarrow> (\<forall>p \<in> set ps. dot k (coeffs p) v = 0))"
  using assms(1) unfolding d_def
proof (induction ps rule: rev_induct)
  case Nil
  show ?case using rlnc_new_wf [of k s] by (simp add: receive_packets_def rlnc_decoder_new_def annihilates_def)
next
  case (snoc p ps)
  define d where "d = receive_packets ps (rlnc_decoder_new k s)"
  have IH: "rlnc_wf d" "rd_k d = k" "rd_symbol_size d = s"
      "\<And>w. \<forall>p \<in> set ps. dot (k + s) (packet_row p) w = 0 \<Longrightarrow> annihilates (k + s) w (rd_rows d)"
      "\<And>v. (\<forall>e \<in> set (rd_rows d). dot k e v = 0) \<longleftrightarrow> (\<forall>p \<in> set ps. dot k (coeffs p) v = 0)"
    using snoc by (auto simp: d_def)
  have r: "receive_packets (ps @ [p]) (rlnc_decoder_new k s) = snd (rlnc_add p d)"
    by (simp add: receive_packets_def d_def)
  have fits: "packet_fits d p" using snoc.prems IH by (simp add: packet_fits_def)
  from IH(1) fits show ?case
  proof (cases rule: rlnc_add_cases)
    case redundant
    then show ?thesis unfolding r using IH by auto
  next
    case (innovative d')
    note ann = innovative(6) [unfolded IH(2,3)]
    have "(\<forall>e \<in> set (rd_rows d'). dot k e v = 0) \<longleftrightarrow>
        (\<forall>e \<in> set (rd_rows d). dot k e v = 0) \<and> dot k (coeffs p) v = 0" for v
      using ann [of "\<lambda>j. if j < k then v j else 0"] snoc.prems
      by (simp add: annihilates_def dot_prefix dot_packet)
    then show ?thesis unfolding r using innovative IH ann by auto
  qed
qed

section \<open>Reading the sources\<close>

lemma decode_fold:
  assumes "length rows = length pivs" "distinct pivs" "\<forall>j \<in> set pivs. j < k" "length out = k" "length seen = k"
  shows "\<exists>out' seen'. fold (\<lambda>(r, piv) (out, seen). (out[piv := drop k r], seen[piv := True]))
      (zip rows pivs) (out, seen) = (out', seen') \<and> length out' = k \<and> length seen' = k \<and>
    (\<forall>i < length rows. out' ! (pivs ! i) = drop k (rows ! i)) \<and>
    (\<forall>j < k. j \<notin> set pivs \<longrightarrow> out' ! j = out ! j) \<and> (\<forall>j < k. seen' ! j \<longleftrightarrow> seen ! j \<or> j \<in> set pivs)"
  using assms
proof (induction rows pivs arbitrary: out seen rule: list_induct2)
  case (Cons r rows piv pivs)
  obtain out' seen' where f: "fold (\<lambda>(r, piv) (out, seen). (out[piv := drop k r], seen[piv := True]))
      (zip rows pivs) (out[piv := drop k r], seen[piv := True]) = (out', seen')"
    and IH: "length out' = k" "length seen' = k" "\<forall>i < length rows. out' ! (pivs ! i) = drop k (rows ! i)"
      "\<forall>j < k. j \<notin> set pivs \<longrightarrow> out' ! j = out[piv := drop k r] ! j"
      "\<forall>j < k. seen' ! j \<longleftrightarrow> seen[piv := True] ! j \<or> j \<in> set pivs"
    using Cons.IH [of "out[piv := drop k r]" "seen[piv := True]"] Cons.prems by auto
  have "out' ! ((piv # pivs) ! i) = drop k ((r # rows) ! i)" if "i < length (r # rows)" for i
    using that IH(3,4) Cons.prems by (cases i) auto
  then show ?case
    using f IH(1,2,4,5) Cons.prems by (intro exI [of _ out'] exI [of _ seen']) (auto simp: nth_list_update)
qed simp

lemma rlnc_decode_full:
  assumes wf: "rlnc_wf d" and full: "length (rd_rows d) = rd_k d"
    and X: "\<forall>row \<in> set (rd_rows d). row_holds (rd_k d) (rd_symbol_size d) X row"
    "\<forall>j < rd_k d. length (X j) = rd_symbol_size d"
  shows "rlnc_decode d = Ok (map X [0..<rd_k d])"
proof -
  define k where "k = rd_k d"
  note R = wf [unfolded rlnc_wf_def full, folded k_def]
  note D = reducedD [OF R]
  obtain out seen where f: "fold (\<lambda>(r, piv) (out, seen). (out[piv := drop k r], seen[piv := True]))
      (zip (rd_rows d) (rd_pivots d)) (replicate k (replicate (rd_symbol_size d) 0), replicate k False) = (out, seen)"
    and o: "length out = k" "length seen = k" "\<forall>i < k. out ! (rd_pivots d ! i) = drop k (rd_rows d ! i)"
      "\<forall>j < k. seen ! j \<longleftrightarrow> replicate k False ! j \<or> j \<in> set (rd_pivots d)"
    using decode_fold [of "rd_rows d" "rd_pivots d" k "replicate k (replicate (rd_symbol_size d) 0)" "replicate k False"]
      D full by (auto simp: k_def)
  have all: "set (rd_pivots d) = {..<k}" using full_rank_units(1) [OF R] .
  have "\<forall>j < k. seen ! j" using o(4) all by simp
  then have seen: "False \<notin> set seen" using o(2) by (auto simp: in_set_conv_nth)
  have "out ! j = X j" if j: "j < k" for j
  proof -
    have "j \<in> set (rd_pivots d)" using all j by simp
    then obtain i where i: "i < k" "rd_pivots d ! i = j" using D(3) by (auto simp: in_set_conv_nth)
    then show ?thesis using o(3) reduced_solution [OF R X [folded k_def] i(1)] by auto
  qed
  then have "out = map X [0..<k]" using o(1) by (auto intro: nth_equalityI)
  then show ?thesis using seen f full by (simp add: rlnc_decode_def k_def Let_def)
qed

lemma decode_received_packets:
  assumes src: "\<forall>x \<in> set source. length x = s" and ps: "\<forall>p \<in> set ps. combination_of source s p"
  defines "d \<equiv> receive_packets ps (rlnc_decoder_new (length source) s)"
  shows "rlnc_rank d \<le> length source"
    and "rlnc_decode d =
      (if packets_determine (length source) ps then Ok source else Err (RlncInsufficient (rlnc_rank d) (length source)))"
proof -
  define k where "k = length source"
  have sz: "\<forall>p \<in> set ps. length (coeffs p) = k \<and> length (cp_payload p) = s"
    using ps by (simp add: combination_of_def k_def)
  have I: "rlnc_wf d" "rd_k d = k" "rd_symbol_size d = s"
      "\<And>w. \<forall>p \<in> set ps. dot (k + s) (packet_row p) w = 0 \<Longrightarrow> annihilates (k + s) w (rd_rows d)"
      "\<And>v. (\<forall>e \<in> set (rd_rows d). dot k e v = 0) \<longleftrightarrow> (\<forall>p \<in> set ps. dot k (coeffs p) v = 0)"
    using receive_packets_inv [OF sz] by (auto simp: d_def k_def)
  note R = I(1) [unfolded rlnc_wf_def I(2,3)]
  show le: "rlnc_rank d \<le> length source" using reduced_rank_le [OF R] by (simp add: rlnc_rank_def k_def)
  have full: "length (rd_rows d) = k \<longleftrightarrow> packets_determine k ps"
    using reduced_full_iff [OF R] I(5) by (simp add: packets_determine_def)
  have "\<forall>p \<in> set ps. \<forall>q < s. dot (k + s) (packet_row p) (weight k q (\<lambda>j. source ! j)) = 0"
    using ps by (auto simp: combination_of_def k_def row_holds_def dot_weight)
  then have "\<forall>row \<in> set (rd_rows d). row_holds k s (\<lambda>j. source ! j) row"
    unfolding rows_hold_iff using I(4) by blast
  then have "rlnc_decode d = Ok (map (\<lambda>j. source ! j) [0..<k])" if "length (rd_rows d) = k"
    using rlnc_decode_full [OF I(1)] that src I(2,3) by (simp add: k_def)
  moreover have "map (\<lambda>j. source ! j) [0..<k] = source" by (simp add: k_def map_nth)
  moreover have "rlnc_decode d = Err (RlncInsufficient (rlnc_rank d) k)" if "length (rd_rows d) \<noteq> k"
    using that le I(2) by (simp add: rlnc_decode_def rlnc_rank_def k_def)
  ultimately show "rlnc_decode d =
      (if packets_determine (length source) ps then Ok source else Err (RlncInsufficient (rlnc_rank d) (length source)))"
    using full by (simp add: k_def)
qed

section \<open>Encoded packets\<close>

definition rlnc_encoder_wf :: "rlnc_encoder \<Rightarrow> bool" where
  "rlnc_encoder_wf e \<longleftrightarrow> rn_k e = length (rn_source e) \<and> (\<forall>x \<in> set (rn_source e). length x = rn_symbol_size e)"

lemma dense_payload_nth:
  assumes "\<forall>x \<in> set source. length x = s" "length cs \<le> length source"
  shows "length (dense_payload source s cs) = s \<and>
    (\<forall>q < s. dense_payload source s cs ! q = xsum (\<lambda>j. gf_mul (cs ! j) (source ! j ! q)) (length cs))"
  using assms(2)
proof (induction cs rule: rev_induct)
  case (snoc c cs)
  define pl where "pl = dense_payload source s cs"
  have IH: "length pl = s" "\<forall>q < s. pl ! q = xsum (\<lambda>j. gf_mul (cs ! j) (source ! j ! q)) (length cs)"
    using snoc by (auto simp: pl_def)
  have ls: "length (source ! length cs) = s" using assms(1) snoc.prems by simp
  have "dense_payload source s (cs @ [c]) = (if c \<noteq> 0 then axpy pl c (source ! length cs) else pl)"
    by (simp add: dense_payload_def enumerate_append_eq pl_def)
  moreover have "xsum (\<lambda>j. gf_mul ((cs @ [c]) ! j) (source ! j ! q)) (length cs) =
      xsum (\<lambda>j. gf_mul (cs ! j) (source ! j ! q)) (length cs)" for q
    by (rule xsum_cong) (simp add: nth_append)
  ultimately show ?case using IH ls by (auto simp: axpy_eq axpy_spec_nth)
qed (simp add: dense_payload_def)

lemma row_holds_packet:
  assumes "length (coeffs p) = k" "length (cp_payload p) = s"
  shows "row_holds k s X (packet_row p) \<longleftrightarrow>
    (\<forall>q < s. cp_payload p ! q = xsum (\<lambda>j. gf_mul (coeffs p ! j) (X j ! q)) k)"
proof -
  have "xsum (\<lambda>j. gf_mul (packet_row p ! j) (X j ! q)) k = xsum (\<lambda>j. gf_mul (coeffs p ! j) (X j ! q)) k" for q
    by (rule xsum_cong) (simp add: packet_row_def nth_append assms(1))
  then show ?thesis by (simp add: row_holds_def packet_row_def nth_append assms)
qed

lemma draw_dense_length: "draw_dense k g = Some (cs, g') \<Longrightarrow> length cs = k \<and> list_ex (\<lambda>c. c \<noteq> 0) cs"
proof -
  assume d: "draw_dense k g = Some (cs, g')"
  have "length (fst (cs, g')) = k \<and> list_ex (\<lambda>c. c \<noteq> 0) (fst (cs, g'))"
  proof (rule draw_dense.raw_induct [OF _ d])
    fix draw k g r
    assume IH: "\<And>k g r. draw k g = Some r \<Longrightarrow> length (fst r) = k \<and> list_ex (\<lambda>c. c \<noteq> (0 :: u8)) (fst r)"
      and r: "(case draw_row k g of (cs, g') \<Rightarrow> if list_ex (\<lambda>c. c \<noteq> 0) cs then Some (cs, g') else draw k g') = Some r"
    show "length (fst r) = k \<and> list_ex (\<lambda>c. c \<noteq> 0) (fst r)"
      using r IH [of k "snd (draw_row k g)" r] draw_row_length [of k g]
      by (auto simp: case_prod_unfold split: if_splits)
  qed
  then show ?thesis by simp
qed

lemma rlnc_code_combination:
  assumes wf: "rlnc_encoder_wf e" and c: "rlnc_code e = Some (p, e')"
  shows "combination_of (rn_source e) (rn_symbol_size e) p" "e' = e\<lparr>rn_rng := rn_rng e'\<rparr>"
    "list_ex (\<lambda>c. c \<noteq> 0) (coeffs p)"
proof -
  obtain cs g where d: "draw_dense (rn_k e) (rn_rng e) = Some (cs, g)"
    and p: "p = \<lparr>coeffs = cs, cp_payload = dense_payload (rn_source e) (rn_symbol_size e) cs\<rparr>"
      "e' = e\<lparr>rn_rng := g\<rparr>"
    using c by (auto simp: rlnc_code_def split: option.splits)
  have l: "length cs = length (rn_source e)" "list_ex (\<lambda>c. c \<noteq> 0) cs"
    using draw_dense_length [OF d] wf by (auto simp: rlnc_encoder_wf_def)
  note P = dense_payload_nth [of "rn_source e" "rn_symbol_size e" cs]
  show "combination_of (rn_source e) (rn_symbol_size e) p"
    using P wf l by (simp add: combination_of_def p row_holds_packet rlnc_encoder_wf_def)
  show "e' = e\<lparr>rn_rng := rn_rng e'\<rparr>" "list_ex (\<lambda>c. c \<noteq> 0) (coeffs p)" using l by (simp_all add: p)
qed

text \<open>The sparse draw sets exactly the chosen coefficients.\<close>

definition support_of :: "nat \<Rightarrow> nat list \<Rightarrow> bytes \<Rightarrow> bool" where
  "support_of k chosen cs \<longleftrightarrow> distinct chosen \<and> (\<forall>i \<in> set chosen. i < k) \<and> length cs = k \<and>
     (\<forall>j < k. cs ! j \<noteq> 0 \<longleftrightarrow> j \<in> set chosen)"

lemma or_one_nonzero: "(b :: u8) OR 1 \<noteq> 0"
proof
  assume "b OR 1 = 0"
  then have "\<not> bit (b OR 1) 0" by simp
  then show False by (simp add: bit_or_iff)
qed

lemma sparse_draw_support:
  assumes "support_of k chosen cs" "degree \<le> k" "length chosen \<le> degree"
    "sparse_draw degree k n chosen cs g = (chosen', cs', g')"
  shows "support_of k chosen' cs' \<and> length chosen' \<le> degree \<and> set chosen \<subseteq> set chosen'"
  using assms
proof (induction degree k n chosen cs g rule: sparse_draw.induct)
  case (2 degree k n chosen cs g)
  show ?case
  proof (cases "length chosen < degree")
    case True
    define h where "h = lcg_next_u64 g"
    define idx where "idx = unat (drop_bit 40 h) mod k"
    have idx: "idx < k" using True 2(4) by (simp add: idx_def)
    show ?thesis
    proof (cases "cs ! idx = 0")
      case z: True
      have "support_of k (chosen @ [idx]) (cs[idx := lcg_u8 (lcg_next_u64 h) OR 1])"
        using 2(3) idx z by (auto simp: support_of_def nth_list_update or_one_nonzero)
      then show ?thesis
        using 2(1) [OF True h_def idx_def z refl] 2(4-6) True z
        by (auto simp: Let_def h_def [symmetric] idx_def [symmetric])
    next
      case False
      then show ?thesis
        using 2(2) [OF True h_def idx_def False] 2(3-6) True
        by (auto simp: Let_def h_def [symmetric] idx_def [symmetric])
    qed
  qed (use 2 in auto)
qed auto

lemma sparse_payload_nth:
  assumes "distinct chosen" "\<forall>i \<in> set chosen. i < k" "k = length source" "\<forall>x \<in> set source. length x = s"
    and pl: "pl = fold (\<lambda>i pl. axpy pl (cs ! i) (source ! i)) chosen (replicate s 0)"
  shows "length pl = s \<and>
    (\<forall>q < s. pl ! q = xsum (\<lambda>j. if j \<in> set chosen then gf_mul (cs ! j) (source ! j ! q) else 0) k)"
  using assms(1,2) unfolding pl
proof (induction chosen rule: rev_induct)
  case (snoc i chosen)
  define pl where "pl = fold (\<lambda>i pl. axpy pl (cs ! i) (source ! i)) chosen (replicate s 0)"
  have IH: "length pl = s"
      "\<forall>q < s. pl ! q = xsum (\<lambda>j. if j \<in> set chosen then gf_mul (cs ! j) (source ! j ! q) else 0) k"
    using snoc by (auto simp: pl_def)
  have i: "i < k" "i \<notin> set chosen" "length (source ! i) = s" using snoc.prems assms(3,4) by auto
  have "xsum (\<lambda>j. if j \<in> set (chosen @ [i]) then gf_mul (cs ! j) (source ! j ! q) else 0) k =
      xsum (\<lambda>j. (if j \<in> set chosen then gf_mul (cs ! j) (source ! j ! q) else 0) XOR
        (if j = i then gf_mul (cs ! j) (source ! j ! q) else 0)) k" for q
    by (rule xsum_cong) (use i(2) in auto)
  moreover have "fold (\<lambda>i pl. axpy pl (cs ! i) (source ! i)) (chosen @ [i]) (replicate s 0) = axpy_spec (cs ! i) (source ! i) pl"
    by (simp add: pl_def axpy_eq)
  ultimately show ?case
    using IH i by (simp add: xsum_xor xsum_delta axpy_spec_nth del: fold_append)
qed simp

lemma code_sparse_combination:
  assumes wf: "rlnc_encoder_wf e" and c: "code_sparse degree e = (p, e')"
  shows "combination_of (rn_source e) (rn_symbol_size e) p" "e' = e\<lparr>rn_rng := rn_rng e'\<rparr>"
    "length (filter (\<lambda>c. c \<noteq> 0) (coeffs p)) \<le> max degree 1"
proof -
  define k where "k = rn_k e"
  obtain chosen cs g where d: "sparse_draw (min (max degree 1) k) k (8 * k) [] (replicate k 0) (rn_rng e) = (chosen, cs, g)"
    by (metis prod_cases3)
  have p: "p = \<lparr>coeffs = cs,
      cp_payload = fold (\<lambda>i pl. axpy pl (cs ! i) (rn_source e ! i)) chosen (replicate (rn_symbol_size e) 0)\<rparr>"
      "e' = e\<lparr>rn_rng := g\<rparr>"
    using c d by (auto simp: code_sparse_def k_def)
  have "support_of k [] (replicate k 0)" by (simp add: support_of_def)
  then have S: "support_of k chosen cs" "length chosen \<le> min (max degree 1) k"
    using sparse_draw_support [OF _ _ _ d] by auto
  have k: "k = length (rn_source e)" "\<forall>x \<in> set (rn_source e). length x = rn_symbol_size e"
    using wf by (auto simp: rlnc_encoder_wf_def k_def)
  note P = sparse_payload_nth [of chosen k, OF _ _ k refl, of cs]
  have "xsum (\<lambda>j. if j \<in> set chosen then gf_mul (cs ! j) (rn_source e ! j ! q) else 0) k =
      xsum (\<lambda>j. gf_mul (cs ! j) (rn_source e ! j ! q)) k" for q
    by (rule xsum_cong) (use S(1) in \<open>auto simp: support_of_def\<close>)
  then show "combination_of (rn_source e) (rn_symbol_size e) p"
    using P S(1) k by (simp add: combination_of_def p row_holds_packet support_of_def)
  show "e' = e\<lparr>rn_rng := rn_rng e'\<rparr>" by (simp add: p)
  have "length (filter (\<lambda>c. c \<noteq> 0) cs) = card {j. j < k \<and> cs ! j \<noteq> 0}"
    using S(1) by (simp add: length_filter_conv_card support_of_def)
  also have "\<dots> = card (set chosen)" using S(1) by (intro arg_cong [where f = card]) (auto simp: support_of_def)
  also have "\<dots> \<le> max degree 1" using S by (simp add: support_of_def distinct_card)
  finally show "length (filter (\<lambda>c. c \<noteq> 0) (coeffs p)) \<le> max degree 1" by (simp add: p)
qed

section \<open>The peeling decoder on packets\<close>

lemma covsum_append: "covsum X (a @ b) p = covsum X a p XOR covsum X b p"
  by (induction X a p rule: covsum.induct) (simp_all add: ac_simps)

lemma covsum_row:
  "covsum X (map (\<lambda>i. (i, r ! i)) (filter (\<lambda>i. r ! i \<noteq> 0) [0..<k])) q = xsum (\<lambda>j. gf_mul (r ! j) (X j ! q)) k"
  by (induction k) (simp_all add: covsum_append)

lemma dense_sym_holds:
  assumes "dense_sym k s r = Some sm" "k + s \<le> length r"
  shows "sym_wf k s sm" "sym_holds s X sm \<longleftrightarrow> row_holds k s X r"
  using assms by (auto simp: dense_sym_def sym_wf_def sym_holds_def covsum_row row_holds_def Let_def comp_def
      split: if_splits)

text \<open>When the rows hold of \<open>X\<close>, they hold of another assignment exactly when their kernel is not trivial.\<close>

lemma rows_determine:
  assumes s: "0 < s" and X: "assignment k s X" "\<forall>r \<in> set rows. row_holds k s X r"
  shows "(\<exists>X'. assignment k s X' \<and> (\<forall>r \<in> set rows. row_holds k s X' r) \<and> (\<exists>t < k. X' t \<noteq> X t)) \<longleftrightarrow>
    (\<exists>v. (\<forall>r \<in> set rows. dot k r v = 0) \<and> (\<exists>j < k. v j \<noteq> 0))"
proof
  assume "\<exists>X'. assignment k s X' \<and> (\<forall>r \<in> set rows. row_holds k s X' r) \<and> (\<exists>t < k. X' t \<noteq> X t)"
  then obtain X' t where X': "assignment k s X'" "\<forall>r \<in> set rows. row_holds k s X' r" and t: "t < k" "X' t \<noteq> X t"
    by blast
  have "length (X' t) = length (X t)" using X(1) X'(1) t(1) by (simp add: assignment_def)
  then obtain q where q: "q < s" "X' t ! q \<noteq> X t ! q"
    using t X(1) by (auto simp: list_eq_iff_nth_eq assignment_def)
  have "dot k r (\<lambda>j. X' j ! q XOR X j ! q) = 0" if "r \<in> set rows" for r
    using that X(2) X'(2) q(1) by (auto simp: dot_def row_holds_def gf.mul_distrib xsum_xor)
  moreover have "X' t ! q XOR X t ! q \<noteq> 0" using q(2) by (simp add: xor_zero_iff)
  ultimately show "\<exists>v. (\<forall>r \<in> set rows. dot k r v = 0) \<and> (\<exists>j < k. v j \<noteq> 0)" using t(1) by blast
next
  assume "\<exists>v. (\<forall>r \<in> set rows. dot k r v = 0) \<and> (\<exists>j < k. v j \<noteq> 0)"
  then obtain v j where v: "\<forall>r \<in> set rows. dot k r v = 0" and j: "j < k" "v j \<noteq> 0" by blast
  define X' where "X' = (\<lambda>t. map (\<lambda>b. b XOR v t) (X t))"
  have n: "X' i ! q = X i ! q XOR v i" if "i < k" "q < s" for i q
    using that X(1) by (simp add: X'_def assignment_def)
  have "row_holds k s X' r" if r: "r \<in> set rows" for r
  proof -
    have "xsum (\<lambda>i. gf_mul (r ! i) (X' i ! q)) k = xsum (\<lambda>i. gf_mul (r ! i) (X i ! q)) k XOR dot k r v" if "q < s" for q
      unfolding dot_def xsum_xor [symmetric] by (rule xsum_cong) (simp add: n that gf.mul_distrib)
    then show ?thesis using X(2) v r by (simp add: row_holds_def)
  qed
  moreover have "assignment k s X'" using X(1) by (simp add: assignment_def X'_def)
  moreover have "X' j \<noteq> X j"
  proof
    assume "X' j = X j"
    then have "X j ! 0 XOR v j = X j ! 0" using n [of j 0] j s by simp
    then show False using j(2) by (auto simp: bit_eq_iff bit_xor_iff)
  qed
  ultimately show "\<exists>X'. assignment k s X' \<and> (\<forall>r \<in> set rows. row_holds k s X' r) \<and> (\<exists>t < k. X' t \<noteq> X t)"
    using j(1) by blast
qed

lemma peel_decode_rows:
  assumes s: "0 < s" and rows: "\<forall>r \<in> set rows. length r = k + s"
    and X: "assignment k s X" "\<forall>r \<in> set rows. row_holds k s X r"
    and nz: "\<forall>r \<in> set rows. \<exists>j < k. r ! j \<noteq> 0"
  shows "if \<forall>v. (\<forall>r \<in> set rows. dot k r v = 0) \<longrightarrow> (\<forall>j < k. v j = 0)
    then peel_decode rows k s = Ok (map X [0..<k]) else \<exists>a b. peel_decode rows k s = Err (Underdetermined a b)"
proof -
  define syms where "syms = List.map_filter (dense_sym k s) rows"
  have p: "peel_decode rows k s = fst (peel_symbols syms k s)"
    using rows by (auto simp: peel_decode_def syms_def)
  have some: "\<exists>sm. dense_sym k s r = Some sm" if "r \<in> set rows" for r
    using nz that by (force simp: dense_sym_def Let_def filter_empty_conv)
  have syms: "sm \<in> set syms \<longleftrightarrow> (\<exists>r \<in> set rows. dense_sym k s r = Some sm)" for sm
    by (force simp: syms_def List.map_filter_def)
  have wf: "\<forall>sm \<in> set syms. sym_wf k s sm"
    using dense_sym_holds(1) rows by (fastforce simp: syms)
  have con: "consistent s Y syms \<longleftrightarrow> (\<forall>r \<in> set rows. row_holds k s Y r)" for Y
  proof -
    have "sym_holds s Y sm \<longleftrightarrow> row_holds k s Y r" if "r \<in> set rows" "dense_sym k s r = Some sm" for r sm
      using dense_sym_holds(2) [OF that(2)] rows that(1) by simp
    then show ?thesis unfolding consistent_def Ball_def syms using some by blast
  qed
  have "fst (peel_symbols syms k s) = Ok (map Y [0..<k]) \<or>
      (\<exists>a b Y'. fst (peel_symbols syms k s) = Err (Underdetermined a b) \<and> assignment k s Y' \<and>
        (\<forall>r \<in> set rows. row_holds k s Y' r) \<and> (\<exists>t < k. Y' t \<noteq> Y t))"
    if "assignment k s Y" "\<forall>r \<in> set rows. row_holds k s Y r" for Y
    using peel_symbols_correct [OF wf s that(1)] that(2) unfolding con by blast
  note P = this
  have D: "(\<forall>v. (\<forall>r \<in> set rows. dot k r v = 0) \<longrightarrow> (\<forall>j < k. v j = 0)) \<longleftrightarrow>
      \<not> (\<exists>X'. assignment k s X' \<and> (\<forall>r \<in> set rows. row_holds k s X' r) \<and> (\<exists>t < k. X' t \<noteq> X t))"
    unfolding rows_determine [OF s X] by blast
  show ?thesis
  proof (cases "\<exists>X'. assignment k s X' \<and> (\<forall>r \<in> set rows. row_holds k s X' r) \<and> (\<exists>t < k. X' t \<noteq> X t)")
    case True
    then obtain X' t where X': "assignment k s X'" "\<forall>r \<in> set rows. row_holds k s X' r" "t < k" "X' t \<noteq> X t" by blast
    then have "map X [0..<k] \<noteq> map X' [0..<k]" by (metis atLeast0LessThan lessThan_iff map_eq_conv set_upt)
    then have "\<exists>a b. peel_decode rows k s = Err (Underdetermined a b)"
      using P [OF X] P [OF X'(1,2)] unfolding p by auto
    then show ?thesis using True D by (simp del: not_all)
  next
    case False
    then have "peel_decode rows k s = Ok (map X [0..<k])" using P [OF X] unfolding p by blast
    then show ?thesis using False D by (simp del: not_ex)
  qed
qed

lemma sparse_decode_packets:
  assumes s: "0 < s" and src: "\<forall>x \<in> set source. length x = s" and ps: "\<forall>p \<in> set ps. combination_of source s p"
  shows "if packets_determine (length source) ps then sparse_decode ps (length source) s = Ok source
    else \<exists>a b. sparse_decode ps (length source) s = Err (RlncInsufficient a b)"
proof -
  define k where "k = length source"
  define qs where "qs = filter (\<lambda>p. list_ex (\<lambda>c. c \<noteq> 0) (coeffs p)) ps"
  have q: "length (coeffs p) = k" "length (cp_payload p) = s" "row_holds k s (\<lambda>j. source ! j) (packet_row p)"
    if "p \<in> set ps" for p
    using ps that by (auto simp: combination_of_def k_def)
  have qs: "set qs \<subseteq> set ps" by (auto simp: qs_def)
  have "otraverse (sparse_row k s) qs = Ok (map packet_row qs)"
    by (rule otraverse_Ok_map) (use q qs in \<open>auto simp: sparse_row_def\<close>)
  then have e: "sparse_decode ps k s = omap_err (sparse_error k) (peel_decode (map packet_row qs) k s)"
    by (simp add: sparse_decode_def qs_def)
  have zero: "dot k (coeffs p) v = 0" if "p \<in> set ps" "p \<notin> set qs" for p v
  proof -
    have "\<forall>j < k. coeffs p ! j = 0" using that q(1) by (auto simp: qs_def list_ex_iff)
    then show ?thesis by (simp add: dot_def cong: xsum_cong)
  qed
  then have "(\<forall>r \<in> set (map packet_row qs). dot k r v = 0) \<longleftrightarrow> (\<forall>p \<in> set ps. dot k (coeffs p) v = 0)" for v
    using q(1) qs dot_packet by (auto simp: subset_iff)
  then have det: "packets_determine k ps \<longleftrightarrow>
      (\<forall>v. (\<forall>r \<in> set (map packet_row qs). dot k r v = 0) \<longrightarrow> (\<forall>j < k. v j = 0))"
    by (simp add: packets_determine_def)
  have "\<exists>j < k. packet_row p ! j \<noteq> 0" if "p \<in> set qs" for p
    using that q(1) [of p] qs by (auto simp: qs_def list_ex_iff in_set_conv_nth packet_row_def nth_append)
  then have P: "if packets_determine k ps then peel_decode (map packet_row qs) k s = Ok (map (\<lambda>j. source ! j) [0..<k])
      else \<exists>a b. peel_decode (map packet_row qs) k s = Err (Underdetermined a b)"
    unfolding det using s src q qs
    by (intro peel_decode_rows) (auto simp: packet_row_def assignment_def k_def subset_iff)
  show ?thesis using P e by (cases "packets_determine k ps") (auto simp: map_nth k_def)
qed

section \<open>Properties\<close>

text \<open>A packet that an encoder sends at some state of its generator, and one sent by an encoder over the
  given sources, whatever its seed and whatever it sent before\<close>

definition emitted :: "rlnc_encoder \<Rightarrow> coded_packet \<Rightarrow> bool" where
  "emitted e p \<longleftrightarrow>
     (\<exists>g e'. rlnc_code (e\<lparr>rn_rng := g\<rparr>) = Some (p, e')) \<or> (\<exists>g degree. p = fst (code_sparse degree (e\<lparr>rn_rng := g\<rparr>)))"

definition sent_by :: "bytes list \<Rightarrow> nat \<Rightarrow> coded_packet \<Rightarrow> bool" where
  "sent_by source s p \<longleftrightarrow> (\<exists>seed. emitted (rlnc_encoder_new source s seed) p)"

lemma vec_resize_length [simp]: "length (vec_resize n x) = n"
  by (simp add: vec_resize_def)

lemma emitted_combination:
  assumes "rlnc_encoder_wf e" "emitted e p"
  shows "combination_of (rn_source e) (rn_symbol_size e) p"
proof -
  have wf: "rlnc_encoder_wf (e\<lparr>rn_rng := g\<rparr>)" for g using assms(1) by (simp add: rlnc_encoder_wf_def)
  consider g e' where "rlnc_code (e\<lparr>rn_rng := g\<rparr>) = Some (p, e')" | g degree where "p = fst (code_sparse degree (e\<lparr>rn_rng := g\<rparr>))"
    using assms(2) by (auto simp: emitted_def)
  then show ?thesis
  proof cases
    case 1
    then show ?thesis using rlnc_code_combination(1) [OF wf] by simp
  next
    case 2
    then show ?thesis
      using code_sparse_combination(1) [OF wf [of g], of degree p "snd (code_sparse degree (e\<lparr>rn_rng := g\<rparr>))"]
      by (simp add: prod_eq_iff)
  qed
qed

lemma sent_by_combination:
  assumes "sent_by source s p"
  shows "combination_of (map (vec_resize s) source) s p"
proof -
  obtain seed where e: "emitted (rlnc_encoder_new source s seed) p" using assms by (auto simp: sent_by_def)
  have "rlnc_encoder_wf (rlnc_encoder_new source s seed)" by (auto simp: rlnc_encoder_wf_def rlnc_encoder_new_def)
  from emitted_combination [OF this e] show ?thesis by (simp add: rlnc_encoder_new_def)
qed

text \<open>C13: The multicast contract.  A decoder receives any packets, dense or sparse, of any number of
  encoders over the same sources, in any order and with repetitions.  It returns the sources, padded
  or cut to the symbol size, exactly when the coefficient vectors received determine them, and
  otherwise reports how many independent packets it has; it never returns anything else.\<close>

theorem rlnc_decodes_iff_determined:
  assumes "\<forall>p \<in> set ps. sent_by source s p"
  defines "d \<equiv> receive_packets ps (rlnc_decoder_new (length source) s)"
  shows "rlnc_decode d =
    (if packets_determine (length source) ps then Ok (map (vec_resize s) source)
     else Err (RlncInsufficient (rlnc_rank d) (length source)))"
  using decode_received_packets(2) [of "map (vec_resize s) source" s ps] assms(1) sent_by_combination
  by (auto simp: d_def)

text \<open>A sparse packet of one encoder and a dense one of another\<close>

definition demo_packets :: "coded_packet list" where
  "demo_packets = [\<lparr>coeffs = [1, 0], cp_payload = [5]\<rparr>, \<lparr>coeffs = [1, 1], cp_payload = [12]\<rparr>]"

definition demo_rlnc :: "u64 \<Rightarrow> rlnc_encoder" where
  "demo_rlnc g = (rlnc_encoder_new [[5], [9, 1]] 1 0)\<lparr>rn_rng := g\<rparr>"

lemma demo_sparse: "fst (code_sparse 1 (demo_rlnc 245)) = demo_packets ! 0"
  by code_simp

lemma demo_dense: "rlnc_code (demo_rlnc 230156) = Some (demo_packets ! 1, demo_rlnc 12935746763774480158)"
proof -
  have "draw_row 2 230156 = ([1, 1], 12935746763774480158)" by code_simp
  then have "draw_dense 2 230156 = Some ([1, 1], 12935746763774480158)"
    by (subst draw_dense.simps) simp
  moreover have "dense_payload [[5], [9]] 1 [1, 1] = [12]" by code_simp
  ultimately show ?thesis
    by (simp add: rlnc_code_def demo_rlnc_def rlnc_encoder_new_def vec_resize_def demo_packets_def numeral_2_eq_2)
qed

lemma demo_sent: "\<forall>p \<in> set demo_packets. sent_by [[5], [9, 1]] 1 p"
proof -
  have "emitted (rlnc_encoder_new [[5], [9, 1]] 1 0) (demo_packets ! 1)"
    unfolding emitted_def demo_rlnc_def [symmetric] using demo_dense by blast
  moreover have "emitted (rlnc_encoder_new [[5], [9, 1]] 1 0) (demo_packets ! 0)"
    unfolding emitted_def demo_rlnc_def [symmetric] using demo_sparse [symmetric] by blast
  moreover have "set demo_packets = {demo_packets ! 0, demo_packets ! 1}" by (simp add: demo_packets_def)
  ultimately show ?thesis by (auto simp: sent_by_def)
qed

lemma demo_decodes: "rlnc_decode (receive_packets demo_packets (rlnc_decoder_new 2 1)) = Ok [[5], [9]]"
  by code_simp

lemma demo_determine: "packets_determine 2 demo_packets"
  using decode_received_packets(2) [of "[[5], [9]]" 1 demo_packets] demo_sent sent_by_combination demo_decodes
  by (force simp: vec_resize_def numeral_2_eq_2 split: if_splits)

theorem rlnc_decodes_iff_determined_witness:
  "rlnc_decode (receive_packets demo_packets (rlnc_decoder_new 2 1)) = Ok [[5], [9]] \<and> packets_determine 2 demo_packets"
  using rlnc_decodes_iff_determined [OF demo_sent] demo_decodes demo_determine
  by (auto simp: numeral_2_eq_2 split: if_splits)

text \<open>A packet is counted exactly when it is innovative: after any packets of the right sizes, adding
  one more of the right sizes never fails, and reports true and raises the rank by one exactly when
  some vector orthogonal to all earlier coefficient vectors is not orthogonal to the new one;
  otherwise the decoder is unchanged.\<close>

theorem rlnc_add_innovative:
  assumes "\<forall>q \<in> set (ps @ [p]). length (coeffs q) = k \<and> length (cp_payload q) = s"
  defines "d \<equiv> receive_packets ps (rlnc_decoder_new k s)"
    and "fresh \<equiv> \<exists>v. (\<forall>q \<in> set ps. dot k (coeffs q) v = 0) \<and> dot k (coeffs p) v \<noteq> 0"
  shows "fst (rlnc_add p d) = Ok fresh \<and>
    rlnc_rank (snd (rlnc_add p d)) = (if fresh then rlnc_rank d + 1 else rlnc_rank d) \<and>
    (\<not> fresh \<longrightarrow> snd (rlnc_add p d) = d)"
proof -
  have I: "rlnc_wf d" "rd_k d = k" "rd_symbol_size d = s"
      "\<And>v. (\<forall>e \<in> set (rd_rows d). dot k e v = 0) \<longleftrightarrow> (\<forall>q \<in> set ps. dot k (coeffs q) v = 0)"
    using receive_packets_inv [of ps k s] assms(1) by (auto simp: d_def)
  have "packet_fits d p" using assms(1) I by (simp add: packet_fits_def)
  from I(1) this show ?thesis
  proof (cases rule: rlnc_add_cases)
    case redundant
    then have "\<not> fresh" using I(2,4) unfolding fresh_def by blast
    then show ?thesis using redundant(1) by simp
  next
    case (innovative d')
    then have fresh using I(2,4) by (auto simp: fresh_def)
    then show ?thesis using innovative by (simp add: rlnc_rank_def)
  qed
qed

theorem rlnc_add_innovative_witness:
  "fst (rlnc_add (demo_packets ! 1) (receive_packets [demo_packets ! 0] (rlnc_decoder_new 2 1))) = Ok True \<and>
   (\<exists>v. dot 2 [1, 0] v = 0 \<and> dot 2 [1, 1] v \<noteq> 0)"
proof -
  have "fst (rlnc_add (demo_packets ! 1) (receive_packets [demo_packets ! 0] (rlnc_decoder_new 2 1))) = Ok True"
    by code_simp
  with rlnc_add_innovative [of "[demo_packets ! 0]" "demo_packets ! 1" 2 1] show ?thesis
    by (auto simp: demo_packets_def)
qed

text \<open>C34: The dense draw ends: with at least one source every call returns, so a batch of \<open>n\<close> packets
  is produced for every \<open>n\<close> and every state of the generator, and every packet has a nonzero
  coefficient.  With no sources the call never returns.\<close>

theorem code_batch_returns:
  assumes "rlnc_encoder_wf e"
  shows "(0 < rn_k e \<longrightarrow> (\<exists>ps e'. code_batch n e = Some (ps, e') \<and> length ps = n \<and>
      (\<forall>p \<in> set ps. list_ex (\<lambda>c. c \<noteq> 0) (coeffs p) \<and> combination_of (rn_source e) (rn_symbol_size e) p))) \<and>
    (rn_k e = 0 \<longrightarrow> rlnc_code e = None)"
proof
  show "0 < rn_k e \<longrightarrow> (\<exists>ps e'. code_batch n e = Some (ps, e') \<and> length ps = n \<and>
      (\<forall>p \<in> set ps. list_ex (\<lambda>c. c \<noteq> 0) (coeffs p) \<and> combination_of (rn_source e) (rn_symbol_size e) p))"
    using assms
  proof (induction n arbitrary: e)
    case (Suc n)
    show ?case
    proof
      assume k: "0 < rn_k e"
      then obtain p e1 where c: "rlnc_code e = Some (p, e1)"
        using draw_dense_ends [of "rn_k e" "rn_rng e"] by (auto simp: rlnc_code_def)
      note C = rlnc_code_combination [OF Suc.prems c]
      have e1: "rlnc_encoder_wf e1" "rn_k e1 = rn_k e" "rn_source e1 = rn_source e" "rn_symbol_size e1 = rn_symbol_size e"
        using Suc.prems by (subst C(2), simp add: rlnc_encoder_wf_def)+
      then obtain ps e2 where "code_batch n e1 = Some (ps, e2)" "length ps = n"
          "\<forall>p \<in> set ps. list_ex (\<lambda>c. c \<noteq> 0) (coeffs p) \<and> combination_of (rn_source e) (rn_symbol_size e) p"
        using Suc.IH [of e1] k by auto
      then show "\<exists>ps e'. code_batch (Suc n) e = Some (ps, e') \<and> length ps = Suc n \<and>
          (\<forall>p \<in> set ps. list_ex (\<lambda>c. c \<noteq> 0) (coeffs p) \<and> combination_of (rn_source e) (rn_symbol_size e) p)"
        using c C(1,3) by simp
    qed
  qed simp
  show "rn_k e = 0 \<longrightarrow> rlnc_code e = None"
    using draw_dense_length [of 0 "rn_rng e"] by (auto simp: rlnc_code_def split: option.splits)
qed

theorem code_batch_returns_witness:
  "(\<exists>ps e'. code_batch 3 (rlnc_encoder_new [[5], [9, 1]] 1 0) = Some (ps, e') \<and> length ps = 3) \<and>
   rlnc_code (rlnc_encoder_new [] 1 0) = None"
proof -
  have w: "rlnc_encoder_wf (rlnc_encoder_new src 1 0)" for src
    by (auto simp: rlnc_encoder_wf_def rlnc_encoder_new_def)
  show ?thesis
    using code_batch_returns [OF w, of "[[5], [9, 1]]" 3] code_batch_returns [OF w, of "[]" 0]
    by (auto simp: rlnc_encoder_new_def)
qed

text \<open>C40: The two decoders agree: on any packets of encoders over the same sources with a nonempty symbol, the
  peeling decoder for sparse packets and the elimination decoder both return the sources, padded or
  cut to the symbol size, or both report too few packets; neither panics or fails in another way.\<close>

theorem sparse_decode_agrees:
  assumes "\<forall>p \<in> set ps. sent_by source s p" "0 < s"
  defines "d \<equiv> receive_packets ps (rlnc_decoder_new (length source) s)"
  shows "(sparse_decode ps (length source) s = Ok (map (vec_resize s) source) \<and> rlnc_decode d = Ok (map (vec_resize s) source)) \<or>
    ((\<exists>a b. sparse_decode ps (length source) s = Err (RlncInsufficient a b)) \<and>
     (\<exists>a b. rlnc_decode d = Err (RlncInsufficient a b)))"
  using decode_received_packets(2) [of "map (vec_resize s) source" s ps]
    sparse_decode_packets [of s "map (vec_resize s) source" ps] assms sent_by_combination
  by (auto simp: d_def split: if_splits)

theorem sparse_decode_agrees_witness:
  "sparse_decode demo_packets 2 1 = Ok [[5], [9]]"
  using sparse_decode_agrees [OF demo_sent] demo_decodes by (simp add: numeral_2_eq_2)

end
