(* ===== verification/ReedSolomon.thy ===== *)
theory ReedSolomon
  imports Decoding
begin

text \<open>
  Systematic Reed-Solomon coding (\<open>crates/coding/src/rs.rs\<close>): the Vandermonde generator with its
  inverted head, encoding, and decoding by the shared elimination.  The process-wide generator cache
  is passed explicitly.  The rows of the flat matrix of the decoder are a list of rows.
\<close>

section \<open>Operations\<close>

datatype rs_error = RsEmpty | RsSizeMismatch nat nat | RsInsufficient nat nat

text \<open>\<open>row i, column j = (i + 1) ^ j\<close>, with \<open>i + 1\<close> cut to a byte\<close>

fun powers_from :: "u8 \<Rightarrow> u8 \<Rightarrow> nat \<Rightarrow> bytes" where
  "powers_from pow alpha 0 = []"
| "powers_from pow alpha (Suc k) = pow # powers_from (gf_mul pow alpha) alpha k"

definition vandermonde_row :: "nat \<Rightarrow> nat \<Rightarrow> bytes" where
  "vandermonde_row k i = powers_from 1 (word_of_nat (i + 1)) k"

definition augment :: "nat \<Rightarrow> nat \<Rightarrow> bytes \<Rightarrow> bytes" where
  "augment k i r = r @ (replicate k 0)[i := 1]"

definition invert_pivot :: "bytes list \<Rightarrow> nat \<Rightarrow> nat \<Rightarrow> nat \<Rightarrow> nat \<Rightarrow> bytes list" where
  "invert_pivot rows k col r p =
     (let rows1 = swap_rows rows r p;
          inv = gf_inv (rows1 ! r ! col);
          rows2 = rows1[r := scal_inplace (rows1 ! r) inv];
          prow = rows2 ! r
      in fold (clear_row prow col r) [0..<k] rows2)"

fun invert_loop :: "nat \<Rightarrow> nat list \<Rightarrow> nat \<Rightarrow> bytes list \<Rightarrow> bytes list" where
  "invert_loop k [] col rows = rows"
| "invert_loop k (r # rs) col rows =
     (case List.find (\<lambda>rr. rows ! rr ! col \<noteq> 0) [r..<k] of
        None \<Rightarrow> invert_loop k rs (col + 1) rows
      | Some p \<Rightarrow> invert_loop k rs (col + 1) (invert_pivot rows k col r p))"

definition invert_matrix :: "bytes list \<Rightarrow> nat \<Rightarrow> bytes list" where
  "invert_matrix a k =
     map (drop k) (invert_loop k [0..<k] 0 (map (\<lambda>(i, r). augment k i r) (enumerate 0 a)))"

definition unit_row :: "nat \<Rightarrow> nat \<Rightarrow> bytes" where
  "unit_row k j = (replicate k 0)[j := 1]"

definition parity_row :: "nat \<Rightarrow> bytes list \<Rightarrow> bytes \<Rightarrow> bytes" where
  "parity_row k iv v = map (\<lambda>j. fold (\<lambda>t acc. acc XOR gf_mul (v ! t) (iv ! t ! j)) [0..<k] 0) [0..<k]"

definition build_generator :: "nat \<Rightarrow> nat \<Rightarrow> bytes list" where
  "build_generator k m =
     (let v = map (vandermonde_row k) [0..<k + m];
          iv = invert_matrix (take k v) k
      in map (unit_row k) [0..<k] @ map (\<lambda>i. parity_row k iv (v ! (k + i))) [0..<m])"

type_synonym rs_cache = "nat \<times> nat \<rightharpoonup> bytes list"

definition rs_generator :: "nat \<Rightarrow> nat \<Rightarrow> rs_cache \<Rightarrow> bytes list \<times> rs_cache" where
  "rs_generator k m cache =
     (case cache (k, m) of
        Some g \<Rightarrow> (g, cache)
      | None \<Rightarrow> let g = build_generator k m in (g, cache((k, m) \<mapsto> g)))"

record rs_encoder =
  re_g :: "bytes list"
  re_k :: nat
  re_n :: nat
  re_symbol_size :: nat

definition rs_encoder_new :: "nat \<Rightarrow> nat \<Rightarrow> nat \<Rightarrow> rs_cache \<Rightarrow> (rs_encoder, rs_error) outcome \<times> rs_cache" where
  "rs_encoder_new k m sz cache =
     (if k = 0 then (Err RsEmpty, cache)
      else let (g, cache') = rs_generator k m cache
           in (Ok \<lparr>re_g = g, re_k = k, re_n = k + m, re_symbol_size = sz\<rparr>, cache'))"

definition parity_symbol :: "nat \<Rightarrow> bytes list \<Rightarrow> nat \<Rightarrow> bytes \<Rightarrow> bytes" where
  "parity_symbol k data sz grow =
     fold (\<lambda>j out. if grow ! j = 0 then out else axpy out (grow ! j) (data ! j)) [0..<k] (replicate sz 0)"

definition rs_encode :: "rs_encoder \<Rightarrow> bytes list \<Rightarrow> (bytes list, rs_error) outcome" where
  "rs_encode e data =
     (if length data \<noteq> re_k e then Err (RsSizeMismatch (length data) (re_k e))
      else case List.find (\<lambda>d. length d \<noteq> re_symbol_size e) data of
        Some d \<Rightarrow> Err (RsSizeMismatch (length d) (re_symbol_size e))
      | None \<Rightarrow> Ok (data @ map (\<lambda>i. parity_symbol (re_k e) data (re_symbol_size e) (re_g e ! i)) [re_k e..<re_n e]))"

text \<open>One row \<open>[g[idx] | symbol]\<close>: an index out of range and a symbol of another size both panic.\<close>

definition survivor_row :: "bytes list \<Rightarrow> nat \<Rightarrow> nat \<times> bytes \<Rightarrow> (bytes, rs_error) outcome" where
  "survivor_row g sz p =
     obind (index_of g (fst p)) (\<lambda>row. if length (snd p) \<noteq> sz then Panic else Ok (row @ snd p))"

definition extract_data :: "nat \<Rightarrow> nat \<Rightarrow> bytes list \<Rightarrow> bytes list" where
  "extract_data k sz rows =
     fold (\<lambda>row out. let piv = first_nonzero row k in if piv < k then out[piv := take sz (drop k row)] else out)
       rows (replicate k [])"

definition rs_decode ::
  "nat \<Rightarrow> nat \<Rightarrow> nat \<Rightarrow> (nat \<times> bytes) list \<Rightarrow> rs_cache \<Rightarrow> (bytes list, rs_error) outcome \<times> rs_cache" where
  "rs_decode k m sz survived cache =
     (if length survived < k then (Err (RsInsufficient (length survived) k), cache)
      else
        let (g, cache') = rs_generator k m cache
        in (obind (otraverse (survivor_row g sz) (take k survived)) (\<lambda>rows.
              let row_len = k + sz; (rows', rank) = gf_gauss_eliminate rows row_len k
              in if rank < k then Err (RsInsufficient rank k)
                 else if row_len = 0 then Panic
                 else let out = extract_data k sz rows'
                      in if list_ex (\<lambda>s. s = []) out then Err (RsInsufficient rank k) else Ok out), cache'))"

section \<open>Polynomials over bytes\<close>

fun peval :: "bytes \<Rightarrow> u8 \<Rightarrow> u8" where
  "peval [] x = 0"
| "peval (c # cs) x = c XOR gf_mul x (peval cs x)"

text \<open>Synthetic division by \<open>x - a\<close>\<close>

fun pdiv :: "u8 \<Rightarrow> bytes \<Rightarrow> bytes" where
  "pdiv a [] = []"
| "pdiv a [c] = []"
| "pdiv a (c # d # cs) = peval (d # cs) a # pdiv a (d # cs)"

lemma pdiv_length: "length (pdiv a cs) = length cs - 1"
  by (induction a cs rule: pdiv.induct) simp_all

lemma peval_pdiv: "peval cs x = peval cs a XOR gf_mul (x XOR a) (peval (pdiv a cs) x)"
proof (induction a cs rule: pdiv.induct)
  case (3 a c d cs)
  let ?q = "peval (pdiv a (d # cs)) x" and ?pa = "peval (d # cs) a"
  have "gf_mul x (gf_mul (x XOR a) ?q) = gf_mul (x XOR a) (gf_mul x ?q)"
    by (metis gf.mul_assoc gf.mul_commute)
  then have "peval (c # d # cs) x = c XOR (gf_mul x ?pa XOR gf_mul (x XOR a) (gf_mul x ?q))"
    using 3 by (simp del: peval.simps(2) [of d] add: peval.simps(2) [of c] gf.mul_distrib)
  also have "\<dots> = peval (c # d # cs) a XOR gf_mul (x XOR a) (?pa XOR gf_mul x ?q)"
    by (simp del: peval.simps add: peval.simps(2) [of c] gf.mul_distrib gf.mul_distrib_right ac_simps)
  finally show ?case by (simp del: peval.simps(2) [of d])
qed auto

lemma pdiv_zero: "peval cs a = 0 \<Longrightarrow> \<forall>c \<in> set (pdiv a cs). c = 0 \<Longrightarrow> \<forall>c \<in> set cs. c = 0"
  by (induction a cs rule: pdiv.induct) auto

text \<open>A polynomial with as many roots as coefficients is zero.\<close>

lemma roots_zero:
  "length cs \<le> length xs \<Longrightarrow> distinct xs \<Longrightarrow> \<forall>x \<in> set xs. peval cs x = 0 \<Longrightarrow> \<forall>c \<in> set cs. c = 0"
proof (induction xs arbitrary: cs)
  case (Cons a xs)
  have "peval (pdiv a cs) x = 0" if "x \<in> set xs" for x
  proof -
    have "x XOR a \<noteq> 0" using that Cons.prems(2) by (auto simp: xor_zero_iff)
    then show ?thesis using peval_pdiv [of cs x a] that Cons.prems(3) by (auto simp: gf.mul_eq_0_iff)
  qed
  then have z: "\<forall>c \<in> set (pdiv a cs). c = 0"
    using Cons.IH [of "pdiv a cs"] Cons.prems by (simp add: pdiv_length)
  have "peval cs a = 0" using Cons.prems(3) by simp
  then show ?case by (rule pdiv_zero [OF _ z])
qed simp

section \<open>The Vandermonde matrix\<close>

fun gpow :: "u8 \<Rightarrow> nat \<Rightarrow> u8" where
  "gpow x 0 = 1"
| "gpow x (Suc n) = gf_mul (gpow x n) x"

lemma powers_from_nth: "j < k \<Longrightarrow> powers_from p x k ! j = gf_mul p (gpow x j)"
proof (induction p x k arbitrary: j rule: powers_from.induct)
  case (2 p x k)
  have "gf_mul (gf_mul p x) (gpow x i) = gf_mul p (gpow x (Suc i))" for i
    by (metis gf.mul_assoc gf.mul_commute gpow.simps(2))
  then show ?case using 2 by (cases j) simp_all
qed simp

lemma powers_from_length [simp]: "length (powers_from p x k) = k"
  by (induction p x k rule: powers_from.induct) simp_all

lemma vandermonde_length [simp]: "length (vandermonde_row k i) = k"
  by (simp add: vandermonde_row_def)

lemma peval_snoc: "peval (cs @ [d]) x = peval cs x XOR gf_mul (gpow x (length cs)) d"
proof (induction cs)
  case (Cons c cs)
  have "gf_mul x (gf_mul (gpow x (length cs)) d) = gf_mul (gpow x (Suc (length cs))) d"
    by (metis gf.mul_assoc gf.mul_commute gpow.simps(2))
  then show ?case using Cons by (simp add: gf.mul_distrib ac_simps)
qed (simp add: gf.mul_one)

lemma dot_vandermonde: "dot k (vandermonde_row k i) v = peval (map v [0..<k]) (word_of_nat (i + 1))"
proof -
  have "xsum (\<lambda>j. gf_mul (gpow x j) (v j)) k = peval (map v [0..<k]) x" for x
    by (induction k) (simp_all add: peval_snoc)
  then show ?thesis
    by (simp add: dot_def vandermonde_row_def powers_from_nth gf.mul_one cong: xsum_cong)
qed

lemma alphas_distinct: "i < 256 \<Longrightarrow> j < 256 \<Longrightarrow> word_of_nat (i + 1) = (word_of_nat (j + 1) :: u8) \<Longrightarrow> i = j"
proof -
  assume ij: "i < 256" "j < 256" "word_of_nat (i + 1) = (word_of_nat (j + 1) :: u8)"
  then have "(i + 1) mod 256 = (j + 1) mod 256" by (simp add: word_of_nat_eq_iff take_bit_eq_mod)
  then show ?thesis using ij(1,2) by (cases "i = 255"; cases "j = 255") auto
qed

text \<open>Any \<open>k\<close> rows of the matrix, taken from at most 256, have only the zero solution.\<close>

lemma vandermonde_kernel:
  assumes "distinct is" "k \<le> length is" "\<forall>i \<in> set is. i < 256" "\<forall>i \<in> set is. dot k (vandermonde_row k i) v = 0"
  shows "\<forall>j < k. v j = 0"
proof -
  let ?xs = "map (\<lambda>i. word_of_nat (i + 1) :: u8) is"
  have "inj_on (\<lambda>i. word_of_nat (i + 1) :: u8) (set is)"
    using assms(3) alphas_distinct by (auto simp: inj_on_def)
  then have d: "distinct ?xs" using assms(1) unfolding distinct_map by blast
  have r: "\<forall>x \<in> set ?xs. peval (map v [0..<k]) x = 0" using assms(4) by (simp add: dot_vandermonde)
  have "\<forall>c \<in> set (map v [0..<k]). c = 0" by (rule roots_zero [OF _ d r]) (use assms(2) in simp)
  then show ?thesis by simp
qed

section \<open>Inversion\<close>

definition trivial_kernel :: "nat \<Rightarrow> bytes list \<Rightarrow> bool" where
  "trivial_kernel k mat \<longleftrightarrow> (\<forall>v. (\<forall>row \<in> set mat. dot k row v = 0) \<longrightarrow> (\<forall>j < k. v j = 0))"

lemma invert_pivot_eq:
  assumes "find_pivot rows col r = Some p" "length rows = k"
  shows "invert_pivot rows k col r p = gauss_pivot rows col r p"
proof -
  have p: "r \<le> p" "p < length rows" "rows ! p ! col \<noteq> 0" using find_pivot_Some [OF assms(1)] by auto
  have s: "swap_rows rows r p = (if r \<noteq> p then swap_rows rows r p else rows)" by (simp add: swap_rows_def)
  have "swap_rows rows r p ! r = rows ! p" using p by (simp add: swap_rows_def nth_list_update)
  then have "gf_inv (swap_rows rows r p ! r ! col) = gf_exp ! (255 - unat (gf_log ! unat (swap_rows rows r p ! r ! col)))"
    using p(3) by (simp add: gf_inv_def)
  then show ?thesis unfolding invert_pivot_def gauss_pivot_def Let_def assms(2) s [symmetric] by simp
qed

text \<open>With a trivial kernel, the next column always has a pivot.\<close>

lemma pivot_exists:
  assumes "reduced L mat c [0..<c] c" "c < k" "k \<le> L" "trivial_kernel k mat"
  shows "find_pivot mat c c \<noteq> None"
proof
  assume "find_pivot mat c c = None"
  then have R: "reduced L mat c [0..<c] (Suc c)" using reduced_skip assms(1) by blast
  have "c \<notin> set [0..<c]" by simp
  note dk = deficient_kernel [OF R lessI this]
  define v where "v = (\<lambda>j. (if j = c then 1 else 0) XOR xsum (\<lambda>i. if [0..<c] ! i = j then mat ! i ! c else 0) c)"
  have v: "v c = 1" "\<And>r. r < length mat \<Longrightarrow> dot (Suc c) (mat ! r) v = 0"
    using dk unfolding v_def by blast+
  have "dot k row (\<lambda>j. if j < Suc c then v j else 0) = 0" if "row \<in> set mat" for row
    using v(2) that assms(2) dot_prefix [of "Suc c" k row v] by (metis Suc_leI in_set_conv_nth)
  then have "(if c < Suc c then v c else 0) = 0" using assms(2,4) unfolding trivial_kernel_def by blast
  then show False using v(1) by simp
qed

lemma invert_loop_reduced:
  assumes "reduced L mat c [0..<c] c" "length mat = k" "c \<le> k" "k \<le> L" "trivial_kernel k mat"
  shows "reduced L (invert_loop k [c..<k] c mat) k [0..<k] k \<and> length (invert_loop k [c..<k] c mat) = k \<and>
    (\<forall>w. annihilates L w (invert_loop k [c..<k] c mat) \<longleftrightarrow> annihilates L w mat)"
  using assms
proof (induction "k - c" arbitrary: c mat)
  case (Suc n)
  then have c: "c < k" by simp
  then obtain p where p: "find_pivot mat c c = Some p" using pivot_exists [OF Suc.prems(1) c Suc.prems(4,5)] by blast
  let ?mat = "gauss_pivot mat c c p"
  have L: "rows_len L mat" "c < L" using reducedD(1) [OF Suc.prems(1)] c Suc.prems(4) by auto
  note ann = gauss_pivot_annihilates [OF p L]
  have R: "reduced L ?mat (Suc c) [0..<Suc c] (Suc c)" using reduced_pivot [OF p Suc.prems(1) L(2)] by simp
  have len: "length ?mat = k" using gauss_pivot_rows(1) [OF p L] Suc.prems(2) by simp
  have tk: "trivial_kernel k ?mat"
    using Suc.prems(5) kernel_eq [OF Suc.prems(4), of ?mat mat] ann unfolding trivial_kernel_def by blast
  have "invert_loop k [c..<k] c mat = invert_loop k [Suc c..<k] (Suc c) ?mat"
    using p invert_pivot_eq [OF p Suc.prems(2)] Suc.prems(2) c by (simp add: upt_conv_Cons find_pivot_def)
  then show ?case using Suc.hyps(1) [of "Suc c" ?mat] Suc.hyps(2) R len tk c Suc.prems(4) ann by simp
qed simp

lemma augment_facts:
  assumes "rows_len k a" "length a = k"
  defines "mat \<equiv> map (\<lambda>(i, r). augment k i r) (enumerate 0 a)"
  shows "rows_len (2 * k) mat" "length mat = k" "\<And>i. i < k \<Longrightarrow> mat ! i = a ! i @ (replicate k 0)[i := 1]"
proof -
  show "length mat = k" using assms(2) by (simp add: mat_def)
  show n: "mat ! i = a ! i @ (replicate k 0)[i := 1]" if "i < k" for i
    using assms(2) that by (simp add: mat_def augment_def nth_enumerate_eq)
  show "rows_len (2 * k) mat" unfolding rows_len_def
  proof
    fix row assume "row \<in> set mat"
    then obtain i where "i < k" "row = mat ! i" using assms(2) by (auto simp: in_set_conv_nth mat_def)
    then show "length row = 2 * k" using n assms(1,2) by (simp add: rows_len_def)
  qed
qed

lemma dot_unit: "j < k \<Longrightarrow> dot k ((replicate k 0)[j := 1]) v = v j"
proof -
  assume j: "j < k"
  have "dot k ((replicate k 0)[j := 1]) v = xsum (\<lambda>i. if i = j then v i else 0) k"
    unfolding dot_def by (rule xsum_cong) (use j in \<open>auto simp: nth_list_update gf.mul_one\<close>)
  then show ?thesis using j by (simp add: xsum_delta)
qed

lemma dot_append:
  "length r = k \<Longrightarrow> dot (2 * k) (r @ s) (\<lambda>j. if j < k then v j else w (j - k)) = dot k r v XOR dot k s w"
  unfolding dot_def by (subst xsum_split [of k]) (auto simp: nth_append intro!: arg_cong2 [of _ _ _ _ "(XOR)"] xsum_cong)

text \<open>The inverse undoes the matrix.\<close>

lemma invert_matrix_left:
  assumes "rows_len k a" "length a = k" "trivial_kernel k a"
  shows "length (invert_matrix a k) = k \<and> rows_len k (invert_matrix a k) \<and>
    (\<forall>v. \<forall>i < k. dot k (invert_matrix a k ! i) (\<lambda>j. dot k (a ! j) v) = v i)"
proof -
  define mat where "mat = map (\<lambda>(i, r). augment k i r) (enumerate 0 a)"
  note A = augment_facts [OF assms(1,2), folded mat_def]
  have pre: "dot k (mat ! i) v = dot k (a ! i) v" if "i < k" for i v
    unfolding dot_def by (rule xsum_cong) (use A(3) that assms(1,2) in \<open>simp add: nth_append rows_len_def\<close>)
  have "trivial_kernel k mat"
    using assms(2,3) pre A(2) unfolding trivial_kernel_def all_set_conv_all_nth by simp
  then have I: "reduced (2 * k) (invert_loop k [0..<k] 0 mat) k [0..<k] k" "length (invert_loop k [0..<k] 0 mat) = k"
    "annihilates (2 * k) w (invert_loop k [0..<k] 0 mat) \<longleftrightarrow> annihilates (2 * k) w mat" for w
    using invert_loop_reduced [of "2 * k" mat 0 k] A by (auto simp: reduced_def)
  note D = reducedD [OF I(1)]
  have li: "length (invert_loop k [0..<k] 0 mat ! i) = 2 * k" if "i < k" for i using D(1) I(2) that by (simp add: rows_len_def)
  have "dot k (drop k (invert_loop k [0..<k] 0 mat ! i)) (\<lambda>j. dot k (a ! j) v) = v i" if i: "i < k" for v i
  proof -
    let ?w = "\<lambda>j. if j < k then v j else (\<lambda>j. dot k (a ! j) v) (j - k)"
    let ?row = "invert_loop k [0..<k] 0 mat ! i"
    have "dot (2 * k) (mat ! r) ?w = 0" if r: "r < k" for r
    proof -
      have "length (a ! r) = k" using assms(1,2) r by (simp add: rows_len_def)
      then show ?thesis
        using dot_append [of "a ! r" k "(replicate k 0)[r := 1]" v "\<lambda>j. dot k (a ! j) v"] A(3) r dot_unit [OF r] by simp
    qed
    then have "annihilates (2 * k) ?w mat" unfolding annihilates_def all_set_conv_all_nth A(2) by blast
    then have "annihilates (2 * k) ?w (invert_loop k [0..<k] 0 mat)" using I(3) [of ?w] by blast
    then have "dot (2 * k) ?row ?w = 0" using I(2) i unfolding annihilates_def by simp
    moreover have "?row = take k ?row @ drop k ?row" by simp
    moreover have "dot k (take k ?row) v = v i"
    proof -
      have "dot k (take k ?row) v = dot k ((replicate k 0)[i := 1]) v" unfolding dot_def
        by (rule xsum_cong) (use D(6) I(2) i in \<open>auto simp: nth_list_update\<close>)
      then show ?thesis using i by (simp add: dot_unit)
    qed
    ultimately show ?thesis using dot_append [of "take k ?row" k "drop k ?row" v "\<lambda>j. dot k (a ! j) v"] li [OF i]
      by (simp add: xor_zero_iff)
  qed
  then show ?thesis using I(2) li
    by (auto simp: invert_matrix_def mat_def [symmetric] rows_len_def in_set_conv_nth)
qed

text \<open>An injective matrix over a finite field is onto, so the inverse works on both sides.\<close>

lemma invert_matrix_right:
  assumes "rows_len k a" "length a = k" "trivial_kernel k a" "i < k"
  shows "dot k (a ! i) (\<lambda>j. dot k (invert_matrix a k ! j) z) = z i"
proof -
  let ?S = "{xs :: bytes. length xs = k}" and ?f = "\<lambda>xs. map (\<lambda>row. dot k row (\<lambda>j. xs ! j)) a"
  note L = invert_matrix_left [OF assms(1-3)]
  have dc: "dot k row u = dot k row u'" if "\<And>j. j < k \<Longrightarrow> u j = u' j" for row u u'
    unfolding dot_def using that by (simp cong: xsum_cong)
  have "inj_on ?f ?S"
  proof (rule inj_onI)
    fix xs ys assume x: "xs \<in> ?S" and y: "ys \<in> ?S" and e: "?f xs = ?f ys"
    have "dot k (a ! j) (\<lambda>j. xs ! j) = dot k (a ! j) (\<lambda>j. ys ! j)" if "j < k" for j
      using e that assms(2) by (metis nth_map)
    then have d: "dot k row (\<lambda>j. dot k (a ! j) (\<lambda>j. xs ! j)) = dot k row (\<lambda>j. dot k (a ! j) (\<lambda>j. ys ! j))" for row
      by (rule dc)
    have "xs ! i = ys ! i" if "i < k" for i
      using L d [of "invert_matrix a k ! i"] that by simp
    then show "xs = ys" using x y by (auto intro: nth_equalityI)
  qed
  moreover have "finite ?S" using finite_lists_length_eq [of "UNIV :: u8 set" k] by simp
  moreover have "?f ` ?S \<subseteq> ?S" using assms(2) by auto
  ultimately have "?f ` ?S = ?S" using endo_inj_surj by blast
  moreover have "map z [0..<k] \<in> ?S" by simp
  ultimately have "map z [0..<k] \<in> ?f ` ?S" by (rule ssubst)
  then obtain xs where xs: "length xs = k" "?f xs = map z [0..<k]" unfolding image_iff by fastforce
  have z: "z j = dot k (a ! j) (\<lambda>j. xs ! j)" if "j < k" for j
    using arg_cong [OF xs(2), of "\<lambda>l. l ! j"] that assms(2) by simp
  have "dot k (invert_matrix a k ! j) z = xs ! j" if "j < k" for j
    using L that dc [of z "\<lambda>j. dot k (a ! j) (\<lambda>j. xs ! j)"] z by simp
  then have "dot k (a ! i) (\<lambda>j. dot k (invert_matrix a k ! j) z) = dot k (a ! i) (\<lambda>j. xs ! j)" by (rule dc)
  then show ?thesis using z [OF assms(4)] by simp
qed

section \<open>The generator\<close>

abbreviation head_inverse :: "nat \<Rightarrow> bytes list" where
  "head_inverse k \<equiv> invert_matrix (map (vandermonde_row k) [0..<k]) k"

lemma head_facts:
  assumes "k \<le> 256"
  shows "rows_len k (map (vandermonde_row k) [0..<k])" "trivial_kernel k (map (vandermonde_row k) [0..<k])"
proof -
  show "rows_len k (map (vandermonde_row k) [0..<k])" by (simp add: rows_len_def)
  show "trivial_kernel k (map (vandermonde_row k) [0..<k])" unfolding trivial_kernel_def
    using vandermonde_kernel [of "[0..<k]" k] assms by simp
qed

lemma fold_xsum: "fold (\<lambda>t acc. acc XOR f t) [0..<k] 0 = xsum f k"
  by (induction k) simp_all

lemma build_generator_nth:
  "i < k \<Longrightarrow> build_generator k m ! i = unit_row k i"
  "k \<le> i \<Longrightarrow> i < k + m \<Longrightarrow> build_generator k m ! i = parity_row k (head_inverse k) (vandermonde_row k i)"
  "length (build_generator k m) = k + m"
proof -
  have t: "take k (map (vandermonde_row k) [0..<k + m]) = map (vandermonde_row k) [0..<k]" by (simp add: take_map)
  show "i < k \<Longrightarrow> build_generator k m ! i = unit_row k i" "length (build_generator k m) = k + m"
    by (simp_all add: build_generator_def Let_def nth_append)
  show "k \<le> i \<Longrightarrow> i < k + m \<Longrightarrow> build_generator k m ! i = parity_row k (head_inverse k) (vandermonde_row k i)"
    unfolding build_generator_def Let_def t by (auto simp: nth_append dest!: le_Suc_ex)
qed

lemma build_generator_rows: "i < k + m \<Longrightarrow> length (build_generator k m ! i) = k"
  by (cases "i < k") (simp_all add: build_generator_nth unit_row_def parity_row_def)

text \<open>A row of the generator is a Vandermonde row applied behind the inverse.\<close>

lemma dot_generator:
  assumes "k \<le> 256" "i < k + m"
  shows "dot k (build_generator k m ! i) z = dot k (vandermonde_row k i) (\<lambda>t. dot k (head_inverse k ! t) z)"
proof (cases "i < k")
  case True
  then show ?thesis
    using invert_matrix_right [OF head_facts(1) _ head_facts(2), of k i z] assms
    by (simp add: build_generator_nth unit_row_def dot_unit)
next
  case False
  let ?v = "vandermonde_row k i" and ?R = "head_inverse k"
  have "dot k (build_generator k m ! i) z = xsum (\<lambda>j. gf_mul (xsum (\<lambda>t. gf_mul (?v ! t) (?R ! t ! j)) k) (z j)) k"
    using False assms(2) unfolding dot_def
    by (intro xsum_cong) (simp add: build_generator_nth parity_row_def fold_xsum)
  also have "\<dots> = xsum (\<lambda>j. xsum (\<lambda>t. gf_mul (?v ! t) (gf_mul (?R ! t ! j) (z j))) k) k"
  proof (rule xsum_cong)
    fix j
    have "gf_mul (xsum (\<lambda>t. gf_mul (?v ! t) (?R ! t ! j)) k) (z j) = gf_mul (z j) (xsum (\<lambda>t. gf_mul (?v ! t) (?R ! t ! j)) k)"
      by (rule gf.mul_commute)
    also have "\<dots> = xsum (\<lambda>t. gf_mul (z j) (gf_mul (?v ! t) (?R ! t ! j))) k" by (rule gf.mul_xsum)
    also have "\<dots> = xsum (\<lambda>t. gf_mul (?v ! t) (gf_mul (?R ! t ! j) (z j))) k"
      by (intro xsum_cong) (simp add: gf.mul_commute [of "z j"] gf.mul_assoc)
    finally show "gf_mul (xsum (\<lambda>t. gf_mul (?v ! t) (?R ! t ! j)) k) (z j) = \<dots>" .
  qed
  also have "\<dots> = xsum (\<lambda>t. xsum (\<lambda>j. gf_mul (?v ! t) (gf_mul (?R ! t ! j) (z j))) k) k" by (rule xsum_swap)
  also have "\<dots> = dot k ?v (\<lambda>t. dot k (?R ! t) z)" by (simp add: dot_def gf.mul_xsum)
  finally show ?thesis .
qed

text \<open>Any \<open>k\<close> rows of the generator determine the data.\<close>

lemma generator_kernel:
  assumes "k + m \<le> 256" "distinct is" "length is = k" "\<forall>i \<in> set is. i < k + m"
    and "\<forall>i \<in> set is. dot k (build_generator k m ! i) z = 0"
  shows "\<forall>j < k. z j = 0"
proof (intro allI impI)
  fix j assume j: "j < k"
  have "\<forall>t < k. dot k (head_inverse k ! t) z = 0"
    using assms by (intro vandermonde_kernel [of "is"]) (auto simp: dot_generator)
  then have "dot k (map (vandermonde_row k) [0..<k] ! j) (\<lambda>t. dot k (head_inverse k ! t) z) = 0"
    unfolding dot_def [of k "map _ _ ! _"] by (simp cong: xsum_cong)
  then show "z j = 0"
    using invert_matrix_right [OF head_facts(1) _ head_facts(2) j, of z] assms(1) by simp
qed

section \<open>Encoding and decoding\<close>

lemma fold_axpy_nth:
  assumes "\<forall>j < k. length (data ! j) = sz"
  shows "length (fold (\<lambda>j out. if g ! j = 0 then out else axpy out (g ! j) (data ! j)) [0..<k] (replicate sz 0)) = sz \<and>
    (\<forall>p < sz. fold (\<lambda>j out. if g ! j = 0 then out else axpy out (g ! j) (data ! j)) [0..<k] (replicate sz 0) ! p
       = xsum (\<lambda>j. gf_mul (g ! j) (data ! j ! p)) k)"
  using assms
proof (induction k)
  case (Suc k)
  then show ?case by (auto simp: axpy_eq axpy_spec_nth)
qed simp

lemma rs_encode_rows:
  assumes "re_g e = build_generator k m" "re_k e = k" "re_n e = k + m" "re_symbol_size e = sz"
    and "length data = k" "\<forall>d \<in> set data. length d = sz"
  obtains cw where "rs_encode e data = Ok cw" "length cw = k + m" "take k cw = data"
    "\<And>i. i < k + m \<Longrightarrow> length (cw ! i) = sz"
    "\<And>i p. i < k + m \<Longrightarrow> p < sz \<Longrightarrow> cw ! i ! p = dot k (build_generator k m ! i) (\<lambda>j. data ! j ! p)"
proof -
  define cw where "cw = data @ map (\<lambda>i. parity_symbol k data sz (build_generator k m ! i)) [k..<k + m]"
  have "List.find (\<lambda>d. length d \<noteq> sz) data = None" using assms(6) by (simp add: find_None_iff)
  then have enc: "rs_encode e data = Ok cw" using assms(1-5) by (simp add: rs_encode_def cw_def)
  have dl: "\<forall>j < k. length (data ! j) = sz" using assms(5,6) by simp
  have par: "cw ! i = parity_symbol k data sz (build_generator k m ! i)" if "k \<le> i" "i < k + m" for i
    using that assms(5) by (auto simp: cw_def nth_append dest!: le_Suc_ex)
  have nth: "length (cw ! i) = sz \<and> (\<forall>p < sz. cw ! i ! p = dot k (build_generator k m ! i) (\<lambda>j. data ! j ! p))"
    if i: "i < k + m" for i
  proof (cases "i < k")
    case True
    then show ?thesis using dl assms(5) by (simp add: cw_def nth_append build_generator_nth unit_row_def dot_unit)
  next
    case False
    then show ?thesis using par i fold_axpy_nth [OF dl] by (simp add: parity_symbol_def dot_def)
  qed
  show ?thesis by (rule that [OF enc]) (use nth assms(5) in \<open>auto simp: cw_def\<close>)
qed

lemma extract_data_nth:
  assumes "\<And>row. row \<in> set rows \<Longrightarrow> first_nonzero row k < k \<Longrightarrow> take sz (drop k row) = X (first_nonzero row k)"
  shows "length (fold (\<lambda>row out. let piv = first_nonzero row k in if piv < k then out[piv := take sz (drop k row)] else out) rows out) = length out \<and>
    (\<forall>t < length out. fold (\<lambda>row out. let piv = first_nonzero row k in if piv < k then out[piv := take sz (drop k row)] else out) rows out ! t =
      (if t < k \<and> (\<exists>row \<in> set rows. first_nonzero row k = t) then X t else out ! t))"
  using assms
proof (induction rows arbitrary: out)
  case (Cons row rows)
  then show ?case by (auto simp: Let_def nth_list_update)
qed simp

definition rs_cache_ok :: "rs_cache \<Rightarrow> bool" where
  "rs_cache_ok c \<longleftrightarrow> (\<forall>k m g. c (k, m) = Some g \<longrightarrow> g = build_generator k m)"

lemma rs_generator_ok: "rs_cache_ok c \<Longrightarrow> fst (rs_generator k m c) = build_generator k m \<and> rs_cache_ok (snd (rs_generator k m c))"
  by (auto simp: rs_generator_def rs_cache_ok_def Let_def split: option.split)

lemma survivor_rows:
  assumes "\<forall>p \<in> set ps. fst p < k + m \<and> length (snd p) = sz"
  shows "otraverse (survivor_row (build_generator k m) sz) ps = Ok (map (\<lambda>p. build_generator k m ! fst p @ snd p) ps)"
  using assms by (intro otraverse_Ok_map) (auto simp: survivor_row_def build_generator_nth(3))

lemma dot_append_prefix: "length r = k \<Longrightarrow> dot k (r @ y) v = dot k r v"
  unfolding dot_def by (rule xsum_cong) (simp add: nth_append)

text \<open>Rows of the generator beside the symbols they produced are solved by the data.\<close>

lemma solve_survivors:
  assumes "0 < k" "0 < sz" "k + m \<le> 256" "length data = k" "\<forall>d \<in> set data. length d = sz"
    and ps: "length ps = k" "distinct (map fst ps)" "\<forall>p \<in> set ps. fst p < k + m \<and> length (snd p) = sz \<and>
      (\<forall>q < sz. snd p ! q = dot k (build_generator k m ! fst p) (\<lambda>j. data ! j ! q))"
  obtains rows where "gf_gauss_eliminate (map (\<lambda>p. build_generator k m ! fst p @ snd p) ps) (k + sz) k = (rows, k)"
    "extract_data k sz rows = data"
proof -
  let ?mat = "map (\<lambda>p. build_generator k m ! fst p @ snd p) ps"
  have gl: "length (build_generator k m ! fst p) = k" if "p \<in> set ps" for p
    using ps(3) that build_generator_rows by blast
  have rl: "rows_len (k + sz) ?mat" using ps(3) gl by (auto simp: rows_len_def)
  have kern: "\<forall>j < k. v j = 0" if v: "\<forall>row \<in> set ?mat. dot k row v = 0" for v
  proof (rule generator_kernel [OF assms(3) ps(2)])
    show "\<forall>i \<in> set (map fst ps). dot k (build_generator k m ! i) v = 0"
      using v gl by (auto simp: dot_append_prefix)
  qed (use ps in auto)
  obtain rows rank where g: "gf_gauss_eliminate ?mat (k + sz) k = (rows, rank)" by (metis prod.exhaust)
  have r: "rank = k" using gauss_full_iff [OF rl _ _ g] kern assms(1) by simp
  have "row_holds k sz (\<lambda>j. data ! j) row" if row: "row \<in> set ?mat" for row
  proof -
    obtain p where p: "p \<in> set ps" "row = build_generator k m ! fst p @ snd p" using row unfolding set_map by blast
    show ?thesis unfolding row_holds_def
      using ps(3) p gl [OF p(1)] dot_append_prefix [OF gl [OF p(1)], of "snd p"]
      by (simp add: nth_append dot_def cong: xsum_cong)
  qed
  then obtain pivs where P: "set pivs = {..<k}" "length pivs = k" "k \<le> length rows"
    "\<forall>i < k. drop k (rows ! i) = data ! (pivs ! i) \<and> (\<forall>j < k. rows ! i ! j = (if j = pivs ! i then 1 else 0))"
    using gauss_solution [OF rl _ g [unfolded r], of "\<lambda>j. data ! j"] assms by auto
  have len: "length rows = k" using gauss_reduced [OF rl _ _ g] assms(1) ps(1) by simp
  have pl: "pivs ! i < k" if "i < k" for i using P(1,2) that by (metis lessThan_iff nth_mem)
  have fn: "first_nonzero (rows ! i) k = pivs ! i" if "i < k" for i
    using first_nonzero_unit [OF pl [OF that]] P(4) that by simp
  have "take sz (drop k row) = data ! first_nonzero row k" if "row \<in> set rows" for row
  proof -
    obtain i where i: "i < k" "row = rows ! i" using \<open>row \<in> set rows\<close> len by (metis in_set_conv_nth)
    then show ?thesis using P(4) fn pl assms(4,5) by simp
  qed
  note ex = extract_data_nth [of rows k sz "\<lambda>t. data ! t" "replicate k []", OF this, folded extract_data_def]
  have "\<exists>row \<in> set rows. first_nonzero row k = t" if t: "t < k" for t
  proof -
    obtain i where "i < k" "pivs ! i = t" using P(1,2) t by (metis in_set_conv_nth lessThan_iff)
    then show ?thesis using fn len by (metis nth_mem)
  qed
  then have "extract_data k sz rows = data"
    using ex assms(4) by (intro nth_equalityI) simp_all
  then show ?thesis using that g r by blast
qed

lemma rs_recovers:
  assumes "0 < k" "k + m \<le> 256" "0 < sz" "length data = k" "\<forall>d \<in> set data. length d = sz"
    and "rs_cache_ok c" "rs_cache_ok c'"
  shows "\<exists>e cw. fst (rs_encoder_new k m sz c) = Ok e \<and> rs_encode e data = Ok cw \<and> take k cw = data \<and>
    length cw = k + m \<and> (\<forall>x \<in> set cw. length x = sz) \<and>
    (\<forall>survived. k \<le> length survived \<and> distinct (map fst (take k survived)) \<and>
       (\<forall>p \<in> set (take k survived). fst p < k + m \<and> snd p = cw ! fst p) \<longrightarrow>
       fst (rs_decode k m sz survived c') = Ok data)"
proof -
  define e where "e = \<lparr>re_g = build_generator k m, re_k = k, re_n = k + m, re_symbol_size = sz\<rparr>"
  have new: "fst (rs_encoder_new k m sz c) = Ok e"
    using assms(1) rs_generator_ok [OF assms(6), of k m] by (simp add: rs_encoder_new_def e_def case_prod_unfold)
  have E: "re_g e = build_generator k m" "re_k e = k" "re_n e = k + m" "re_symbol_size e = sz" by (simp_all add: e_def)
  obtain cw where cw: "rs_encode e data = Ok cw" "take k cw = data" "\<And>i. i < k + m \<Longrightarrow> length (cw ! i) = sz"
    "\<And>i p. i < k + m \<Longrightarrow> p < sz \<Longrightarrow> cw ! i ! p = dot k (build_generator k m ! i) (\<lambda>j. data ! j ! p)" "length cw = k + m"
    using rs_encode_rows [OF E assms(4,5)] by metis
  have "fst (rs_decode k m sz survived c') = Ok data"
    if sv: "k \<le> length survived" "distinct (map fst (take k survived))"
      "\<forall>p \<in> set (take k survived). fst p < k + m \<and> snd p = cw ! fst p" for survived
  proof -
    obtain rows where rows: "gf_gauss_eliminate (map (\<lambda>p. build_generator k m ! fst p @ snd p) (take k survived)) (k + sz) k = (rows, k)"
      "extract_data k sz rows = data"
      using solve_survivors [OF assms(1,3,2,4,5), of "take k survived"] sv cw(3,4) by auto
    have "otraverse (survivor_row (build_generator k m) sz) (take k survived)
        = Ok (map (\<lambda>p. build_generator k m ! fst p @ snd p) (take k survived))"
      using sv(3) cw(3) by (intro survivor_rows) auto
    moreover have "\<not> list_ex (\<lambda>s. s = []) data" using assms(3,5) by (auto simp: list_ex_iff)
    ultimately show ?thesis using sv(1) rows assms(1) rs_generator_ok [OF assms(7), of k m]
      by (simp add: rs_decode_def case_prod_unfold)
  qed
  moreover have "\<forall>x \<in> set cw. length x = sz" using cw(3,5) by (auto simp: in_set_conv_nth)
  ultimately show ?thesis using new cw(1,2,5) by blast
qed

text \<open>C33: Any \<open>k\<close> of the \<open>k + m\<close> coded symbols, with at most 256 in all, give back the data: encoding succeeds and
  starts with the data verbatim, and decoding from survivors with distinct indices, in any order,
  returns exactly the data, whatever correct generators the caches of the two sides already hold.\<close>

theorem rs_any_k_recover:
  assumes "0 < k" "k + m \<le> 256" "0 < sz" "length data = k" "\<forall>d \<in> set data. length d = sz"
    and "rs_cache_ok c" "rs_cache_ok c'"
  shows "\<exists>e cw. fst (rs_encoder_new k m sz c) = Ok e \<and> rs_encode e data = Ok cw \<and> take k cw = data \<and>
    (\<forall>survived. k \<le> length survived \<and> distinct (map fst (take k survived)) \<and>
       (\<forall>p \<in> set (take k survived). fst p < k + m \<and> snd p = cw ! fst p) \<longrightarrow>
       fst (rs_decode k m sz survived c') = Ok data)"
  using rs_recovers [OF assms] by blast

theorem rs_any_k_recover_witness:
  "\<exists>e cw. fst (rs_encoder_new 2 1 1 Map.empty) = Ok e \<and> rs_encode e [[1], [2]] = Ok cw \<and>
     fst (rs_decode 2 1 1 [(2, cw ! 2), (0, cw ! 0)] Map.empty) = Ok [[1], [2]]"
proof -
  have "rs_cache_ok Map.empty" by (simp add: rs_cache_ok_def)
  then obtain e cw where "fst (rs_encoder_new 2 1 1 Map.empty) = Ok e" "rs_encode e [[1], [2]] = Ok cw"
    "\<forall>survived. 2 \<le> length survived \<and> distinct (map fst (take 2 survived)) \<and>
       (\<forall>p \<in> set (take 2 survived). fst p < 2 + 1 \<and> snd p = cw ! fst p) \<longrightarrow>
       fst (rs_decode 2 1 1 survived Map.empty) = Ok [[1], [2]]"
    using rs_any_k_recover [of 2 1 1 "[[1], [2]]" Map.empty Map.empty] by auto
  then show ?thesis by fastforce
qed

text \<open>Beyond 256 symbols the code is no longer what it promises: the evaluation point is cut to a byte, so
  symbol \<open>i + 256\<close> is a copy of data symbol \<open>i\<close>, and the two together carry the information of one.
  Nothing in the interface refuses such a shape.\<close>

theorem rs_symbols_repeat:
  assumes "k \<le> 256" "i < k" "i + 256 < k + m" "length data = k" "\<forall>d \<in> set data. length d = sz" "rs_cache_ok c"
  shows "\<exists>e cw. fst (rs_encoder_new k m sz c) = Ok e \<and> rs_encode e data = Ok cw \<and> cw ! (i + 256) = data ! i"
proof -
  define e where "e = \<lparr>re_g = build_generator k m, re_k = k, re_n = k + m, re_symbol_size = sz\<rparr>"
  have new: "fst (rs_encoder_new k m sz c) = Ok e"
    using assms(2) rs_generator_ok [OF assms(6), of k m] by (simp add: rs_encoder_new_def e_def case_prod_unfold)
  have E: "re_g e = build_generator k m" "re_k e = k" "re_n e = k + m" "re_symbol_size e = sz" by (simp_all add: e_def)
  obtain cw where cw: "rs_encode e data = Ok cw" "\<And>i. i < k + m \<Longrightarrow> length (cw ! i) = sz"
    "\<And>i p. i < k + m \<Longrightarrow> p < sz \<Longrightarrow> cw ! i ! p = dot k (build_generator k m ! i) (\<lambda>j. data ! j ! p)"
    using rs_encode_rows [OF E assms(4,5)] by metis
  have "word_of_nat (i + 256 + 1) = (word_of_nat (i + 1) :: u8)" by (simp add: word_of_nat_eq_iff take_bit_eq_mod)
  then have v: "vandermonde_row k (i + 256) = vandermonde_row k i" by (simp only: vandermonde_row_def)
  have "cw ! (i + 256) ! p = data ! i ! p" if "p < sz" for p
  proof -
    have "cw ! (i + 256) ! p = dot k (vandermonde_row k i) (\<lambda>t. dot k (head_inverse k ! t) (\<lambda>j. data ! j ! p))"
      using cw(3) [OF assms(3) that] dot_generator [OF assms(1,3)] v by simp
    then show ?thesis using invert_matrix_right [OF head_facts(1) _ head_facts(2), of k i] assms(1,2) by simp
  qed
  then have "cw ! (i + 256) = data ! i" using cw(2) [OF assms(3)] assms(2,4,5) by (intro nth_equalityI) auto
  then show ?thesis using new cw(1) by blast
qed

theorem rs_symbols_repeat_witness:
  "\<exists>e cw. fst (rs_encoder_new 2 255 1 Map.empty) = Ok e \<and> rs_encode e [[7], [9]] = Ok cw \<and> cw ! 256 = [7]"
  using rs_symbols_repeat [of 2 0 255 "[[7], [9]]" 1 Map.empty] by (simp add: rs_cache_ok_def)

end
