(* ===== verification/Hierarchical.thy ===== *)
theory Hierarchical
  imports Rlnc ReedSolomon
begin

text \<open>
  The two-layer fan-out (\<open>crates/coding/src/hierarchical.rs\<close>): an outer Reed-Solomon code over the context,
  whose symbols are dealt out to groups, and network coding inside each group.  An outer symbol of
  a group is recovered by the group's decoder, and any \<open>k\<close> outer symbols give the context.
\<close>

section \<open>Operations\<close>

text \<open>The error text of the layer below is kept as its error value; \<open>HierShort\<close> is the message of
  \<open>decode\<close> with its two numbers.\<close>

datatype hier_error = HierRs rs_error | HierShort nat nat | HierRlnc rlnc_error | HierEmpty

record hier_encoder =
  he_outer :: "bytes list"
  he_k :: nat
  he_n :: nat
  he_symbol_size :: nat

definition hier_encoder_new ::
  "bytes list \<Rightarrow> nat \<Rightarrow> nat \<Rightarrow> nat \<Rightarrow> rs_cache \<Rightarrow> (hier_encoder, hier_error) outcome \<times> rs_cache" where
  "hier_encoder_new data k m_outer sz cache =
     (if data = [] then (Err HierEmpty, cache)
      else case rs_encoder_new k m_outer sz cache of
        (r, cache') \<Rightarrow>
          (obind (omap_err HierRs r) (\<lambda>enc.
             obind (omap_err HierRs (rs_encode enc data)) (\<lambda>outer.
               Ok \<lparr>he_outer = outer, he_k = k, he_n = k + m_outer, he_symbol_size = sz\<rparr>)), cache'))"

definition owned_by :: "nat \<Rightarrow> nat \<Rightarrow> nat \<Rightarrow> nat list" where
  "owned_by n g gi = filter (\<lambda>i. i mod g = gi) [0..<n]"

definition into_groups :: "nat \<Rightarrow> u64 \<Rightarrow> hier_encoder \<Rightarrow> (nat list \<times> rlnc_encoder) list" where
  "into_groups g seed e =
     map (\<lambda>gi. let owned = owned_by (he_n e) g gi; srcs = map (\<lambda>i. he_outer e ! i) owned
               in (owned, rlnc_encoder_new_shared srcs (he_symbol_size e) (seed + word_of_nat gi)))
       [0..<g]"

record hier_decoder =
  hd_k :: nat
  hd_m_outer :: nat
  hd_symbol_size :: nat
  hd_outer :: "(nat \<times> bytes) list"

definition hier_decoder_new :: "nat \<Rightarrow> nat \<Rightarrow> nat \<Rightarrow> hier_decoder" where
  "hier_decoder_new k m_outer sz = \<lparr>hd_k = k, hd_m_outer = m_outer, hd_symbol_size = sz, hd_outer = []\<rparr>"

fun add_packets :: "(bytes \<times> bytes) list \<Rightarrow> rlnc_decoder \<Rightarrow> (rlnc_decoder, rlnc_error) outcome" where
  "add_packets [] d = Ok d"
| "add_packets ((cs, pl) # ps) d =
     (case rlnc_add \<lparr>coeffs = cs, cp_payload = pl\<rparr> d of
        (Ok b, d') \<Rightarrow> add_packets ps d'
      | (Err e, d') \<Rightarrow> Err e
      | (Panic, d') \<Rightarrow> Panic)"

definition add_group ::
  "nat list \<Rightarrow> (bytes \<times> bytes) list \<Rightarrow> hier_decoder \<Rightarrow> (nat, hier_error) outcome \<times> hier_decoder" where
  "add_group owned packets d =
     (case obind (omap_err HierRlnc (add_packets packets (rlnc_decoder_new (length owned) (hd_symbol_size d))))
         (\<lambda>dec. omap_err HierRlnc (rlnc_decode dec)) of
        Ok syms \<Rightarrow>
          let outer = hd_outer d @ zip owned syms in (Ok (length outer), d\<lparr>hd_outer := outer\<rparr>)
      | Err e \<Rightarrow> (Err e, d)
      | Panic \<Rightarrow> (Panic, d))"

definition hier_ready :: "hier_decoder \<Rightarrow> bool" where
  "hier_ready d \<longleftrightarrow> hd_k d \<le> length (hd_outer d)"

definition hier_decode :: "hier_decoder \<Rightarrow> rs_cache \<Rightarrow> (bytes list, hier_error) outcome \<times> rs_cache" where
  "hier_decode d cache =
     (if \<not> hier_ready d then (Err (HierShort (length (hd_outer d)) (hd_k d)), cache)
      else case rs_decode (hd_k d) (hd_m_outer d) (hd_symbol_size d) (hd_outer d) cache of
        (r, cache') \<Rightarrow> (omap_err HierRs r, cache'))"

section \<open>The inner layer\<close>

definition packet_pair :: "coded_packet \<Rightarrow> bytes \<times> bytes" where
  "packet_pair p = (coeffs p, cp_payload p)"

lemma packet_eta: "\<lparr>coeffs = coeffs p, cp_payload = cp_payload p\<rparr> = (p :: coded_packet)"
  by simp

lemma add_packets_receive:
  assumes "rlnc_wf d" "\<forall>p \<in> set ps. packet_fits d p"
  shows "add_packets (map packet_pair ps) d = Ok (receive_packets ps d)"
  using assms
proof (induction ps arbitrary: d)
  case (Cons p ps)
  have "packet_fits d p" using Cons.prems by simp
  with Cons.prems(1) have "\<exists>b d'. rlnc_add p d = (Ok b, d') \<and> rlnc_wf d' \<and> rd_k d' = rd_k d \<and> rd_symbol_size d' = rd_symbol_size d"
    by (cases rule: rlnc_add_cases) (use Cons.prems(1) in auto)
  then obtain b d' where "rlnc_add p d = (Ok b, d')" "rlnc_wf d'" "rd_k d' = rd_k d" "rd_symbol_size d' = rd_symbol_size d"
    by blast
  moreover have "\<forall>q \<in> set ps. packet_fits d' q" using calculation Cons.prems(2) by (simp add: packet_fits_def)
  moreover have "packet_pair p = (coeffs p, cp_payload p)" by (simp add: packet_pair_def)
  ultimately show ?case using Cons.IH [of d'] by (simp add: receive_packets_def packet_eta)
qed (simp add: receive_packets_def)

text \<open>A group whose packets determine its outer symbols contributes exactly those.\<close>

lemma add_group_ok:
  assumes "\<forall>x \<in> set srcs. length x = hd_symbol_size d" "length owned = length srcs"
    and "\<forall>p \<in> set ps. combination_of srcs (hd_symbol_size d) p"
  shows "add_group owned (map packet_pair ps) d =
    (if packets_determine (length srcs) ps
     then (Ok (length (hd_outer d) + length srcs), d\<lparr>hd_outer := hd_outer d @ zip owned srcs\<rparr>)
     else (Err (HierRlnc (RlncInsufficient (rlnc_rank (receive_packets ps (rlnc_decoder_new (length srcs) (hd_symbol_size d))))
       (length srcs))), d))"
proof -
  have "\<forall>p \<in> set ps. packet_fits (rlnc_decoder_new (length srcs) (hd_symbol_size d)) p"
    using assms(3) by (auto simp: packet_fits_def rlnc_decoder_new_def combination_of_def)
  from add_packets_receive [OF rlnc_new_wf this] decode_received_packets(2) [OF assms(1,3)]
  show ?thesis using assms(2) by (simp add: add_group_def Let_def)
qed

section \<open>Both layers\<close>

lemma into_groups_nth:
  "gi < g \<Longrightarrow> into_groups g seed e ! gi =
    (owned_by (he_n e) g gi,
     rlnc_encoder_new_shared (map (\<lambda>i. he_outer e ! i) (owned_by (he_n e) g gi)) (he_symbol_size e) (seed + word_of_nat gi))"
  by (simp add: into_groups_def Let_def)

lemma owned_by_facts:
  "distinct (owned_by n g gi)" "i \<in> set (owned_by n g gi) \<longleftrightarrow> i < n \<and> i mod g = gi"
  by (auto simp: owned_by_def)

text \<open>What a decoder holds after groups have contributed.\<close>

definition group_symbols :: "hier_encoder \<Rightarrow> nat \<Rightarrow> nat list \<Rightarrow> (nat \<times> bytes) list" where
  "group_symbols e g gs = concat (map (\<lambda>gi. map (\<lambda>i. (i, he_outer e ! i)) (owned_by (he_n e) g gi)) gs)"

lemma group_symbols_distinct: "distinct gs \<Longrightarrow> distinct (map fst (group_symbols e g gs))"
proof (induction gs)
  case (Cons gi gs)
  have "set (map fst (group_symbols e g gs)) \<inter> set (owned_by (he_n e) g gi) = {}"
    using Cons.prems by (auto simp: group_symbols_def owned_by_facts)
  then show ?case
    using Cons owned_by_facts(1) by (auto simp: group_symbols_def comp_def)
qed (simp add: group_symbols_def)

lemma group_symbols_sound:
  "p \<in> set (group_symbols e g gs) \<Longrightarrow> fst p < he_n e \<and> snd p = he_outer e ! fst p"
  by (auto simp: group_symbols_def owned_by_facts)

lemma hier_encoder_new_ok:
  assumes "fst (hier_encoder_new data k m sz c) = Ok e" "fst (rs_encoder_new k m sz c) = Ok enc" "rs_encode enc data = Ok cw"
  shows "e = \<lparr>he_outer = cw, he_k = k, he_n = k + m, he_symbol_size = sz\<rparr>"
  using assms by (auto simp: hier_encoder_new_def case_prod_unfold split: if_splits)

lemma add_groups_outer:
  assumes outer: "length (he_outer e) = he_n e" "\<forall>x \<in> set (he_outer e). length x = he_symbol_size e"
    and gs: "\<forall>gi \<in> set gs. gi < g \<and> (\<forall>p \<in> set (pk gi). emitted (snd (into_groups g seed e ! gi)) p) \<and>
      packets_determine (length (fst (into_groups g seed e ! gi))) (pk gi)"
    and d: "hd_symbol_size d = he_symbol_size e"
  shows "foldl (\<lambda>d gi. snd (add_group (fst (into_groups g seed e ! gi)) (map packet_pair (pk gi)) d)) d gs =
    d\<lparr>hd_outer := hd_outer d @ group_symbols e g gs\<rparr>"
  using gs d
proof (induction gs arbitrary: d)
  case (Cons gi gs)
  define owned where "owned = owned_by (he_n e) g gi"
  define srcs where "srcs = map (\<lambda>i. he_outer e ! i) owned"
  have I: "into_groups g seed e ! gi = (owned, rlnc_encoder_new_shared srcs (he_symbol_size e) (seed + word_of_nat gi))"
    using Cons.prems(1) by (simp add: into_groups_nth owned_def srcs_def)
  have src: "\<forall>x \<in> set srcs. length x = hd_symbol_size d"
    using outer Cons.prems(2) by (auto simp: srcs_def owned_def owned_by_facts)
  have "rlnc_encoder_wf (rlnc_encoder_new_shared srcs (he_symbol_size e) (seed + word_of_nat gi))"
    using src Cons.prems(2) by (simp add: rlnc_encoder_wf_def rlnc_encoder_new_shared_def)
  from emitted_combination [OF this] have "\<forall>p \<in> set (pk gi). combination_of srcs (hd_symbol_size d) p"
    using Cons.prems by (simp add: I rlnc_encoder_new_shared_def)
  note A = add_group_ok [OF src _ this, of owned]
  have det: "packets_determine (length srcs) (pk gi)" using Cons.prems(1) by (simp add: I srcs_def)
  have "zip owned srcs = map (\<lambda>i. (i, he_outer e ! i)) owned" by (simp add: srcs_def zip_map2 zip_same_conv_map)
  then have "snd (add_group (fst (into_groups g seed e ! gi)) (map packet_pair (pk gi)) d) =
      d\<lparr>hd_outer := hd_outer d @ map (\<lambda>i. (i, he_outer e ! i)) owned\<rparr>"
    using A det by (simp add: I srcs_def)
  then show ?case using Cons.IH Cons.prems by (simp add: group_symbols_def owned_def)
qed (simp add: group_symbols_def)

section \<open>Properties\<close>

text \<open>C12: The fan-out delivers.  The context of \<open>k\<close> nonempty symbols, with at most 256 outer symbols, is dealt
  out to \<open>g\<close> groups.  Groups contribute in any order, each with packets of its own encoder, dense or
  sparse, that determine the group's outer symbols.  Then decoding returns exactly the context once
  the contributing groups own \<open>k\<close> outer symbols or more, whichever groups these are, and before that
  reports how many there are.\<close>

theorem hier_delivers:
  assumes "0 < k" "k + m \<le> 256" "0 < sz" "length data = k" "\<forall>x \<in> set data. length x = sz"
    and "rs_cache_ok c" "rs_cache_ok c'" "fst (hier_encoder_new data k m sz c) = Ok e" "distinct gs"
    and "\<forall>gi \<in> set gs. gi < g \<and> (\<forall>p \<in> set (pk gi). emitted (snd (into_groups g seed e ! gi)) p) \<and>
      packets_determine (length (fst (into_groups g seed e ! gi))) (pk gi)"
  defines "d \<equiv> foldl (\<lambda>d gi. snd (add_group (fst (into_groups g seed e ! gi)) (map packet_pair (pk gi)) d))
      (hier_decoder_new k m sz) gs"
    and "have \<equiv> sum_list (map (\<lambda>gi. length (fst (into_groups g seed e ! gi))) gs)"
  shows "fst (hier_decode d c') = (if k \<le> have then Ok data else Err (HierShort have k))"
proof -
  obtain enc cw where E: "fst (rs_encoder_new k m sz c) = Ok enc" "rs_encode enc data = Ok cw"
      "length cw = k + m" "\<forall>x \<in> set cw. length x = sz"
    and rec: "\<And>sv. k \<le> length sv \<Longrightarrow> distinct (map fst (take k sv)) \<Longrightarrow>
       (\<forall>p \<in> set (take k sv). fst p < k + m \<and> snd p = cw ! fst p) \<Longrightarrow> fst (rs_decode k m sz sv c') = Ok data"
    using rs_recovers [OF assms(1-7)] by blast
  have e: "e = \<lparr>he_outer = cw, he_k = k, he_n = k + m, he_symbol_size = sz\<rparr>"
    by (rule hier_encoder_new_ok [OF assms(8) E(1,2)])
  have d: "d = (hier_decoder_new k m sz)\<lparr>hd_outer := group_symbols e g gs\<rparr>"
    unfolding d_def using add_groups_outer [of e gs g pk seed "hier_decoder_new k m sz"] assms(10) E(3,4)
    by (simp add: e hier_decoder_new_def)
  have len: "length (group_symbols e g gs) = have"
    unfolding have_def group_symbols_def length_concat map_map comp_def length_map
    by (rule arg_cong [where f = sum_list], rule map_cong) (use assms(10) in \<open>auto simp: into_groups_nth\<close>)
  show ?thesis
  proof (cases "k \<le> have")
    case True
    have "fst (rs_decode k m sz (group_symbols e g gs) c') = Ok data"
    proof (rule rec)
      show "distinct (map fst (take k (group_symbols e g gs)))"
        using distinct_take [OF group_symbols_distinct [OF assms(9)], of k e g] by (simp add: take_map)
      show "\<forall>p \<in> set (take k (group_symbols e g gs)). fst p < k + m \<and> snd p = cw ! fst p"
        using group_symbols_sound [of _ e g gs] by (auto simp: e dest!: in_set_takeD)
    qed (simp add: len True)
    then show ?thesis
      using True len by (simp add: hier_decode_def hier_ready_def d hier_decoder_new_def case_prod_unfold)
  next
    case False
    then show ?thesis using len by (simp add: hier_decode_def hier_ready_def d hier_decoder_new_def)
  qed
qed

lemma demo_hier_new:
  assumes "length data = 2" "\<forall>x \<in> set data. length x = 1"
  shows "fst (hier_encoder_new data 2 0 1 Map.empty) = Ok \<lparr>he_outer = data, he_k = 2, he_n = 2, he_symbol_size = 1\<rparr>"
proof -
  have c: "rs_cache_ok Map.empty" by (simp add: rs_cache_ok_def)
  obtain enc cw where E: "fst (rs_encoder_new 2 0 1 Map.empty) = Ok enc" "rs_encode enc data = Ok cw" "take 2 cw = data"
      "length cw = 2 + 0"
    using rs_recovers [OF _ _ _ assms c c, of 0] by auto
  then have "cw = data" using assms by simp
  then show ?thesis using E assms(1) by (auto simp: hier_encoder_new_def case_prod_unfold)
qed

theorem hier_delivers_witness:
  "fst (hier_decode (snd (add_group [0, 1] (map packet_pair demo_packets) (hier_decoder_new 2 0 1))) Map.empty) =
     Ok [[5], [9]]"
proof -
  define e where "e = \<lparr>he_outer = [[5], [9 :: u8]], he_k = 2, he_n = 2, he_symbol_size = 1\<rparr>"
  have c: "rs_cache_ok Map.empty" by (simp add: rs_cache_ok_def)
  have new: "fst (hier_encoder_new [[5], [9]] 2 0 1 Map.empty) = Ok e"
    unfolding e_def by (rule demo_hier_new) auto
  have I: "into_groups 1 0 e ! 0 = ([0, 1], rlnc_encoder_new_shared [[5], [9]] 1 0)"
    by (simp add: into_groups_nth owned_by_def e_def upt_rec numeral_2_eq_2)
  have "(rlnc_encoder_new_shared [[5], [9]] 1 0)\<lparr>rn_rng := g\<rparr> = demo_rlnc g" for g
    by (simp add: rlnc_encoder_new_shared_def demo_rlnc_def rlnc_encoder_new_def vec_resize_def)
  then have "emitted (rlnc_encoder_new_shared [[5], [9]] 1 0) p" if "p \<in> set demo_packets" for p
    using that demo_dense demo_sparse [symmetric] unfolding emitted_def
    by (fastforce simp: demo_packets_def)
  then have "\<forall>gi \<in> set [0]. gi < 1 \<and> (\<forall>p \<in> set demo_packets. emitted (snd (into_groups 1 0 e ! gi)) p) \<and>
      packets_determine (length (fst (into_groups 1 0 e ! gi))) demo_packets"
    using demo_determine by (simp add: I [unfolded One_nat_def] numeral_2_eq_2)
  from hier_delivers [OF _ _ _ _ _ c c new _ this] show ?thesis by (simp add: I [unfolded One_nat_def])
qed

text \<open>\<open>ready\<close> counts contributions, not distinct outer symbols: a group that contributes twice makes the decoder
  ready, and decoding then fails, because only the first \<open>k\<close> symbols are looked at.\<close>

lemma hier_ready_counts_repeats:
  defines "d \<equiv> \<lparr>hd_k = 2, hd_m_outer = 0, hd_symbol_size = 1, hd_outer = [(0, [7]), (0, [7]), (1, [9])]\<rparr>"
  shows "hier_ready d" "fst (hier_decode d Map.empty) = Err (HierRs (RsInsufficient 1 2))"
proof -
  have k2: "(2 :: nat) \<le> 256" by simp
  show "hier_ready d" by (simp add: hier_ready_def d_def)
  have "fst (rs_generator 2 0 Map.empty) = build_generator 2 0" by (simp add: rs_generator_def Let_def)
  moreover have "build_generator 2 0 ! 0 = [1, 0]" by (simp add: build_generator_nth unit_row_def numeral_2_eq_2)
  then have "otraverse (survivor_row (build_generator 2 0) 1) [(0, [7]), (0, [7])] = Ok [[1, 0, 7], [1, 0, 7]]"
    using survivor_rows [of "[(0, [7]), (0, [7])]" 2 0 1] by simp
  moreover have "gf_gauss_eliminate [[1, 0, 7], [1, 0, 7]] 3 2 = ([[1, 0, 7], [0, 0, 0]], 1)"
    by code_simp
  ultimately show "fst (hier_decode d Map.empty) = Err (HierRs (RsInsufficient 1 2))"
    by (simp add: hier_decode_def hier_ready_def d_def rs_decode_def case_prod_unfold del: otraverse.simps)
qed

end
