(* ===== verification/Homohash.thy ===== *)
theory Homohash
  imports Prelude
begin

text \<open>
  The homomorphic hash (\<open>crates/coding/src/homohash.rs\<close>): products of powers in the subgroup of order 1321 of the
  residues modulo \<open>2 ^ 61 - 1\<close>, computed on 128-bit integers with Mersenne reduction and a power table.
  The hash of a vector is \<open>g\<close> to the weighted sum of its entries, from which follow both that it is
  linear and which vectors it cannot tell apart.
\<close>

section \<open>Operations\<close>

definition hh_P :: u128 where
  "hh_P = push_bit 61 1 - 1"

definition hh_Q :: u32 where
  "hh_Q = 1321"

datatype homohash_error = HashLength nat nat

definition m_reduce :: "u128 \<Rightarrow> u128" where
  "m_reduce x =
     (let lo = x AND hh_P; hi = drop_bit 61 x; s = lo + hi in if s \<ge> hh_P then s - hh_P else s)"

definition mulmod :: "u128 \<Rightarrow> u128 \<Rightarrow> u128" where
  "mulmod a b = m_reduce (a * b)"

function powmod_loop :: "u128 \<Rightarrow> u128 \<Rightarrow> u128 \<Rightarrow> u128" where
  "powmod_loop result base exp =
     (if exp > 0 then
        powmod_loop (if exp AND 1 = 1 then mulmod result base else result) (mulmod base base) (drop_bit 1 exp)
      else result)"
  by pat_completeness auto
termination
proof (relation "measure (\<lambda>(r, b, e). unat e)")
  fix result base exp :: u128
  assume "exp > 0"
  then have "0 < unat exp" by (simp add: unat_gt_0 word_neq_0_conv)
  then show "((if exp AND 1 = 1 then mulmod result base else result, mulmod base base, drop_bit 1 exp), result, base, exp)
      \<in> measure (\<lambda>(r, b, e). unat e)"
    by (simp add: unat_drop_bit_eq drop_bit_eq_div unat_div)
qed simp

declare powmod_loop.simps [simp del]

definition powmod :: "u128 \<Rightarrow> u128 \<Rightarrow> u128 \<Rightarrow> u128" where
  "powmod base exp p = powmod_loop 1 (base mod p) exp"

text \<open>The search behind the list of bases has no bound of its own.\<close>

partial_function (option) search_gen :: "u128 \<Rightarrow> u128 \<Rightarrow> u128 option" where
  "search_gen base exp =
     (let g = powmod base exp hh_P in if g \<noteq> 1 then Some g else search_gen (base + 1) exp)"

definition subgroup_gen :: "u128 option" where
  "subgroup_gen =
     (let exp = (hh_P - 1) div ucast hh_Q
      in case List.find (\<lambda>base. powmod base exp hh_P \<noteq> 1) [2, 3, 5, 7, 11, 13, 37, 41, 61] of
           Some base \<Rightarrow> Some (powmod base exp hh_P)
         | None \<Rightarrow> search_gen 67 exp)"

record homomorphic_hash =
  hh_gens :: "u128 list"
  hh_table :: "u128 list"
  hh_unit_index :: "u128 \<rightharpoonup> nat"

fun gens_from :: "u128 \<Rightarrow> u128 \<Rightarrow> nat \<Rightarrow> u128 list" where
  "gens_from acc g 0 = []"
| "gens_from acc g (Suc k) = (let acc' = mulmod acc g in acc' # gens_from acc' g k)"

fun power_row :: "u128 \<Rightarrow> u128 \<Rightarrow> nat \<Rightarrow> u128 list" where
  "power_row p gi 0 = []"
| "power_row p gi (Suc n) = p # power_row (mulmod p gi) gi n"

definition homohash_new :: "nat \<Rightarrow> homomorphic_hash option" where
  "homohash_new k =
     (case subgroup_gen of
        None \<Rightarrow> None
      | Some g \<Rightarrow>
          let gens = gens_from 1 g k
          in Some \<lparr>hh_gens = gens,
                   hh_table = concat (map (\<lambda>gi. power_row 1 gi (unat hh_Q)) gens),
                   hh_unit_index = fold (\<lambda>(i, gi) m. m(gi \<mapsto> i)) (enumerate 0 gens) Map.empty\<rparr>)"

definition homohash :: "homomorphic_hash \<Rightarrow> u32 list \<Rightarrow> (u128, homohash_error) outcome" where
  "homohash hh c =
     (if length c \<noteq> length (hh_gens hh) then Err (HashLength (length c) (length (hh_gens hh)))
      else
        let q = unat hh_Q
        in Ok (fold (\<lambda>(i, ci) acc. let e = unat ci mod q in if e \<noteq> 0 then mulmod acc (hh_table hh ! (i * q + e)) else acc)
             (enumerate 0 c) 1))"

definition hash_combine :: "u32 \<Rightarrow> u128 \<Rightarrow> u32 \<Rightarrow> u128 \<Rightarrow> u128" where
  "hash_combine a h1 b h2 =
     (let lhs = powmod h1 (ucast a mod ucast hh_Q) hh_P; rhs = powmod h2 (ucast b mod ucast hh_Q) hh_P in mulmod lhs rhs)"

definition combine_many :: "homomorphic_hash \<Rightarrow> u32 list \<Rightarrow> u128 list \<Rightarrow> u128" where
  "combine_many hh cs hashes =
     (let q = unat hh_Q
      in fold (\<lambda>(a, h) acc.
           let e = unat a mod q
           in if e \<noteq> 0 then
                (case hh_unit_index hh h of
                   Some i \<Rightarrow> mulmod acc (hh_table hh ! (i * q + e))
                 | None \<Rightarrow> mulmod acc (powmod h (word_of_nat e) hh_P))
              else acc) (zip cs hashes) 1)"

definition verify_coded :: "homomorphic_hash \<Rightarrow> u128 list \<Rightarrow> u32 list \<Rightarrow> u128 \<Rightarrow> (bool, homohash_error) outcome" where
  "verify_coded hh source_hashes coded expected =
     (if length coded \<noteq> length source_hashes then Err (HashLength (length coded) (length source_hashes))
      else Ok (combine_many hh coded source_hashes = expected))"

section \<open>Arithmetic modulo the Mersenne prime\<close>

abbreviation "M61 \<equiv> 2305843009213693951 :: nat"

lemma hh_P_val: "unat hh_P = M61" "hh_P = mask 61"
  by (simp_all add: hh_P_def mask_eq_exp_minus_1)

lemma m_reduce_val:
  assumes "unat x \<le> (M61 - 1) * (M61 - 1)"
  shows "unat (m_reduce x) = unat x mod M61"
proof -
  define n where "n = unat x"
  define lo where "lo = n mod 2 ^ 61"
  define hi where "hi = n div 2 ^ 61"
  have n: "n = lo + 2 ^ 61 * hi" by (simp add: lo_def hi_def)
  have hi: "hi < M61" using assms by (simp add: hi_def n_def div_less_iff_less_mult less_mult_imp_div_less)
  have lo: "lo \<le> M61" using mod_less_divisor [of "2 ^ 61" n] by (simp add: lo_def)
  have u: "unat (x AND hh_P) = lo" "unat (drop_bit 61 x) = hi"
    by (simp_all only: hh_P_val(2) take_bit_eq_mask [symmetric] unsigned_take_bit_eq unat_drop_bit_eq lo_def hi_def n_def)
      (simp_all only: take_bit_eq_mod drop_bit_eq_div)
  have s: "unat ((x AND hh_P) + drop_bit 61 x) = lo + hi"
    using lo hi by (simp add: unat_word_ariths u)
  have "n mod M61 = (lo + hi) mod M61"
  proof -
    have "n = lo + hi + hi * M61" by (simp add: n)
    then show ?thesis by (simp only: mod_mult_self1)
  qed
  moreover have "unat (m_reduce x) = (if M61 \<le> lo + hi then lo + hi - M61 else lo + hi)"
    using s hh_P_val(1) by (auto simp: m_reduce_def Let_def word_le_nat_alt unat_sub)
  ultimately show ?thesis using lo hi by (auto simp: n_def mod_if)
qed

lemma mulmod_val:
  assumes "unat a < M61" "unat b < M61"
  shows "unat (mulmod a b) = unat a * unat b mod M61" "unat (mulmod a b) < M61"
proof -
  have le: "unat a * unat b \<le> (M61 - 1) * (M61 - 1)" using assms by (intro mult_le_mono) auto
  then have "unat (a * b) = unat a * unat b" by (simp add: unat_word_ariths)
  then show "unat (mulmod a b) = unat a * unat b mod M61" using m_reduce_val [of "a * b"] le by (simp add: mulmod_def)
  then show "unat (mulmod a b) < M61" by simp
qed

lemma mult_power_mod: "r * (x mod m) ^ k mod m = r * x ^ k mod (m :: nat)"
  by (metis mod_mult_right_eq power_mod)

lemma powmod_loop_val:
  assumes "unat r < M61" "unat b < M61"
  shows "unat (powmod_loop r b e) = unat r * unat b ^ unat e mod M61"
  using assms
proof (induction r b e rule: powmod_loop.induct)
  case (1 r b e)
  show ?case
  proof (cases "e > 0")
    case True
    define n where "n = unat e"
    have half: "unat (drop_bit 1 e) = n div 2" by (simp add: n_def unat_drop_bit_eq drop_bit_eq_div unat_div)
    have odd: "e AND 1 = 1 \<longleftrightarrow> odd n"
      by (simp add: and_one_eq odd_iff_mod_2_eq_one n_def word_unat_eq_iff unat_mod)
    define r' where "r' = (if e AND 1 = 1 then mulmod r b else r)"
    have r': "unat r' < M61" "unat r' = (if odd n then unat r * unat b mod M61 else unat r)"
      using 1(2,3) mulmod_val [of r b] by (auto simp: r'_def odd)
    have b: "unat (mulmod b b) < M61" "unat (mulmod b b) = unat b * unat b mod M61" using mulmod_val [of b b] 1(3) by auto
    have "unat (powmod_loop r b e) = unat (powmod_loop r' (mulmod b b) (drop_bit 1 e))"
      using True by (subst powmod_loop.simps) (simp add: r'_def)
    also have "\<dots> = unat r' * (unat b * unat b mod M61) ^ (n div 2) mod M61"
      using 1(1) [OF True, folded r'_def, OF r'(1) b(1)] by (simp only: half b(2))
    also have "\<dots> = unat r' * (unat b ^ (2 * (n div 2))) mod M61"
      by (simp add: mult_power_mod power_mult power2_eq_square)
    also have "\<dots> = unat r * unat b ^ n mod M61"
    proof (cases "odd n")
      case True
      then have "n = Suc (2 * (n div 2))" by presburger
      then have "unat b ^ n = unat b * unat b ^ (2 * (n div 2))" by (metis power_Suc)
      then show ?thesis using r'(2) True by (simp add: mod_simps mult.assoc)
    qed (use r'(2) in simp)
    finally show ?thesis by (simp add: n_def)
  next
    case False
    then have "e = 0" using word_gt_0 by blast
    then show ?thesis using 1(2) by (subst powmod_loop.simps) simp
  qed
qed

lemma powmod_val: "unat (powmod b e hh_P) = unat b ^ unat e mod M61"
  using powmod_loop_val [of 1 "b mod hh_P" e]
  by (simp add: powmod_def unat_mod hh_P_val(1) mod_simps)

lemma powmod_less: "unat (powmod b e hh_P) < M61"
  by (simp add: powmod_val)

section \<open>The subgroup\<close>

text \<open>Powers of numerals by square and multiply on naturals.\<close>

function nat_pow :: "nat \<Rightarrow> nat \<Rightarrow> nat \<Rightarrow> nat" where
  "nat_pow r b e = (if e = 0 then r else nat_pow (if e mod 2 = 1 then r * b mod M61 else r) (b * b mod M61) (e div 2))"
  by pat_completeness auto
termination by (relation "measure (\<lambda>(r, b, e). e)") auto

declare nat_pow.simps [simp del]

lemma nat_pow_val: "nat_pow r b e mod M61 = r * b ^ e mod M61"
proof (induction r b e rule: nat_pow.induct)
  case (1 r b e)
  show ?case
  proof (cases "e = 0")
    case False
    then have "nat_pow r b e mod M61 = (if e mod 2 = 1 then r * b mod M61 else r) * (b * b mod M61) ^ (e div 2) mod M61"
      using 1 by (subst nat_pow.simps) simp
    also have "\<dots> = (if e mod 2 = 1 then r * b else r) * b ^ (2 * (e div 2)) mod M61"
      by (simp add: mult_power_mod mod_simps power_mult power2_eq_square)
    also have "\<dots> = r * b ^ e mod M61"
    proof (cases "e mod 2 = 1")
      case True
      then have "e = Suc (2 * (e div 2))" by presburger
      then have "b ^ e = b * b ^ (2 * (e div 2))" by (metis power_Suc)
      then show ?thesis using True by (simp add: mult.assoc)
    next
      case False
      then have "2 * (e div 2) = e" by presburger
      then show ?thesis using False by simp
    qed
    finally show ?thesis .
  qed (simp add: nat_pow.simps)
qed

text \<open>The base 2 has order 61 and gives 1; the base 3 gives the generator.\<close>

definition hh_gen :: u128 where
  "hh_gen = 234060095121088422"

lemma nat_pow_result: "nat_pow 1 b e = v \<Longrightarrow> v < M61 \<Longrightarrow> b ^ e mod M61 = v"
  using nat_pow_val [of 1 b e] by simp

lemma gen_powers:
  "2 ^ 1745528394559950 mod M61 = 1" "3 ^ 1745528394559950 mod M61 = 234060095121088422"
  "234060095121088422 ^ 1321 mod M61 = 1"
proof -
  have "(2 :: nat) ^ 61 mod M61 = 1" by simp
  moreover have "x ^ n mod M61 = 1" if "x mod M61 = 1" for x n :: nat
    using that power_mod [of x M61 n] by simp
  ultimately have "(2 ^ 61) ^ 28615219582950 mod M61 = 1" by blast
  moreover have e: "(1745528394559950 :: nat) = 61 * 28615219582950" by simp
  ultimately show "2 ^ 1745528394559950 mod M61 = 1" unfolding e power_mult by blast
  have "nat_pow 1 3 1745528394559950 = 234060095121088422" by (simp add: nat_pow.simps)
  then show "3 ^ 1745528394559950 mod M61 = 234060095121088422" by (rule nat_pow_result) simp
  have "nat_pow 1 234060095121088422 1321 = 1" by (simp add: nat_pow.simps)
  then show "234060095121088422 ^ 1321 mod M61 = 1" by (rule nat_pow_result) simp
qed

lemma hh_gen_powmod: "powmod 2 1745528394559950 hh_P = 1" "powmod 3 1745528394559950 hh_P = hh_gen"
proof -
  have u: "unat (2 :: u128) = 2" "unat (3 :: u128) = 3" "unat (1745528394559950 :: u128) = 1745528394559950"
      "unat hh_gen = 234060095121088422" "unat (1 :: u128) = 1"
    by (simp_all add: hh_gen_def)
  have "unat (powmod 2 1745528394559950 hh_P) = 1" by (simp only: powmod_val u gen_powers)
  then show "powmod 2 1745528394559950 hh_P = 1" using word_unat_eq_iff u(5) by metis
  have "unat (powmod 3 1745528394559950 hh_P) = unat hh_gen" by (simp only: powmod_val u gen_powers)
  then show "powmod 3 1745528394559950 hh_P = hh_gen" by (rule word_unat_eq_iff [THEN iffD2])
qed

lemma subgroup_gen_val: "subgroup_gen = Some hh_gen"
proof -
  have "hh_P - 1 = 2305843009213693950" by (simp add: hh_P_def)
  then have "(hh_P - 1) div ucast hh_Q = 1745528394559950"
    by (simp add: hh_Q_def word_unat_eq_iff unat_div)
  moreover have "hh_gen \<noteq> 1" by (simp add: hh_gen_def)
  ultimately show ?thesis by (simp add: subgroup_gen_def hh_gen_powmod)
qed

lemma hh_gen_order: "unat hh_gen ^ 1321 mod M61 = 1" "unat hh_gen < M61" "unat hh_gen \<noteq> 1"
proof -
  have u: "unat hh_gen = 234060095121088422" by (simp add: hh_gen_def)
  show "unat hh_gen ^ 1321 mod M61 = 1" by (simp only: u gen_powers)
qed (simp_all add: hh_gen_def)

lemma gen_pow_mod: "unat hh_gen ^ n mod M61 = unat hh_gen ^ (n mod 1321) mod M61"
proof -
  have "unat hh_gen ^ n = (unat hh_gen ^ 1321) ^ (n div 1321) * unat hh_gen ^ (n mod 1321)"
    by (simp only: power_mult [symmetric] power_add [symmetric]) simp
  also have "\<dots> mod M61 = (unat hh_gen ^ 1321 mod M61) ^ (n div 1321) * unat hh_gen ^ (n mod 1321) mod M61"
    by (simp only: mult.commute [of _ "unat hh_gen ^ (n mod 1321)"] mult_power_mod)
  finally show ?thesis by (simp only: hh_gen_order power_one mult_1)
qed

lemma gen_pow_cong: "m mod 1321 = n mod 1321 \<Longrightarrow> unat hh_gen ^ m mod M61 = unat hh_gen ^ n mod M61"
  by (simp only: gen_pow_mod [of m] gen_pow_mod [of n])

text \<open>1321 is prime, so the generator's order is exactly 1321.\<close>

lemma divisors_1321: "(d :: nat) dvd 1321 \<Longrightarrow> d = 1 \<or> d = 1321"
proof -
  assume d: "d dvd 1321"
  then obtain e where e: "1321 = d * e" by blast
  have small: "\<forall>x \<in> set [2..<37]. \<not> x dvd (1321 :: nat)" by (simp add: upt_rec_numeral)
  have no: "x = 1 \<or> 37 \<le> x" if "x dvd (1321 :: nat)" for x
  proof (rule ccontr)
    assume "\<not> (x = 1 \<or> 37 \<le> x)"
    moreover have "x \<noteq> 0" using that by (metis dvd_0_left_iff zero_neq_numeral)
    ultimately have "2 \<le> x \<and> x < 37" by auto
    then have "x \<in> set [2..<37]" by (simp del: upt_rec_numeral)
    then show False using small that by blast
  qed
  have "e dvd 1321" using e by (metis dvd_triv_right)
  show ?thesis
  proof (cases "37 \<le> d \<and> 37 \<le> e")
    case True
    then have "37 * 37 \<le> d * e" by (intro mult_le_mono) auto
    then show ?thesis using e by simp
  next
    case False
    then show ?thesis using no [OF d] no [OF \<open>e dvd 1321\<close>] e by auto
  qed
qed

lemma gen_pow_one: "unat hh_gen ^ n mod M61 = 1 \<longleftrightarrow> n mod 1321 = 0"
proof
  assume one: "unat hh_gen ^ n mod M61 = 1"
  show "n mod 1321 = 0"
  proof (rule ccontr)
    assume n: "n mod 1321 \<noteq> 0"
    have "coprime n 1321"
    proof (rule coprimeI)
      fix d assume "d dvd n" "d dvd 1321"
      then show "is_unit d" using divisors_1321 [of d] n by auto
    qed
    then have "gcd n 1321 = 1" by simp
    moreover have "n \<noteq> 0" using n by (cases n) auto
    ultimately obtain x y where xy: "n * x = 1321 * y + 1" using bezout_nat [of n 1321] by auto
    have "unat hh_gen ^ (n * x) mod M61 = (unat hh_gen ^ n mod M61) ^ x mod M61"
      by (simp add: power_mult power_mod)
    also have "\<dots> = 1" using one by simp
    finally have "unat hh_gen ^ (1321 * y + 1) mod M61 = 1" by (simp only: xy)
    moreover have "(1321 * y + 1) mod 1321 = 1 mod 1321" by simp
    ultimately have "unat hh_gen ^ 1 mod M61 = 1" using gen_pow_cong by metis
    then show False using hh_gen_order(2,3) by simp
  qed
next
  assume "n mod 1321 = 0"
  then have "unat hh_gen ^ n mod M61 = unat hh_gen ^ 0 mod M61" by (intro gen_pow_cong) simp
  then show "unat hh_gen ^ n mod M61 = 1" by simp
qed

lemma gen_pow_eq_iff: "unat hh_gen ^ m mod M61 = unat hh_gen ^ n mod M61 \<longleftrightarrow> m mod 1321 = n mod 1321"
proof
  assume eq: "unat hh_gen ^ m mod M61 = unat hh_gen ^ n mod M61"
  define k where "k = 1320 * n"
  have "unat hh_gen ^ (m + k) mod M61 = unat hh_gen ^ (n + k) mod M61"
    unfolding power_add by (rule mod_mult_cong [OF eq refl])
  also have "n + k = 1321 * n" by (simp add: k_def)
  also have "unat hh_gen ^ (1321 * n) mod M61 = 1" by (simp only: gen_pow_one mod_mult_self1_is_0)
  finally have "unat hh_gen ^ (m + k) mod M61 = 1" .
  then have "(m + k) mod 1321 = 0" by (simp only: gen_pow_one)
  then have "(m + k + n) mod 1321 = n mod 1321" by (metis add_0 mod_add_left_eq)
  moreover have "m + k + n = m + n * 1321" by (simp add: k_def)
  ultimately show "m mod 1321 = n mod 1321" by (simp only: mod_mult_self1)
qed (rule gen_pow_cong)

section \<open>Tables\<close>

lemma gens_from_val:
  assumes "unat acc = unat hh_gen ^ n mod M61" "i < k"
  shows "unat (gens_from acc hh_gen k ! i) = unat hh_gen ^ (n + i + 1) mod M61"
  using assms
proof (induction acc hh_gen k arbitrary: n i rule: gens_from.induct)
  case (2 acc k)
  have "unat (mulmod acc hh_gen) = unat hh_gen ^ (n + 1) mod M61"
    using mulmod_val [of acc hh_gen] 2(2) hh_gen_order(2) by (simp add: mod_simps mult.commute)
  then show ?case using 2(1) [OF refl, of "n + 1"] 2(3) by (cases i) (simp_all add: Let_def)
qed simp

lemma gens_from_length [simp]: "length (gens_from acc g k) = k"
  by (induction acc g k rule: gens_from.induct) (simp_all add: Let_def)

lemma power_row_val:
  assumes "unat gi < M61" "unat p = unat gi ^ n mod M61" "e < m"
  shows "unat (power_row p gi m ! e) = unat gi ^ (n + e) mod M61"
  using assms
proof (induction p gi m arbitrary: n e rule: power_row.induct)
  case (2 p gi m)
  have "unat (mulmod p gi) = unat gi ^ (n + 1) mod M61"
    using mulmod_val [of p gi] 2(2,3) by (simp add: mod_simps mult.commute)
  then show ?case using 2(1) [of "n + 1"] 2(2-4) by (cases e) simp_all
qed simp

lemma power_row_length [simp]: "length (power_row p gi m) = m"
  by (induction p gi m rule: power_row.induct) simp_all

lemma concat_rows_nth:
  assumes "\<forall>r \<in> set rows. length r = q" "i < length rows" "e < q"
  shows "concat rows ! (i * q + e) = rows ! i ! e"
  using assms
proof (induction rows arbitrary: i)
  case (Cons r rows)
  then show ?case by (cases i) (simp_all add: nth_append)
qed simp

section \<open>The hash is a power of the generator\<close>

text \<open>The index of the power: position \<open>i\<close> counts \<open>i + 1\<close> times.\<close>

definition hash_weight :: "u32 list \<Rightarrow> nat" where
  "hash_weight c = (\<Sum>i < length c. (i + 1) * unat (c ! i))"

lemma hash_weight_snoc: "hash_weight (c @ [x]) = hash_weight c + (length c + 1) * unat x"
  by (simp add: hash_weight_def nth_append)

lemma homohash_new_val:
  assumes "homohash_new k = Some hh"
  shows "length (hh_gens hh) = k"
    and "\<And>i. i < k \<Longrightarrow> unat (hh_gens hh ! i) = unat hh_gen ^ (i + 1) mod M61"
    and "\<And>i e. i < k \<Longrightarrow> e < 1321 \<Longrightarrow> unat (hh_table hh ! (i * 1321 + e)) = unat hh_gen ^ ((i + 1) * e) mod M61"
    and "\<And>h i. hh_unit_index hh h = Some i \<Longrightarrow> i < k \<and> hh_gens hh ! i = h"
proof -
  define gens where "gens = gens_from 1 hh_gen k"
  have q: "unat hh_Q = 1321" by (simp add: hh_Q_def)
  have hh: "hh_gens hh = gens" "hh_table hh = concat (map (\<lambda>gi. power_row 1 gi 1321) gens)"
      "hh_unit_index hh = fold (\<lambda>(i, gi) m. m(gi \<mapsto> i)) (enumerate 0 gens) Map.empty"
    using assms by (auto simp: homohash_new_def subgroup_gen_val Let_def gens_def q)
  show "length (hh_gens hh) = k" by (simp add: hh gens_def)
  show g: "unat (hh_gens hh ! i) = unat hh_gen ^ (i + 1) mod M61" if "i < k" for i
    using gens_from_val [of 1 0 i k] that by (simp add: hh gens_def)
  show "unat (hh_table hh ! (i * 1321 + e)) = unat hh_gen ^ ((i + 1) * e) mod M61" if "i < k" "e < 1321" for i e
  proof -
    have "hh_table hh ! (i * 1321 + e) = power_row 1 (gens ! i) 1321 ! e"
      using concat_rows_nth [of "map (\<lambda>gi. power_row 1 gi 1321) gens" 1321 i e] that by (simp add: hh gens_def)
    moreover have gi: "unat (gens ! i) = unat hh_gen ^ (i + 1) mod M61" using g [OF that(1)] by (simp only: hh)
    moreover have "unat (power_row 1 (gens ! i) 1321 ! e) = unat (gens ! i) ^ e mod M61"
      using power_row_val [of "gens ! i" 1 0 e 1321] that(2) gi by simp
    ultimately show ?thesis by (simp only: power_mod power_mult)
  qed
  have "fold (\<lambda>(i, gi) m. m(gi \<mapsto> i)) (enumerate n gs) m h = Some i \<Longrightarrow>
      (n \<le> i \<and> i < n + length gs \<and> gs ! (i - n) = h) \<or> m h = Some i" for n gs m h i
  proof (induction gs arbitrary: n m)
    case (Cons g gs)
    have "(Suc n \<le> i \<and> i < Suc n + length gs \<and> gs ! (i - Suc n) = h) \<or> (m(g \<mapsto> n)) h = Some i"
      using Cons.prems by (intro Cons.IH) simp
    then show ?case by (auto simp: nth_Cons' split: if_splits)
  qed simp
  then show "i < k \<and> hh_gens hh ! i = h" if "hh_unit_index hh h = Some i" for h i
    using that by (fastforce simp: hh gens_def)
qed

lemma homohash_val:
  assumes new: "homohash_new k = Some hh" and c: "length c = k"
  obtains h where "homohash hh c = Ok h" "unat h = unat hh_gen ^ hash_weight c mod M61" "unat h < M61"
proof -
  note N = homohash_new_val [OF new]
  have q: "unat hh_Q = 1321" by (simp add: hh_Q_def)
  define step where "step = (\<lambda>(i, ci :: u32) acc. let e = unat ci mod 1321
      in if e \<noteq> 0 then mulmod acc (hh_table hh ! (i * 1321 + e)) else acc)"
  have "unat (fold step (enumerate 0 c) 1) = unat hh_gen ^ hash_weight c mod M61"
    using c[THEN eq_imp_le]
  proof (induction c rule: rev_induct)
    case (snoc x c)
    define acc where "acc = fold step (enumerate 0 c) 1"
    define e where "e = unat x mod 1321"
    have acc: "unat acc = unat hh_gen ^ hash_weight c mod M61" using snoc by (simp add: acc_def)
    have "unat (step (length c, x) acc) = unat hh_gen ^ (hash_weight c + (length c + 1) * e) mod M61"
    proof (cases "e = 0")
      case True
      then show ?thesis using acc by (simp add: step_def e_def)
    next
      case False
      have t: "unat (hh_table hh ! (length c * 1321 + e)) = unat hh_gen ^ ((length c + 1) * e) mod M61"
        using N(3) snoc.prems by (simp add: e_def)
      have "unat (step (length c, x) acc) = unat acc * unat (hh_table hh ! (length c * 1321 + e)) mod M61"
        using mulmod_val(1) [of acc "hh_table hh ! (length c * 1321 + e)"] acc t False by (simp add: step_def e_def)
      then show ?thesis unfolding acc t power_add mod_mult_eq .
    qed
    also have "\<dots> = unat hh_gen ^ hash_weight (c @ [x]) mod M61"
    proof (rule gen_pow_cong)
      show "(hash_weight c + (length c + 1) * e) mod 1321 = hash_weight (c @ [x]) mod 1321"
        unfolding hash_weight_snoc e_def by (metis mod_add_right_eq mod_mult_right_eq)
    qed
    finally show ?case by (simp add: enumerate_append_eq acc_def)
  qed (simp add: hash_weight_def)
  moreover have "homohash hh c = Ok (fold step (enumerate 0 c) 1)"
    using c N(1) by (simp add: homohash_def q step_def)
  ultimately show ?thesis using that by simp
qed

section \<open>Combining hashes\<close>

text \<open>\<open>combine_many\<close> computes the product of the powers, whether through the table or not.\<close>

definition combined :: "u32 list \<Rightarrow> u128 list \<Rightarrow> nat" where
  "combined cs hs = (\<Prod>(a, h) \<leftarrow> zip cs hs. unat h ^ (unat a mod 1321)) mod M61"

lemma combine_many_val:
  assumes new: "homohash_new k = Some hh"
  shows "unat (combine_many hh cs hs) = combined cs hs"
proof -
  note N = homohash_new_val [OF new]
  have q: "unat hh_Q = 1321" by (simp add: hh_Q_def)
  define step where "step = (\<lambda>(a :: u32, h) acc. let e = unat a mod 1321
      in if e \<noteq> 0 then (case hh_unit_index hh h of Some i \<Rightarrow> mulmod acc (hh_table hh ! (i * 1321 + e))
           | None \<Rightarrow> mulmod acc (powmod h (word_of_nat e) hh_P)) else acc)"
  have st: "unat (step (a, h) acc) = unat acc * unat h ^ (unat a mod 1321) mod M61" if acc: "unat acc < M61" for a h acc
  proof -
    define e where "e = unat a mod 1321"
    have e: "e < 1321" by (simp add: e_def)
    define pw where "pw = (case hh_unit_index hh h of Some i \<Rightarrow> hh_table hh ! (i * 1321 + e)
        | None \<Rightarrow> powmod h (word_of_nat e) hh_P)"
    have s: "step (a, h) acc = (if e \<noteq> 0 then mulmod acc pw else acc)"
      by (simp add: step_def e_def pw_def split: option.splits)
    have pw: "unat pw = unat h ^ e mod M61"
    proof (cases "hh_unit_index hh h")
      case None
      have "unat (word_of_nat e :: u128) = e" using e by (simp add: unat_of_nat)
      then show ?thesis by (simp add: pw_def None powmod_val)
    next
      case (Some i)
      then have "i < k" "hh_gens hh ! i = h" using N(4) by auto
      then have "unat h = unat hh_gen ^ (i + 1) mod M61" "unat pw = unat hh_gen ^ ((i + 1) * e) mod M61"
        using N(2,3) e Some by (auto simp: pw_def)
      then show ?thesis by (simp only: power_mod power_mult)
    qed
    show ?thesis
    proof (cases "e = 0")
      case True
      then show ?thesis using acc by (simp add: s flip: e_def)
    next
      case False
      then show ?thesis using mulmod_val(1) [of acc pw] acc pw by (simp add: s mod_simps flip: e_def)
    qed
  qed
  have "unat (fold step ps acc) = unat acc * (\<Prod>(a, h) \<leftarrow> ps. unat h ^ (unat a mod 1321)) mod M61" if "unat acc < M61" for ps acc
    using that
  proof (induction ps arbitrary: acc)
    case (Cons p ps)
    obtain a h where p: "p = (a, h)" by fastforce
    have "unat (fold step (p # ps) acc) =
        (unat acc * unat h ^ (unat a mod 1321) mod M61) * (\<Prod>(a, h) \<leftarrow> ps. unat h ^ (unat a mod 1321)) mod M61"
      using Cons.IH [of "step (a, h) acc"] st [OF Cons.prems, of a h] by (simp add: p)
    then show ?case by (simp add: p mod_simps mult.assoc)
  qed simp
  then have "unat (fold step (zip cs hs) 1) = combined cs hs" by (simp add: combined_def)
  then show ?thesis by (simp add: combine_many_def q step_def)
qed

lemma combined_hashes:
  assumes "length cs = length hs" "length hs = length ws"
    and "\<forall>j < length hs. unat (hs ! j) = unat hh_gen ^ (ws ! j) mod M61"
  shows "combined cs hs = unat hh_gen ^ (\<Sum>(a, w) \<leftarrow> zip cs ws. unat a * w) mod M61"
  using assms unfolding combined_def
proof (induction cs hs ws rule: list_induct3)
  case (Cons a cs h hs w ws)
  define r where "r = (\<Prod>(a, h) \<leftarrow> zip cs hs. unat h ^ (unat a mod 1321))"
  define t where "t = (\<Sum>(a, w) \<leftarrow> zip cs ws. unat a * w)"
  have IH: "r mod M61 = unat hh_gen ^ t mod M61" using Cons by (force simp: r_def t_def)
  have "unat h = unat hh_gen ^ w mod M61" using Cons.prems by auto
  then have "unat h ^ (unat a mod 1321) mod M61 = unat hh_gen ^ (w * (unat a mod 1321)) mod M61"
    by (simp only: power_mod power_mult)
  also have "\<dots> = unat hh_gen ^ (unat a * w) mod M61"
    by (rule gen_pow_cong) (metis mod_mult_right_eq mult.commute)
  finally have "unat h ^ (unat a mod 1321) * r mod M61 = unat hh_gen ^ (unat a * w) * unat hh_gen ^ t mod M61"
    by (rule mod_mult_cong [OF _ IH])
  then show ?case by (simp add: r_def t_def power_add)
qed simp

lemma hash_combine_val: "unat (hash_combine a h1 b h2) = combined [a, b] [h1, h2]"
proof -
  have e: "unat (ucast x mod ucast hh_Q :: u128) = unat x mod 1321" for x :: u32
  proof -
    have "take_bit 128 (unat x) = unat x"
      by (rule take_bit_nat_eq_self) (use unsigned_less [of x, where ?'a = nat] in simp)
    then show ?thesis by (simp add: hh_Q_def unat_mod unsigned_ucast_eq)
  qed
  show ?thesis
    using mulmod_val(1) [OF powmod_less powmod_less, of h1 "ucast a mod ucast hh_Q" h2 "ucast b mod ucast hh_Q"]
    by (simp add: hash_combine_def powmod_val e combined_def mod_simps)
qed

text \<open>The weight of a linear combination modulo the order.\<close>

lemma weight_linear:
  assumes "\<forall>c \<in> set cs. length c = k" "length as = length cs" "length comb = k"
    and "\<forall>i < k. unat (comb ! i) mod 1321 = (\<Sum>(a, c) \<leftarrow> zip as cs. unat a * unat (c ! i)) mod 1321"
  shows "hash_weight comb mod 1321 = (\<Sum>(a, w) \<leftarrow> zip as (map hash_weight cs). unat a * w) mod 1321"
proof -
  have "hash_weight comb mod 1321 = (\<Sum>i < k. (i + 1) * unat (comb ! i)) mod 1321" by (simp add: hash_weight_def assms(3))
  also have "\<dots> = (\<Sum>i < k. (i + 1) * unat (comb ! i) mod 1321) mod 1321" by (simp only: mod_sum_eq)
  also have "\<dots> = (\<Sum>i < k. (i + 1) * (\<Sum>(a, c) \<leftarrow> zip as cs. unat a * unat (c ! i)) mod 1321) mod 1321"
  proof (rule arg_cong [where f = "\<lambda>x. x mod 1321"], rule sum.cong [OF refl])
    fix i assume "i \<in> {..<k}"
    then show "(i + 1) * unat (comb ! i) mod 1321 = (i + 1) * (\<Sum>(a, c) \<leftarrow> zip as cs. unat a * unat (c ! i)) mod 1321"
      using assms(4) by (intro mod_mult_cong) auto
  qed
  also have "\<dots> = (\<Sum>i < k. (i + 1) * (\<Sum>(a, c) \<leftarrow> zip as cs. unat a * unat (c ! i))) mod 1321" by (simp only: mod_sum_eq)
  also have "(\<Sum>i < k. (i + 1) * (\<Sum>(a, c) \<leftarrow> zip as cs. unat a * unat (c ! i))) =
      (\<Sum>(a, w) \<leftarrow> zip as (map hash_weight cs). unat a * w)"
    using assms(2,1)
  proof (induction as cs rule: list_induct2)
    case (Cons a as c cs)
    then show ?case
      by (simp add: hash_weight_def sum.distrib distrib_left sum_distrib_left mult.left_commute)
  qed simp
  finally show ?thesis .
qed

section \<open>Properties\<close>

text \<open>The hash is linear over the field with 1321 elements.  For any number of vectors and scalars, the hash of
  their linear combination modulo 1321 is what \<open>combine_many\<close> computes from the scalars and the hashes
  of the vectors alone, for every size the hash was built for; building it always succeeds.\<close>

theorem homohash_linear:
  assumes "\<forall>c \<in> set cs. length c = k" "length as = length cs" "length comb = k"
    and "\<forall>i < k. unat (comb ! i) mod 1321 = (\<Sum>(a, c) \<leftarrow> zip as cs. unat a * unat (c ! i)) mod 1321"
  shows "\<exists>hh hs. homohash_new k = Some hh \<and> map Ok hs = map (homohash hh) cs \<and>
    homohash hh comb = Ok (combine_many hh as hs)"
proof -
  obtain hh where new: "homohash_new k = Some hh" by (simp add: homohash_new_def subgroup_gen_val Let_def)
  define val where "val c = (case homohash hh c of Ok h \<Rightarrow> h)" for c
  have v: "homohash hh c = Ok (val c)" "unat (val c) = unat hh_gen ^ hash_weight c mod M61" if "length c = k" for c
  proof -
    obtain h where "homohash hh c = Ok h" "unat h = unat hh_gen ^ hash_weight c mod M61"
      using homohash_val [OF new \<open>length c = k\<close>] by blast
    then show "homohash hh c = Ok (val c)" "unat (val c) = unat hh_gen ^ hash_weight c mod M61"
      by (simp_all only: val_def outcome.case)
  qed
  have "combined as (map val cs) = unat hh_gen ^ (\<Sum>(a, w) \<leftarrow> zip as (map hash_weight cs). unat a * w) mod M61"
    using assms(1,2) v(2) by (intro combined_hashes) auto
  also have "\<dots> = unat hh_gen ^ hash_weight comb mod M61"
    by (rule gen_pow_cong) (rule weight_linear [OF assms, symmetric])
  also have "\<dots> = unat (val comb)" using v(2) [OF assms(3)] by simp
  finally have "unat (combine_many hh as (map val cs)) = unat (val comb)" by (simp only: combine_many_val [OF new])
  then have "homohash hh comb = Ok (combine_many hh as (map val cs))"
    using v(1) [OF assms(3)] by (simp add: word_unat_eq_iff)
  moreover have "map Ok (map val cs) = map (homohash hh) cs" using assms(1) v(1) by simp
  ultimately show ?thesis using new by blast
qed

theorem homohash_linear_witness:
  "\<exists>hh h1 h2. homohash_new 2 = Some hh \<and> homohash hh [1, 2] = Ok h1 \<and> homohash hh [1320, 4] = Ok h2 \<and>
     homohash hh [1319, 26] = Ok (combine_many hh [3, 5] [h1, h2])"
proof -
  have "\<forall>i < 2. unat ([1319, 26 :: u32] ! i) mod 1321 =
      (\<Sum>(a, c) \<leftarrow> zip [3, 5 :: u32] [[1, 2], [1320, 4 :: u32]]. unat a * unat (c ! i)) mod 1321"
    by (simp add: less_2_cases_iff)
  then obtain hh hs where h: "homohash_new 2 = Some hh" "map Ok hs = map (homohash hh) [[1, 2], [1320, 4]]"
    "homohash hh [1319, 26] = Ok (combine_many hh [3, 5] hs)"
    using homohash_linear [of "[[1, 2], [1320, 4]]" 2 "[3, 5]" "[1319, 26]"] by force
  then obtain h1 h2 where "hs = [h1, h2]" "Ok h1 = homohash hh [1, 2]" "Ok h2 = homohash hh [1320, 4]"
    by (auto simp: map_eq_Cons_conv)
  then show ?thesis using h by metis
qed

text \<open>C35: Exactly what the hash identifies, and what verification therefore accepts.  Two vectors of the right size
  have the same hash if and only if their sums weighted by position agree modulo 1321; checking a
  packet's coefficients against the unit hashes accepts exactly the vectors of that class.\<close>

theorem homohash_identifies:
  assumes "homohash_new k = Some hh" "length c = k" "length c' = k" "homohash hh c' = Ok h"
    and "\<forall>i < k. homohash hh ((replicate k 0)[i := 1]) = Ok (us ! i)" "length us = k"
  shows "(homohash hh c = homohash hh c' \<longleftrightarrow> hash_weight c mod 1321 = hash_weight c' mod 1321) \<and>
    verify_coded hh us c h = Ok (hash_weight c mod 1321 = hash_weight c' mod 1321)"
proof -
  obtain h1 where h1: "homohash hh c = Ok h1" "unat h1 = unat hh_gen ^ hash_weight c mod M61"
    using homohash_val [OF assms(1,2)] by metis
  obtain h2 where h2: "homohash hh c' = Ok h2" "unat h2 = unat hh_gen ^ hash_weight c' mod M61"
    using homohash_val [OF assms(1,3)] by metis
  have eq: "h1 = h2 \<longleftrightarrow> hash_weight c mod 1321 = hash_weight c' mod 1321"
    by (simp only: word_unat_eq_iff h1(2) h2(2) gen_pow_eq_iff)
  define ws where "ws = map (\<lambda>i. i + 1) [0..<k]"
  have "unat (us ! i) = unat hh_gen ^ (ws ! i) mod M61" if "i < k" for i
  proof -
    have "hash_weight ((replicate k 0)[i := 1]) = (\<Sum>j < k. if j = i then j + 1 else 0)"
      unfolding hash_weight_def by (rule sum.cong) (auto simp: nth_list_update)
    then have w: "hash_weight ((replicate k 0)[i := 1]) = i + 1" using that by simp
    have "length ((replicate k (0 :: u32))[i := 1]) = k" by simp
    then obtain u where "homohash hh ((replicate k 0)[i := 1]) = Ok u"
        "unat u = unat hh_gen ^ hash_weight ((replicate k 0)[i := 1]) mod M61"
      using homohash_val [OF assms(1)] by blast
    moreover have "homohash hh ((replicate k 0)[i := 1]) = Ok (us ! i)" using assms(5) that by blast
    moreover have "ws ! i = i + 1" using that by (simp add: ws_def)
    ultimately show ?thesis by (simp only: w outcome.inject)
  qed
  then have "combined c us = unat hh_gen ^ (\<Sum>(a, w) \<leftarrow> zip c ws. unat a * w) mod M61"
    using assms(2,6) by (intro combined_hashes) (auto simp: ws_def)
  also have "(\<Sum>(a, w) \<leftarrow> zip c ws. unat a * w) = hash_weight c"
    using assms(2) by (simp add: hash_weight_def ws_def sum_list_sum_nth atLeast0LessThan mult.commute)
  also have "unat hh_gen ^ hash_weight c mod M61 = unat h1" by (simp only: h1(2))
  finally have "combine_many hh c us = h1" using combine_many_val [OF assms(1), of c us] by (simp only: word_unat_eq_iff)
  then have "verify_coded hh us c h = Ok (h1 = h2)" using assms(2,4,6) h2(1) by (simp add: verify_coded_def)
  then show ?thesis using eq h1(1) h2(1) by simp
qed

text \<open>The vectors \<open>[2, 0]\<close> and \<open>[0, 1]\<close> pass for each other.\<close>

theorem homohash_identifies_witness:
  "\<exists>hh h u1 u2. homohash_new 2 = Some hh \<and> homohash hh [0, 1] = Ok h \<and> verify_coded hh [u1, u2] [2, 0] h = Ok True"
proof -
  obtain hh where new: "homohash_new 2 = Some hh" by (simp add: homohash_new_def subgroup_gen_val Let_def)
  obtain h u1 where h: "homohash hh [0, 1] = Ok h" "homohash hh [1, 0] = Ok u1"
    using homohash_val [OF new, of "[0, 1]"] homohash_val [OF new, of "[1, 0]"] by (metis length_Cons list.size(3) numeral_2_eq_2)
  have "\<forall>i < 2. homohash hh ((replicate 2 0)[i := 1]) = Ok ([u1, h] ! i)"
  proof (intro allI impI)
    fix i :: nat assume "i < 2"
    then consider "i = 0" | "i = 1" by linarith
    then show "homohash hh ((replicate 2 0)[i := 1]) = Ok ([u1, h] ! i)"
      using h by cases (simp_all add: numeral_2_eq_2)
  qed
  moreover have "hash_weight [2, 0] = 2" "hash_weight [0, 1] = 2"
    by (simp_all add: hash_weight_def lessThan_Suc)
  ultimately have "verify_coded hh [u1, h] [2, 0] h = Ok True"
    using homohash_identifies [OF new _ _ h(1), of "[2, 0]" "[u1, h]"] by simp
  then show ?thesis using new h by blast
qed

end
