(* ===== verification/Zeckendorf.thy ===== *)
theory Zeckendorf
  imports Prelude
begin

text \<open>
  Fibonacci-coded integers (\<open>crates/coding/src/zeckendorf.rs\<close>): the encoder writing into packed bytes,
  the scan for the terminating pair of ones, and the bit-continuous stream.  64-bit values are
  naturals with the wrap-around written out.
\<close>

section \<open>Operations\<close>

text \<open>\<open>while *f.last().unwrap() <= u64::MAX / 2\<close>; the guard ends the loop after 90 rounds.\<close>

fun fib_grow :: "nat \<Rightarrow> nat list \<Rightarrow> nat list" where
  "fib_grow 0 f = f"
| "fib_grow (Suc fuel) f =
     (if last f \<le> (2 ^ 64 - 1) div 2
      then fib_grow fuel (f @ [(f ! (length f - 1) + f ! (length f - 2)) mod 2 ^ 64])
      else f)"

definition fib_table :: "nat list" where
  "fib_table = fib_grow 128 [1, 2]"

definition bit_at :: "bytes \<Rightarrow> nat \<Rightarrow> bool" where
  "bit_at buf i \<longleftrightarrow> (if length buf \<le> i div 8 then False else bit (buf ! (i div 8)) (i mod 8))"

text \<open>\<open>buf[i >> 3] |= 1 << (i & 7)\<close>\<close>

definition or_bit :: "nat \<Rightarrow> bytes \<Rightarrow> bytes" where
  "or_bit i buf = buf[i div 8 := buf ! (i div 8) OR push_bit (i mod 8) 1]"

fun count_le :: "nat list \<Rightarrow> nat \<Rightarrow> nat \<Rightarrow> nat" where
  "count_le [] n hi = hi"
| "count_le (f # fs) n hi = (if f \<le> n then count_le fs n (hi + 1) else hi)"

fun greedy_loop :: "nat list \<Rightarrow> nat \<Rightarrow> nat \<Rightarrow> bytes \<Rightarrow> bytes" where
  "greedy_loop fibs 0 rem out = out"
| "greedy_loop fibs (Suc idx) rem out =
     (if fibs ! idx \<le> rem then greedy_loop fibs idx (rem - fibs ! idx) (or_bit idx out)
      else greedy_loop fibs idx rem out)"

definition zeck_encode :: "nat \<Rightarrow> (bytes, string) outcome" where
  "zeck_encode n =
     (if \<not> n > 0 then Panic
      else
        let hi = count_le fib_table n 0;
            nbits = hi + 1;
            out = replicate ((nbits + 7) div 8) 0
        in Ok (or_bit hi (greedy_loop fib_table hi n out)))"

definition fib_sum :: "bytes \<Rightarrow> nat \<Rightarrow> nat \<Rightarrow> nat" where
  "fib_sum buf start term =
     fold (\<lambda>j val. if bit_at buf j \<and> j - start < length fib_table then (val + fib_table ! (j - start)) mod 2 ^ 64 else val)
       [start..<term] 0"

function decode_scan :: "bytes \<Rightarrow> nat \<Rightarrow> nat \<Rightarrow> (nat \<times> nat) option" where
  "decode_scan buf start i =
     (if length buf \<le> i div 8 then None
      else if bit_at buf i \<and> bit_at buf (i + 1) then
        let term = i + 1; n_data = term - start
        in if n_data = 0 then Some (0, term + 1 - start)
           else Some (fib_sum buf start term, term + 1 - start)
      else decode_scan buf start (i + 1))"
  by pat_completeness auto
termination
proof (relation "measure (\<lambda>(buf, start, i). 8 * length buf - i)")
  fix buf :: bytes and start i :: nat
  assume "\<not> length buf \<le> i div 8"
  then have "i < 8 * length buf" by (simp add: not_le div_less_iff_less_mult mult.commute)
  then show "((buf, start, i + 1), buf, start, i) \<in> measure (\<lambda>(buf, start, i). 8 * length buf - i)" by simp
qed simp

declare decode_scan.simps [simp del]

definition decode_at :: "bytes \<Rightarrow> nat \<Rightarrow> (nat \<times> nat) option" where
  "decode_at buf start = decode_scan buf start start"

definition zeck_decode :: "bytes \<Rightarrow> (nat \<times> nat) option" where
  "zeck_decode buf = decode_at buf 0"

record zeck_stream =
  zs_buf :: bytes
  zs_bits :: nat

definition stream_new :: zeck_stream where
  "stream_new = \<lparr>zs_buf = [], zs_bits = 0\<rparr>"

definition leading_zeros :: "8 word \<Rightarrow> nat" where
  "leading_zeros b = length (takeWhile (\<lambda>i. \<not> bit b i) (rev [0..<8]))"

text \<open>\<open>cw.iter().enumerate().rev()\<close>, up to the first byte that is not zero\<close>

definition codeword_nbits :: "bytes \<Rightarrow> nat" where
  "codeword_nbits cw =
     (case find (\<lambda>(bi, b). b \<noteq> 0) (rev (enumerate 0 cw)) of
        None \<Rightarrow> 0
      | Some (bi, b) \<Rightarrow> bi * 8 + 8 - leading_zeros b)"

text \<open>\<open>n + 1\<close> overflows for the largest value, and encoding the wrapped 0 is refused by the assertion.\<close>

definition stream_push :: "nat \<Rightarrow> zeck_stream \<Rightarrow> (zeck_stream, string) outcome" where
  "stream_push n s =
     obind (zeck_encode ((n + 1) mod 2 ^ 64)) (\<lambda>cw.
       let nbits = codeword_nbits cw;
           need = (zs_bits s + nbits + 7) div 8;
           buf = (if length (zs_buf s) < need then zs_buf s @ replicate (need - length (zs_buf s)) 0 else zs_buf s);
           buf' = fold (\<lambda>j b. if bit_at cw j then or_bit (zs_bits s + j) b else b) [0..<nbits] buf
       in Ok \<lparr>zs_buf = buf', zs_bits = zs_bits s + nbits\<rparr>)"

lemma decode_scan_used: "decode_scan buf start i = Some (v, used) \<Longrightarrow> start \<le> i \<Longrightarrow> 0 < used \<and> start < 8 * length buf"
proof (induction buf start i rule: decode_scan.induct)
  case (1 buf start i)
  have lt: "i < 8 * length buf" if "\<not> length buf \<le> i div 8"
    using that by (simp add: not_le div_less_iff_less_mult mult.commute)
  show ?case
  proof (cases "length buf \<le> i div 8 \<or> bit_at buf i \<and> bit_at buf (i + 1)")
    case True
    then show ?thesis using 1(2,3) lt unfolding decode_scan.simps [of buf start i]
      by (auto simp: Let_def split: if_splits)
  next
    case False
    then show ?thesis using 1 unfolding decode_scan.simps [of buf start i] by auto
  qed
qed

text \<open>A value of 0 makes the decrement underflow.\<close>

function decode_all_from :: "bytes \<Rightarrow> nat \<Rightarrow> (nat list, string) outcome" where
  "decode_all_from buf i =
     (case decode_at buf i of
        None \<Rightarrow> Ok []
      | Some (v, used) \<Rightarrow>
          if v = 0 then Panic else obind (decode_all_from buf (i + used)) (\<lambda>out. Ok ((v - 1) # out)))"
  by pat_completeness auto
termination
proof (relation "measure (\<lambda>(buf, i). 8 * length buf - i)")
  fix buf :: bytes and i :: nat and p :: "nat \<times> nat" and v used
  assume "decode_at buf i = Some p" "(v, used) = p"
  then have "0 < used \<and> i < 8 * length buf"
    using decode_scan_used [of buf i i v used] by (simp add: decode_at_def)
  then show "((buf, i + used), buf, i) \<in> measure (\<lambda>(buf, i). 8 * length buf - i)" by auto
qed simp

declare decode_all_from.simps [simp del]

definition decode_all :: "bytes \<Rightarrow> (nat list, string) outcome" where
  "decode_all buf = decode_all_from buf 0"

section \<open>The table\<close>

fun fibn :: "nat \<Rightarrow> nat" where
  "fibn 0 = 1"
| "fibn (Suc 0) = 2"
| "fibn (Suc (Suc n)) = fibn (Suc n) + fibn n"

fun fib_iter :: "nat \<Rightarrow> nat \<Rightarrow> nat \<Rightarrow> nat" where
  "fib_iter 0 a b = a"
| "fib_iter (Suc n) a b = fib_iter n b (a + b)"

lemma fib_iter: "fib_iter n (fibn m) (fibn (Suc m)) = fibn (m + n)"
proof (induction n arbitrary: m)
  case (Suc n)
  have "fibn m + fibn (Suc m) = fibn (Suc (Suc m))" by simp
  then show ?case using Suc [of "Suc m"] by (simp del: fibn.simps)
qed simp

lemma fib_iter_numeral: "fib_iter (numeral k) a b = fib_iter (pred_numeral k) b (a + b)"
  by (simp add: numeral_eq_Suc)

lemma fib_numbers: "fibn 90 \<le> (2 ^ 64 - 1) div 2" "(2 ^ 64 - 1) div 2 < fibn 91" "2 ^ 64 \<le> fibn 92"
proof -
  have "fibn n = fib_iter n 1 2" for n using fib_iter [of n 0] by simp
  then show "fibn 90 \<le> (2 ^ 64 - 1) div 2" "(2 ^ 64 - 1) div 2 < fibn 91" "2 ^ 64 \<le> fibn 92"
    by (simp_all add: fib_iter_numeral)
qed

lemma fibn_mono: "i \<le> j \<Longrightarrow> fibn i \<le> fibn j"
proof -
  have "fibn n \<le> fibn (Suc n)" for n by (cases n rule: fibn.cases) simp_all
  then show "i \<le> j \<Longrightarrow> fibn i \<le> fibn j" by (rule lift_Suc_mono_le)
qed

lemma fibn_pos: "0 < fibn n"
  by (induction n rule: fibn.induct) simp_all

lemma fib_grow_full: "0 < m \<Longrightarrow> (2 ^ 64 - 1) div 2 < fibn (m - 1) \<Longrightarrow> fib_grow fuel (map fibn [0..<m]) = map fibn [0..<m]"
  by (cases fuel; cases m) (simp_all add: last_map)

lemma fib_grow_table:
  "2 \<le> m \<Longrightarrow> m \<le> 92 \<Longrightarrow> 92 \<le> m + fuel \<Longrightarrow> fib_grow (Suc fuel) (map fibn [0..<m]) = map fibn [0..<92]"
proof (induction fuel arbitrary: m)
  case 0
  then have m: "m = 92" by simp
  show ?case unfolding m by (rule fib_grow_full) (use fib_numbers(2) in simp_all)
next
  case (Suc fuel)
  show ?case
  proof (cases "m = 92")
    case True
    show ?thesis unfolding True by (rule fib_grow_full) (use fib_numbers(2) in simp_all)
  next
    case False
    then have m: "m \<le> 91" using Suc.prems by simp
    then have "fibn (m - 1) \<le> fibn 90" "fibn (m - 2) \<le> fibn 90" using fibn_mono by simp_all
    then have le: "fibn (m - 1) \<le> (2 ^ 64 - 1) div 2" "fibn (m - 1) + fibn (m - 2) < 2 ^ 64"
      using fib_numbers(1) by simp_all
    obtain q where q: "m = Suc (Suc q)" using Suc.prems(1) by (metis add_2_eq_Suc le_Suc_ex)
    have l: "last (map fibn [0..<m]) = fibn (m - 1)" using q by (simp add: last_map)
    have "(map fibn [0..<m] ! (m - 1) + map fibn [0..<m] ! (m - 2)) mod 2 ^ 64 = fibn m"
      using le(2) q by (simp del: upt_Suc)
    then have "fib_grow (Suc (Suc fuel)) (map fibn [0..<m]) = fib_grow (Suc fuel) (map fibn [0..<Suc m])"
      using le(1) l by (subst fib_grow.simps(2)) simp
    then show ?thesis using Suc.IH [of "Suc m"] Suc.prems m by simp
  qed
qed

lemma fib_table_eq: "fib_table = map fibn [0..<92]"
proof -
  have "map fibn [0..<2] = [1, 2]" "(128 :: nat) = Suc 127" by (simp_all add: upt_rec numeral_2_eq_2)
  then have "fib_table = fib_grow (Suc 127) (map fibn [0..<2])" by (simp only: fib_table_def)
  then show ?thesis using fib_grow_table [of 2 127] by simp
qed

text \<open>The loop that builds the table of Fibonacci numbers ends: its own guard stops it after at most 91
  rounds, with 92 entries that no wrap-around has touched, the last one above half the range.\<close>

theorem fib_table_loop_ends:
  assumes "91 \<le> fuel"
  shows "fib_grow fuel [1, 2] = fib_table \<and> fib_table = map fibn [0..<92] \<and> (2 ^ 64 - 1) div 2 < last fib_table"
proof -
  obtain q where q: "fuel = Suc q" "90 \<le> q" using assms by (cases fuel) auto
  have "map fibn [0..<2] = [1, 2]" by (simp add: upt_rec numeral_2_eq_2)
  then have "fib_grow fuel [1, 2] = map fibn [0..<92]" using fib_grow_table [of 2 q] q by (simp only:)
  moreover have "last (map fibn [0..<Suc n]) = fibn n" for n by simp
  from this [of 91] have "last (map fibn [0..<92]) = fibn 91" by (simp only: eval_nat_numeral BitM.simps)
  ultimately show ?thesis using fib_numbers(2) unfolding fib_table_eq by (simp only: simp_thms)
qed

theorem fib_table_loop_ends_witness: "fib_grow 91 [1, 2] = fib_grow 1000 [1, 2]"
  using fib_table_loop_ends [of 91] fib_table_loop_ends [of 1000] by simp

section \<open>Greedy digits\<close>

text \<open>The digits the encoder chooses, lowest first.\<close>

fun digits :: "nat \<Rightarrow> nat \<Rightarrow> bool list" where
  "digits 0 r = []"
| "digits (Suc m) r = (if fibn m \<le> r then digits m (r - fibn m) @ [True] else digits m r @ [False])"

definition value_of :: "bool list \<Rightarrow> nat" where
  "value_of ds = (\<Sum>j < length ds. if ds ! j then fibn j else 0)"

definition no_pair :: "bool list \<Rightarrow> bool" where
  "no_pair ds \<longleftrightarrow> (\<forall>j. Suc j < length ds \<longrightarrow> \<not> (ds ! j \<and> ds ! Suc j))"

lemma digits_length [simp]: "length (digits m r) = m"
  by (induction m arbitrary: r) simp_all

lemma value_of_snoc: "value_of (ds @ [b]) = value_of ds + (if b then fibn (length ds) else 0)"
  by (simp add: value_of_def nth_append)

lemma digits_value: "r < fibn m \<Longrightarrow> value_of (digits m r) = r"
proof (induction m arbitrary: r)
  case (Suc m)
  show ?case
  proof (cases "fibn m \<le> r")
    case True
    have "r - fibn m < fibn m"
    proof (cases m)
      case (Suc q)
      then have "fibn (Suc m) = fibn m + fibn q" by simp
      then show ?thesis using Suc.prems True fibn_mono [of q m] \<open>m = Suc q\<close> by simp
    qed (use Suc.prems True in simp)
    then show ?thesis using True Suc.IH by (simp add: value_of_snoc)
  next
    case False
    then show ?thesis using Suc.IH by (simp add: value_of_snoc)
  qed
qed (simp add: value_of_def)

lemma digits_top: "r < fibn m \<Longrightarrow> digits (Suc m) r = digits m r @ [False]"
  by simp

lemma no_pair_snoc: "no_pair ds \<Longrightarrow> (ds = [] \<or> \<not> last ds \<or> \<not> b) \<Longrightarrow> no_pair (ds @ [b])"
  unfolding no_pair_def
proof (intro allI impI)
  fix j
  assume np: "\<forall>j. Suc j < length ds \<longrightarrow> \<not> (ds ! j \<and> ds ! Suc j)" and e: "ds = [] \<or> \<not> last ds \<or> \<not> b"
    and j: "Suc j < length (ds @ [b])"
  show "\<not> ((ds @ [b]) ! j \<and> (ds @ [b]) ! Suc j)"
  proof (cases "Suc j < length ds")
    case True
    then show ?thesis using np by (simp add: nth_append)
  next
    case False
    then have "length ds = Suc j" using j by simp
    then show ?thesis using e by (cases ds rule: rev_cases) (auto simp: nth_append)
  qed
qed

lemma digits_no_pair: "r < fibn m \<Longrightarrow> no_pair (digits m r)"
proof (induction m arbitrary: r)
  case (Suc m)
  show ?case
  proof (cases "fibn m \<le> r")
    case True
    show ?thesis
    proof (cases m)
      case 0
      then show ?thesis using True by (simp add: no_pair_def)
    next
      case q: (Suc q)
      then have "r - fibn m < fibn q" using Suc.prems True by simp
      moreover from this have "r - fibn m < fibn m" using fibn_mono [of q m] q by simp
      ultimately have "no_pair (digits m (r - fibn m))" "last (digits m (r - fibn m)) = False"
        using Suc.IH digits_top [of "r - fibn m" q] unfolding q by (blast, metis last_snoc)
      then have "no_pair (digits m (r - fibn m) @ [True])" by (auto intro: no_pair_snoc)
      then show ?thesis using True by simp
    qed
  next
    case False
    then show ?thesis using Suc.IH by (auto intro: no_pair_snoc)
  qed
qed (simp add: no_pair_def)

section \<open>Packed bits\<close>

lemma or_bit_length [simp]: "length (or_bit i buf) = length buf"
  by (simp add: or_bit_def)

lemma bit_at_or_bit: "i < 8 * length buf \<Longrightarrow> bit_at (or_bit i buf) j \<longleftrightarrow> j = i \<or> bit_at buf j"
proof -
  assume i: "i < 8 * length buf"
  then have d: "i div 8 < length buf" by (simp add: div_less_iff_less_mult mult.commute)
  have "i mod 8 < 8" by simp
  then have w: "bit (w OR push_bit (i mod 8) 1) n \<longleftrightarrow> bit w n \<or> n = i mod 8" for w :: "8 word" and n
    by (auto simp: bit_or_iff bit_exp_iff)
  show ?thesis
  proof (cases "j div 8 = i div 8")
    case True
    then have "j mod 8 = i mod 8 \<longleftrightarrow> j = i" by (metis div_mult_mod_eq)
    then show ?thesis using d True w by (auto simp: bit_at_def or_bit_def)
  next
    case False
    then have "j \<noteq> i" by auto
    then show ?thesis using d False by (auto simp: bit_at_def or_bit_def)
  qed
qed

lemma bit_at_zeros [simp]: "\<not> bit_at (replicate k 0) j"
  by (auto simp: bit_at_def)

lemma bit_at_append_zeros: "bit_at (buf @ replicate k 0) j \<longleftrightarrow> bit_at buf j"
  by (auto simp: bit_at_def nth_append)

lemma bit_at_bound: "bit_at buf j \<Longrightarrow> j < 8 * length buf"
  by (auto simp: bit_at_def div_less_iff_less_mult mult.commute split: if_splits)

lemma fold_or_bits:
  "length ds = k \<Longrightarrow> off + k \<le> 8 * length buf \<Longrightarrow>
   length (fold (\<lambda>j b. if ds ! j then or_bit (off + j) b else b) [0..<k] buf) = length buf \<and>
   (\<forall>i. bit_at (fold (\<lambda>j b. if ds ! j then or_bit (off + j) b else b) [0..<k] buf) i
        \<longleftrightarrow> bit_at buf i \<or> (off \<le> i \<and> i < off + k \<and> ds ! (i - off)))"
proof (induction k arbitrary: ds)
  case (Suc k)
  have c: "fold (\<lambda>j b. if ds ! j then or_bit (off + j) b else b) [0..<k] buf
         = fold (\<lambda>j b. if take k ds ! j then or_bit (off + j) b else b) [0..<k] buf"
    by (rule fold_cong) auto
  have I: "length (fold (\<lambda>j b. if ds ! j then or_bit (off + j) b else b) [0..<k] buf) = length buf"
    "bit_at (fold (\<lambda>j b. if ds ! j then or_bit (off + j) b else b) [0..<k] buf) i
        \<longleftrightarrow> bit_at buf i \<or> (off \<le> i \<and> i < off + k \<and> take k ds ! (i - off))" for i
    using Suc.IH [of "take k ds"] Suc.prems unfolding c by simp_all
  have I2: "bit_at (fold (\<lambda>j b. if ds ! j then or_bit (off + j) b else b) [0..<k] buf) i
        \<longleftrightarrow> bit_at buf i \<or> (off \<le> i \<and> i < off + k \<and> ds ! (i - off))" for i
    using I(2) [of i] by (auto simp: less_diff_conv2)
  have "(off \<le> i \<and> i < off + Suc k \<and> ds ! (i - off)) \<longleftrightarrow>
        (off \<le> i \<and> i < off + k \<and> ds ! (i - off)) \<or> (i = off + k \<and> ds ! k)" for i
    by (cases "i = off + k") auto
  then show ?case using Suc.prems I(1) I2 by (auto simp: bit_at_or_bit)
qed auto

section \<open>The encoder writes the greedy digits and a terminating one\<close>

lemma count_le_fibs:
  "n < fibn (i + k) \<Longrightarrow> (0 < i \<longrightarrow> fibn (i - 1) \<le> n) \<Longrightarrow>
   count_le (map fibn [i..<i + k]) n i \<le> i + k \<and> n < fibn (count_le (map fibn [i..<i + k]) n i) \<and>
   (0 < count_le (map fibn [i..<i + k]) n i \<longrightarrow> fibn (count_le (map fibn [i..<i + k]) n i - 1) \<le> n)"
proof (induction k arbitrary: i)
  case (Suc k)
  have u: "[i..<i + Suc k] = i # [Suc i..<Suc i + k]" by (simp add: upt_conv_Cons del: upt_Suc)
  show ?case using Suc.IH [of "Suc i"] Suc.prems unfolding u by (auto simp del: upt_Suc)
qed simp

definition zlen :: "nat \<Rightarrow> nat" where
  "zlen n = count_le fib_table n 0"

definition codeword :: "nat \<Rightarrow> bool list" where
  "codeword n = digits (zlen n) n @ [True]"

lemma zlen: "n < 2 ^ 64 \<Longrightarrow> 0 < n \<Longrightarrow> 0 < zlen n \<and> zlen n \<le> 92 \<and> n < fibn (zlen n) \<and> fibn (zlen n - 1) \<le> n"
proof -
  assume n: "n < 2 ^ 64" "0 < n"
  then have "n < fibn (0 + 92)" using fib_numbers(3) by simp
  moreover have "0 < (0 :: nat) \<longrightarrow> fibn (0 - 1) \<le> n" by simp
  ultimately have z: "zlen n \<le> 92" "n < fibn (zlen n)" "0 < zlen n \<longrightarrow> fibn (zlen n - 1) \<le> n"
    using count_le_fibs [of n 0 92] unfolding zlen_def fib_table_eq add_0 by blast+
  moreover have "zlen n \<noteq> 0" using z(2) n(2) by (metis fibn.simps(1) less_one not_less0 neq0_conv)
  ultimately show ?thesis by simp
qed

lemma greedy_loop_bits:
  "idx \<le> 92 \<Longrightarrow> idx \<le> 8 * length out \<Longrightarrow>
   length (greedy_loop fib_table idx r out) = length out \<and>
   (\<forall>j. bit_at (greedy_loop fib_table idx r out) j \<longleftrightarrow> bit_at out j \<or> (j < idx \<and> digits idx r ! j))"
proof (induction idx arbitrary: r out)
  case (Suc idx)
  have t: "fib_table ! idx = fibn idx" using Suc.prems by (simp add: fib_table_eq del: upt_rec_numeral)
  have s: "j < Suc idx \<longleftrightarrow> j < idx \<or> j = idx" for j by auto
  show ?case
  proof (cases "fibn idx \<le> r")
    case True
    have "digits (Suc idx) r ! j = (if j < idx then digits idx (r - fibn idx) ! j else True)" if "j < Suc idx" for j
      using True that by (auto simp: nth_append)
    then show ?thesis using Suc.IH [of "or_bit idx out" "r - fibn idx"] Suc.prems True t
      by (auto simp: bit_at_or_bit s simp del: digits.simps)
  next
    case False
    have "digits (Suc idx) r ! j \<longleftrightarrow> j < idx \<and> digits idx r ! j" if "j < Suc idx" for j
      using False that by (auto simp: nth_append)
    then show ?thesis using Suc.IH [of out r] Suc.prems False t by (auto simp: s simp del: digits.simps)
  qed
qed simp

lemma zeck_encode_bits:
  assumes "0 < n" "n < 2 ^ 64"
  obtains cw where "zeck_encode n = Ok cw" "length cw = (zlen n + 8) div 8"
    "\<And>j. bit_at cw j \<longleftrightarrow> j < length (codeword n) \<and> codeword n ! j"
proof -
  let ?out = "replicate ((zlen n + 8) div 8) (0 :: 8 word)"
  let ?g = "greedy_loop fib_table (zlen n) n ?out"
  have l: "zlen n < 8 * ((zlen n + 8) div 8)" by simp
  have g: "length ?g = (zlen n + 8) div 8" "bit_at ?g j \<longleftrightarrow> j < zlen n \<and> digits (zlen n) n ! j" for j
    using greedy_loop_bits [of "zlen n" ?out n] zlen [OF assms(2,1)] l by simp_all
  have "zeck_encode n = Ok (or_bit (zlen n) ?g)"
    using assms(1) by (simp add: zeck_encode_def zlen_def Let_def add.commute)
  moreover have "bit_at (or_bit (zlen n) ?g) j \<longleftrightarrow> j < length (codeword n) \<and> codeword n ! j" for j
    using l by (auto simp: bit_at_or_bit g codeword_def nth_append less_Suc_eq)
  ultimately show ?thesis using that g(1) by simp
qed

section \<open>The decoder stops at the terminating pair\<close>

definition pair_at :: "bytes \<Rightarrow> nat \<Rightarrow> bool" where
  "pair_at buf i \<longleftrightarrow> bit_at buf i \<and> bit_at buf (i + 1)"

lemma decode_scan_skip:
  "i \<le> k \<Longrightarrow> k < 8 * length buf \<Longrightarrow> (\<And>j. i \<le> j \<Longrightarrow> j < k \<Longrightarrow> \<not> pair_at buf j) \<Longrightarrow>
   decode_scan buf start i = decode_scan buf start k"
proof (induction "k - i" arbitrary: i)
  case (Suc d)
  then have i: "i < k" by simp
  then have "\<not> length buf \<le> i div 8" using Suc.prems(2) by (simp add: not_le div_less_iff_less_mult mult.commute)
  then have "decode_scan buf start i = decode_scan buf start (i + 1)"
    using Suc.prems(3) [of i] i by (auto simp: decode_scan.simps [of _ _ i] pair_at_def)
  also have "\<dots> = decode_scan buf start k" using Suc.hyps(1) [of "i + 1"] Suc.hyps(2) Suc.prems i by simp
  finally show ?case .
qed simp

lemma decode_scan_pair:
  "pair_at buf i \<Longrightarrow> start \<le> i \<Longrightarrow> decode_scan buf start i = Some (fib_sum buf start (i + 1), i + 2 - start)"
  using bit_at_bound [of buf i]
  by (simp add: decode_scan.simps [of _ _ i] pair_at_def Let_def div_less_iff_less_mult mult.commute not_le [symmetric])

lemma decode_scan_none: "(\<And>j. i \<le> j \<Longrightarrow> \<not> pair_at buf j) \<Longrightarrow> decode_scan buf start i = None"
proof (induction buf start i rule: decode_scan.induct)
  case (1 buf start i)
  then show ?case unfolding decode_scan.simps [of buf start i] pair_at_def
    by (metis Suc_eq_plus1 Suc_leD le_refl)
qed

text \<open>The bits \<open>ds\<close> stand at offset \<open>off\<close> of the buffer.\<close>

definition holds_bits :: "bytes \<Rightarrow> nat \<Rightarrow> bool list \<Rightarrow> bool" where
  "holds_bits buf off ds \<longleftrightarrow> off + length ds \<le> 8 * length buf \<and> (\<forall>j < length ds. bit_at buf (off + j) = ds ! j)"

lemma value_of_take_le: "value_of (take m ds) \<le> value_of ds"
proof (induction ds rule: rev_induct)
  case (snoc b ds)
  then show ?case by (cases "m \<le> length ds") (simp_all add: value_of_snoc)
qed (simp add: value_of_def)

lemma fib_sum_value:
  assumes "holds_bits buf off ds" "m \<le> length ds" "length ds \<le> 93" "m \<le> 92" "value_of (take m ds) < 2 ^ 64"
  shows "fib_sum buf off (off + m) = value_of (take m ds)"
  using assms(2,4,5)
proof (induction m)
  case 0
  then show ?case by (simp add: fib_sum_def value_of_def)
next
  case (Suc m)
  have t: "take (Suc m) ds = take m ds @ [ds ! m]" using Suc.prems by (simp add: take_Suc_conv_app_nth)
  have "value_of (take m ds) \<le> value_of (take (Suc m) ds)" by (simp add: t value_of_snoc)
  then have ih: "fib_sum buf off (off + m) = value_of (take m ds)" using Suc by simp
  have b: "bit_at buf (off + m) = ds ! m" using assms(1) Suc.prems(1) by (simp add: holds_bits_def)
  have l: "m < length fib_table" "fib_table ! m = fibn m" using Suc.prems by (simp_all add: fib_table_eq del: upt_rec_numeral)
  have "fib_sum buf off (off + Suc m)
      = (if bit_at buf (off + m) \<and> m < length fib_table then (fib_sum buf off (off + m) + fib_table ! m) mod 2 ^ 64
         else fib_sum buf off (off + m))"
    by (simp add: fib_sum_def)
  also have "\<dots> = value_of (take (Suc m) ds)"
    using Suc.prems b l ih by (auto simp: t value_of_snoc)
  finally show ?case .
qed

lemma codeword_shape:
  assumes "0 < n" "n < 2 ^ 64"
  obtains k where "zlen n = Suc k" "length (codeword n) = k + 2" "codeword n ! k" "codeword n ! Suc k"
    "\<And>j. j < k \<Longrightarrow> \<not> (codeword n ! j \<and> codeword n ! Suc j)" "value_of (take (Suc k) (codeword n)) = n" "Suc k \<le> 92"
proof -
  note z = zlen [OF assms(2,1)]
  obtain k where k: "zlen n = Suc k" using z by (cases "zlen n") auto
  have d: "digits (Suc k) n ! k" using z k by (simp add: nth_append)
  have np: "no_pair (digits (Suc k) n)" using digits_no_pair z k by metis
  have c: "codeword n = digits (Suc k) n @ [True]" by (simp only: codeword_def k)
  have lt: "\<not> (codeword n ! j \<and> codeword n ! Suc j)" if "j < k" for j
    using np that unfolding c no_pair_def by (simp add: nth_append del: digits.simps)
  have v: "value_of (take (Suc k) (codeword n)) = n"
    using digits_value z k unfolding c by (simp del: digits.simps fibn.simps)
  show ?thesis
    by (rule that [of k]) (use k d lt v z in \<open>simp_all add: c nth_append del: digits.simps fibn.simps\<close>)
qed

theorem decode_at_codeword:
  assumes "0 < n" "n < 2 ^ 64" "holds_bits buf off (codeword n)"
  shows "decode_at buf off = Some (n, length (codeword n))"
proof -
  obtain k where k: "length (codeword n) = k + 2" "codeword n ! k" "codeword n ! Suc k"
    "\<And>j. j < k \<Longrightarrow> \<not> (codeword n ! j \<and> codeword n ! Suc j)" "value_of (take (Suc k) (codeword n)) = n" "Suc k \<le> 92"
    using codeword_shape [OF assms(1,2)] by metis
  have b: "bit_at buf (off + j) = codeword n ! j" if "j < k + 2" for j
    using assms(3) that k(1) by (simp add: holds_bits_def)
  have "\<not> pair_at buf j" if "off \<le> j" "j < off + k" for j
    using k(4) [of "j - off"] b [of "j - off"] b [of "Suc j - off"] that by (simp add: pair_at_def Suc_diff_le)
  then have "decode_at buf off = decode_scan buf off (off + k)"
    unfolding decode_at_def using assms(3) k(1) by (intro decode_scan_skip) (auto simp: holds_bits_def)
  also have "\<dots> = Some (fib_sum buf off (off + k + 1), off + k + 2 - off)"
    using b [of k] b [of "Suc k"] k by (intro decode_scan_pair) (simp_all add: pair_at_def)
  also have "fib_sum buf off (off + k + 1) = n"
    using fib_sum_value [OF assms(3), of "Suc k"] k assms(2) by simp
  finally show ?thesis using k(1) by simp
qed

section \<open>Streams\<close>

text \<open>The buffer holds exactly the bits \<open>bs\<close>, padded with zeros to a whole byte.\<close>

definition stream_holds :: "zeck_stream \<Rightarrow> bool list \<Rightarrow> bool" where
  "stream_holds s bs \<longleftrightarrow>
     zs_bits s = length bs \<and> length (zs_buf s) = (length bs + 7) div 8 \<and>
     (\<forall>j. bit_at (zs_buf s) j \<longleftrightarrow> j < length bs \<and> bs ! j)"

lemma stream_new_holds: "stream_holds stream_new []"
  by (simp add: stream_holds_def stream_new_def bit_at_def)

lemma bits_fit: "n \<le> 8 * ((n + 7) div 8)" for n :: nat
  by presburger

lemma leading_zeros_top:
  fixes b :: "8 word"
  assumes "bit b i" "\<And>j. i < j \<Longrightarrow> j < 8 \<Longrightarrow> \<not> bit b j"
  shows "leading_zeros b = 7 - i" "i < 8"
proof -
  show i: "i < 8" using assms(1) bit_imp_le_length [of b i] by simp
  then have "[0..<8] = [0..<i] @ i # [Suc i..<8]"
    using upt_add_eq_append [of 0 i "8 - i"] upt_conv_Cons [of i 8] by (simp del: upt_rec_numeral)
  then have r: "rev [0..<8] = rev [Suc i..<8] @ i # rev [0..<i]" by (simp del: upt_rec_numeral)
  have "takeWhile (\<lambda>i. \<not> bit b i) (rev [0..<8]) = rev [Suc i..<8]"
    unfolding r using assms by (subst takeWhile_append2) auto
  then show "leading_zeros b = 7 - i" by (simp add: leading_zeros_def)
qed

lemma find_rev_enumerate:
  assumes "m < length xs" "P (xs ! m)" "\<And>j. m < j \<Longrightarrow> j < length xs \<Longrightarrow> \<not> P (xs ! j)"
  shows "find (\<lambda>(i, x). P x) (rev (enumerate 0 xs)) = Some (m, xs ! m)"
  using assms
proof (induction xs rule: rev_induct)
  case (snoc x xs)
  have e: "rev (enumerate 0 (xs @ [x])) = (length xs, x) # rev (enumerate 0 xs)"
    by (simp add: enumerate_append_eq)
  show ?case
  proof (cases "m = length xs")
    case True
    then show ?thesis using snoc.prems by (simp add: e)
  next
    case False
    then have m: "m < length xs" using snoc.prems by simp
    then have "\<not> P x" using snoc.prems(3) [of "length xs"] by simp
    moreover have "\<not> P (xs ! j)" if "m < j" "j < length xs" for j
      using snoc.prems(3) [of j] that by (simp add: nth_append)
    ultimately show ?thesis using snoc.IH snoc.prems(2) m by (simp add: e nth_append)
  qed
qed simp

lemma codeword_nbits_top:
  assumes "bit_at cw k" "\<And>j. k < j \<Longrightarrow> \<not> bit_at cw j"
  shows "codeword_nbits cw = Suc k"
proof -
  have k: "k div 8 < length cw" "bit (cw ! (k div 8)) (k mod 8)" using assms(1) by (auto simp: bit_at_def split: if_splits)
  have above: "\<not> bit (cw ! (k div 8)) j" if "k mod 8 < j" "j < 8" for j
  proof -
    have "k < 8 * (k div 8) + j" using that by presburger
    then show ?thesis using assms(2) [of "8 * (k div 8) + j"] that k(1) by (simp add: bit_at_def)
  qed
  have "cw ! j = 0" if "k div 8 < j" "j < length cw" for j
  proof (rule bit_word_eqI)
    fix i assume i: "i < LENGTH(8)"
    have "k < 8 * j + i" using that(1) by presburger
    then show "bit (cw ! j) i \<longleftrightarrow> bit (0 :: 8 word) i"
      using assms(2) [of "8 * j + i"] that(2) i by (simp add: bit_at_def)
  qed
  moreover have "cw ! (k div 8) \<noteq> 0" using k(2) by auto
  ultimately have "find (\<lambda>(bi, b). b \<noteq> 0) (rev (enumerate 0 cw)) = Some (k div 8, cw ! (k div 8))"
    using find_rev_enumerate [of "k div 8" cw "\<lambda>b. b \<noteq> 0"] k(1) by simp
  moreover have "leading_zeros (cw ! (k div 8)) = 7 - k mod 8"
    using leading_zeros_top [OF k(2) above] by simp
  ultimately show ?thesis by (simp add: codeword_nbits_def)
qed

lemma stream_push_holds:
  assumes "stream_holds s bs" "n < 2 ^ 64 - 1"
  obtains s' where "stream_push n s = Ok s'" "stream_holds s' (bs @ codeword (n + 1))"
proof -
  let ?c = "codeword (n + 1)" and ?l = "length (codeword (n + 1))"
  have r: "0 < n + 1" "n + 1 < 2 ^ 64" "(n + 1) mod 2 ^ 64 = n + 1" using assms(2) by auto
  obtain cw where cw: "zeck_encode (n + 1) = Ok cw" "\<And>j. bit_at cw j \<longleftrightarrow> j < ?l \<and> ?c ! j"
    using zeck_encode_bits [OF r(1,2)] by metis
  obtain k where k: "?l = k + 2" "?c ! Suc k" using codeword_shape [OF r(1,2)] by metis
  have nb: "codeword_nbits cw = ?l" using codeword_nbits_top [of cw "Suc k"] cw(2) k by simp
  define buf where "buf = zs_buf s @ replicate ((length bs + ?l + 7) div 8 - length (zs_buf s)) 0"
  have le: "length (zs_buf s) \<le> (length bs + ?l + 7) div 8"
    using assms(1) unfolding stream_holds_def by (metis add.commute add.left_commute div_le_mono le_add1)
  then have lb: "length buf = (length bs + ?l + 7) div 8" by (simp add: buf_def)
  have f: "fold (\<lambda>j b. if bit_at cw j then or_bit (length bs + j) b else b) [0..<?l] buf
         = fold (\<lambda>j b. if ?c ! j then or_bit (length bs + j) b else b) [0..<?l] buf" (is "?f = ?g")
    using cw(2) by (intro fold_cong) auto
  have "length ?g = length buf \<and> (\<forall>i. bit_at ?g i \<longleftrightarrow> bit_at buf i \<or> (length bs \<le> i \<and> i < length bs + ?l \<and> ?c ! (i - length bs)))"
    using lb bits_fit [of "length bs + ?l"] by (intro fold_or_bits) simp_all
  then have "stream_holds \<lparr>zs_buf = ?g, zs_bits = length bs + ?l\<rparr> (bs @ ?c)"
    using assms(1) lb by (auto simp: stream_holds_def buf_def bit_at_append_zeros nth_append)
  moreover have zb: "zs_bits s = length bs" using assms(1) by (simp add: stream_holds_def)
  have "(if length (zs_buf s) < (length bs + ?l + 7) div 8
         then zs_buf s @ replicate ((length bs + ?l + 7) div 8 - length (zs_buf s)) 0 else zs_buf s) = buf"
    using le by (auto simp: buf_def)
  then have "stream_push n s = Ok \<lparr>zs_buf = ?g, zs_bits = length bs + ?l\<rparr>"
    by (simp only: stream_push_def r(3) cw(1) obind.simps nb Let_def zb f)
  ultimately show ?thesis using that by blast
qed

fun push_all :: "nat list \<Rightarrow> zeck_stream \<Rightarrow> (zeck_stream, string) outcome" where
  "push_all [] s = Ok s"
| "push_all (n # ns) s = obind (stream_push n s) (push_all ns)"

definition stream_bits :: "nat list \<Rightarrow> bool list" where
  "stream_bits ns = concat (map (\<lambda>n. codeword (n + 1)) ns)"

lemma push_all_holds:
  "stream_holds s bs \<Longrightarrow> list_all (\<lambda>n. n < 2 ^ 64 - 1) ns \<Longrightarrow>
   \<exists>s'. push_all ns s = Ok s' \<and> stream_holds s' (bs @ stream_bits ns)"
proof (induction ns arbitrary: s bs)
  case (Cons n ns)
  obtain s' where "stream_push n s = Ok s'" "stream_holds s' (bs @ codeword (n + 1))"
    using stream_push_holds [OF Cons.prems(1)] Cons.prems(2) by auto
  then show ?case using Cons.IH [of s' "bs @ codeword (n + 1)"] Cons.prems(2) by (simp add: stream_bits_def)
qed (simp add: stream_bits_def)

lemma decode_all_suffix:
  assumes "list_all (\<lambda>n. n < 2 ^ 64 - 1) ns" "holds_bits buf off (stream_bits ns)"
    "\<And>j. off + length (stream_bits ns) \<le> j \<Longrightarrow> \<not> bit_at buf j"
  shows "decode_all_from buf off = Ok ns"
  using assms
proof (induction ns arbitrary: off)
  case Nil
  have "decode_at buf off = None"
    unfolding decode_at_def by (rule decode_scan_none) (use Nil.prems(3) in \<open>simp add: pair_at_def stream_bits_def\<close>)
  then show ?case by (simp add: decode_all_from.simps)
next
  case (Cons n ns)
  let ?c = "codeword (n + 1)"
  have sb: "stream_bits (n # ns) = ?c @ stream_bits ns" by (simp add: stream_bits_def)
  have "holds_bits buf off ?c" using Cons.prems(2) unfolding sb holds_bits_def by (auto simp: nth_append)
  then have d: "decode_at buf off = Some (n + 1, length ?c)"
    using decode_at_codeword [of "n + 1" buf off] Cons.prems(1) by simp
  have "bit_at buf (off + length ?c + j) = stream_bits ns ! j" if "j < length (stream_bits ns)" for j
    using Cons.prems(2) that unfolding sb holds_bits_def by (auto simp: nth_append add.assoc dest: spec [of _ "length ?c + j"])
  then have "holds_bits buf (off + length ?c) (stream_bits ns)"
    using Cons.prems(2) unfolding sb holds_bits_def by simp
  then have "decode_all_from buf (off + length ?c) = Ok ns"
    using Cons.IH Cons.prems unfolding sb by simp
  then show ?case by (simp add: decode_all_from.simps [of _ off] d)
qed

text \<open>C29: The integers pushed onto a stream come back from \<open>decode_all\<close>, in order and with nothing after
  them: pushing never fails for values below the largest 64-bit one, although codewords start in
  the middle of bytes, and the zero padding of the last byte decodes to nothing.\<close>

theorem zeck_stream_roundtrip:
  assumes "list_all (\<lambda>n. n < 2 ^ 64 - 1) ns"
  shows "obind (push_all ns stream_new) (\<lambda>s. decode_all (zs_buf s)) = Ok ns"
proof -
  obtain s where s: "push_all ns stream_new = Ok s" "stream_holds s (stream_bits ns)"
    using push_all_holds [OF stream_new_holds assms] by auto
  have "holds_bits (zs_buf s) 0 (stream_bits ns)"
    using s(2) bits_fit [of "length (stream_bits ns)"] by (simp add: holds_bits_def stream_holds_def)
  moreover have "\<not> bit_at (zs_buf s) j" if "length (stream_bits ns) \<le> j" for j
    using s(2) that by (simp add: stream_holds_def)
  ultimately show ?thesis using decode_all_suffix [OF assms, of "zs_buf s" 0] s(1) by (simp add: decode_all_def)
qed

theorem zeck_stream_roundtrip_witness:
  "obind (push_all [0, 7, 2 ^ 64 - 2] stream_new) (\<lambda>s. decode_all (zs_buf s)) = Ok [0, 7, 2 ^ 64 - 2]"
  by (rule zeck_stream_roundtrip) simp

section \<open>Resynchronisation\<close>

text \<open>No pair of ones touches a codeword that starts with 0 before its terminator.\<close>

lemma codeword_no_pair_before:
  assumes "0 < n" "n < 2 ^ 64" "holds_bits buf p (codeword n)" "\<not> bit_at buf p"
  obtains k where "length (codeword n) = k + 2" "pair_at buf (p + k)" "p + k < 8 * length buf"
    "\<And>j. p \<le> Suc j \<Longrightarrow> j < p + k \<Longrightarrow> \<not> pair_at buf j"
proof -
  obtain k where k: "length (codeword n) = k + 2" "codeword n ! k" "codeword n ! Suc k"
    "\<And>j. j < k \<Longrightarrow> \<not> (codeword n ! j \<and> codeword n ! Suc j)"
    using codeword_shape [OF assms(1,2)] by metis
  have b: "bit_at buf (p + j) = codeword n ! j" if "j < k + 2" for j
    using assms(3) that k(1) by (simp add: holds_bits_def)
  have "\<not> pair_at buf j" if "p \<le> Suc j" "j < p + k" for j
  proof (cases "p \<le> j")
    case True
    then show ?thesis using k(4) [of "j - p"] b [of "j - p"] b [of "Suc j - p"] that by (simp add: pair_at_def Suc_diff_le)
  next
    case False
    then have "Suc j = p" using that(1) by simp
    then show ?thesis using assms(4) by (auto simp: pair_at_def)
  qed
  moreover have "pair_at buf (p + k)" using b [of k] b [of "Suc k"] k by (simp add: pair_at_def)
  moreover have "p + k < 8 * length buf" using assms(3) k(1) by (simp add: holds_bits_def)
  ultimately show ?thesis using that k(1) by blast
qed

lemma decode_at_pair:
  assumes "start \<le> q" "pair_at buf q" "\<And>j. start \<le> j \<Longrightarrow> j < q \<Longrightarrow> \<not> pair_at buf j"
  shows "decode_at buf start = Some (fib_sum buf start (q + 1), q + 2 - start)"
proof -
  have "decode_at buf start = decode_scan buf start q" unfolding decode_at_def
    by (rule decode_scan_skip) (use assms bit_at_bound [of buf q] in \<open>auto simp: pair_at_def\<close>)
  then show ?thesis using decode_scan_pair [OF assms(2,1)] by simp
qed

definition ends_in :: "(nat list, string) outcome \<Rightarrow> nat list \<Rightarrow> bool" where
  "ends_in r ns \<longleftrightarrow> r = Panic \<or> (\<exists>junk. r = Ok (junk @ ns))"

lemma decode_all_step:
  "decode_at buf start = Some (v, used) \<Longrightarrow> ends_in (decode_all_from buf (start + used)) ns \<Longrightarrow>
   ends_in (decode_all_from buf start) ns"
  by (auto simp: ends_in_def decode_all_from.simps [of _ start] intro: exI [of _ "_ # _"])

text \<open>The decoder re-locks.  Suppose a codeword whose first bit is 0 stands anywhere in the buffer, and
  decoding right behind it gives some values.  Whatever precedes it, decoding from any earlier bit
  position either panics inside the damaged part or yields a list that ends in exactly those values.\<close>

theorem zeck_resync:
  assumes "0 < n" "n < 2 ^ 64" "holds_bits buf p (codeword n)" "\<not> bit_at buf p"
    "decode_all_from buf (p + length (codeword n)) = Ok ns" "start \<le> p"
  shows "ends_in (decode_all_from buf start) ns"
  using assms(6)
proof (induction "p - start" arbitrary: start rule: less_induct)
  case less
  obtain k where k: "length (codeword n) = k + 2" "pair_at buf (p + k)"
    "\<And>j. p \<le> Suc j \<Longrightarrow> j < p + k \<Longrightarrow> \<not> pair_at buf j"
    using codeword_no_pair_before [OF assms(1-4)] by metis
  show ?case
  proof (cases "\<exists>j. start \<le> j \<and> j < p \<and> pair_at buf j")
    case True
    define q where "q = (LEAST j. start \<le> j \<and> j < p \<and> pair_at buf j)"
    have q: "start \<le> q" "q < p" "pair_at buf q" using LeastI_ex [OF True] unfolding q_def by auto
    have nq: "\<not> pair_at buf j" if "start \<le> j" "j < q" for j
      using not_less_Least [of j "\<lambda>j. start \<le> j \<and> j < p \<and> pair_at buf j"] that q unfolding q_def [symmetric] by auto
    have "q + 2 \<le> p" using q k(3) [of q] by (cases "Suc q = p") auto
    then show ?thesis using less.hyps [of "start + (q + 2 - start)"] q
      by (intro decode_all_step [OF decode_at_pair [OF q(1,3) nq]]) simp_all
  next
    case False
    have np: "\<not> pair_at buf j" if "start \<le> j" "j < p + k" for j
      using False k(3) [of j] that by (cases "j < p") auto
    have e: "start + (p + k + 2 - start) = p + length (codeword n)" "start \<le> p + k" using less.prems k(1) by simp_all
    show ?thesis
    proof (rule decode_all_step [OF decode_at_pair [OF e(2) k(2) np]])
      show "ends_in (decode_all_from buf (start + (p + k + 2 - start))) ns"
        unfolding e(1) assms(5) by (simp add: ends_in_def)
    qed
  qed
qed

lemma zlen_eqI: "fibn k \<le> n \<Longrightarrow> n < fibn (Suc k) \<Longrightarrow> n < 2 ^ 64 \<Longrightarrow> zlen n = Suc k"
proof -
  assume k: "fibn k \<le> n" "n < fibn (Suc k)" "n < 2 ^ 64"
  then have z: "0 < zlen n" "n < fibn (zlen n)" "fibn (zlen n - 1) \<le> n" using zlen [of n] fibn_pos [of k] by auto
  have "k < zlen n" using k(1) z(2) fibn_mono [of "zlen n" k] by (meson leD le_less_trans not_le_imp_less)
  moreover have "zlen n - 1 < Suc k" using k(2) z(3) fibn_mono [of "Suc k" "zlen n - 1"] by (meson leD le_less_trans not_le_imp_less)
  ultimately show ?thesis by simp
qed

lemma small_codewords:
  "codeword 1 = [True, True]" "codeword 2 = [False, True, True]" "codeword 4 = [True, False, True, True]"
proof -
  have "zlen 1 = Suc 0" "zlen 2 = Suc (Suc 0)" "zlen 4 = Suc (Suc (Suc 0))" by (rule zlen_eqI; simp)+
  then show "codeword 1 = [True, True]" "codeword 2 = [False, True, True]" "codeword 4 = [True, False, True, True]"
    by (simp_all add: codeword_def)
qed

lemma two_byte_bits:
  "bit_at [x, y] i \<longleftrightarrow> (if i < 8 then bit x i else i < 16 \<and> bit y (i - 8))"
proof (cases "i < 16")
  case True
  then have "i div 8 = 0 \<and> i mod 8 = i \<and> i < 8 \<or> i div 8 = 1 \<and> i mod 8 = i - 8 \<and> 8 \<le> i" by presburger
  then show ?thesis using True by (auto simp: bit_at_def)
next
  case False
  then have "2 \<le> i div 8" by presburger
  then show ?thesis using False by (simp add: bit_at_def)
qed

theorem zeck_resync_witness: "ends_in (decode_all_from [1, 30] 0) [0]"
proof (rule zeck_resync [of 2 _ 8])
  show "holds_bits [1, 30] 8 (codeword 2)"
    by (simp add: holds_bits_def small_codewords two_byte_bits All_less_Suc)
  have "holds_bits [1, 30] 11 (stream_bits [0])"
    by (simp add: holds_bits_def stream_bits_def small_codewords [simplified] two_byte_bits All_less_Suc)
  moreover have "\<not> bit_at [1, 30] j" if "13 \<le> j" for j
  proof -
    have "j = 13 \<or> j = 14 \<or> j = 15 \<or> 16 \<le> j" using that by auto
    then show ?thesis by (auto simp: two_byte_bits)
  qed
  ultimately show "decode_all_from [1, 30] (8 + length (codeword 2)) = Ok [0]"
    using decode_all_suffix [of "[0]" "[1, 30]" 11]
    by (simp add: small_codewords [simplified] stream_bits_def)
qed (simp_all add: bit_at_def)

lemma decode_ten_bits:
  assumes "list_all (\<lambda>n. n < 2 ^ 64 - 1) ns" "length (stream_bits ns) = 10" "holds_bits [b, 3] 0 (stream_bits ns)"
  shows "decode_all [b, 3] = Ok ns"
proof -
  have "\<not> bit_at [b, 3] j" if "10 \<le> j" for j
  proof -
    have "j = 10 \<or> j = 11 \<or> j = 12 \<or> j = 13 \<or> j = 14 \<or> j = 15 \<or> 16 \<le> j" using that by auto
    then show ?thesis by (auto simp: two_byte_bits)
  qed
  then show ?thesis using decode_all_suffix [OF assms(1,3)] assms(2) by (simp add: decode_all_def)
qed

lemma fib_sum_ignored:
  assumes "\<And>j. start \<le> j \<Longrightarrow> j < term \<Longrightarrow> bit_at buf j \<Longrightarrow> 92 \<le> j - start"
  shows "fib_sum buf start term = 0"
proof -
  have l: "length fib_table = 92" by (simp add: fib_table_eq del: upt_rec_numeral)
  have "fib_sum buf start term = fold (\<lambda>j v. v) [start..<term] 0"
    unfolding fib_sum_def l using assms by (intro fold_cong ext) fastforce+
  also have "fold (\<lambda>j v. v) xs a = a" for xs :: "nat list" and a :: nat by (induction xs) simp_all
  finally show ?thesis .
qed

text \<open>Two limits of the format.  The first bit of 0 is needed for re-locking: \<open>[126, 3]\<close> is the stream of
  1, 0, 0, 1, and with its first bit flipped every boundary up to the last codeword is shifted by one
  bit, so that 0, 0, 0, 3 is decoded without any error.  And 96 zero bits before the next pair make
  the decoded value 0, so that the decrement in \<open>decode_all\<close> underflows.\<close>

theorem zeck_desync_and_underflow:
  "decode_all [126, 3] = Ok [1, 0, 0, 1] \<and> decode_all [127, 3] = Ok [0, 0, 0, 3] \<and>
   decode_all (replicate 12 0 @ [3]) = Panic"
proof (intro conjI)
  have "stream_bits [1, 0, 0, 1] = [False, True, True, True, True, True, True, False, True, True]"
    "stream_bits [0, 0, 0, 3] = [True, True, True, True, True, True, True, False, True, True]"
    using small_codewords by (simp_all add: stream_bits_def eval_nat_numeral)
  then show "decode_all [126, 3] = Ok [1, 0, 0, 1]" "decode_all [127, 3] = Ok [0, 0, 0, 3]"
    by (auto intro!: decode_ten_bits simp: holds_bits_def two_byte_bits All_less_Suc)
next
  let ?buf = "replicate 12 0 @ [3 :: 8 word]"
  have b: "bit_at ?buf j \<longleftrightarrow> j = 96 \<or> j = 97" for j
  proof -
    have three: "bit (3 :: 8 word) r \<longleftrightarrow> r < 2" for r
      using bit_mask_iff [where ?'a = "8 word", of 2 r] by (auto simp: mask_numeral)
    have "j = 96 \<or> j = 97 \<longleftrightarrow> j div 8 = 12 \<and> j mod 8 < 2" by presburger
    then show ?thesis using three [of "j mod 8"] by (cases "j div 8 = 12") (auto simp: bit_at_def nth_append)
  qed
  have "decode_at ?buf 0 = Some (fib_sum ?buf 0 (96 + 1), 96 + 2 - 0)"
    by (rule decode_at_pair) (simp_all only: pair_at_def b, simp_all)
  moreover have "fib_sum ?buf 0 (96 + 1) = 0" by (rule fib_sum_ignored) (simp only: b, auto)
  ultimately show "decode_all ?buf = Panic" by (simp only: decode_all_def decode_all_from.simps [of _ 0]) simp
qed

end
