(* ===== verification/Golden.thy ===== *)
theory Golden
  imports Incremental Zeckendorf
begin

text \<open>
  The golden-ratio utilities of the coding crate: multiplicative hashing (\<open>crates/coding/src/fib_hash.rs\<close>), the
  consistent-hash ring (\<open>placement.rs\<close>) and the Fibonacci congestion window (\<open>fib_backoff.rs\<close>).  The ordered
  map of the ring is a list of pairs with rising keys, as in the incremental pruner.  The ring's
  counter is a word: in a build without overflow checks it wraps after \<open>2 ^ 64\<close> additions.
\<close>

section \<open>Multiplicative hashing\<close>

text \<open>A shift by 64 or more, and the subtraction below zero, panic in a checked build.\<close>

definition fib_hash64_u64 :: "u64 \<Rightarrow> nat \<Rightarrow> (nat, string) outcome" where
  "fib_hash64_u64 key b =
     (if b = 0 \<or> 64 < b then Panic else Ok (unat (drop_bit (64 - b) (key * GOLDEN64))))"

definition fib_hash64 :: "u128 \<Rightarrow> nat \<Rightarrow> (nat, string) outcome" where
  "fib_hash64 key b =
     (let lo = (ucast key :: u64); mixed = lo XOR ucast (drop_bit 64 key)
      in if b = 0 \<or> 64 < b then Panic else Ok (unat (drop_bit (64 - b) (mixed * GOLDEN64))))"

section \<open>The ring\<close>

definition placement_fixed :: "u64 \<Rightarrow> u64" where
  "placement_fixed n = ucast ((ucast n :: u128) * 0x9E3779B97F4A7C15)"

record golden_ring =
  gr_nodes :: "(u64 \<times> u64) list"
  gr_id_to_pos :: "u64 \<rightharpoonup> u64"
  gr_counter :: u64

definition ring_new :: golden_ring where
  "ring_new = \<lparr>gr_nodes = [], gr_id_to_pos = Map.empty, gr_counter = 0\<rparr>"

definition ring_add :: "u64 \<Rightarrow> golden_ring \<Rightarrow> golden_ring" where
  "ring_add entity r =
     (if gr_id_to_pos r entity \<noteq> None then r
      else
        let pos = placement_fixed (gr_counter r)
        in r\<lparr>gr_counter := gr_counter r + 1, gr_nodes := bt_insert pos entity (gr_nodes r),
             gr_id_to_pos := (gr_id_to_pos r)(entity \<mapsto> pos)\<rparr>)"

definition ring_remove :: "u64 \<Rightarrow> golden_ring \<Rightarrow> bool \<times> golden_ring" where
  "ring_remove entity r =
     (case gr_id_to_pos r entity of
        Some pos \<Rightarrow>
          (True, r\<lparr>gr_id_to_pos := (gr_id_to_pos r)(entity := None), gr_nodes := bt_remove pos (gr_nodes r)\<rparr>)
      | None \<Rightarrow> (False, r))"

text \<open>\<open>nodes.range(k..).next()\<close>, then the first entry\<close>

definition ring_route :: "u64 \<Rightarrow> golden_ring \<Rightarrow> u64 option" where
  "ring_route key r =
     (case gr_nodes r of
        [] \<Rightarrow> None
      | first # _ \<Rightarrow>
          let k = placement_fixed key
          in case List.find (\<lambda>n. k \<le> fst n) (gr_nodes r) of
               Some n \<Rightarrow> Some (snd n)
             | None \<Rightarrow> Some (snd first))"

definition ring_len :: "golden_ring \<Rightarrow> nat" where
  "ring_len r = length (gr_nodes r)"

section \<open>The congestion window\<close>

definition saturating_add :: "u64 \<Rightarrow> u64 \<Rightarrow> u64" where
  "saturating_add a b = (if unat a + unat b < 2 ^ 64 then a + b else - 1)"

text \<open>The window times the decrease factor is computed in floating point and is a parameter of \<open>on_loss\<close>.\<close>

record fib_backoff =
  fb_window :: u64
  fb_a :: u64
  fb_b :: u64
  fb_max :: u64

definition backoff_new :: "u64 \<Rightarrow> u64 \<Rightarrow> fib_backoff" where
  "backoff_new initial mx = \<lparr>fb_window = initial, fb_a = 1, fb_b = 1, fb_max = mx\<rparr>"

definition on_success :: "fib_backoff \<Rightarrow> fib_backoff" where
  "on_success f =
     (let inc = fb_b f; nxt = saturating_add (fb_a f) (fb_b f)
      in f\<lparr>fb_window := min (saturating_add (fb_window f) inc) (fb_max f), fb_a := fb_b f, fb_b := nxt\<rparr>)"

definition on_loss :: "(u64 \<Rightarrow> u64) \<Rightarrow> fib_backoff \<Rightarrow> fib_backoff" where
  "on_loss decrease f = f\<lparr>fb_window := decrease (fb_window f), fb_a := 1, fb_b := 1\<rparr>"

definition on_timeout :: "u64 \<Rightarrow> fib_backoff \<Rightarrow> fib_backoff" where
  "on_timeout initial f = f\<lparr>fb_window := initial, fb_a := 1, fb_b := 1\<rparr>"

section \<open>Positions\<close>

lemma placement_fixed_eq: "placement_fixed n = n * GOLDEN64"
proof -
  have "unat n < 2 ^ 64" using unsigned_less [of n, where ?'a = nat] by simp
  then have "unat (ucast n :: u128) = unat n" by (simp add: unsigned_ucast_eq take_bit_nat_eq_self)
  then have "unat ((ucast n :: u128) * 0x9E3779B97F4A7C15) = unat n * 0x9E3779B97F4A7C15 mod 2 ^ 128"
    by (simp add: unat_word_ariths)
  then have "unat (placement_fixed n) = unat n * 0x9E3779B97F4A7C15 mod 2 ^ 128 mod 2 ^ 64"
    by (simp add: placement_fixed_def unsigned_ucast_eq take_bit_eq_mod)
  also have "\<dots> = unat n * 0x9E3779B97F4A7C15 mod 2 ^ 64" by (rule mod_mod_cancel) (simp add: le_imp_power_dvd)
  also have "\<dots> = unat (n * GOLDEN64)" by (simp add: unat_word_ariths GOLDEN64_def)
  finally show ?thesis by (simp only: word_unat_eq_iff)
qed

text \<open>The multiplier is odd, so positions of different counters differ.\<close>

lemma placement_fixed_inj: "placement_fixed a = placement_fixed b \<Longrightarrow> a = b"
proof -
  assume "placement_fixed a = placement_fixed b"
  then have "a * GOLDEN64 * 0xF1DE83E19937733D = b * GOLDEN64 * 0xF1DE83E19937733D" by (simp only: placement_fixed_eq)
  moreover have "GOLDEN64 * 0xF1DE83E19937733D = 1" by (simp add: GOLDEN64_def)
  ultimately show ?thesis by (simp add: mult.assoc)
qed

section \<open>The ordered map\<close>

lemma bt_insert_set: "k \<notin> fst ` set m \<Longrightarrow> set (bt_insert k v m) = insert (k, v) (set m)"
  by (induction k v m rule: bt_insert.induct) auto

lemma bt_insert_sorted:
  "sorted (map fst m) \<Longrightarrow> distinct (map fst m) \<Longrightarrow> k \<notin> fst ` set m \<Longrightarrow>
   sorted (map fst (bt_insert k v m)) \<and> distinct (map fst (bt_insert k v m))"
proof (induction k v m rule: bt_insert.induct)
  case (2 k v k' v' m)
  then show ?case by (auto simp: bt_insert_set image_iff)
qed simp

lemma bt_remove_sorted:
  "sorted (map fst m) \<Longrightarrow> distinct (map fst m) \<Longrightarrow>
   sorted (map fst (bt_remove k m)) \<and> distinct (map fst (bt_remove k m))"
  by (simp add: bt_remove_def sorted_filter distinct_map_filter)

section \<open>The ring's invariant\<close>

definition ring_wf :: "golden_ring \<Rightarrow> bool" where
  "ring_wf r \<longleftrightarrow> sorted (map fst (gr_nodes r)) \<and> distinct (map fst (gr_nodes r)) \<and>
     (\<forall>p e. (p, e) \<in> set (gr_nodes r) \<longleftrightarrow> gr_id_to_pos r e = Some p) \<and>
     (\<forall>p e. (p, e) \<in> set (gr_nodes r) \<longrightarrow> (\<exists>c < gr_counter r. p = placement_fixed c))"

lemma ring_new_wf: "ring_wf ring_new"
  by (simp add: ring_wf_def ring_new_def)

lemma ring_add_wf:
  assumes wf: "ring_wf r" and c: "gr_counter r \<noteq> - 1"
  shows "ring_wf (ring_add x r)"
    and "set (gr_nodes (ring_add x r)) =
      (if gr_id_to_pos r x = None then insert (placement_fixed (gr_counter r), x) (set (gr_nodes r)) else set (gr_nodes r))"
proof -
  define pos where "pos = placement_fixed (gr_counter r)"
  have fresh: "pos \<notin> fst ` set (gr_nodes r)"
  proof
    assume "pos \<in> fst ` set (gr_nodes r)"
    then obtain e c where "c < gr_counter r" "pos = placement_fixed c" using wf unfolding ring_wf_def by fastforce
    then show False using placement_fixed_inj [of "gr_counter r" c] by (auto simp: pos_def)
  qed
  have lt: "c < gr_counter r + 1" if "c \<le> gr_counter r" for c
  proof -
    have "unat (gr_counter r) \<noteq> unat (- 1 :: u64)" using word_unat_eq_iff c by blast
    then have "unat (gr_counter r) + 1 < 2 ^ 64"
      using unsigned_less [of "gr_counter r", where ?'a = nat] by (simp add: unsigned_minus_1_eq_mask mask_eq_exp_minus_1)
    then show ?thesis using that by (simp add: word_less_nat_alt word_le_nat_alt unat_word_ariths)
  qed
  note I = bt_insert_set [OF fresh, of x]
  note S = bt_insert_sorted [of "gr_nodes r", OF _ _ fresh, of x]
  show "set (gr_nodes (ring_add x r)) =
      (if gr_id_to_pos r x = None then insert (placement_fixed (gr_counter r), x) (set (gr_nodes r)) else set (gr_nodes r))"
    using I by (auto simp: ring_add_def pos_def Let_def)
  show "ring_wf (ring_add x r)"
  proof (cases "gr_id_to_pos r x")
    case None
    have r': "ring_add x r = r\<lparr>gr_counter := gr_counter r + 1, gr_nodes := bt_insert pos x (gr_nodes r),
        gr_id_to_pos := (gr_id_to_pos r)(x \<mapsto> pos)\<rparr>"
      using None by (simp add: ring_add_def pos_def Let_def)
    have "\<forall>p e. (p, e) \<in> set (gr_nodes r) \<longrightarrow> e \<noteq> x" using None wf by (auto simp: ring_wf_def)
    moreover have "\<exists>c < gr_counter r + 1. p = placement_fixed c" if "(p, e) \<in> set (bt_insert pos x (gr_nodes r))" for p e
    proof (cases "(p, e) \<in> set (gr_nodes r)")
      case True
      then obtain c where "c < gr_counter r" "p = placement_fixed c" using wf unfolding ring_wf_def by blast
      then show ?thesis using lt less_imp_le by blast
    next
      case False
      then have "p = placement_fixed (gr_counter r)" using that I by (simp add: pos_def)
      then show ?thesis using lt [of "gr_counter r"] by blast
    qed
    ultimately show ?thesis
      using wf S I unfolding r' ring_wf_def by auto
  qed (use wf in \<open>simp add: ring_add_def\<close>)
qed

lemma ring_remove_wf:
  assumes wf: "ring_wf r"
  shows "ring_wf (snd (ring_remove x r))"
    and "set (gr_nodes (snd (ring_remove x r))) = {n \<in> set (gr_nodes r). snd n \<noteq> x}"
    and "gr_counter (snd (ring_remove x r)) = gr_counter r"
proof -
  show "gr_counter (snd (ring_remove x r)) = gr_counter r" by (simp add: ring_remove_def split: option.split)
  have nodes: "set (gr_nodes (snd (ring_remove x r))) = {n \<in> set (gr_nodes r). snd n \<noteq> x}"
  proof (cases "gr_id_to_pos r x")
    case None
    then show ?thesis using wf by (auto simp: ring_remove_def ring_wf_def)
  next
    case (Some pos)
    have "fst n \<noteq> pos \<longleftrightarrow> snd n \<noteq> x" if "n \<in> set (gr_nodes r)" for n
    proof -
      have x: "(pos, x) \<in> set (gr_nodes r)" "gr_id_to_pos r (snd n) = Some (fst n)" "distinct (map fst (gr_nodes r))"
        using Some wf that by (simp_all add: ring_wf_def) (metis prod.collapse)
      then show ?thesis using Some that by (metis fst_conv map_of_is_SomeI option.inject prod.collapse snd_conv)
    qed
    then show ?thesis using Some by (auto simp: ring_remove_def bt_remove_def)
  qed
  then show "set (gr_nodes (snd (ring_remove x r))) = {n \<in> set (gr_nodes r). snd n \<noteq> x}" .
  show "ring_wf (snd (ring_remove x r))"
  proof (cases "gr_id_to_pos r x")
    case (Some pos)
    have r': "snd (ring_remove x r) = r\<lparr>gr_id_to_pos := (gr_id_to_pos r)(x := None), gr_nodes := bt_remove pos (gr_nodes r)\<rparr>"
      using Some by (simp add: ring_remove_def)
    then have "set (bt_remove pos (gr_nodes r)) = {n \<in> set (gr_nodes r). snd n \<noteq> x}" using nodes by simp
    then show ?thesis using wf bt_remove_sorted [of "gr_nodes r" pos] unfolding r' ring_wf_def by (auto, blast)
  qed (use wf in \<open>simp add: ring_remove_def\<close>)
qed

section \<open>Routing\<close>

lemma find_sorted:
  assumes "sorted (map fst xs)" "List.find (\<lambda>n. k \<le> fst n) xs = Some n"
  shows "n \<in> set xs \<and> k \<le> fst n \<and> (\<forall>n' \<in> set xs. k \<le> fst n' \<longrightarrow> fst n \<le> fst n')"
  using assms by (induction xs) (auto split: if_splits)

text \<open>The next node clockwise: the smallest distance \<open>p - k\<close> modulo \<open>2 ^ 64\<close>.\<close>

definition next_clockwise :: "(u64 \<times> u64) set \<Rightarrow> u64 \<Rightarrow> u64 \<times> u64 \<Rightarrow> bool" where
  "next_clockwise N k n \<longleftrightarrow> n \<in> N \<and> (\<forall>n' \<in> N. fst n - k \<le> fst n' - k)"

lemma clockwise_le:
  fixes k p q :: u64
  assumes "(k \<le> p \<longleftrightarrow> k \<le> q) \<and> p \<le> q \<or> k \<le> p \<and> \<not> k \<le> q"
  shows "p - k \<le> q - k"
proof -
  have d: "unat (x - k) = (if k \<le> x then unat x - unat k else 2 ^ 64 + unat x - unat k)" for x :: u64
    using unat_sub_if_size [of x k] by (auto simp: word_le_nat_alt word_size)
  have "unat k < 2 ^ 64" "unat p < 2 ^ 64" using unsigned_less [of k, where ?'a = nat] unsigned_less [of p, where ?'a = nat] by simp_all
  then show ?thesis using assms unfolding word_le_nat_alt [of "p - k"] d by (auto simp: word_le_nat_alt)
qed

lemma next_clockwise_unique:
  assumes "next_clockwise N k n" "next_clockwise N k n'" "inj_on fst N"
  shows "n = n'"
proof -
  have "fst n - k = fst n' - k" using assms(1,2) unfolding next_clockwise_def by (meson order_antisym)
  then have "fst n = fst n'" by simp
  then show ?thesis using assms by (auto simp: next_clockwise_def inj_on_def)
qed

lemma ring_route_next:
  assumes wf: "ring_wf r"
  shows "ring_route key r = None \<longleftrightarrow> gr_nodes r = []"
    and "ring_route key r = Some e \<longleftrightarrow> (\<exists>p. next_clockwise (set (gr_nodes r)) (placement_fixed key) (p, e))"
proof -
  define k where "k = placement_fixed key"
  define ns where "ns = gr_nodes r"
  have S: "sorted (map fst ns)" "distinct (map fst ns)" using wf by (auto simp: ring_wf_def ns_def)
  have inj: "inj_on fst (set ns)" using S(2) by (simp add: distinct_map)
  have R: "if ns = [] then ring_route key r = None
    else \<exists>n. next_clockwise (set ns) k n \<and> ring_route key r = Some (snd n)"
  proof (cases ns)
    case (Cons first rest)
    show ?thesis
    proof (cases "List.find (\<lambda>n. k \<le> fst n) ns")
      case None
      then have "\<forall>n \<in> set ns. \<not> k \<le> fst n" by (auto simp: find_None_iff)
      moreover have "\<forall>n \<in> set ns. fst first \<le> fst n" using S(1) Cons by auto
      ultimately have "next_clockwise (set ns) k first"
        using Cons by (auto simp: next_clockwise_def intro!: clockwise_le)
      moreover have "ring_route key r = Some (snd first)"
        using None Cons unfolding ring_route_def k_def [symmetric] ns_def [symmetric] by (simp add: Let_def)
      ultimately show ?thesis using Cons by (simp del: split_paired_Ex) blast
    next
      case (Some n)
      then have "n \<in> set ns \<and> k \<le> fst n \<and> (\<forall>n' \<in> set ns. k \<le> fst n' \<longrightarrow> fst n \<le> fst n')"
        by (rule find_sorted [OF S(1)])
      then have "next_clockwise (set ns) k n" by (auto simp: next_clockwise_def intro!: clockwise_le)
      moreover have "ring_route key r = Some (snd n)"
        using Some Cons unfolding ring_route_def k_def [symmetric] ns_def [symmetric] by (simp add: Let_def)
      ultimately show ?thesis using Cons by (simp del: split_paired_Ex) blast
    qed
  qed (simp add: ring_route_def ns_def)
  show "ring_route key r = None \<longleftrightarrow> gr_nodes r = []"
    using R by (auto simp: ns_def split: if_splits)
  have "ring_route key r = Some e \<longleftrightarrow> (\<exists>p. next_clockwise (set ns) k (p, e))"
  proof (cases "ns = []")
    case False
    then obtain n where n: "next_clockwise (set ns) k n" "ring_route key r = Some (snd n)" using R by auto
    then show ?thesis using next_clockwise_unique [OF n(1) _ inj] by (metis option.inject prod.collapse snd_conv)
  qed (use R in \<open>simp add: next_clockwise_def\<close>)
  then show "ring_route key r = Some e \<longleftrightarrow> (\<exists>p. next_clockwise (set (gr_nodes r)) (placement_fixed key) (p, e))"
    by (simp add: ns_def k_def)
qed

section \<open>Runs\<close>

datatype ring_op = RingAdd u64 | RingRemove u64

fun ring_step :: "ring_op \<Rightarrow> golden_ring \<Rightarrow> golden_ring" where
  "ring_step (RingAdd x) r = ring_add x r"
| "ring_step (RingRemove x) r = snd (ring_remove x r)"

definition ring_run :: "ring_op list \<Rightarrow> golden_ring" where
  "ring_run ops = fold ring_step ops ring_new"

fun members_step :: "ring_op \<Rightarrow> u64 set \<Rightarrow> u64 set" where
  "members_step (RingAdd x) M = insert x M"
| "members_step (RingRemove x) M = M - {x}"

definition ring_members :: "ring_op list \<Rightarrow> u64 set" where
  "ring_members ops = fold members_step ops {}"

lemma below_max: "unat (c :: u64) < 2 ^ 64 - 1 \<Longrightarrow> c \<noteq> - 1"
  by (auto simp: unsigned_minus_1_eq_mask mask_eq_exp_minus_1)

lemma ring_run_wf:
  assumes "length ops < 2 ^ 64"
  shows "ring_wf (ring_run ops) \<and> unat (gr_counter (ring_run ops)) \<le> length ops \<and>
    snd ` set (gr_nodes (ring_run ops)) = ring_members ops"
  using assms
proof (induction ops rule: rev_induct)
  case Nil
  show ?case using ring_new_wf by (simp add: ring_run_def ring_members_def ring_new_def)
next
  case (snoc op ops)
  define r where "r = ring_run ops"
  have IH: "ring_wf r" "unat (gr_counter r) \<le> length ops" "snd ` set (gr_nodes r) = ring_members ops"
    using snoc by (auto simp: r_def)
  have c: "gr_counter r \<noteq> - 1" using IH(2) snoc.prems by (intro below_max) simp
  have run: "ring_run (ops @ [op]) = ring_step op r" "ring_members (ops @ [op]) = members_step op (ring_members ops)"
    by (simp_all add: ring_run_def ring_members_def r_def)
  show ?case
  proof (cases op)
    case (RingAdd x)
    have "unat (gr_counter r + 1) \<le> Suc (unat (gr_counter r))"
      using mod_less_eq_dividend [of "unat (gr_counter r) + 1" "2 ^ 64"] by (simp add: unat_word_ariths)
    then have "unat (gr_counter (ring_add x r)) \<le> Suc (length ops)" using IH(2) by (simp add: ring_add_def Let_def)
    moreover have "gr_id_to_pos r x \<noteq> None \<Longrightarrow> x \<in> snd ` set (gr_nodes r)" using IH(1) by (force simp: ring_wf_def)
    ultimately show ?thesis unfolding run using RingAdd ring_add_wf [OF IH(1) c, of x] IH(3) by auto
  next
    case (RingRemove x)
    have "snd ` {n \<in> set (gr_nodes r). snd n \<noteq> x} = snd ` set (gr_nodes r) - {x}" by auto
    then show ?thesis unfolding run using RingRemove ring_remove_wf [OF IH(1), of x] IH(2,3) by simp
  qed
qed

section \<open>Properties\<close>

text \<open>After any sequence of additions and removals (fewer than \<open>2 ^ 64\<close>) a key is routed exactly when the ring has a
  member, to a current member, and to the one whose position follows the key's most closely going
  around the ring of \<open>2 ^ 64\<close> positions, wrap-around included.\<close>

theorem ring_routes_clockwise:
  assumes "length ops < 2 ^ 64"
  defines "r \<equiv> ring_run ops"
  shows "(ring_route key r = None \<longleftrightarrow> ring_members ops = {}) \<and>
    (\<forall>e. ring_route key r = Some e \<longrightarrow> e \<in> ring_members ops \<and>
      (\<forall>e' \<in> ring_members ops. the (gr_id_to_pos r e) - placement_fixed key \<le> the (gr_id_to_pos r e') - placement_fixed key))"
proof -
  have wf: "ring_wf r" and m: "snd ` set (gr_nodes r) = ring_members ops"
    using ring_run_wf [OF assms(1)] by (auto simp: r_def)
  have pos: "the (gr_id_to_pos r e) = p" if "(p, e) \<in> set (gr_nodes r)" for p e using wf that by (auto simp: ring_wf_def)
  have "ring_route key r = None \<longleftrightarrow> ring_members ops = {}" using ring_route_next(1) [OF wf] m by auto
  moreover have "e \<in> ring_members ops \<and> the (gr_id_to_pos r e) - placement_fixed key \<le> the (gr_id_to_pos r e') - placement_fixed key"
    if route: "ring_route key r = Some e" and e': "e' \<in> ring_members ops" for e e'
  proof -
    obtain p where p: "(p, e) \<in> set (gr_nodes r)" "\<forall>n \<in> set (gr_nodes r). p - placement_fixed key \<le> fst n - placement_fixed key"
      using route ring_route_next(2) [OF wf] by (auto simp: next_clockwise_def)
    obtain p' where "(p', e') \<in> set (gr_nodes r)" using e' m by force
    then show ?thesis using p pos m by force
  qed
  ultimately show ?thesis by (metis option.distinct(1) ex_in_conv)
qed

theorem ring_routes_clockwise_witness:
  "ring_route 3 (ring_run [RingAdd 7, RingAdd 8, RingRemove 7]) = Some 8 \<and>
   8 \<in> ring_members [RingAdd 7, RingAdd 8, RingRemove 7]"
proof -
  have "ring_route 3 (ring_run [RingAdd 7, RingAdd 8, RingRemove 7]) = Some 8" by code_simp
  with ring_routes_clockwise [of "[RingAdd 7, RingAdd 8, RingRemove 7]" 3] show ?thesis by simp
qed

text \<open>C36: Changing the membership moves only the keys it must.  Adding a member leaves every key where it was or moves it
  to the new member; removing a member leaves every key of the other members where it was.\<close>

theorem ring_minimal_disruption:
  assumes "length ops + 1 < 2 ^ 64"
  defines "r \<equiv> ring_run ops"
  shows "ring_route key (ring_add x r) \<in> {ring_route key r, Some x} \<and>
    (ring_route key r \<noteq> Some x \<longrightarrow> ring_route key (snd (ring_remove x r)) = ring_route key r)"
proof
  have R: "ring_wf r" "unat (gr_counter r) \<le> length ops" using ring_run_wf [of ops] assms(1) by (auto simp: r_def)
  have c: "gr_counter r \<noteq> - 1" using R(2) assms(1) by (intro below_max) simp
  note A = ring_add_wf [OF R(1) c, of x] and D = ring_remove_wf [OF R(1), of x]
  show "ring_route key (ring_add x r) \<in> {ring_route key r, Some x}"
  proof (cases "ring_route key (ring_add x r)")
    case None
    then have "gr_nodes (ring_add x r) = []" using ring_route_next(1) [OF A(1)] by simp
    then have "gr_nodes r = []" using A(2) by (auto split: if_splits)
    then show ?thesis using None ring_route_next(1) [OF R(1)] by simp
  next
    case (Some e)
    then obtain p where p: "next_clockwise (set (gr_nodes (ring_add x r))) (placement_fixed key) (p, e)"
      using ring_route_next(2) [OF A(1)] by blast
    show ?thesis
    proof (cases "e = x")
      case False
      then have "next_clockwise (set (gr_nodes r)) (placement_fixed key) (p, e)"
        using p unfolding next_clockwise_def A(2) by (auto split: if_splits)
      then have "ring_route key r = Some e" using ring_route_next(2) [OF R(1)] by blast
      then show ?thesis using Some by simp
    qed (simp add: Some)
  qed
  show "ring_route key r \<noteq> Some x \<longrightarrow> ring_route key (snd (ring_remove x r)) = ring_route key r"
  proof
    assume ne: "ring_route key r \<noteq> Some x"
    show "ring_route key (snd (ring_remove x r)) = ring_route key r"
    proof (cases "ring_route key r")
      case None
      then have "gr_nodes r = []" using ring_route_next(1) [OF R(1)] by simp
      then have "gr_nodes (snd (ring_remove x r)) = []" using D(2) by simp
      then show ?thesis using None ring_route_next(1) [OF D(1)] by simp
    next
      case (Some e)
      then obtain p where "next_clockwise (set (gr_nodes r)) (placement_fixed key) (p, e)"
        using ring_route_next(2) [OF R(1)] by blast
      then have "next_clockwise (set (gr_nodes (snd (ring_remove x r)))) (placement_fixed key) (p, e)"
        using ne Some unfolding next_clockwise_def D(2) by auto
      then show ?thesis using Some ring_route_next(2) [OF D(1)] by auto
    qed
  qed
qed

theorem ring_minimal_disruption_witness:
  "ring_route 1 (snd (ring_remove 7 (ring_run [RingAdd 7, RingAdd 8]))) = ring_route 1 (ring_run [RingAdd 7, RingAdd 8])"
proof -
  have "ring_route 1 (ring_run [RingAdd 7, RingAdd 8]) = Some 8" by code_simp
  with ring_minimal_disruption [of "[RingAdd 7, RingAdd 8]" 1 7] show ?thesis by simp
qed

text \<open>The window after \<open>n\<close> successes in a row: it grew by the first \<open>n\<close> Fibonacci numbers \<open>1, 2, 3, 5, \<dots>\<close>, whose sum is
  \<open>fibn (n + 1) - 2\<close>, and is capped at the maximum; the saturation of the increments does not show.\<close>

lemma saturating_add_val: "unat (saturating_add a b) = min (2 ^ 64 - 1) (unat a + unat b)"
  by (simp add: saturating_add_def unat_word_ariths unsigned_minus_1_eq_mask mask_eq_exp_minus_1)

lemma min_val: "unat (min a b :: u64) = min (unat a) (unat b)"
  by (simp add: min_def word_le_nat_alt)

lemma fibn_lower: "1 \<le> fibn n" "2 \<le> fibn (Suc n)"
  by (induction n rule: fibn.induct) simp_all

lemma backoff_growth:
  "let f = (on_success ^^ n) (backoff_new initial mx)
   in unat (fb_window f) = (if n = 0 then unat initial else min (unat mx) (unat initial + (fibn (n + 1) - 2))) \<and>
      unat (fb_b f) = min (2 ^ 64 - 1) (fibn n) \<and>
      unat (fb_a f) = min (2 ^ 64 - 1) (if n = 0 then 1 else fibn (n - 1)) \<and> fb_max f = mx"
proof (induction n)
  case 0
  show ?case by (simp add: backoff_new_def)
next
  case (Suc n)
  define f where "f = (on_success ^^ n) (backoff_new initial mx)"
  have IH: "unat (fb_window f) = (if n = 0 then unat initial else min (unat mx) (unat initial + (fibn (n + 1) - 2)))"
      "unat (fb_b f) = min (2 ^ 64 - 1) (fibn n)"
      "unat (fb_a f) = min (2 ^ 64 - 1) (if n = 0 then 1 else fibn (n - 1))" "fb_max f = mx"
    using Suc by (simp_all add: f_def Let_def)
  have mx: "unat mx \<le> 2 ^ 64 - 1" using unsigned_less [of mx, where ?'a = nat] by simp
  have f': "(on_success ^^ Suc n) (backoff_new initial mx) = on_success f" by (simp add: f_def)
  have fib: "fibn (n + 2) - 2 = fibn (n + 1) - 2 + fibn n" using fibn_lower(2) [of n] by simp
  have w: "unat (fb_window (on_success f)) = min (min (2 ^ 64 - 1) (unat (fb_window f) + unat (fb_b f))) (unat mx)"
    by (simp add: on_success_def Let_def min_val saturating_add_val IH(4))
  have "unat (fb_window (on_success f)) = min (unat mx) (unat initial + (fibn (n + 2) - 2))"
    unfolding w IH(1,2) fib using mx by (cases "n = 0") (auto simp: min_def)
  moreover have "unat (fb_b (on_success f)) = min (2 ^ 64 - 1) (fibn (Suc n))"
  proof (cases n)
    case 0
    then show ?thesis using IH(2,3) by (simp add: on_success_def Let_def saturating_add_val)
  next
    case (Suc m)
    then show ?thesis using IH(2,3) by (simp add: on_success_def Let_def saturating_add_val min_def)
  qed
  ultimately show ?case unfolding f' using IH(2,4) by (simp add: on_success_def Let_def)
qed

text \<open>A multiplicative hash of \<open>b\<close> bits is an index below \<open>2 ^ b\<close>.\<close>

lemma fib_hash_bound:
  assumes "0 < b" "b \<le> 64"
  shows "\<exists>i < 2 ^ b. fib_hash64 key b = Ok i" "\<exists>i < 2 ^ b. fib_hash64_u64 k b = Ok i"
proof -
  have "unat (drop_bit (64 - b) w) < 2 ^ b" for w :: u64
  proof -
    have "unat w < 2 ^ b * 2 ^ (64 - b)" using assms unsigned_less [of w, where ?'a = nat] by (simp flip: power_add)
    moreover have "unat (drop_bit (64 - b) w) = unat w div 2 ^ (64 - b)"
      by (simp only: unat_drop_bit_eq) (simp only: drop_bit_eq_div)
    ultimately show ?thesis by (simp only: less_mult_imp_div_less)
  qed
  then show "\<exists>i < 2 ^ b. fib_hash64 key b = Ok i" "\<exists>i < 2 ^ b. fib_hash64_u64 k b = Ok i"
    using assms by (simp_all add: fib_hash64_def fib_hash64_u64_def Let_def)
qed

end
