(* ===== verification/Cayley.thy ===== *)
theory Cayley
  imports Prelude
begin

text \<open>
  The circulant overlay (\<open>crates/coding/src/cayley.rs\<close>): the graph, its Fibonacci-spaced construction, neighbours,
  breadth-first shortest paths and greedy routing.  Sums that can exceed \<open>usize\<close> wrap, as the release profile
  has it; the sums of \<open>fibonacci_jumps\<close> cannot, their terms being below \<open>n / 2\<close>.  Indexing outside a vector
  panics, and following the predecessors back is a partial function, since nothing in the code
  bounds it; both are shown not to matter.
\<close>

section \<open>Operations\<close>

datatype cayley_error = OutOfRange nat nat | NoPath nat nat

record cayley_graph =
  cg_n :: nat
  cg_jumps :: "nat list"

definition norm_jump :: "nat \<Rightarrow> nat \<Rightarrow> nat" where
  "norm_jump n s0 =
     (let s1 = s0 mod n; s2 = (if s1 = 0 then 1 else s1) in if s2 > n div 2 then n - s2 else s2)"

definition cayley_new :: "nat \<Rightarrow> nat list \<Rightarrow> (cayley_graph, cayley_error) outcome" where
  "cayley_new n jumps =
     (if n = 0 \<and> jumps \<noteq> [] then Panic
      else Ok \<lparr>cg_n = n, cg_jumps = remdups_adj (sort (map (norm_jump n) jumps))\<rparr>)"

text \<open>\<open>vec![1, 2]\<close> extended while its last entry is below \<open>n / 2\<close>\<close>

function fibs_below :: "nat \<Rightarrow> nat \<Rightarrow> nat \<Rightarrow> nat list" where
  "fibs_below h a b = (if 0 < a \<and> b < h then (a + b) # fibs_below h b (a + b) else [])"
  by pat_completeness auto
termination by (relation "measure (\<lambda>(h, a, b). h - b)") auto

declare fibs_below.simps [simp del]

definition fibonacci_jumps :: "nat \<Rightarrow> nat \<Rightarrow> (cayley_graph, cayley_error) outcome" where
  "fibonacci_jumps n degree =
     (let half = n div 2; fibs = 1 # 2 # fibs_below half 1 2;
          candidates = filter (\<lambda>f. 0 < f \<and> f \<le> half) fibs
      in if candidates = [] then cayley_new n [1]
         else if degree = 0 then Panic
         else
           let step = max (length candidates div degree) 1;
               chosen = map (\<lambda>i. candidates ! i) (take degree (filter (\<lambda>i. i mod step = 0) [0..<length candidates]))
           in cayley_new n chosen)"

definition neighbors :: "cayley_graph \<Rightarrow> nat \<Rightarrow> nat list" where
  "neighbors g u = concat (map (\<lambda>s. [usize_add u s mod cg_n g, usize_sub (usize_add u (cg_n g)) s mod cg_n g]) (cg_jumps g))"

record bfs =
  bf_prev :: "nat option list"
  bf_visited :: "bool list"
  bf_queue :: "nat list"

text \<open>The loop over the neighbours of \<open>u\<close>; true when the target was reached.\<close>

fun bfs_scan :: "nat \<Rightarrow> nat \<Rightarrow> nat list \<Rightarrow> bfs \<Rightarrow> (bool \<times> bfs, cayley_error) outcome" where
  "bfs_scan to u [] b = Ok (False, b)"
| "bfs_scan to u (v # vs) b =
     (if length (bf_visited b) \<le> v then Panic
      else if \<not> bf_visited b ! v then
        let b' = b\<lparr>bf_visited := (bf_visited b)[v := True], bf_prev := (bf_prev b)[v := Some u]\<rparr>
        in if v = to then Ok (True, b') else bfs_scan to u vs (b'\<lparr>bf_queue := bf_queue b' @ [v]\<rparr>)
      else bfs_scan to u vs b)"

definition bfs_measure :: "bfs \<Rightarrow> nat" where
  "bfs_measure b = 2 * length (filter Not (bf_visited b)) + length (bf_queue b)"

lemma filter_mark: "v < length xs \<Longrightarrow> \<not> xs ! v \<Longrightarrow> Suc (length (filter Not (xs[v := True]))) = length (filter Not xs)"
  by (induction xs arbitrary: v) (auto simp: nth_Cons split: nat.splits)

lemma bfs_scan_measure: "bfs_scan to u vs b = Ok (found, b') \<Longrightarrow> bfs_measure b' \<le> bfs_measure b"
proof (induction to u vs b rule: bfs_scan.induct)
  case (2 to u v vs b)
  show ?case
  proof (cases "bf_visited b ! v")
    case True
    then show ?thesis using 2 by (auto split: if_splits)
  next
    case False
    have v: "v < length (bf_visited b)" using 2(3) by (auto split: if_splits)
    note F = filter_mark [OF v False]
    show ?thesis using 2(1) [OF _ False refl] 2(3) False v F by (auto simp: bfs_measure_def Let_def split: if_splits)
  qed
qed simp

lemma bfs_pop_measure:
  assumes "bf_queue b = u # rest" "bfs_scan to u vs (b\<lparr>bf_queue := rest\<rparr>) = Ok (found, b')"
  shows "bfs_measure b' < bfs_measure b"
  using bfs_scan_measure [OF assms(2)] assms(1) by (simp add: bfs_measure_def)

text \<open>The vector \<open>path\<close> is kept in the order it has after \<open>path.reverse()\<close>.\<close>

partial_function (option) path_back :: "nat option list \<Rightarrow> nat \<Rightarrow> nat list \<Rightarrow> nat list option" where
  "path_back prev cur path =
     (case prev ! cur of None \<Rightarrow> Some path | Some p \<Rightarrow> path_back prev p (p # path))"

function bfs_loop :: "cayley_graph \<Rightarrow> nat \<Rightarrow> bfs \<Rightarrow> (bfs option, cayley_error) outcome" where
  "bfs_loop g to b =
     (case bf_queue b of
        [] \<Rightarrow> Ok None
      | u # rest \<Rightarrow>
          (case bfs_scan to u (neighbors g u) (b\<lparr>bf_queue := rest\<rparr>) of
             Ok (True, b') \<Rightarrow> Ok (Some b')
           | Ok (False, b') \<Rightarrow> bfs_loop g to b'
           | Err e \<Rightarrow> Err e
           | Panic \<Rightarrow> Panic))"
  by pat_completeness auto
termination
  by (relation "measure (\<lambda>(g, to, b). bfs_measure b)") (auto dest: bfs_pop_measure)

declare bfs_loop.simps [simp del]

text \<open>The result is \<open>None\<close> only if following the predecessors never ends.\<close>

definition shortest_path :: "cayley_graph \<Rightarrow> nat \<Rightarrow> nat \<Rightarrow> (nat list, cayley_error) outcome option" where
  "shortest_path g from to =
     (if cg_n g \<le> from \<or> cg_n g \<le> to then Some (Err (OutOfRange (max from to) (cg_n g)))
      else if from = to then Some (Ok [from])
      else
        case bfs_loop g to \<lparr>bf_prev = replicate (cg_n g) None, bf_visited = (replicate (cg_n g) False)[from := True],
            bf_queue = [from]\<rparr> of
          Ok (Some b) \<Rightarrow> map_option Ok (path_back (bf_prev b) to [to])
        | Ok None \<Rightarrow> Some (Err (NoPath from to))
        | Err e \<Rightarrow> Some (Err e)
        | Panic \<Rightarrow> Some Panic)"

definition cyclic_dist :: "nat \<Rightarrow> nat \<Rightarrow> nat \<Rightarrow> nat" where
  "cyclic_dist a b n = (let d = usize_sub (usize_add a n) b mod n in min d (n - d))"

text \<open>\<open>min_by_key\<close> takes the first minimum, and \<open>unwrap\<close> panics without neighbours; \<open>steps\<close> are those left of the cap.\<close>

fun greedy_walk :: "cayley_graph \<Rightarrow> nat \<Rightarrow> nat \<Rightarrow> nat \<Rightarrow> nat list \<Rightarrow> (nat list \<times> nat, cayley_error) outcome" where
  "greedy_walk g to 0 cur path = Ok (path, cur)"
| "greedy_walk g to (Suc steps) cur path =
     (if cur = to then Ok (path, cur)
      else if neighbors g cur = [] then Panic
      else
        let best = arg_min_list (\<lambda>v. cyclic_dist v to (cg_n g)) (neighbors g cur)
        in greedy_walk g to steps best (path @ [best]))"

definition greedy_route :: "cayley_graph \<Rightarrow> nat \<Rightarrow> nat \<Rightarrow> (nat list, cayley_error) outcome" where
  "greedy_route g from to =
     (if cg_n g \<le> from \<or> cg_n g \<le> to then Err (OutOfRange (max from to) (cg_n g))
      else obind (greedy_walk g to (usize_add (cg_n g) 1) from [from]) (\<lambda>(path, cur).
             if cur = to then Ok path else Err (NoPath from to)))"

section \<open>Walks\<close>

inductive hops :: "cayley_graph \<Rightarrow> nat \<Rightarrow> nat \<Rightarrow> nat \<Rightarrow> bool" for g :: cayley_graph and start :: nat where
  hops_0: "hops g start 0 start"
| hops_Suc: "hops g start k u \<Longrightarrow> v \<in> set (neighbors g u) \<Longrightarrow> hops g start (Suc k) v"

inductive_cases hops_SucE: "hops g from (Suc k) v"
inductive_simps hops_0_iff [simp]: "hops g from 0 v"

definition hop_dist :: "cayley_graph \<Rightarrow> nat \<Rightarrow> nat \<Rightarrow> nat" where
  "hop_dist g from v = (LEAST k. hops g from k v)"

lemma hop_dist_hops: "hops g from k v \<Longrightarrow> hops g from (hop_dist g from v) v" "hops g from k v \<Longrightarrow> hop_dist g from v \<le> k"
  unfolding hop_dist_def by (rule LeastI) (auto intro: Least_le)

lemma hop_dist_step:
  "hops g from k u \<Longrightarrow> v \<in> set (neighbors g u) \<Longrightarrow> hop_dist g from v \<le> Suc (hop_dist g from u)"
  by (meson hop_dist_hops hops_Suc)

lemma neighbors_less: "0 < cg_n g \<Longrightarrow> v \<in> set (neighbors g u) \<Longrightarrow> v < cg_n g"
  by (auto simp: neighbors_def)

text \<open>On the way to an unvisited node one leaves the visited ones through a node that was not expanded.\<close>

lemma leave_visited:
  assumes "hops g from k w" "V from" "\<not> V w" "\<And>v x. V v \<Longrightarrow> v \<notin> Q \<Longrightarrow> x \<in> set (neighbors g v) \<Longrightarrow> V x"
  shows "\<exists>j y. j < k \<and> hops g from j y \<and> y \<in> Q"
  using assms(1,3)
proof (induction rule: hops.induct)
  case (hops_Suc k u v)
  show ?case
  proof (cases "V u")
    case True
    then have "u \<in> Q" using assms(4) hops_Suc by blast
    then show ?thesis using hops_Suc by blast
  next
    case False
    then show ?thesis using hops_Suc less_Suc_eq by blast
  qed
qed (use assms(2) in simp)

section \<open>The search\<close>

text \<open>What holds between steps; \<open>Q\<close> is the queue, with the node under expansion at its head.\<close>

definition seen :: "cayley_graph \<Rightarrow> bfs \<Rightarrow> nat \<Rightarrow> bool" where
  "seen g b v \<longleftrightarrow> v < cg_n g \<and> bf_visited b ! v"

definition bfs_tree :: "cayley_graph \<Rightarrow> nat \<Rightarrow> bfs \<Rightarrow> bool" where
  "bfs_tree g s b \<longleftrightarrow>
     length (bf_visited b) = cg_n g \<and> length (bf_prev b) = cg_n g \<and> seen g b s \<and> bf_prev b ! s = None \<and>
     (\<forall>v. seen g b v \<longrightarrow> (\<exists>k. hops g s k v)) \<and>
     (\<forall>v. seen g b v \<and> v \<noteq> s \<longrightarrow>
        (\<exists>u. bf_prev b ! v = Some u \<and> seen g b u \<and> v \<in> set (neighbors g u) \<and> hop_dist g s v = Suc (hop_dist g s u)))"

definition bfs_queue :: "cayley_graph \<Rightarrow> nat \<Rightarrow> nat list \<Rightarrow> bfs \<Rightarrow> bool" where
  "bfs_queue g s Q b \<longleftrightarrow>
     (\<forall>v \<in> set Q. seen g b v) \<and> sorted (map (hop_dist g s) Q) \<and>
     (\<forall>v \<in> set Q. hop_dist g s v \<le> Suc (hop_dist g s (hd Q))) \<and>
     (\<forall>v x. seen g b v \<and> v \<notin> set Q \<and> x \<in> set (neighbors g v) \<longrightarrow> seen g b x)"

definition mark :: "nat \<Rightarrow> nat \<Rightarrow> bfs \<Rightarrow> bfs" where
  "mark u v b = b\<lparr>bf_visited := (bf_visited b)[v := True], bf_prev := (bf_prev b)[v := Some u]\<rparr>"

lemma seen_mark: "length (bf_visited b) = cg_n g \<Longrightarrow> v < cg_n g \<Longrightarrow> seen g (mark u v b) x \<longleftrightarrow> x = v \<or> seen g b x"
  by (auto simp: seen_def mark_def nth_list_update)

lemma seen_queue [simp]: "seen g (b\<lparr>bf_queue := q\<rparr>) = seen g b" "bfs_tree g s (b\<lparr>bf_queue := q\<rparr>) = bfs_tree g s b"
    "bfs_queue g s Q (b\<lparr>bf_queue := q\<rparr>) = bfs_queue g s Q b"
  by (auto simp: seen_def bfs_tree_def bfs_queue_def fun_eq_iff)

lemma new_node_distance:
  assumes T: "bfs_tree g s b" and Q: "bfs_queue g s (u # q) b" and v: "v \<in> set (neighbors g u)" "\<not> seen g b v"
  shows "hops g s (Suc (hop_dist g s u)) v" "hop_dist g s v = Suc (hop_dist g s u)"
proof -
  have u: "seen g b u" using Q by (simp add: bfs_queue_def)
  then obtain k where k: "hops g s k u" using T by (auto simp: bfs_tree_def)
  show h: "hops g s (Suc (hop_dist g s u)) v" using hops_Suc [OF hop_dist_hops(1) [OF k] v(1)] .
  have "hops g s (hop_dist g s v) v" using hop_dist_hops(1) [OF h] .
  then have "\<exists>j y. j < hop_dist g s v \<and> hops g s j y \<and> y \<in> set (u # q)"
    by (rule leave_visited [where V = "seen g b"]) (use T Q v in \<open>auto simp: bfs_tree_def bfs_queue_def\<close>)
  then obtain j y where y: "j < hop_dist g s v" "hops g s j y" "y \<in> set (u # q)" by blast
  have "hop_dist g s u \<le> hop_dist g s y" using y(3) Q by (auto simp: bfs_queue_def)
  then have "hop_dist g s u < hop_dist g s v" using hop_dist_hops(2) [OF y(2)] y(1) by simp
  then show "hop_dist g s v = Suc (hop_dist g s u)" using hop_dist_step [OF k v(1)] by simp
qed

lemma mark_inv:
  assumes T: "bfs_tree g s b" and Q: "bfs_queue g s (u # q) b" and v: "v \<in> set (neighbors g u)" "\<not> seen g b v" "v < cg_n g"
  shows "bfs_tree g s (mark u v b)" "bfs_queue g s (u # q @ [v]) (mark u v b)"
proof -
  note D = new_node_distance [OF T Q v(1,2)]
  have S: "seen g (mark u v b) x \<longleftrightarrow> x = v \<or> seen g b x" for x
    using seen_mark [of b g v u x] v(3) T by (simp add: bfs_tree_def)
  have u: "seen g b u" using Q by (simp add: bfs_queue_def)
  have P: "bf_prev (mark u v b) ! x = (if x = v then Some u else bf_prev b ! x)" if "x < cg_n g" for x
    using that T v(3) by (simp add: mark_def bfs_tree_def nth_list_update)
  have sv: "seen g b s" "s \<noteq> v" using T v(2) by (auto simp: bfs_tree_def)
  have lt: "seen g b x \<Longrightarrow> x < cg_n g" for x by (simp add: seen_def)
  have "\<exists>w. bf_prev (mark u v b) ! x = Some w \<and> seen g (mark u v b) w \<and> x \<in> set (neighbors g w) \<and>
      hop_dist g s x = Suc (hop_dist g s w)" if x': "seen g (mark u v b) x" "x \<noteq> s" for x
  proof (cases "x = v")
    case True
    then show ?thesis using P [OF v(3)] u S v(1) D(2) by auto
  next
    case False
    then have x: "seen g b x" using x' S by simp
    then obtain w where "bf_prev b ! x = Some w" "seen g b w" "x \<in> set (neighbors g w)" "hop_dist g s x = Suc (hop_dist g s w)"
      using T x'(2) by (auto simp: bfs_tree_def)
    then show ?thesis using P [OF lt [OF x]] False S by auto
  qed
  moreover have "\<exists>k. hops g s k x" if "seen g (mark u v b) x" for x using that S T D(1) by (auto simp: bfs_tree_def)
  ultimately show "bfs_tree g s (mark u v b)"
    using T sv P [OF lt [OF sv(1)]] unfolding bfs_tree_def S by (simp add: mark_def)
  have "\<forall>x \<in> set (u # q). hop_dist g s x \<le> Suc (hop_dist g s u)" using Q by (auto simp: bfs_queue_def)
  then show "bfs_queue g s (u # q @ [v]) (mark u v b)"
    using Q S D(2) unfolding bfs_queue_def by (auto simp: sorted_append)
qed

text \<open>One scan: it does not panic, and it either meets the target or has seen all the neighbours.\<close>

lemma scan_inv:
  assumes "bfs_tree g s b" "bfs_queue g s (u # bf_queue b) b" "set vs \<subseteq> set (neighbors g u)" "\<forall>v \<in> set vs. v < cg_n g"
    and "\<not> seen g b to"
  shows "\<exists>found b'. bfs_scan to u vs b = Ok (found, b') \<and> bfs_tree g s b' \<and> (\<forall>x. seen g b x \<longrightarrow> seen g b' x) \<and>
    (if found then seen g b' to
     else \<not> seen g b' to \<and> bfs_queue g s (u # bf_queue b') b' \<and> (\<forall>v \<in> set vs. seen g b' v))"
  using assms
proof (induction to u vs b rule: bfs_scan.induct)
  case (1 to u b)
  then show ?case by (auto intro!: exI [of _ False])
next
  case (2 to u v vs b)
  have v: "v < cg_n g" "v \<in> set (neighbors g u)" and len: "length (bf_visited b) = cg_n g"
    using 2(3,5,6) by (auto simp: bfs_tree_def)
  show ?case
  proof (cases "seen g b v")
    case True
    then have "bfs_scan to u (v # vs) b = bfs_scan to u vs b" using len by (simp add: seen_def)
    moreover note 2(2) [OF _ _ 2(3,4) _ _ 2(7)]
    ultimately show ?thesis using 2(5,6) True len by (fastforce simp: seen_def)
  next
    case False
    note M = mark_inv [OF 2(3,4) v(2) False v(1)]
    have S: "seen g (mark u v b) x \<longleftrightarrow> x = v \<or> seen g b x" for x using seen_mark [OF len v(1)] .
    define b1 where "b1 = (mark u v b)\<lparr>bf_queue := bf_queue b @ [v]\<rparr>"
    have nv: "\<not> bf_visited b ! v" using False v(1) by (simp add: seen_def)
    have scan: "bfs_scan to u (v # vs) b = (if v = to then Ok (True, mark u v b) else bfs_scan to u vs b1)"
      using len v(1) nv by (simp add: mark_def b1_def Let_def)
    show ?thesis
    proof (cases "v = to")
      case True
      then show ?thesis unfolding scan using M(1) S by auto
    next
      case ne: False
      have "\<exists>found b'. bfs_scan to u vs b1 = Ok (found, b') \<and> bfs_tree g s b' \<and> (\<forall>x. seen g b1 x \<longrightarrow> seen g b' x) \<and>
          (if found then seen g b' to
           else \<not> seen g b' to \<and> bfs_queue g s (u # bf_queue b') b' \<and> (\<forall>v \<in> set vs. seen g b' v))"
        using 2(1) [OF _ nv refl ne, of] len v(1) M 2(5-7) ne S
        by (simp add: b1_def mark_def)
      then show ?thesis unfolding scan using ne S by (fastforce simp: b1_def)
    qed
  qed
qed

lemma pop_inv:
  assumes "bfs_queue g s (u # q) b" "\<forall>v \<in> set (neighbors g u). seen g b v"
  shows "bfs_queue g s q b"
proof -
  have "hop_dist g s v \<le> Suc (hop_dist g s (hd q))" if "v \<in> set q" for v
  proof -
    have "hop_dist g s u \<le> hop_dist g s (hd q)" using assms(1) that by (cases q) (auto simp: bfs_queue_def)
    then show ?thesis using assms(1) that by (fastforce simp: bfs_queue_def)
  qed
  then show ?thesis using assms unfolding bfs_queue_def by (auto, metis)
qed

lemma loop_inv:
  assumes "bfs_tree g s b" "bfs_queue g s (bf_queue b) b" "\<not> seen g b to" "0 < cg_n g"
  shows "(\<exists>b'. bfs_loop g to b = Ok (Some b') \<and> bfs_tree g s b' \<and> seen g b' to) \<or>
    (bfs_loop g to b = Ok None \<and> (\<nexists>k. hops g s k to))"
  using assms
proof (induction g to b rule: bfs_loop.induct)
  case (1 g to b)
  show ?case
  proof (cases "bf_queue b")
    case Nil
    have "\<nexists>k. hops g s k to"
    proof
      assume "\<exists>k. hops g s k to"
      then obtain k where "hops g s k to" ..
      then have "\<exists>j y. j < k \<and> hops g s j y \<and> y \<in> {}"
        by (rule leave_visited [where V = "seen g b"]) (use 1(2-4) Nil in \<open>auto simp: bfs_tree_def bfs_queue_def\<close>)
      then show False by simp
    qed
    then show ?thesis by (subst (1 2) bfs_loop.simps) (simp add: Nil)
  next
    case (Cons u rest)
    obtain found b' where sc: "bfs_scan to u (neighbors g u) (b\<lparr>bf_queue := rest\<rparr>) = Ok (found, b')" and T: "bfs_tree g s b'"
      and F: "if found then seen g b' to
        else \<not> seen g b' to \<and> bfs_queue g s (u # bf_queue b') b' \<and> (\<forall>v \<in> set (neighbors g u). seen g b' v)"
      using scan_inv [of g s "b\<lparr>bf_queue := rest\<rparr>" u "neighbors g u" to] 1(2-5) Cons neighbors_less [OF 1(5)] by auto
    show ?thesis
    proof (cases found)
      case True
      then have "bfs_loop g to b = Ok (Some b')" by (subst bfs_loop.simps) (simp add: Cons sc)
      then show ?thesis using T F True by auto
    next
      case False
      then have l: "bfs_loop g to b = bfs_loop g to b'" by (subst bfs_loop.simps) (simp add: Cons sc)
      have "bfs_queue g s (bf_queue b') b'" using pop_inv F False by auto
      then show ?thesis unfolding l using 1(1) [OF Cons sc refl] T F False 1(5) by simp
    qed
  qed
qed

abbreviation walk :: "cayley_graph \<Rightarrow> nat list \<Rightarrow> bool" where
  "walk g xs \<equiv> successively (\<lambda>u v. v \<in> set (neighbors g u)) xs"

lemma path_back_walk:
  assumes T: "bfs_tree g s b" and v: "seen g b v"
  shows "\<exists>pre. path_back (bf_prev b) v (v # path) = Some (pre @ v # path) \<and> length pre = hop_dist g s v \<and>
    walk g (pre @ [v]) \<and> hd (pre @ [v]) = s"
  using v
proof (induction "hop_dist g s v" arbitrary: v path rule: less_induct)
  case less
  show ?case
  proof (cases "v = s")
    case True
    then have "bf_prev b ! v = None" using T by (simp add: bfs_tree_def)
    moreover have "hop_dist g s v = 0" using True hop_dist_hops(2) [of g s 0 s] by simp
    ultimately show ?thesis using True by (subst path_back.simps) simp
  next
    case False
    then obtain u where u: "bf_prev b ! v = Some u" "seen g b u" "v \<in> set (neighbors g u)" "hop_dist g s v = Suc (hop_dist g s u)"
      using T less.prems by (auto simp: bfs_tree_def)
    then obtain pre where pre: "path_back (bf_prev b) u (u # v # path) = Some (pre @ u # v # path)" "length pre = hop_dist g s u"
        "walk g (pre @ [u])" "hd (pre @ [u]) = s"
      using less.hyps [of u "v # path"] by auto
    have "path_back (bf_prev b) v (v # path) = Some ((pre @ [u]) @ v # path)"
      using pre(1) u(1) by (subst path_back.simps) simp
    moreover have "walk g ((pre @ [u]) @ [v])" using pre(3) u(3) by (simp add: successively_append_iff)
    moreover have "hd ((pre @ [u]) @ [v]) = s" using pre(4) by (cases pre) auto
    ultimately show ?thesis using pre(2) u(4) by (intro exI [of _ "pre @ [u]"]) simp
  qed
qed

lemma walk_hops: "walk g xs \<Longrightarrow> xs \<noteq> [] \<Longrightarrow> hops g (hd xs) (length xs - 1) (last xs)"
proof (induction xs rule: rev_induct)
  case (snoc x xs)
  show ?case
  proof (cases "xs = []")
    case False
    then have "hops g (hd xs) (length xs - 1) (last xs)" "x \<in> set (neighbors g (last xs))"
      using snoc by (auto simp: successively_append_iff)
    then have "hops g (hd xs) (Suc (length xs - 1)) x" by (rule hops_Suc)
    then show ?thesis using False by simp
  qed (simp add: hops_0)
qed simp

section \<open>Properties\<close>

text \<open>C37: Breadth-first search finds a shortest path.  Between two nodes of the graph the call always returns, never
  panics, and either returns a walk along edges from the first to the second that is no longer than
  any other, or reports that there is none, and then there is none.\<close>

theorem shortest_path_correct:
  assumes "from < cg_n g" "to < cg_n g"
  shows "(\<exists>p. shortest_path g from to = Some (Ok p) \<and> p \<noteq> [] \<and> hd p = from \<and> last p = to \<and> walk g p \<and>
      (\<forall>q. q \<noteq> [] \<and> hd q = from \<and> last q = to \<and> walk g q \<longrightarrow> length p \<le> length q)) \<or>
    (shortest_path g from to = Some (Err (NoPath from to)) \<and>
      (\<nexists>q. q \<noteq> [] \<and> hd q = from \<and> last q = to \<and> walk g q))"
proof (cases "from = to")
  case True
  then show ?thesis using assms by (intro disjI1 exI [of _ "[from]"]) (auto simp: shortest_path_def Suc_le_eq)
next
  case False
  define b where "b = \<lparr>bf_prev = replicate (cg_n g) None, bf_visited = (replicate (cg_n g) False)[from := True], bf_queue = [from]\<rparr>"
  have S: "seen g b v \<longleftrightarrow> v = from" for v using assms(1) by (auto simp: seen_def b_def nth_list_update)
  have "\<exists>k. hops g from k from" by (rule exI, rule hops_0)
  then have T: "bfs_tree g from b" using assms(1) unfolding bfs_tree_def S by (auto simp: b_def)
  have Q: "bfs_queue g from (bf_queue b) b" using S by (simp add: bfs_queue_def b_def)
  have sp: "shortest_path g from to = (case bfs_loop g to b of
      Ok (Some b') \<Rightarrow> map_option Ok (path_back (bf_prev b') to [to]) | Ok None \<Rightarrow> Some (Err (NoPath from to))
      | Err e \<Rightarrow> Some (Err e) | Panic \<Rightarrow> Some Panic)"
    using assms False by (simp add: shortest_path_def b_def)
  have walks: "hops g from (length q - 1) to" if "q \<noteq> []" "hd q = from" "last q = to" "walk g q" for q
    using walk_hops [OF that(4,1)] that(2,3) by simp
  consider (found) b' where "bfs_loop g to b = Ok (Some b')" "bfs_tree g from b'" "seen g b' to"
    | (none) "bfs_loop g to b = Ok None" "\<nexists>k. hops g from k to"
    using loop_inv [OF T Q, of to] S False assms(1) by auto
  then show ?thesis
  proof cases
    case found
    obtain pre where pre: "path_back (bf_prev b') to [to] = Some (pre @ [to])" "length pre = hop_dist g from to"
        "walk g (pre @ [to])" "hd (pre @ [to]) = from"
      using path_back_walk [OF found(2,3), of "[]"] by auto
    have "length (pre @ [to]) \<le> length q" if "q \<noteq> []" "hd q = from" "last q = to" "walk g q" for q
    proof -
      have "length pre \<le> length q - 1" using hop_dist_hops(2) [OF walks [OF that]] pre(2) by simp
      then show ?thesis using that(1) by (cases q) simp_all
    qed
    then show ?thesis using sp found(1) pre by (intro disjI1 exI [of _ "pre @ [to]"]) simp
  next
    case none
    then show ?thesis using sp walks by auto
  qed
qed

definition demo_ring :: cayley_graph where
  "demo_ring = \<lparr>cg_n = 8, cg_jumps = [1, 3]\<rparr>"

theorem shortest_path_correct_witness:
  "\<exists>p. shortest_path demo_ring 0 5 = Some (Ok p) \<and> hd p = 0 \<and> last p = 5 \<and> length p \<le> 2"
proof -
  have "walk demo_ring [0, 5]" by (simp add: demo_ring_def neighbors_def usize_add_def usize_sub_def)
  then have q: "[0, 5 :: nat] \<noteq> [] \<and> hd [0, 5 :: nat] = 0 \<and> last [0, 5 :: nat] = 5 \<and> walk demo_ring [0, 5]" by simp
  have "0 < cg_n demo_ring" "5 < cg_n demo_ring" by (simp_all add: demo_ring_def)
  from shortest_path_correct [OF this] q show ?thesis by (metis length_Cons list.size(3) numeral_2_eq_2)
qed

text \<open>On at most \<open>2 ^ 63\<close> nodes no sum wraps.\<close>

lemma ring_exact:
  assumes "n \<le> 2 ^ 63" "a < n" "b \<le> n"
  shows "usize_sub (usize_add a n) b = a + n - b" "usize_add a 1 = a + 1" "usize_add n 1 = n + 1"
  using assms by (simp_all add: usize_add_exact usize_sub_exact)

text \<open>One of the two nodes beside \<open>a\<close> is closer to the target.\<close>

lemma beside_closer:
  assumes "n \<le> 2 ^ 63" "a < n" "b < n" "a \<noteq> b"
  shows "cyclic_dist ((a + 1) mod n) b n < cyclic_dist a b n \<or> cyclic_dist ((a + n - 1) mod n) b n < cyclic_dist a b n"
proof -
  define c where "c = n - b"
  define d where "d = (a + c) mod n"
  have dist: "cyclic_dist x b n = min ((x + c) mod n) (n - (x + c) mod n)" if "x < n" for x
    using assms(3) ring_exact(1) [OF assms(1) that, of b] by (simp add: cyclic_dist_def c_def Let_def)
  have n: "0 < n" using assms(2) by simp
  note dists = dist [OF assms(2)] dist [OF mod_less_divisor [OF n]]
  have up: "((a + 1) mod n + c) mod n = (d + 1) mod n" by (simp add: d_def mod_simps)
  have "((a + n - 1) mod n + c) mod n = (a + n - 1 + c) mod n" by (simp add: mod_simps)
  also have "a + n - 1 + c = a + c + (n - 1)" using n by simp
  also have "\<dots> mod n = (d + (n - 1)) mod n" by (simp add: d_def mod_simps)
  finally have down: "((a + n - 1) mod n + c) mod n = (d + (n - 1)) mod n" .
  have d: "d < n" "0 < d"
  proof -
    show "d < n" using n by (simp add: d_def)
    show "0 < d"
    proof (cases "b \<le> a")
      case True
      then have "a + c = a - b + n" using assms by (simp add: c_def)
      then have "d = a - b" using assms(2) by (simp only: d_def mod_add_self2) simp
      then show ?thesis using True assms(4) by simp
    next
      case False
      then show ?thesis using assms by (simp add: d_def c_def)
    qed
  qed
  have "(d + (n - 1)) mod n = d - 1"
  proof -
    have "d + (n - 1) = d - 1 + n" using d by simp
    then show ?thesis using d by (simp only: mod_add_self2) simp
  qed
  moreover have "(d + 1) mod n = (if d + 1 = n then 0 else d + 1)" using d by auto
  ultimately show ?thesis
    unfolding dists up down d_def [symmetric] using d by (auto simp: min_def intro: diff_less_mono2)
qed

lemma greedy_walk_arrives:
  assumes one: "1 \<in> set (cg_jumps g)" and small: "cg_n g \<le> 2 ^ 63" and "cur < cg_n g" "to < cg_n g" "cyclic_dist cur to (cg_n g) < steps"
    and "walk g path" "path \<noteq> []" "last path = cur"
  shows "\<exists>path'. greedy_walk g to steps cur path = Ok (path', to) \<and> walk g path' \<and> path' \<noteq> [] \<and> last path' = to \<and>
    hd path' = hd path \<and> length path' \<le> length path + cyclic_dist cur to (cg_n g)"
  using assms(3-)
proof (induction steps arbitrary: cur path)
  case (Suc steps)
  show ?case
  proof (cases "cur = to")
    case False
    define f where "f v = cyclic_dist v to (cg_n g)" for v
    define best where "best = arg_min_list f (neighbors g cur)"
    have nb: "(cur + 1) mod cg_n g \<in> set (neighbors g cur)" "(cur + cg_n g - 1) mod cg_n g \<in> set (neighbors g cur)"
      using one ring_exact [OF small Suc.prems(1), of 1] Suc.prems(1) by (auto simp: neighbors_def intro!: bexI [of _ 1])
    then have ne: "neighbors g cur \<noteq> []" by auto
    have best: "best \<in> set (neighbors g cur)" using arg_min_list_in [OF ne] by (simp add: best_def)
    have "f best \<le> f v" if "v \<in> set (neighbors g cur)" for v
      using f_arg_min_list_f [OF ne, of f] that by (simp add: best_def)
    then have closer: "f best < f cur" using beside_closer [OF small Suc.prems(1,2) False] nb unfolding f_def by fastforce
    have "best < cg_n g" using neighbors_less [of g best cur] best Suc.prems(1) by simp
    moreover have "walk g (path @ [best])" using Suc.prems(4-6) best by (simp add: successively_append_iff)
    ultimately have "\<exists>path'. greedy_walk g to steps best (path @ [best]) = Ok (path', to) \<and> walk g path' \<and> path' \<noteq> [] \<and>
        last path' = to \<and> hd path' = hd (path @ [best]) \<and> length path' \<le> length (path @ [best]) + f best"
      unfolding f_def using closer Suc.prems(2,3) by (intro Suc.IH) (auto simp: f_def)
    moreover have "greedy_walk g to (Suc steps) cur path = greedy_walk g to steps best (path @ [best])"
      using False ne by (simp add: best_def f_def [abs_def] Let_def)
    ultimately show ?thesis using closer Suc.prems(5) by (fastforce simp: f_def)
  qed (use Suc.prems in auto)
qed simp

text \<open>The Fibonacci-spaced jumps always include 1.\<close>

lemma fibonacci_jumps_one:
  assumes "2 \<le> n" "0 < degree"
  shows "\<exists>g. fibonacci_jumps n degree = Ok g \<and> cg_n g = n \<and> 1 \<in> set (cg_jumps g)"
proof -
  define cs where "cs = filter (\<lambda>f. 0 < f \<and> f \<le> n div 2) (2 # fibs_below (n div 2) 1 2)"
  define step where "step = max (length (1 # cs) div degree) 1"
  define chosen where "chosen = map (\<lambda>i. (1 # cs) ! i) (take degree (filter (\<lambda>i. i mod step = 0) [0..<length (1 # cs)]))"
  have half: "1 \<le> n div 2" using assms(1) by simp
  have cand: "filter (\<lambda>f. 0 < f \<and> f \<le> n div 2) (1 # 2 # fibs_below (n div 2) 1 2) = 1 # cs"
    using half by (simp add: cs_def)
  have f: "fibonacci_jumps n degree = cayley_new n chosen"
    unfolding fibonacci_jumps_def Let_def cand step_def [symmetric] chosen_def [symmetric] using assms(2) by simp
  have u: "filter (\<lambda>i. i mod step = 0) [0..<length (1 # cs)] = 0 # filter (\<lambda>i. i mod step = 0) [1..<length (1 # cs)]"
    by (simp add: upt_conv_Cons del: upt_Suc)
  have "1 \<in> set chosen" unfolding chosen_def u using assms(2) by (cases degree) simp_all
  moreover have "norm_jump n 1 = 1" using assms(1) half by (simp add: norm_jump_def Let_def)
  ultimately have "1 \<in> norm_jump n ` set chosen" by force
  then show ?thesis using f assms(1) by (simp add: cayley_new_def)
qed

text \<open>C38: Greedy routing arrives.  On every graph built with Fibonacci-spaced jumps on two to \<open>2 ^ 63\<close> nodes, for every
  positive degree, routing between any two nodes succeeds within the cap on the steps, along edges, in
  at most as many hops as the two are apart on the ring.  (With more nodes the sums of the code wrap.)\<close>

theorem greedy_route_arrives:
  assumes "2 \<le> n" "n \<le> 2 ^ 63" "0 < degree" "from < n" "to < n"
  shows "\<exists>g p. fibonacci_jumps n degree = Ok g \<and> cg_n g = n \<and> greedy_route g from to = Ok p \<and>
    hd p = from \<and> last p = to \<and> walk g p \<and> length p \<le> cyclic_dist from to n + 1"
proof -
  obtain g where g: "fibonacci_jumps n degree = Ok g" "cg_n g = n" "1 \<in> set (cg_jumps g)"
    using fibonacci_jumps_one [OF assms(1,3)] by blast
  have "cyclic_dist from to n \<le> n"
    unfolding cyclic_dist_def Let_def by (rule order_trans [OF min.cobounded2 diff_le_self])
  then obtain p where "greedy_walk g to (n + 1) from [from] = Ok (p, to)" "walk g p" "p \<noteq> []" "last p = to" "hd p = from"
      "length p \<le> 1 + cyclic_dist from to n"
    using greedy_walk_arrives [OF g(3), of "from" to "n + 1" "[from]"] assms(2,4,5) g(2) by auto
  then show ?thesis using g assms(4,5) ring_exact(3) [OF assms(2,4) order_refl]
    by (intro exI [of _ g] exI [of _ p]) (simp add: greedy_route_def del: greedy_walk.simps)
qed

theorem greedy_route_arrives_witness:
  "\<exists>g p. fibonacci_jumps 8 2 = Ok g \<and> greedy_route g 1 6 = Ok p \<and> hd p = 1 \<and> last p = 6 \<and> length p \<le> 4"
proof -
  have "cyclic_dist 1 6 8 = 3" by (simp add: cyclic_dist_def usize_add_def usize_sub_def)
  then show ?thesis using greedy_route_arrives [of 8 2 1 6] by auto
qed

text \<open>On \<open>usize::MAX\<close> nodes the cap wraps to zero and no route between two nodes is found.\<close>

lemma greedy_route_cap_wraps:
  assumes "cg_n g = 2 ^ 64 - 1" "from < cg_n g" "to < cg_n g" "from \<noteq> to"
  shows "greedy_route g from to = Err (NoPath from to)"
  using assms by (simp add: greedy_route_def usize_add_def)

end
