(* ===== verification/Pipeline.thy ===== *)
theory Pipeline
  imports Prelude
begin

text \<open>
  The staged pipeline (\<open>crates/transport/src/pipeline.rs\<close>): stage threads joined by bounded FIFO channels, a feeder
  thread and the collecting caller, as a step relation in which any thread may move next.  A thread
  owns its input channel; it is either waiting in \<open>recv\<close> or holds a result it has not sent yet.  A
  channel of capacity zero takes an item only when its receiver waits.  Stage closures are total
  functions: one that panics is outside the model.
\<close>

section \<open>Threads and channels\<close>

record stage_thread =
  st_fn :: "bytes \<Rightarrow> bytes"
  st_in :: "bytes list"
  st_hand :: "bytes option"

definition channel_room :: "nat \<Rightarrow> bytes list \<Rightarrow> bool \<Rightarrow> bool" where
  "channel_room cap q waiting \<longleftrightarrow> length q < cap \<or> cap = 0 \<and> q = [] \<and> waiting"

text \<open>The stage threads with the tail channel; \<open>w\<close> says whether the collector waits.\<close>

inductive stages_step :: "nat \<Rightarrow> bool \<Rightarrow> stage_thread list \<times> bytes list \<Rightarrow> stage_thread list \<times> bytes list \<Rightarrow> bool"
  for cap :: nat and w :: bool where
  stage_recv: "st_hand s = None \<Longrightarrow> st_in s = x # q \<Longrightarrow>
    stages_step cap w (s # ss, t) (s\<lparr>st_in := q, st_hand := Some (st_fn s x)\<rparr> # ss, t)"
| stage_send: "st_hand s = Some y \<Longrightarrow> channel_room cap (st_in s') (st_hand s' = None) \<Longrightarrow>
    stages_step cap w (s # s' # ss, t) (s\<lparr>st_hand := None\<rparr> # s'\<lparr>st_in := st_in s' @ [y]\<rparr> # ss, t)"
| stage_send_tail: "st_hand s = Some y \<Longrightarrow> channel_room cap t w \<Longrightarrow>
    stages_step cap w ([s], t) ([s\<lparr>st_hand := None\<rparr>], t @ [y])"
| stage_later: "stages_step cap w (ss, t) (ss', t') \<Longrightarrow> stages_step cap w (s # ss, t) (s # ss', t')"

text \<open>One call of \<open>run\<close>: what the feeder still has, the threads, what was collected of the \<open>n\<close> results.\<close>

record run_state =
  ru_feed :: "bytes list"
  ru_stages :: "stage_thread list"
  ru_tail :: "bytes list"
  ru_out :: "bytes list"

fun head_room :: "nat \<Rightarrow> bool \<Rightarrow> stage_thread list \<Rightarrow> bytes list \<Rightarrow> bool" where
  "head_room cap w [] t = channel_room cap t w"
| "head_room cap w (s # ss) t = channel_room cap (st_in s) (st_hand s = None)"

fun head_send :: "bytes \<Rightarrow> stage_thread list \<Rightarrow> bytes list \<Rightarrow> stage_thread list \<times> bytes list" where
  "head_send x [] t = ([], t @ [x])"
| "head_send x (s # ss) t = (s\<lparr>st_in := st_in s @ [x]\<rparr> # ss, t)"

inductive run_step :: "nat \<Rightarrow> nat \<Rightarrow> run_state \<Rightarrow> run_state \<Rightarrow> bool" for cap :: nat and n :: nat where
  run_feed: "ru_feed r = x # xs \<Longrightarrow> head_room cap (length (ru_out r) < n) (ru_stages r) (ru_tail r) \<Longrightarrow>
    head_send x (ru_stages r) (ru_tail r) = (ss, t) \<Longrightarrow>
    run_step cap n r (r\<lparr>ru_feed := xs, ru_stages := ss, ru_tail := t\<rparr>)"
| run_stage: "stages_step cap (length (ru_out r) < n) (ru_stages r, ru_tail r) (ss, t) \<Longrightarrow>
    run_step cap n r (r\<lparr>ru_stages := ss, ru_tail := t\<rparr>)"
| run_collect: "length (ru_out r) < n \<Longrightarrow> ru_tail r = x # q \<Longrightarrow>
    run_step cap n r (r\<lparr>ru_tail := q, ru_out := ru_out r @ [x]\<rparr>)"

section \<open>Operations\<close>

record byte_pipeline =
  bp_stages :: "(bytes \<Rightarrow> bytes) list"
  bp_cap :: nat
  bp_workers :: "(stage_thread list \<times> bytes list) option"

definition pipeline_new :: "nat \<Rightarrow> byte_pipeline" where
  "pipeline_new cap = \<lparr>bp_stages = [], bp_cap = cap, bp_workers = None\<rparr>"

definition pipeline_stage :: "(bytes \<Rightarrow> bytes) \<Rightarrow> byte_pipeline \<Rightarrow> byte_pipeline" where
  "pipeline_stage f p = p\<lparr>bp_stages := bp_stages p @ [f]\<rparr>"

definition fresh_thread :: "(bytes \<Rightarrow> bytes) \<Rightarrow> stage_thread" where
  "fresh_thread f = \<lparr>st_fn = f, st_in = [], st_hand = None\<rparr>"

definition pipeline_spawn :: "byte_pipeline \<Rightarrow> (stage_thread list \<times> bytes list) \<times> byte_pipeline" where
  "pipeline_spawn p =
     (let w = (map fresh_thread (bp_stages p), []) in (w, p\<lparr>bp_stages := [], bp_workers := Some w\<rparr>))"

definition get_workers :: "byte_pipeline \<Rightarrow> (stage_thread list \<times> bytes list) \<times> byte_pipeline" where
  "get_workers p = (case bp_workers p of Some w \<Rightarrow> (w, p) | None \<Rightarrow> pipeline_spawn p)"

definition run_start :: "byte_pipeline \<Rightarrow> bytes list \<Rightarrow> run_state" where
  "run_start p input =
     (case get_workers p of ((ss, t), _) \<Rightarrow> \<lparr>ru_feed = input, ru_stages = ss, ru_tail = t, ru_out = []\<rparr>)"

text \<open>\<open>run\<close> returns when it has collected one result per input; the threads keep what they hold.\<close>

definition pipeline_run :: "byte_pipeline \<Rightarrow> bytes list \<Rightarrow> bytes list \<Rightarrow> byte_pipeline \<Rightarrow> bool" where
  "pipeline_run p input out p' \<longleftrightarrow>
     (if input = [] then out = [] \<and> p' = p
      else \<exists>m r. (run_step (bp_cap p) (length input) ^^ m) (run_start p input) r \<and> length (ru_out r) = length input \<and>
        out = ru_out r \<and> p' = (snd (get_workers p))\<lparr>bp_workers := Some (ru_stages r, ru_tail r)\<rparr>)"

section \<open>Flow of items\<close>

fun through :: "(bytes \<Rightarrow> bytes) list \<Rightarrow> bytes \<Rightarrow> bytes" where
  "through [] x = x"
| "through (f # fs) x = through fs (f x)"

abbreviation fns :: "stage_thread list \<Rightarrow> (bytes \<Rightarrow> bytes) list" where
  "fns ss \<equiv> map st_fn ss"

definition hand_list :: "bytes option \<Rightarrow> bytes list" where
  "hand_list h = (case h of None \<Rightarrow> [] | Some y \<Rightarrow> [y])"

lemma hand_list_simps [simp]: "hand_list None = []" "hand_list (Some y) = [y]"
  by (simp_all add: hand_list_def)

text \<open>What will still come out of the tail, in order.\<close>

fun flow :: "stage_thread list \<Rightarrow> bytes list \<Rightarrow> bytes list" where
  "flow [] t = t"
| "flow (s # ss) t = flow ss t @ map (through (fns ss)) (hand_list (st_hand s)) @ map (through (fns (s # ss))) (st_in s)"

text \<open>How many moves the items inside still have to make.\<close>

fun moves_left :: "stage_thread list \<Rightarrow> bytes list \<Rightarrow> nat" where
  "moves_left [] t = length t"
| "moves_left (s # ss) t = moves_left ss t + length (hand_list (st_hand s)) * (2 * length ss + 2) + length (st_in s) * (2 * length ss + 3)"

lemma stages_step_flow:
  assumes "stages_step cap w (ss, t) (ss', t')"
  shows "fns ss' = fns ss \<and> flow ss' t' = flow ss t \<and> Suc (moves_left ss' t') = moves_left ss t"
  using assms
proof (induction "(ss, t)" "(ss', t')" arbitrary: ss t ss' t' rule: stages_step.induct)
  case (stage_later ss t ss' t' s)
  then have "fns ss' = fns ss" "flow ss' t' = flow ss t" "Suc (moves_left ss' t') = moves_left ss t" "length ss' = length ss"
    by (auto dest: map_eq_imp_length_eq)
  then show ?case by simp
qed (auto simp: algebra_simps)

definition idle :: "stage_thread list \<Rightarrow> bool" where
  "idle ss \<longleftrightarrow> (\<forall>s \<in> set ss. st_in s = [] \<and> st_hand s = None)"

lemma flow_empty_iff: "flow ss t = [] \<longleftrightarrow> idle ss \<and> t = []"
  by (induction ss) (auto simp: idle_def hand_list_def split: option.splits)

text \<open>With an empty tail the threads move or are all idle.\<close>

lemma stages_progress:
  "(\<exists>ss' t'. stages_step cap True (ss, []) (ss', t')) \<or> idle ss"
proof (induction ss)
  case (Cons s ss)
  show ?case
  proof (cases "\<exists>ss' t'. stages_step cap True (ss, []) (ss', t')")
    case True
    then show ?thesis by (blast intro: stage_later)
  next
    case False
    then have id: "idle ss" using Cons by blast
    show ?thesis
    proof (cases "st_hand s")
      case (Some y)
      show ?thesis
      proof (cases ss)
        case Nil
        have "stages_step cap True ([s], []) ([s\<lparr>st_hand := None\<rparr>], [] @ [y])"
          using Some by (rule stage_send_tail) (cases cap, simp_all add: channel_room_def)
        then show ?thesis using Nil by blast
      next
        case (Cons s' rest)
        then have "channel_room cap (st_in s') (st_hand s' = None)" using id by (cases cap) (simp_all add: channel_room_def idle_def)
        then show ?thesis using stage_send [OF Some] Cons by blast
      qed
    next
      case None
      show ?thesis
      proof (cases "st_in s")
        case Nil
        then show ?thesis using id None by (simp add: idle_def)
      next
        case (Cons x q)
        then show ?thesis using stage_recv [OF None] by blast
      qed
    qed
  qed
qed (simp add: idle_def)

section \<open>Runs\<close>

lemma head_send_flow:
  assumes "head_send x ss t = (ss', t')"
  shows "fns ss' = fns ss \<and> flow ss' t' = flow ss t @ [through (fns ss) x] \<and>
    moves_left ss' t' = moves_left ss t + 2 * length ss + 1"
  using assms by (cases ss) auto

definition run_inv :: "(bytes \<Rightarrow> bytes) list \<Rightarrow> bytes list \<Rightarrow> run_state \<Rightarrow> bool" where
  "run_inv fs input r \<longleftrightarrow> fns (ru_stages r) = fs \<and>
     ru_out r @ flow (ru_stages r) (ru_tail r) @ map (through fs) (ru_feed r) = map (through fs) input"

definition run_moves :: "run_state \<Rightarrow> nat" where
  "run_moves r = moves_left (ru_stages r) (ru_tail r) + length (ru_feed r) * (2 * length (ru_stages r) + 2)"

lemma run_step_inv:
  assumes "run_step cap n r r'" "run_inv fs input r"
  shows "run_inv fs input r' \<and> Suc (run_moves r') = run_moves r"
  using assms
proof (cases rule: run_step.cases)
  case (run_feed x xs ss t)
  note H = head_send_flow [OF run_feed(4)]
  have "length ss = length (ru_stages r)" using H by (auto dest: map_eq_imp_length_eq)
  then show ?thesis using run_feed H assms(2) by (auto simp: run_inv_def run_moves_def)
next
  case (run_stage ss t)
  note H = stages_step_flow [OF run_stage(2)]
  have "length ss = length (ru_stages r)" using H by (auto dest: map_eq_imp_length_eq)
  then show ?thesis using run_stage H assms(2) by (simp add: run_inv_def run_moves_def)
next
  case (run_collect x q)
  have c: "flow ss (x # q) = x # flow ss q" "moves_left ss (x # q) = Suc (moves_left ss q)" for ss
    by (induction ss) auto
  show ?thesis using run_collect assms(2) by (simp add: run_inv_def run_moves_def c)
qed

lemma run_steps_inv:
  assumes "(run_step cap n ^^ m) r r'" "run_inv fs input r"
  shows "run_inv fs input r' \<and> m + run_moves r' = run_moves r"
  using assms
proof (induction m arbitrary: r')
  case (Suc m)
  then obtain r1 where "(run_step cap n ^^ m) r r1" "run_step cap n r1 r'" by (auto elim: relpowp_Suc_E)
  then show ?case using Suc.IH [of r1] Suc.prems(2) run_step_inv by fastforce
qed simp

lemma run_progress:
  assumes "run_inv fs input r" "length (ru_out r) < length input"
  shows "\<exists>r'. run_step cap (length input) r r'"
proof (cases "ru_tail r")
  case (Cons x q)
  then show ?thesis using run_collect [OF assms(2)] by blast
next
  case Nil
  show ?thesis
  proof (cases "idle (ru_stages r)")
    case False
    then show ?thesis using stages_progress [of cap "ru_stages r"] run_stage [of cap r "length input"] Nil assms(2) by auto
  next
    case True
    then have "flow (ru_stages r) (ru_tail r) = []" using Nil by (simp add: flow_empty_iff)
    then have "length (ru_out r) + length (ru_feed r) = length input"
      using arg_cong [OF assms(1) [unfolded run_inv_def, THEN conjunct2], of length] by simp
    then obtain x xs where "ru_feed r = x # xs" using assms(2) by (cases "ru_feed r") auto
    moreover have "head_room cap (length (ru_out r) < length input) (ru_stages r) (ru_tail r)"
      using True Nil assms(2) by (cases "ru_stages r") (auto simp: channel_room_def idle_def)
    ultimately show ?thesis using run_feed by (metis prod.exhaust)
  qed
qed

lemma run_done:
  assumes "run_inv fs input r" "length (ru_out r) = length input"
  shows "ru_out r = map (through fs) input \<and> idle (ru_stages r) \<and> ru_tail r = [] \<and> ru_feed r = [] \<and> fns (ru_stages r) = fs"
proof -
  have eq: "ru_out r @ flow (ru_stages r) (ru_tail r) @ map (through fs) (ru_feed r) = map (through fs) input"
    using assms(1) by (simp add: run_inv_def)
  from arg_cong [OF this, of length] assms(2) have e: "flow (ru_stages r) (ru_tail r) = []" "ru_feed r = []" by auto
  have "ru_out r = map (through fs) input" using eq e by simp
  then show ?thesis using e assms(1) by (simp add: flow_empty_iff run_inv_def)
qed

text \<open>From every state a run can be completed.\<close>

lemma run_completes:
  assumes "run_inv fs input r" "length (ru_out r) \<le> length input"
  shows "\<exists>m r'. (run_step cap (length input) ^^ m) r r' \<and> length (ru_out r') = length input"
  using assms
proof (induction "run_moves r" arbitrary: r)
  case 0
  then show ?case
    using run_progress [OF 0(2)] run_step_inv [OF _ 0(2)] by (metis le_neq_implies_less nat.distinct(1) relpowp_0_I)
next
  case (Suc k)
  show ?case
  proof (cases "length (ru_out r) = length input")
    case False
    then obtain r1 where r1: "run_step cap (length input) r r1" using run_progress [OF Suc.prems(1)] Suc.prems(2) by (metis le_neq_implies_less)
    have "length (ru_out r1) \<le> length input" using r1 Suc.prems(2) False by (cases rule: run_step.cases) auto
    then obtain m r' where "(run_step cap (length input) ^^ m) r1 r'" "length (ru_out r') = length input"
      using Suc.hyps run_step_inv [OF r1 Suc.prems(1)] by (metis Suc_inject)
    then show ?thesis using relpowp_Suc_I2 [of "run_step cap (length input)", OF r1] by blast
  qed (metis relpowp_0_I)
qed

section \<open>The contract of \<open>run\<close>\<close>

text \<open>A pipeline of stages \<open>fs\<close> between two runs: not spawned yet, or spawned on \<open>fs\<close> with nothing inside.\<close>

definition pipeline_ok :: "(bytes \<Rightarrow> bytes) list \<Rightarrow> byte_pipeline \<Rightarrow> bool" where
  "pipeline_ok fs p \<longleftrightarrow>
     (case bp_workers p of None \<Rightarrow> bp_stages p = fs | Some (ss, t) \<Rightarrow> fns ss = fs \<and> idle ss \<and> t = [])"

lemma pipeline_stages_of: "fold pipeline_stage fs p = p\<lparr>bp_stages := bp_stages p @ fs\<rparr>"
  by (induction fs arbitrary: p) (simp_all add: pipeline_stage_def)

lemma pipeline_build_ok: "pipeline_ok fs (fold pipeline_stage fs (pipeline_new cap))"
  by (simp add: pipeline_stages_of pipeline_new_def pipeline_ok_def)

lemma pipeline_stage_late: "pipeline_ok fs p \<Longrightarrow> bp_workers p \<noteq> None \<Longrightarrow> pipeline_ok fs (pipeline_stage f p)"
  by (auto simp: pipeline_ok_def pipeline_stage_def)

lemma idle_fresh [simp]: "idle (map fresh_thread fs)" "map (st_fn \<circ> fresh_thread) fs = fs"
  by (auto simp: idle_def fresh_thread_def intro: map_idI)

lemma moves_left_idle: "idle ss \<Longrightarrow> moves_left ss [] = 0"
  by (induction ss) (auto simp: idle_def)

lemma run_start_ok:
  assumes "pipeline_ok fs p"
  shows "run_inv fs input (run_start p input)"
    and "run_moves (run_start p input) = length input * (2 * length fs + 2)"
    and "ru_out (run_start p input) = []"
  using assms flow_empty_iff moves_left_idle
  by (auto simp: pipeline_ok_def run_start_def get_workers_def pipeline_spawn_def Let_def run_inv_def run_moves_def split: option.splits)

lemma run_finished:
  assumes "pipeline_ok fs p" "(run_step cap (length input) ^^ m) (run_start p input) r" "length (ru_out r) = length input"
  shows "ru_out r = map (through fs) input \<and> idle (ru_stages r) \<and> ru_tail r = [] \<and> fns (ru_stages r) = fs \<and>
    m = length input * (2 * length fs + 2)"
proof -
  note I = run_steps_inv [OF assms(2) run_start_ok(1) [OF assms(1)]]
  have d: "ru_out r = map (through fs) input \<and> idle (ru_stages r) \<and> ru_tail r = [] \<and> ru_feed r = [] \<and> fns (ru_stages r) = fs"
    using I assms(3) by (intro run_done) simp_all
  then have "run_moves r = 0" by (simp add: run_moves_def moves_left_idle)
  then show ?thesis using I d run_start_ok(2) [OF assms(1)] by simp
qed

lemma pipeline_run_result:
  assumes "pipeline_ok fs p" "pipeline_run p input out p'"
  shows "out = map (through fs) input \<and> pipeline_ok fs p'"
  using assms run_finished [OF assms(1)] by (auto simp: pipeline_run_def pipeline_ok_def split: if_splits)

lemma pipeline_run_exists:
  assumes "pipeline_ok fs p"
  shows "\<exists>out p'. pipeline_run p input out p'"
proof -
  obtain m r where "(run_step (bp_cap p) (length input) ^^ m) (run_start p input) r" "length (ru_out r) = length input"
    using run_completes [OF run_start_ok(1) [OF assms]] run_start_ok(3) [OF assms] by (metis le0 list.size(3))
  then show ?thesis unfolding pipeline_run_def by metis
qed

text \<open>C39: A run of the staged pipeline ends with the right answer under every schedule of its threads,
  for every channel capacity.  From a pipeline whose stages are \<open>fs\<close> and that holds no item, every
  schedule of a batch makes at most \<open>length input * (2 * length fs + 2)\<close> moves and is not blocked
  before all results are collected; a completed run exists, and every completed run returns, in
  order, each input mapped through the stages and leaves the threads empty for the next batch.
\<close>

theorem pipeline_run_complete:
  assumes "pipeline_ok fs p"
  shows "(\<forall>m r. (run_step (bp_cap p) (length input) ^^ m) (run_start p input) r \<longrightarrow>
      m \<le> length input * (2 * length fs + 2) \<and>
      (length (ru_out r) < length input \<longrightarrow> (\<exists>r'. run_step (bp_cap p) (length input) r r'))) \<and>
    (\<exists>out p'. pipeline_run p input out p') \<and>
    (\<forall>out p'. pipeline_run p input out p' \<longrightarrow> out = map (through fs) input \<and> pipeline_ok fs p')"
proof (intro conjI allI impI)
  fix m r assume st: "(run_step (bp_cap p) (length input) ^^ m) (run_start p input) r"
  note I = run_steps_inv [OF st run_start_ok(1) [OF assms]]
  show "m \<le> length input * (2 * length fs + 2)" using I run_start_ok(2) [OF assms, of input] by linarith
  assume "length (ru_out r) < length input"
  then show "\<exists>r'. run_step (bp_cap p) (length input) r r'" using I by (auto intro: run_progress)
next
  show "\<exists>out p'. pipeline_run p input out p'" by (rule pipeline_run_exists [OF assms])
qed (use pipeline_run_result [OF assms] in blast)+

theorem pipeline_run_complete_witness:
  "\<exists>p'. pipeline_run (fold pipeline_stage [map (\<lambda>x. x + 1), map (\<lambda>x. x * 2)] (pipeline_new 4)) [[1, 2, 3], [10]]
     [[4, 6, 8], [22]] p'"
  using pipeline_run_complete [OF pipeline_build_ok, of "[map (\<lambda>x. x + 1), map (\<lambda>x. x * 2)]" 4 "[[1, 2, 3], [10]]"]
  by auto

end
