(* ===== verification/Links.thy ===== *)
theory Links
  imports Prelude
begin

text \<open>
  The transports (\<open>crates/transport/src\<close>): the error type and the paths of \<open>lib.rs\<close>, the in-process
  loopback pair of \<open>loopback.rs\<close>, the multipath dispatcher and sink of \<open>multipath.rs\<close>, and the QUIC
  and RDMA transports, whose every operation is an error so far.  The channels of \<open>crossbeam_channel\<close>
  are a parameter; the laws of a FIFO channel are the locale \<open>crossbeam\<close>.  A call that blocks is \<open>None\<close>.
  The path weights are stored and not read, and left out.
\<close>

section \<open>Errors and paths (\<open>lib.rs\<close>)\<close>

datatype transport_error = Closed | Full | Other string

datatype path = PLoopback | PQuic | PMultipathQuic | PRoceRdma | PBluefield | PRdmaTb5

fun substrate :: "path \<Rightarrow> string" where
  "substrate PLoopback = ''loopback/UDS''"
| "substrate PQuic = ''QUIC (RFC 9000)''"
| "substrate PMultipathQuic = ''Multipath QUIC''"
| "substrate PRoceRdma = ''RoCEv2/InfiniBand''"
| "substrate PBluefield = ''BlueField-2 offload''"
| "substrate PRdmaTb5 = ''RDMA-over-Thunderbolt-5''"

section \<open>Loopback (\<open>loopback.rs\<close>)\<close>

datatype side = SideA | SideB

fun peer :: "side \<Rightarrow> side" where
  "peer SideA = SideB"
| "peer SideB = SideA"

lemma peer_simps [simp]: "peer (peer s) = s" "peer s \<noteq> s" "s \<noteq> peer s"
  by (cases s; simp)+

lemma peer_eq_iff: "peer t = s \<longleftrightarrow> t = peer s"
  by (cases s; cases t; simp)

text \<open>The channel operations the code calls: \<open>bounded\<close>, the clones of the two handles, \<open>send\<close> (false: no receiver is
  left), \<open>recv\<close> (nothing: empty and no sender is left) and \<open>try_recv\<close>.\<close>

datatype recv_attempt = Received bytes | Empty | Disconnected

record 'c channel_api =
  ch_bounded :: "nat \<Rightarrow> 'c"
  ch_clone_tx :: "'c \<Rightarrow> 'c"
  ch_clone_rx :: "'c \<Rightarrow> 'c"
  ch_send :: "bytes \<Rightarrow> 'c \<Rightarrow> (bool \<times> 'c) option"
  ch_recv :: "'c \<Rightarrow> (bytes option \<times> 'c) option"
  ch_try_recv :: "'c \<Rightarrow> recv_attempt \<times> 'c"

text \<open>A pair: the channel each side writes and the stream counters.\<close>

record 'c loopback =
  lb_chan :: "side \<Rightarrow> 'c"
  lb_next :: "side \<Rightarrow> u64"

record loopback_sink =
  ls_session :: u128
  ls_stream :: u64

definition loopback_pair :: "'c channel_api \<Rightarrow> nat \<Rightarrow> 'c loopback" where
  "loopback_pair api cap = \<lparr>lb_chan = (\<lambda>_. ch_bounded api cap), lb_next = (\<lambda>_. 0)\<rparr>"

definition loopback_open ::
  "'c channel_api \<Rightarrow> side \<Rightarrow> u128 \<Rightarrow> 'c loopback \<Rightarrow> (loopback_sink, transport_error) outcome \<times> 'c loopback" where
  "loopback_open api s sid lb =
     (let n = lb_next lb s + 1 in
      (Ok \<lparr>ls_session = sid, ls_stream = n\<rparr>,
       lb\<lparr>lb_next := (lb_next lb)(s := n),
          lb_chan := (lb_chan lb)(s := ch_clone_tx api (lb_chan lb s), peer s := ch_clone_rx api (lb_chan lb (peer s)))\<rparr>))"

definition loopback_accept ::
  "'c channel_api \<Rightarrow> side \<Rightarrow> 'c loopback \<Rightarrow> (loopback_sink, transport_error) outcome \<times> 'c loopback" where
  "loopback_accept api s lb = loopback_open api s 0 lb"

definition loopback_send ::
  "'c channel_api \<Rightarrow> side \<Rightarrow> loopback_sink \<Rightarrow> bytes \<Rightarrow> 'c loopback \<Rightarrow> ((unit, transport_error) outcome \<times> 'c loopback) option" where
  "loopback_send api s k frame lb =
     (let tagged = le64 (ls_stream k) @ frame in
      case ch_send api tagged (lb_chan lb s) of
        None \<Rightarrow> None
      | Some (ok, c) \<Rightarrow> Some (if ok then Ok () else Err Closed, lb\<lparr>lb_chan := (lb_chan lb)(s := c)\<rparr>))"

definition strip_tag :: "bytes \<Rightarrow> bytes" where
  "strip_tag b = (if length b \<ge> 8 then drop 8 b else b)"

definition loopback_recv ::
  "'c channel_api \<Rightarrow> side \<Rightarrow> 'c loopback \<Rightarrow> ((bytes, transport_error) outcome \<times> 'c loopback) option" where
  "loopback_recv api s lb =
     (case ch_recv api (lb_chan lb (peer s)) of
        None \<Rightarrow> None
      | Some (res, c) \<Rightarrow>
          Some (case res of Some b \<Rightarrow> Ok (strip_tag b) | None \<Rightarrow> Err Closed, lb\<lparr>lb_chan := (lb_chan lb)(peer s := c)\<rparr>))"

definition loopback_try_recv ::
  "'c channel_api \<Rightarrow> side \<Rightarrow> 'c loopback \<Rightarrow> (bytes option, transport_error) outcome \<times> 'c loopback" where
  "loopback_try_recv api s lb =
     (case ch_try_recv api (lb_chan lb (peer s)) of
        (res, c) \<Rightarrow>
          (case res of Received b \<Rightarrow> Ok (Some (strip_tag b)) | Empty \<Rightarrow> Ok None | Disconnected \<Rightarrow> Err Closed,
           lb\<lparr>lb_chan := (lb_chan lb)(peer s := c)\<rparr>))"

definition loopback_close :: "side \<Rightarrow> 'c loopback \<Rightarrow> (unit, transport_error) outcome \<times> 'c loopback" where
  "loopback_close s lb = (Ok (), lb)"

lemma strip_tagged [simp]: "strip_tag (le64 t @ f) = f"
  by (simp add: strip_tag_def)

section \<open>Histories of a pair\<close>

datatype loop_op = OpOpen side u128 | OpAccept side | OpSend side loopback_sink bytes | OpRecv side | OpTryRecv side | OpClose side

text \<open>
  A history keeps the frames each side had accepted by \<open>send\<close> and the frames each side received, over
  all its streams.  An operation that blocks leaves the state as it is.
\<close>

record 'c loop_run =
  lr_pair :: "'c loopback"
  lr_sent :: "side \<Rightarrow> bytes list"
  lr_got :: "side \<Rightarrow> bytes list"

definition log_got :: "side \<Rightarrow> bytes list \<Rightarrow> 'c loopback \<Rightarrow> 'c loop_run \<Rightarrow> 'c loop_run" where
  "log_got s fs lb r = r\<lparr>lr_pair := lb, lr_got := (lr_got r)(s := lr_got r s @ fs)\<rparr>"

fun loop_do :: "'c channel_api \<Rightarrow> loop_op \<Rightarrow> 'c loop_run \<Rightarrow> 'c loop_run" where
  "loop_do api (OpOpen s sid) r = r\<lparr>lr_pair := snd (loopback_open api s sid (lr_pair r))\<rparr>"
| "loop_do api (OpAccept s) r = r\<lparr>lr_pair := snd (loopback_accept api s (lr_pair r))\<rparr>"
| "loop_do api (OpSend s k f) r =
     (case loopback_send api s k f (lr_pair r) of
        Some (res, lb) \<Rightarrow> r\<lparr>lr_pair := lb, lr_sent := (lr_sent r)(s := lr_sent r s @ (if res = Ok () then [f] else []))\<rparr>
      | None \<Rightarrow> r)"
| "loop_do api (OpRecv s) r =
     (case loopback_recv api s (lr_pair r) of
        Some (res, lb) \<Rightarrow> log_got s (case res of Ok f \<Rightarrow> [f] | _ \<Rightarrow> []) lb r
      | None \<Rightarrow> r)"
| "loop_do api (OpTryRecv s) r =
     (case loopback_try_recv api s (lr_pair r) of
        (res, lb) \<Rightarrow> log_got s (case res of Ok (Some f) \<Rightarrow> [f] | _ \<Rightarrow> []) lb r)"
| "loop_do api (OpClose s) r = r\<lparr>lr_pair := snd (loopback_close s (lr_pair r))\<rparr>"

definition loop_start :: "'c channel_api \<Rightarrow> nat \<Rightarrow> 'c loop_run" where
  "loop_start api cap = \<lparr>lr_pair = loopback_pair api cap, lr_sent = (\<lambda>_. []), lr_got = (\<lambda>_. [])\<rparr>"

text \<open>The documented laws of a channel: what it holds is a queue.\<close>

locale crossbeam =
  fixes api :: "'c channel_api" and held :: "'c \<Rightarrow> bytes list"
  assumes held_bounded: "held (ch_bounded api n) = []"
    and held_clone: "held (ch_clone_tx api c) = held c" "held (ch_clone_rx api c) = held c"
    and held_send: "ch_send api b c = Some (ok, c') \<Longrightarrow> held c' = (if ok then held c @ [b] else held c)"
    and held_recv: "ch_recv api c = Some (res, c') \<Longrightarrow> held c = (case res of Some b \<Rightarrow> b # held c' | None \<Rightarrow> held c')"
    and recv_closed: "ch_recv api c = Some (None, c') \<Longrightarrow> held c = []"
    and held_try_recv: "ch_try_recv api c = (att, c') \<Longrightarrow> held c = (case att of Received b \<Rightarrow> b # held c' | _ \<Rightarrow> held c')"
begin

text \<open>What a side sent is what the other received followed by what its channel holds, untagged.\<close>

definition loop_inv :: "'c loop_run \<Rightarrow> bool" where
  "loop_inv r \<longleftrightarrow> (\<forall>s. lr_sent r s = lr_got r (peer s) @ map strip_tag (held (lb_chan (lr_pair r) s)))"

lemma open_held: "held (lb_chan (snd (loopback_open api s sid lb)) t) = held (lb_chan lb t)"
  by (simp add: loopback_open_def Let_def held_clone)

lemma got_inv:
  assumes "loop_inv r" "map strip_tag (held (lb_chan (lr_pair r) (peer s))) = fs @ map strip_tag (held c)"
  shows "loop_inv (log_got s fs ((lr_pair r)\<lparr>lb_chan := (lb_chan (lr_pair r))(peer s := c)\<rparr>) r)"
  unfolding loop_inv_def
proof
  fix t
  have "lr_sent r t = lr_got r (peer t) @ map strip_tag (held (lb_chan (lr_pair r) t))" using assms(1) by (simp add: loop_inv_def)
  then show "lr_sent (log_got s fs ((lr_pair r)\<lparr>lb_chan := (lb_chan (lr_pair r))(peer s := c)\<rparr>) r) t =
      lr_got (log_got s fs ((lr_pair r)\<lparr>lb_chan := (lb_chan (lr_pair r))(peer s := c)\<rparr>) r) (peer t) @
      map strip_tag (held (lb_chan (lr_pair (log_got s fs ((lr_pair r)\<lparr>lb_chan := (lb_chan (lr_pair r))(peer s := c)\<rparr>) r)) t))"
    using assms(2) by (cases "t = peer s") (auto simp: log_got_def peer_eq_iff)
qed

lemma loop_do_inv:
  assumes "loop_inv r"
  shows "loop_inv (loop_do api x r)"
proof (cases x)
  case (OpSend s k f)
  show ?thesis
  proof (cases "ch_send api (le64 (ls_stream k) @ f) (lb_chan (lr_pair r) s)")
    case None
    then show ?thesis using assms OpSend by (simp add: loopback_send_def)
  next
    case (Some v)
    obtain ok c where v: "v = (ok, c)" by (cases v)
    then show ?thesis using assms OpSend Some held_send [OF Some [unfolded v]]
      by (simp add: loop_inv_def loopback_send_def)
  qed
next
  case (OpRecv s)
  show ?thesis
  proof (cases "ch_recv api (lb_chan (lr_pair r) (peer s))")
    case None
    then show ?thesis using assms OpRecv by (simp add: loopback_recv_def)
  next
    case (Some v)
    obtain res c where v: "v = (res, c)" by (cases v)
    show ?thesis
      using OpRecv Some v got_inv [OF assms, of s "case res of Some b \<Rightarrow> [strip_tag b] | None \<Rightarrow> []" c] held_recv [OF Some [unfolded v]]
      by (cases res) (simp_all add: loopback_recv_def)
  qed
next
  case (OpTryRecv s)
  obtain att c where v: "ch_try_recv api (lb_chan (lr_pair r) (peer s)) = (att, c)" by force
  show ?thesis
    using OpTryRecv v got_inv [OF assms, of s "case att of Received b \<Rightarrow> [strip_tag b] | _ \<Rightarrow> []" c] held_try_recv [OF v]
    by (cases att) (simp_all add: loopback_try_recv_def)
qed (use assms in \<open>simp_all add: loop_inv_def open_held loopback_accept_def loopback_close_def\<close>)

lemma loop_inv_run: "loop_inv (fold (loop_do api) xs (loop_start api cap))"
proof -
  have "loop_inv (fold (loop_do api) xs r)" if "loop_inv r" for r
    using that by (induction xs arbitrary: r) (auto intro: loop_do_inv)
  then show ?thesis by (simp add: loop_inv_def loop_start_def loopback_pair_def held_bounded)
qed

text \<open>After any operations of the two sides, frames have crossed in order and unaltered, and a receiver
  is told \<open>Closed\<close> only when nothing sent to its side is left.\<close>

lemma loopback_fifo:
  assumes "r = fold (loop_do api) xs (loop_start api cap)"
  shows "lr_sent r s = lr_got r (peer s) @ map strip_tag (held (lb_chan (lr_pair r) s))"
    and "loopback_recv api (peer s) (lr_pair r) = Some (Err Closed, lb) \<Longrightarrow> lr_got r (peer s) = lr_sent r s"
proof -
  show S: "lr_sent r s = lr_got r (peer s) @ map strip_tag (held (lb_chan (lr_pair r) s))"
    using loop_inv_run [of xs cap] assms by (simp add: loop_inv_def)
  show "lr_got r (peer s) = lr_sent r s" if "loopback_recv api (peer s) (lr_pair r) = Some (Err Closed, lb)"
    using that recv_closed [of "lb_chan (lr_pair r) s"] S
    by (auto simp: loopback_recv_def split: option.splits prod.splits)
qed

end

subsection \<open>A bounded queue\<close>

text \<open>The channel as its documentation describes it: a queue with a capacity and counts of its handles.\<close>

record bounded_queue =
  bq_cap :: nat
  bq_items :: "bytes list"
  bq_senders :: nat
  bq_receivers :: nat

definition bounded_api :: "bounded_queue channel_api" where
  "bounded_api =
     \<lparr>ch_bounded = (\<lambda>n. \<lparr>bq_cap = n, bq_items = [], bq_senders = 1, bq_receivers = 1\<rparr>),
      ch_clone_tx = (\<lambda>c. c\<lparr>bq_senders := bq_senders c + 1\<rparr>),
      ch_clone_rx = (\<lambda>c. c\<lparr>bq_receivers := bq_receivers c + 1\<rparr>),
      ch_send = (\<lambda>b c. if bq_receivers c = 0 then Some (False, c)
                       else if length (bq_items c) < bq_cap c then Some (True, c\<lparr>bq_items := bq_items c @ [b]\<rparr>)
                       else None),
      ch_recv = (\<lambda>c. case bq_items c of
                       b # q \<Rightarrow> Some (Some b, c\<lparr>bq_items := q\<rparr>)
                     | [] \<Rightarrow> if bq_senders c = 0 then Some (None, c) else None),
      ch_try_recv = (\<lambda>c. case bq_items c of
                           b # q \<Rightarrow> (Received b, c\<lparr>bq_items := q\<rparr>)
                         | [] \<Rightarrow> (if bq_senders c = 0 then Disconnected else Empty, c))\<rparr>"

interpretation queue: crossbeam bounded_api bq_items
  by unfold_locales (auto simp: bounded_api_def split: if_splits list.splits)

text \<open>
  The tag is never read: the source a frame reaches does not depend on the stream it was sent on.
  Here side A has two streams and sends on the second; the one receive of side B, which may be on
  either of its streams, returns the frame.
\<close>

lemma loopback_not_demultiplexed:
  "lr_got (fold (loop_do bounded_api) [OpOpen SideA 1, OpOpen SideA 2, OpAccept SideB, OpAccept SideB,
      OpSend SideA \<lparr>ls_session = 2, ls_stream = 2\<rparr> f, OpRecv SideB] (loop_start bounded_api 4)) SideB = [f]"
  by (simp add: loop_start_def loopback_pair_def loopback_accept_def loopback_open_def loopback_send_def loopback_recv_def
      log_got_def bounded_api_def Let_def)

section \<open>Transports not bound yet (\<open>quic.rs\<close>, \<open>rdma.rs\<close>)\<close>

record quic_config =
  qc_addr :: string
  qc_max_idle_ms :: u64
  qc_initial_window :: u64
  qc_max_streams :: u64

definition quic_default :: quic_config where
  "quic_default = \<lparr>qc_addr = ''0.0.0.0:0'', qc_max_idle_ms = 30000, qc_initial_window = push_bit 20 1, qc_max_streams = 256\<rparr>"

definition quic_new :: "quic_config \<Rightarrow> (quic_config, transport_error) outcome" where
  "quic_new cfg = Ok cfg"

definition quic_send :: "bytes \<Rightarrow> (unit, transport_error) outcome" where
  "quic_send frame = Err (Other ''quic sink not yet bound'')"

definition quic_recv :: "(bytes, transport_error) outcome" where
  "quic_recv = Err (Other ''quic source not yet bound'')"

definition quic_try_recv :: "(bytes option, transport_error) outcome" where
  "quic_try_recv = Ok None"

record rdma_config =
  rc_device :: string
  rc_port :: u32
  rc_gid_index :: u32
  rc_mtu :: u32
  rc_max_wr :: u32
  rc_dpu_offload :: bool

definition rdma_default :: rdma_config where
  "rdma_default = \<lparr>rc_device = ''mlx5_0'', rc_port = 1, rc_gid_index = 3, rc_mtu = 4096, rc_max_wr = 1024, rc_dpu_offload = False\<rparr>"

definition tb5_new :: rdma_config where
  "tb5_new = rdma_default\<lparr>rc_device := ''thunderbolt5''\<rparr>"

definition bluefield_new :: rdma_config where
  "bluefield_new = rdma_default\<lparr>rc_device := ''bluefield-2'', rc_dpu_offload := True\<rparr>"

text \<open>
  The trait \<open>Transport\<close> over its implementations, for a world of loopback pairs: a loopback transport is
  one side of one pair.
\<close>

datatype transport = Loop nat side | Quic quic_config | Rdma rdma_config | Tb5 rdma_config

fun transport_open ::
  "'c channel_api \<Rightarrow> transport \<Rightarrow> u128 \<Rightarrow> 'c loopback list \<Rightarrow> (loopback_sink, transport_error) outcome \<times> 'c loopback list" where
  "transport_open api (Loop i s) sid w = (case loopback_open api s sid (w ! i) of (res, lb) \<Rightarrow> (res, w[i := lb]))"
| "transport_open api (Quic c) sid w =
     (Err (Other ''QUIC transport is deferred to the second pass; use LoopbackTransport''), w)"
| "transport_open api (Rdma c) sid w = (Err (Other ''RDMA verbs binding is second pass''), w)"
| "transport_open api (Tb5 c) sid w = (Err (Other ''RDMA-over-TB5 binding is second pass''), w)"

fun transport_accept ::
  "'c channel_api \<Rightarrow> transport \<Rightarrow> 'c loopback list \<Rightarrow> (loopback_sink, transport_error) outcome \<times> 'c loopback list" where
  "transport_accept api (Loop i s) w = (case loopback_accept api s (w ! i) of (res, lb) \<Rightarrow> (res, w[i := lb]))"
| "transport_accept api (Quic c) w = (Err (Other ''QUIC accept deferred to second pass''), w)"
| "transport_accept api (Rdma c) w = (Err (Other ''RDMA accept is second pass''), w)"
| "transport_accept api (Tb5 c) w = (Err (Other ''TB5 accept is second pass''), w)"

fun transport_kind :: "transport \<Rightarrow> string" where
  "transport_kind (Loop i s) = ''loopback''"
| "transport_kind (Quic c) = ''quic''"
| "transport_kind (Rdma c) = ''rdma''"
| "transport_kind (Tb5 c) = ''rdma-tb5''"

section \<open>Multipath (\<open>multipath.rs\<close>)\<close>

text \<open>
  The paths and sinks are trait objects: keys on which the operations of the trait, arguments of the
  definitions, act in a world they share.
\<close>

record 'p multipath =
  mp_paths :: "'p list"
  mp_next :: u64

definition multipath_new :: "'p list \<Rightarrow> 'p multipath" where
  "multipath_new paths = \<lparr>mp_paths = paths, mp_next = 0\<rparr>"

definition path_pick :: "'p multipath \<Rightarrow> (nat, transport_error) outcome \<times> 'p multipath" where
  "path_pick mp =
     (if mp_paths mp = [] then Panic else Ok (unat (mp_next mp) mod length (mp_paths mp)),
      mp\<lparr>mp_next := mp_next mp + 1\<rparr>)"

definition multipath_open ::
  "('p \<Rightarrow> u128 \<Rightarrow> 'w \<Rightarrow> ('s, transport_error) outcome \<times> 'w) \<Rightarrow> u128 \<Rightarrow> 'p multipath \<Rightarrow> 'w \<Rightarrow>
     ('s, transport_error) outcome \<times> 'p multipath \<times> 'w" where
  "multipath_open opn sid mp w =
     (case path_pick mp of
        (Ok i, mp') \<Rightarrow> (case opn (mp_paths mp ! i) sid w of (res, w') \<Rightarrow> (res, mp', w'))
      | (_, mp') \<Rightarrow> (Panic, mp', w))"

fun accept_any :: "('p \<Rightarrow> 'w \<Rightarrow> ('s, transport_error) outcome \<times> 'w) \<Rightarrow> 'p list \<Rightarrow> 'w \<Rightarrow> ('s, transport_error) outcome \<times> 'w" where
  "accept_any acc [] w = (Err Closed, w)"
| "accept_any acc (p # ps) w = (case acc p w of (Err e, w') \<Rightarrow> accept_any acc ps w' | res \<Rightarrow> res)"

definition multipath_accept ::
  "('p \<Rightarrow> 'w \<Rightarrow> ('s, transport_error) outcome \<times> 'w) \<Rightarrow> 'p multipath \<Rightarrow> 'w \<Rightarrow> ('s, transport_error) outcome \<times> 'w" where
  "multipath_accept acc mp w = accept_any acc (mp_paths mp) w"

record 'k multipath_sink =
  mk_sinks :: "'k list"
  mk_next :: u64

definition multipath_sink_new :: "'k list \<Rightarrow> 'k multipath_sink" where
  "multipath_sink_new sinks = \<lparr>mk_sinks = sinks, mk_next = 0\<rparr>"

definition multipath_send ::
  "('k \<Rightarrow> bytes \<Rightarrow> 'w \<Rightarrow> ((unit, transport_error) outcome \<times> 'w) option) \<Rightarrow> bytes \<Rightarrow> 'k multipath_sink \<Rightarrow> 'w \<Rightarrow>
     ((unit, transport_error) outcome \<times> 'w) option \<times> 'k multipath_sink" where
  "multipath_send snd1 frame ms w =
     (if mk_sinks ms = [] then Some (Panic, w)
      else snd1 (mk_sinks ms ! (unat (mk_next ms) mod length (mk_sinks ms))) frame w,
      ms\<lparr>mk_next := mk_next ms + 1\<rparr>)"

fun close_sinks ::
  "('k \<Rightarrow> 'w \<Rightarrow> (unit, transport_error) outcome \<times> 'w) \<Rightarrow> 'k list \<Rightarrow> (unit, transport_error) outcome \<Rightarrow> 'w \<Rightarrow>
     (unit, transport_error) outcome \<times> 'w" where
  "close_sinks cls [] res w = (res, w)"
| "close_sinks cls (k # ks) res w =
     (case cls k w of
        (Ok u, w') \<Rightarrow> close_sinks cls ks res w'
      | (Err e, w') \<Rightarrow> close_sinks cls ks (Err e) w'
      | (Panic, w') \<Rightarrow> (Panic, w'))"

definition multipath_close ::
  "('k \<Rightarrow> 'w \<Rightarrow> (unit, transport_error) outcome \<times> 'w) \<Rightarrow> 'k multipath_sink \<Rightarrow> 'w \<Rightarrow> (unit, transport_error) outcome \<times> 'w" where
  "multipath_close cls ms w = close_sinks cls (mk_sinks ms) (Ok ()) w"

text \<open>Frames sent one after the other, each accepted.\<close>

fun multipath_sends ::
  "('k \<Rightarrow> bytes \<Rightarrow> 'w \<Rightarrow> ((unit, transport_error) outcome \<times> 'w) option) \<Rightarrow> bytes list \<Rightarrow> 'k multipath_sink \<Rightarrow> 'w \<Rightarrow> 'w option" where
  "multipath_sends snd1 [] ms w = Some w"
| "multipath_sends snd1 (f # fs) ms w =
     (case multipath_send snd1 f ms w of (Some (Ok u, w'), ms') \<Rightarrow> multipath_sends snd1 fs ms' w' | _ \<Rightarrow> None)"

section \<open>What the sink relies on\<close>

locale frame_sinks =
  fixes send1 :: "'k \<Rightarrow> bytes \<Rightarrow> 'w \<Rightarrow> ((unit, transport_error) outcome \<times> 'w) option"
    and accepted :: "'k \<Rightarrow> 'w \<Rightarrow> bytes list"
  assumes send_appends: "send1 k f w = Some (Ok (), w') \<Longrightarrow> accepted k w' = accepted k w @ [f]"
    and send_others: "send1 k f w = Some (Ok (), w') \<Longrightarrow> j \<noteq> k \<Longrightarrow> accepted j w' = accepted j w"
begin

text \<open>Frames are dealt in turn: sink \<open>j\<close> of \<open>n\<close> takes those whose position is congruent to \<open>j\<close>.\<close>

lemma sends_dealt:
  assumes "multipath_sends send1 fs ms w = Some w'" "unat (mk_next ms) + length fs < 2 ^ 64"
    and "distinct (mk_sinks ms)" "j < length (mk_sinks ms)"
  shows "accepted (mk_sinks ms ! j) w' =
    accepted (mk_sinks ms ! j) w @ nths fs {i. (unat (mk_next ms) + i) mod length (mk_sinks ms) = j}"
  using assms
proof (induction fs arbitrary: ms w)
  case (Cons f fs)
  let ?n = "length (mk_sinks ms)" and ?c = "unat (mk_next ms)"
  let ?i = "?c mod ?n" and ?ms = "ms\<lparr>mk_next := mk_next ms + 1\<rparr>"
  obtain w1 where s: "send1 (mk_sinks ms ! ?i) f w = Some (Ok (), w1)" and r: "multipath_sends send1 fs ?ms w1 = Some w'"
    using Cons.prems(1) by (auto simp: multipath_send_def split: if_splits option.splits outcome.splits)
  have c: "unat (mk_next ms + 1) = Suc ?c"
    using Cons.prems(2) by (simp add: unat_word_ariths)
  have "?i < ?n" using Cons.prems(4) by (intro mod_less_divisor) linarith
  then have a: "accepted (mk_sinks ms ! j) w1 = accepted (mk_sinks ms ! j) w @ (if ?i = j then [f] else [])"
    using send_appends [OF s] send_others [OF s, of "mk_sinks ms ! j"] Cons.prems(3,4) by (auto simp: nth_eq_iff_index_eq)
  show ?case using Cons.IH [OF r] Cons.prems(2-4) a by (simp add: c nths_Cons)
qed simp

end

section \<open>Loopback pairs as paths\<close>

text \<open>A sink per pair, on side A; \<open>ks\<close> gives the stream of each.\<close>

definition pair_send ::
  "'c channel_api \<Rightarrow> (nat \<Rightarrow> loopback_sink) \<Rightarrow> nat \<Rightarrow> bytes \<Rightarrow> 'c loopback list \<Rightarrow> ((unit, transport_error) outcome \<times> 'c loopback list) option" where
  "pair_send api ks i frame w =
     (if i < length w then
        case loopback_send api SideA (ks i) frame (w ! i) of Some (res, lb) \<Rightarrow> Some (res, w[i := lb]) | None \<Rightarrow> None
      else None)"

definition in_flight :: "('c \<Rightarrow> bytes list) \<Rightarrow> nat \<Rightarrow> 'c loopback list \<Rightarrow> bytes list" where
  "in_flight hold i w = (if i < length w then map strip_tag (hold (lb_chan (w ! i) SideA)) else [])"

context crossbeam
begin

lemma pair_sinks: "frame_sinks (pair_send api ks) (in_flight held)"
proof
  fix k f and w w' :: "'c loopback list"
  assume "pair_send api ks k f w = Some (Ok (), w')"
  then obtain c where k: "k < length w" and c: "ch_send api (le64 (ls_stream (ks k)) @ f) (lb_chan (w ! k) SideA) = Some (True, c)"
    and w': "w' = w[k := (w ! k)\<lparr>lb_chan := (lb_chan (w ! k))(SideA := c)\<rparr>]"
    by (auto simp: pair_send_def loopback_send_def Let_def split: if_splits option.splits)
  show "in_flight held k w' = in_flight held k w @ [f]" using held_send [OF c] k by (simp add: in_flight_def w')
  show "in_flight held j w' = in_flight held j w" if "j \<noteq> k" for j using that by (simp add: in_flight_def w')
qed

end

interpretation pairs: frame_sinks "pair_send bounded_api ks" "in_flight bq_items" for ks
  by (rule queue.pair_sinks)

text \<open>A batch spread over loopback pairs: each pair carries its share, in order.\<close>

lemma multipath_over_loopback:
  assumes "multipath_sends (pair_send bounded_api ks) fs (multipath_sink_new [0..<n]) w = Some w'"
    and "length fs < 2 ^ 64" "j < n"
  shows "in_flight bq_items j w' = in_flight bq_items j w @ nths fs {i. i mod n = j}"
  using pairs.sends_dealt [OF assms(1), of j] assms(2,3) by (simp add: multipath_sink_new_def)

text \<open>
  A multipath transport that includes an unbound path accepts over the other, and fails every other open.
\<close>

lemma multipath_unbound_path:
  assumes "mp = multipath_new [Quic c, Loop 0 SideA]"
  shows "fst (multipath_accept (transport_accept api) mp [loopback_pair api cap]) = Ok \<lparr>ls_session = 0, ls_stream = 1\<rparr>"
    and "fst (multipath_open (transport_open api) sid mp w) =
      Err (Other ''QUIC transport is deferred to the second pass; use LoopbackTransport'')"
  using assms by (simp_all add: multipath_new_def multipath_accept_def multipath_open_def path_pick_def
    loopback_accept_def loopback_open_def loopback_pair_def Let_def)

end
