(* ===== verification/Spec2Isabelle.thy ===== *)
theory Spec2Isabelle
  imports ChatClient Mmr Flow Prune Hierarchical Homohash Golden Cayley Pipeline Links
begin

text \<open>
  \<^bold>\<open>What is verified.\<close>  The repository moves an append-only log of content blocks from a client
  (the shim) to a receiver over an unreliable transport.  A block has a canonical byte encoding,
  and its BLAKE3 digest is its id.  A session is an ordered list of ids with a running root.  In the
  steady state the shim sends one APPEND frame per turn, carrying new blocks compressed and known
  blocks by id; the receiver checks the frame's base root against its own, applies it and
  acknowledges the new root.  After a divergence the shim sends its whole list of ids (RESYNC), the
  receiver names what it lacks, and the shim sends those blocks fountain-coded in generations
  (BULK).  Both sides keep contents and logs in a content-addressed store, which can shadow its
  mutations to a write-ahead log.

  \<^bold>\<open>Theories and sources\<close> (paths under \<open>src/crates/\<close>).

  \<^item> \<open>Prelude\<close>: machine integers, the outcome type (\<open>Ok\<close>, \<open>Err\<close>, \<open>Panic\<close>), little-endian codecs, slices,
    and the locale \<open>prefix_codec\<close>, interpreted by the wire codec and by the log codec.
  \<^item> \<open>Blocks\<close>: \<open>core/src/block.rs\<close>, \<open>canonical.rs\<close>, \<open>merkle.rs\<close>, \<open>session.rs\<close>: blocks, canonical bytes, ids, the
    linear root, shard selection.  Parsing is exact, and the root commits to the list of ids when
    the hash has no collision on the inputs involved.
  \<^item> \<open>Frames\<close>: \<open>core/src/frame.rs\<close>: the five frames, encoder, decoder.  Round trip, exact buffer size, and
    the one input shape on which the decoder panics.
  \<^item> \<open>Wal\<close>, \<open>Store\<close>, \<open>Replay\<close>: \<open>core/src/wal.rs\<close>, \<open>store.rs\<close>: the log writer over a device that may fail at
    any write, the replay loop, and the store.  \<open>core\<close> abstracts a store to contents and session logs;
    each operation is a functional refinement of an operation on that.  After a synced flush any crash
    reopens to a state at or after the flush; a clean restart loses nothing.
  \<^item> \<open>Cuckoo\<close>: \<open>core/src/filter.rs\<close>: the filter in front of the store.
  \<^item> \<open>Compress\<close>: \<open>compress/src/lib.rs\<close>, \<open>delta.rs\<close>: compression with dictionaries, the per-thread context
    caches, dictionary training, reference deltas.
  \<^item> \<open>Gf_Field\<close>, \<open>Gf_Slice\<close>, \<open>Gf_Gauss\<close>: \<open>coding/src/gf256.rs\<close>: the field tables, the slice kernels and the
    Gaussian elimination.  The tables implement a field (locale \<open>byte_field\<close>, interpreted by \<open>gf_mul\<close>
    and \<open>gf_inv\<close>), the unrolled kernels equal their one-line definitions, and elimination keeps the
    solutions of a system and solves it exactly when its rank is full.
  \<^item> \<open>Fountain\<close>, \<open>Peeling\<close>, \<open>Decoding\<close>: \<open>coding/src/fountain.rs\<close>: encoder, symbol format, peeling decoder with
    residual elimination.  Decoding returns the sources exactly when the received symbols determine
    them.
  \<^item> \<open>Bulk\<close>: \<open>coding/src/bulk.rs\<close>: generations.
  \<^item> \<open>Shim\<close>: \<open>shim/src/lib.rs\<close>; \<open>Receiver\<close>: \<open>receiver/src/lib.rs\<close>: the peers, every handler as one function on
    the peer's state.
  \<^item> \<open>Protocol\<close>, \<open>ColdStart\<close>: the peers together: the steady state over the wire, and the cold start with
    generations in any order and repeated.
  \<^item> \<open>Gapless\<close>: the receiver again: a session log never names a block the store lacks, whatever frames
    arrive.
  \<^item> \<open>Envelope\<close>, \<open>Projection\<close>, \<open>Sidecar\<close>: \<open>sidecar/src/lib.rs\<close>: the envelope that carries one chat message as a
    block, header and query parsing, the cached projection of a session log to messages, and the
    server's handlers.
  \<^item> \<open>Gateway\<close>, \<open>Durable\<close>, \<open>ChatClient\<close>: the sidecar's chat handler as one function on the server's state (a
    forwarded request carries the whole log; a chat turn that was acknowledged survives a crash), and
    the client's \<open>prepare\<close> with one whole turn between client and server.
  \<^item> \<open>Mmr\<close>: \<open>core/src/mmr.rs\<close>: the Merkle mountain range: peaks, root, inclusion proofs and their verifier.
  \<^item> \<open>Flow\<close>: \<open>transport/src/flow.rs\<close>: credit flow control.
  \<^item> \<open>Zeckendorf\<close>: \<open>coding/src/zeckendorf.rs\<close>: Fibonacci coding of integers and the bit reader and writer.
  \<^item> \<open>Incremental\<close>, \<open>Prune\<close>: \<open>prune/src/incremental.rs\<close>, \<open>lib.rs\<close>: the importance policy over an abstract score,
    the incremental heap, whose running total wraps, and the schedulers.
  \<^item> \<open>ReedSolomon\<close>: \<open>coding/src/rs.rs\<close>: the systematic Vandermonde code.  \<open>Rlnc\<close>: \<open>coding/src/rlnc.rs\<close>: network coding,
    dense and sparse, with the decoder's reduced form; the resampling loop ends because the generator
    flips bit 40 of its state after \<open>2 ^ 40\<close> steps.  \<open>Hierarchical\<close>: \<open>coding/src/hierarchical.rs\<close>: the two codes
    composed.
  \<^item> \<open>Homohash\<close>: \<open>coding/src/homohash.rs\<close>: the homomorphic hash, its linearity and exactly what it identifies.
  \<^item> \<open>Golden\<close>: \<open>coding/src/fib_hash.rs\<close>, \<open>placement.rs\<close>, \<open>fib_backoff.rs\<close>: multiplicative hashing, the consistent-hash
    ring and the Fibonacci window.
  \<^item> \<open>Cayley\<close>: \<open>coding/src/cayley.rs\<close>: the circulant overlay, breadth-first search and greedy routing, which
    arrives on graphs of up to \<open>2 ^ 63\<close> nodes.
  \<^item> \<open>Pipeline\<close>: \<open>transport/src/pipeline.rs\<close>: the stage threads over bounded channels as a step relation; every
    schedule of a run ends with the right results.
  \<^item> \<open>Links\<close>: \<open>transport/src/lib.rs\<close>, \<open>loopback.rs\<close>, \<open>multipath.rs\<close>, \<open>quic.rs\<close>, \<open>rdma.rs\<close>: the loopback pair
    over channels that are a parameter (in order and without loss for every channel that meets the
    locale \<open>crossbeam\<close>), the round-robin dispatcher over an interface that loopback pairs meet, and the
    transports that only return errors so far.

  \<^bold>\<open>Modelling choices.\<close>  State is passed explicitly; an operation that can fail returns an outcome beside
  the state it leaves, also on the error path.  Concurrent maps are maps and each operation is one
  step: the receiver's per-session lock and the shim's registry entry serialise the operations of a
  session.  Machine integers are words where they wrap; lengths and indices are naturals, with the
  bounds of \<open>usize\<close> and of allocations written out where the code checks them, and \<open>usize_add\<close> and
  \<open>usize_sub\<close> where a sum of caller's values can leave 64 bits (the release profile wraps).  Text in error values
  keeps its constant part.  Loops are recursive functions with termination proofs (\<open>peel_loop\<close>
  by the sum of the degrees and the queue, \<open>parse_records\<close> and \<open>replay\<close> by the length of the buffer); the
  bounded loops of the source (500 evictions, ten draws per source symbol, eight per coefficient of a sparse packet) keep their bounds as
  fuel that is part of the behaviour.

  \<^bold>\<open>Parameters.\<close>  BLAKE3 (\<open>hash\<close>), xxh3 (\<open>xxh\<close>), SipHash, zstd (\<open>zstd\<close>, with \<open>zstd_ok\<close> for
  contexts that were built and \<open>zstd_works\<close> for one dictionary naming what is relied on), the index drawn from the floating-point soliton
  distribution (\<open>cdf\<close>), the repair count and the importance score computed in floating point, JSON
  (\<open>serde\<close>, with \<open>serde_writes\<close>, \<open>message_read\<close> and \<open>request_read\<close> about the values of one turn, since the
  reader refuses deeply nested ones) and HTTP text functions (\<open>http\<close>), the channels of the crossbeam
  crate (\<open>channel_api\<close>, with the laws of the locale \<open>crossbeam\<close>), and the upstream gateway's reply.  Witnesses instantiate them
  with concrete functions.  The shim and the receiver call the stateless \<open>compress_pure\<close> and
  \<open>decompress_pure\<close>; \<open>Compress.context_caches_transparent\<close> shows that the cached calls return the same.

  \<^bold>\<open>Not modelled.\<close>  Floating-point code (BBR estimates, soliton weights, loss adaptation), the socket,
  routing and retry glue of the sidecar, the command-line programs (I/O), stage closures that panic, and interleavings inside one operation except in \<open>Flow\<close> and
  \<open>Pipeline\<close>.
\<close>

end
